(* ===== verification/Prelude.thy ===== *)
theory Prelude
  imports Main "HOL-Library.Word" "HOL-Library.Multiset" "HOL-Library.Sublist"
    "HOL-Library.List_Lexorder" "HOL-Library.Char_ord"
begin

text \<open>
  Shared vocabulary of the development: names for the machine types of the Go sources
  (\<^verbatim>\<open>byte\<close>, \<^verbatim>\<open>[]byte\<close>, \<^verbatim>\<open>int\<close>/\<^verbatim>\<open>int64\<close>), the collections of facts that the component
  theories extend, and the generic lemmas on lists, options and maps that several
  components use.  Nothing in this theory is specific to one source file.
\<close>

section \<open>Machine types\<close>

text \<open>
  A Go \<^verbatim>\<open>byte\<close> is an 8-bit word, a \<^verbatim>\<open>[]byte\<close> a list of them, a Go \<^verbatim>\<open>string\<close> a list of
  characters (one per byte).  \<^verbatim>\<open>int\<close> and \<^verbatim>\<open>int64\<close> are the 64-bit two's complement words
  of a 64-bit target; \<^const>\<open>sint\<close> reads them.
\<close>

type_synonym byte = "8 word"
type_synonym bytes = "8 word list"
type_synonym int64 = "64 word"

definition byte_of_char :: "char \<Rightarrow> byte" where
  "byte_of_char c = of_nat (of_char c :: nat)"

definition char_of_byte :: "byte \<Rightarrow> char" where
  "char_of_byte b = char_of (unat b)"

lemma char_of_byte_of_char [simp]: "char_of_byte (byte_of_char c) = c"
  by (simp add: char_of_byte_def byte_of_char_def unat_of_nat)

lemma byte_of_char_of_byte [simp]: "byte_of_char (char_of_byte b) = b"
proof -
  have "unat b < 256" using unsigned_less[of b, where ?'a = nat] by simp
  then show ?thesis
    by (simp add: char_of_byte_def byte_of_char_def)
qed

section \<open>Outcomes of a loop\<close>

text \<open>A loop returns, fails with a runtime panic, or has not ended within its fuel.\<close>

datatype 'a outcome = Returned 'a | Panicked | OutOfFuel

section \<open>Collections of facts\<close>

text \<open>
  \<open>abs_simps\<close>: a concrete operation seen through its abstraction function.
  \<open>inv_intros\<close>: every operation keeps the invariant of its component.
  \<open>store_simps\<close>: what a read of the database returns after a write.
\<close>

named_theorems abs_simps "concrete operations through their abstraction function"
named_theorems inv_intros "operations keep the invariant of their component"
named_theorems store_simps "reads of the store after writes"

section \<open>Lists\<close>

lemma length_concat_const:
  "(\<And>x. x \<in> set xs \<Longrightarrow> length x = n) \<Longrightarrow> length (concat xs) = length xs * n"
  by (induction xs) auto

lemma concat_map_list_update:
  assumes "distinct ring" and "d < length ring" and "set ring \<subseteq> {..<length M}"
    and "\<And>a. a \<in> set ring \<Longrightarrow> length (M ! a) = B" and "off < B"
  shows "concat (map ((!) (M[ring ! d := (M ! (ring ! d))[off := v]])) ring)
       = (concat (map ((!) M) ring))[d * B + off := v]"
  using assms
proof (induction ring arbitrary: d)
  case Nil
  then show ?case by simp
next
  case (Cons a ring)
  show ?case
  proof (cases d)
    case 0
    with Cons.prems have "map ((!) (M[a := (M ! a)[off := v]])) ring = map ((!) M) ring"
      by (auto simp: nth_list_update)
    moreover have "off < length (M ! a)" and "a < length M" using Cons.prems by auto
    ultimately show ?thesis using 0 by (simp add: list_update_append1 del: map_eq_conv)
  next
    case (Suc e)
    with Cons.prems have ne: "a \<noteq> ring ! e" and len: "length (M ! a) = B" by auto
    have IH: "concat (map ((!) (M[ring ! e := (M ! (ring ! e))[off := v]])) ring)
        = (concat (map ((!) M) ring))[e * B + off := v]"
      using Cons.IH[of e] Cons.prems Suc by auto
    have "Suc e * B + off = B + (e * B + off)" by simp
    with len show ?thesis
      using Suc ne IH by (simp add: list_update_append)
  qed
qed

lemma drop_list_update_cancel: "i < n \<Longrightarrow> drop n (xs[i := v]) = drop n xs"
  by simp

lemma filter_eq_self_conv: "filter P xs = xs \<longleftrightarrow> (\<forall>x\<in>set xs. P x)"
  by (metis filter_True filter_id_conv)

lemma sum_list_map_mset:
  fixes f :: "'a \<Rightarrow> 'b::comm_monoid_add"
  shows "mset xs = mset ys \<Longrightarrow> sum_list (map f xs) = sum_list (map f ys)"
  by (metis mset_map sum_mset_sum_list)

section \<open>Bounded results of Go's signed arithmetic\<close>

lemma sint_range: "- (2 ^ 63) \<le> sint (x :: int64)" "sint (x :: int64) < 2 ^ 63"
  using sint_ge[of x] sint_lt[of x] by simp_all

text \<open>Addition and subtraction are exact as long as the true result fits 64 bits.\<close>

lemma sint_add_exact:
  fixes x y :: int64
  assumes "- (2 ^ 63) \<le> sint x + sint y" and "sint x + sint y < 2 ^ 63"
  shows "sint (x + y) = sint x + sint y"
  using assms by (simp add: sint_word_ariths(1) signed_take_bit_int_eq_self)

lemma sint_sum_list_exact:
  fixes xs :: "int64 list"
  assumes "\<And>x. x \<in> set xs \<Longrightarrow> 0 \<le> sint x" and "sum_list (map sint xs) < 2 ^ 63"
  shows "sint (sum_list xs) = sum_list (map sint xs)"
  using assms
proof (induction xs)
  case Nil
  then show ?case by simp
next
  case (Cons x xs)
  have pos: "0 \<le> sum_list (map sint xs)"
    using Cons.prems(1) by (intro sum_list_nonneg) auto
  have x0: "0 \<le> sint x" using Cons.prems(1) by simp
  have IH: "sint (sum_list xs) = sum_list (map sint xs)"
  proof (rule Cons.IH)
    show "\<And>x. x \<in> set xs \<Longrightarrow> 0 \<le> sint x" using Cons.prems(1) by simp
    show "sum_list (map sint xs) < 2 ^ 63" using Cons.prems(2) x0 by simp
  qed
  have "sint (x + sum_list xs) = sint x + sint (sum_list xs)"
    using IH pos x0 Cons.prems(2) by (intro sint_add_exact) auto
  then show ?case using IH by simp
qed

lemma int64_eq_sint: "(x :: int64) = y \<longleftrightarrow> sint x = sint y"
  by (auto intro: signed_word_eqI)

section \<open>Extrema\<close>

lemma Min_insert_min: "finite A \<Longrightarrow> Min (insert (min a b) A) = Min (insert a (insert b A))"
  by (cases "A = {}") (simp_all add: min.assoc)

lemma Max_insert_max: "finite A \<Longrightarrow> Max (insert (max a b) A) = Max (insert a (insert b A))"
  by (cases "A = {}") (simp_all add: max.assoc)

end
