(* ===== verification/Hex.thy ===== *)
theory Hex
  imports Prelude
begin

text \<open>
  Hexadecimal text and the fixed-size byte arrays built on it: \<^verbatim>\<open>common/bytes.go\<close>,
  \<^verbatim>\<open>common/hexutil/hexutil.go\<close>, the text codecs of \<^verbatim>\<open>common/hexutil/json.go\<close>, and the types
  \<^verbatim>\<open>Hash\<close> and \<^verbatim>\<open>Address\<close> of \<^verbatim>\<open>common/types.go\<close>.  The key of every database entry is made of
  the strings of this theory, so the central facts are that they can be read back
  (\<open>FromHex_Hash_String\<close>, \<open>HexToAddress_Hex\<close>) and hence never collide.

  The Keccak function behind the checksum of \<^verbatim>\<open>Address.Hex\<close> is an argument (\<open>keccak\<close>).
\<close>

section \<open>The standard library's encoding/hex\<close>

datatype hexError = InvalidByteError | ErrLength

definition hextable :: "nat \<Rightarrow> char" where
  "hextable n = char_of (if n < 10 then 48 + n else 87 + n)"

definition fromHexChar :: "char \<Rightarrow> nat option" where
  "fromHexChar c =
     (let n = of_char c :: nat in
      if 48 \<le> n \<and> n \<le> 57 then Some (n - 48)
      else if 97 \<le> n \<and> n \<le> 102 then Some (n - 97 + 10)
      else if 65 \<le> n \<and> n \<le> 70 then Some (n - 65 + 10)
      else None)"

definition EncodeByte :: "byte \<Rightarrow> string" where
  "EncodeByte b = [hextable (unat b div 16), hextable (unat b mod 16)]"

definition EncodeToString :: "bytes \<Rightarrow> string" where
  "EncodeToString bs = concat (map EncodeByte bs)"

text \<open>
  Decoding stops at the first bad character and returns the bytes decoded before it; an odd
  trailing character is looked at first, then reported as a length error.
\<close>

fun DecodeString :: "string \<Rightarrow> bytes \<times> hexError option" where
  "DecodeString [] = ([], None)"
| "DecodeString [c] = ([], Some (if fromHexChar c = None then InvalidByteError else ErrLength))"
| "DecodeString (c # d # s) =
     (case (fromHexChar c, fromHexChar d) of
        (Some a, Some b) \<Rightarrow> (case DecodeString s of (bs, e) \<Rightarrow> (of_nat (a * 16 + b) # bs, e))
      | _ \<Rightarrow> ([], Some InvalidByteError))"

section \<open>common/bytes.go\<close>

definition Bytes2Hex :: "bytes \<Rightarrow> string" where
  "Bytes2Hex d = EncodeToString d"

definition Hex2Bytes :: "string \<Rightarrow> bytes" where
  "Hex2Bytes str = fst (DecodeString str)"

definition ToHex :: "bytes \<Rightarrow> string" where
  "ToHex b =
     (let hex = Bytes2Hex b;
          hex' = (if length hex = 0 then ''0'' else hex)
      in ''0x'' @ hex')"

definition FromHex :: "string \<Rightarrow> bytes" where
  "FromHex s =
     (let s1 = (if 1 < length s then
                  (if take 2 s = ''0x'' \<or> take 2 s = ''0X'' then drop 2 s else s)
                else s);
          s2 = (if length s1 mod 2 = 1 then ''0'' @ s1 else s1)
      in Hex2Bytes s2)"

definition hasHexPrefix :: "string \<Rightarrow> bool" where
  "hasHexPrefix str \<longleftrightarrow> 2 \<le> length str \<and> str ! 0 = CHR ''0'' \<and> (str ! 1 = CHR ''x'' \<or> str ! 1 = CHR ''X'')"

definition isHexCharacter :: "char \<Rightarrow> bool" where
  "isHexCharacter c \<longleftrightarrow>
     (let n = of_char c :: nat in
      (48 \<le> n \<and> n \<le> 57) \<or> (97 \<le> n \<and> n \<le> 102) \<or> (65 \<le> n \<and> n \<le> 70))"

definition isHex :: "string \<Rightarrow> bool" where
  "isHex str \<longleftrightarrow> (if length str mod 2 \<noteq> 0 then False else list_all isHexCharacter str)"

definition Hex2BytesFixed :: "string \<Rightarrow> nat \<Rightarrow> bytes" where
  "Hex2BytesFixed str flen =
     (let h = fst (DecodeString str) in
      if length h = flen then h
      else if length h > flen then drop (length h - flen) h
      else replicate (flen - length h) 0 @ h)"

definition RightPadBytes :: "bytes \<Rightarrow> nat \<Rightarrow> bytes" where
  "RightPadBytes sl l = (if l \<le> length sl then sl else sl @ replicate (l - length sl) 0)"

definition LeftPadBytes :: "bytes \<Rightarrow> nat \<Rightarrow> bytes" where
  "LeftPadBytes sl l = (if l \<le> length sl then sl else replicate (l - length sl) 0 @ sl)"

section \<open>common/hexutil: prefixed text\<close>

datatype decError =
    ErrEmptyString | ErrSyntax | ErrMissingPrefix | ErrOddLength | ErrEmptyNumber
  | ErrLeadingZero | ErrUint64Range | ErrUintRange | ErrBig256Range
  | ErrWrongLength | ErrNonString

definition mapError :: "hexError \<Rightarrow> decError" where
  "mapError e = (case e of InvalidByteError \<Rightarrow> ErrSyntax | ErrLength \<Rightarrow> ErrOddLength)"

definition has0xPrefix :: "string \<Rightarrow> bool" where
  "has0xPrefix input \<longleftrightarrow>
     2 \<le> length input \<and> input ! 0 = CHR ''0'' \<and> (input ! 1 = CHR ''x'' \<or> input ! 1 = CHR ''X'')"

definition Encode :: "bytes \<Rightarrow> string" where
  "Encode b = ''0x'' @ EncodeToString b"

definition Decode :: "string \<Rightarrow> bytes \<times> decError option" where
  "Decode input =
     (if length input = 0 then ([], Some ErrEmptyString)
      else if \<not> has0xPrefix input then ([], Some ErrMissingPrefix)
      else (case DecodeString (drop 2 input) of (b, e) \<Rightarrow> (b, map_option mapError e)))"

text \<open>\<^verbatim>\<open>badNibble\<close> is the value no digit has, here \<^const>\<open>None\<close>.\<close>

definition decodeNibble :: "char \<Rightarrow> nat option" where
  "decodeNibble c =
     (let n = of_char c :: nat in
      if 48 \<le> n \<and> n \<le> 57 then Some (n - 48)
      else if 65 \<le> n \<and> n \<le> 70 then Some (n - 65 + 10)
      else if 97 \<le> n \<and> n \<le> 102 then Some (n - 97 + 10)
      else None)"

definition checkText :: "string \<Rightarrow> bool \<Rightarrow> decError + string" where
  "checkText input wantPrefix =
     (if length input = 0 then Inr []
      else if \<not> has0xPrefix input \<and> wantPrefix then Inl ErrMissingPrefix
      else (let input' = (if has0xPrefix input then drop 2 input else input) in
            if length input' mod 2 \<noteq> 0 then Inl ErrOddLength else Inr input'))"

text \<open>
  \<^verbatim>\<open>UnmarshalFixedText\<close> writes into \<open>out\<close>, whose length is the wanted length; the model
  returns the new content, or the error with \<open>out\<close> untouched.
\<close>

definition UnmarshalFixedText :: "string \<Rightarrow> bytes \<Rightarrow> decError + bytes" where
  "UnmarshalFixedText input out =
     (case checkText input True of
        Inl e \<Rightarrow> Inl e
      | Inr raw \<Rightarrow>
          if length raw div 2 \<noteq> length out then Inl ErrWrongLength
          else if \<not> list_all (\<lambda>c. decodeNibble c \<noteq> None) raw then Inl ErrSyntax
          else Inr (fst (DecodeString raw)))"

definition UnmarshalFixedUnprefixedText :: "string \<Rightarrow> bytes \<Rightarrow> decError + bytes" where
  "UnmarshalFixedUnprefixedText input out =
     (case checkText input False of
        Inl e \<Rightarrow> Inl e
      | Inr raw \<Rightarrow>
          if length raw div 2 \<noteq> length out then Inl ErrWrongLength
          else if \<not> list_all (\<lambda>c. decodeNibble c \<noteq> None) raw then Inl ErrSyntax
          else Inr (fst (DecodeString raw)))"

section \<open>common/types.go: Hash and Address\<close>

text \<open>\<^verbatim>\<open>[32]byte\<close> and \<^verbatim>\<open>[20]byte\<close> as byte lists; a value of the Go type has exactly that length.\<close>

definition HashLength :: nat where "HashLength = 32"
definition AddressLength :: nat where "AddressLength = 20"

type_synonym hash = bytes
type_synonym address = bytes

definition emptyHash :: hash where "emptyHash = replicate HashLength 0"
definition emptyAddress :: address where "emptyAddress = replicate AddressLength 0"

definition Hash_SetBytes :: "hash \<Rightarrow> bytes \<Rightarrow> hash" where
  "Hash_SetBytes h b =
     (let b' = (if length b > HashLength then drop (length b - HashLength) b else b)
      in take (HashLength - length b') h @ b')"

definition BytesToHash :: "bytes \<Rightarrow> hash" where
  "BytesToHash b = Hash_SetBytes emptyHash b"

definition HexToHash :: "string \<Rightarrow> hash" where
  "HexToHash s = BytesToHash (FromHex s)"

definition Hash_Hex :: "hash \<Rightarrow> string" where
  "Hash_Hex h = Encode h"

definition Hash_String :: "hash \<Rightarrow> string" where
  "Hash_String h = Hash_Hex h"

definition Address_SetBytes :: "address \<Rightarrow> bytes \<Rightarrow> address" where
  "Address_SetBytes a b =
     (let b' = (if length b > AddressLength then drop (length b - AddressLength) b else b)
      in take (AddressLength - length b') a @ b')"

definition BytesToAddress :: "bytes \<Rightarrow> address" where
  "BytesToAddress b = Address_SetBytes emptyAddress b"

definition HexToAddress :: "string \<Rightarrow> address" where
  "HexToAddress s = BytesToAddress (FromHex s)"

definition IsHexAddress :: "string \<Rightarrow> bool" where
  "IsHexAddress s =
     (let s' = (if hasHexPrefix s then drop 2 s else s)
      in length s' = 2 * AddressLength \<and> isHex s')"

definition Address_Hash :: "address \<Rightarrow> hash" where
  "Address_Hash a = BytesToHash a"

text \<open>
  EIP-55: a letter of the plain encoding is raised to upper case when the matching nibble of
  the Keccak hash of that encoding is above 7.
\<close>

definition checksumChar :: "bytes \<Rightarrow> nat \<Rightarrow> char \<Rightarrow> char" where
  "checksumChar hash i c =
     (let hb = unat (hash ! (i div 2));
          hashByte = (if i mod 2 = 0 then hb div 16 else hb mod 16)
      in if (of_char c :: nat) > 57 \<and> hashByte > 7 then char_of ((of_char c :: nat) - 32) else c)"

definition Address_Hex :: "(bytes \<Rightarrow> bytes) \<Rightarrow> address \<Rightarrow> string" where
  "Address_Hex keccak a =
     (let unchecksummed = EncodeToString a;
          hash = keccak (map byte_of_char unchecksummed)
      in ''0x'' @ map2 (checksumChar hash) [0..<length unchecksummed] unchecksummed)"

definition Address_String :: "(bytes \<Rightarrow> bytes) \<Rightarrow> address \<Rightarrow> string" where
  "Address_String keccak a = Address_Hex keccak a"

record MixedcaseAddress =
  ma_addr :: address
  ma_original :: string

definition NewMixedcaseAddress :: "(bytes \<Rightarrow> bytes) \<Rightarrow> address \<Rightarrow> MixedcaseAddress" where
  "NewMixedcaseAddress keccak addr = \<lparr>ma_addr = addr, ma_original = Address_Hex keccak addr\<rparr>"

definition NewMixedcaseAddressFromString :: "string \<Rightarrow> MixedcaseAddress option" where
  "NewMixedcaseAddressFromString hexaddr =
     (if \<not> IsHexAddress hexaddr then None
      else Some \<lparr>ma_addr = BytesToAddress (FromHex hexaddr), ma_original = hexaddr\<rparr>)"

definition ValidChecksum :: "(bytes \<Rightarrow> bytes) \<Rightarrow> MixedcaseAddress \<Rightarrow> bool" where
  "ValidChecksum keccak ma \<longleftrightarrow> ma_original ma = Address_Hex keccak (ma_addr ma)"

section \<open>Reading back what was written\<close>

lemma nibble_roundtrip:
  assumes "n < 16"
  shows "fromHexChar (hextable n) = Some n" "decodeNibble (hextable n) = Some n"
    "isHexCharacter (hextable n)"
  using assms
  by (auto simp: hextable_def fromHexChar_def decodeNibble_def isHexCharacter_def Let_def split: if_splits)

lemma unat_byte_less: "unat (b :: byte) < 256"
  using unsigned_less[of b, where ?'a = nat] by simp

lemma byte_of_nibbles: "of_nat (unat (b :: byte) div 16 * 16 + unat b mod 16) = b"
  by (simp only: div_mult_mod_eq) simp

lemma length_EncodeToString [simp]: "length (EncodeToString bs) = 2 * length bs"
  by (induction bs) (auto simp: EncodeToString_def EncodeByte_def)

lemma DecodeString_EncodeToString [simp]: "DecodeString (EncodeToString bs) = (bs, None)"
proof (induction bs)
  case Nil
  then show ?case by (simp add: EncodeToString_def)
next
  case (Cons b bs)
  have "unat b div 16 < 16" and "unat b mod 16 < 16"
    using unat_byte_less[of b] by auto
  then show ?case
    using Cons by (simp add: EncodeToString_def EncodeByte_def nibble_roundtrip byte_of_nibbles
        del: of_nat_add of_nat_mult)
qed

lemma nibbles_EncodeToString:
  "c \<in> set (EncodeToString bs) \<Longrightarrow> \<exists>n<16. c = hextable n"
proof (induction bs)
  case Nil
  then show ?case by (simp add: EncodeToString_def)
next
  case (Cons b bs)
  have "unat b div 16 < 16" "unat b mod 16 < 16" using unat_byte_less[of b] by auto
  moreover have "c = hextable (unat b div 16) \<or> c = hextable (unat b mod 16) \<or> c \<in> set (EncodeToString bs)"
    using Cons.prems by (auto simp: EncodeToString_def EncodeByte_def)
  ultimately show ?case using Cons.IH by blast
qed

text \<open>Decoding looks at a character only through its digit value, so letter case is irrelevant.\<close>

lemma DecodeString_cong:
  "map fromHexChar s = map fromHexChar t \<Longrightarrow> DecodeString s = DecodeString t"
proof (induction s arbitrary: t rule: induct_list012)
  case 1
  then show ?case by simp
next
  case (2 c)
  then obtain d where "t = [d]" "fromHexChar d = fromHexChar c" by (cases t) auto
  then show ?case by simp
next
  case (3 c d s)
  then obtain c' d' t' where t: "t = c' # d' # t'" "fromHexChar c' = fromHexChar c"
    "fromHexChar d' = fromHexChar d" "map fromHexChar s = map fromHexChar t'"
    by (auto simp: Cons_eq_map_conv)
  then show ?case by (simp add: 3(1)[OF t(4)] split: option.split)
qed

lemma checksumChar_digit:
  assumes "n < 16"
  shows "fromHexChar (checksumChar hash i (hextable n)) = Some n"
proof -
  let ?c = "of_char (hextable n) :: nat"
  have c: "48 \<le> ?c \<and> ?c \<le> 57 \<or> 97 \<le> ?c \<and> ?c \<le> 102"
    using assms by (auto simp: hextable_def)
  have up: "fromHexChar (char_of (?c - 32)) = fromHexChar (hextable n)" if "?c > 57"
  proof -
    have eq: "(of_char (char_of (?c - 32) :: char) :: nat) = ?c - 32"
      using c by (simp only: of_char_of) (auto intro!: mod_less)
    have "97 \<le> ?c" "?c \<le> 102" using c that by linarith+
    then obtain m where m: "?c = 97 + m" "m < 6" by (auto simp: le_iff_add)
    then have "?c - 32 = 65 + m" by simp
    with m(2) show ?thesis unfolding fromHexChar_def Let_def eq by (simp add: m(1))
  qed
  show ?thesis
    using up nibble_roundtrip(1)[OF assms] by (simp add: checksumChar_def Let_def)
qed

lemma DecodeString_checksum:
  "DecodeString (map2 (checksumChar hash) [0..<length (EncodeToString a)] (EncodeToString a)) = (a, None)"
proof -
  let ?s = "EncodeToString a"
  have "fromHexChar (checksumChar hash i (?s ! i)) = fromHexChar (?s ! i)" if i: "i < length ?s" for i
  proof -
    have "?s ! i \<in> set ?s" using i by (rule nth_mem)
    then obtain n where "n < 16" "?s ! i = hextable n"
      using nibbles_EncodeToString by blast
    then show ?thesis by (simp add: checksumChar_digit nibble_roundtrip(1))
  qed
  then have "map fromHexChar (map2 (checksumChar hash) [0..<length ?s] ?s) = map fromHexChar ?s"
    by (intro nth_equalityI) auto
  from DecodeString_cong[OF this] show ?thesis by simp
qed

lemma FromHex_prefixed:
  "even (length s) \<Longrightarrow> FromHex (''0x'' @ s) = fst (DecodeString s)"
  by (simp add: FromHex_def Hex2Bytes_def Let_def)

lemma FromHex_Hash_String [simp]: "FromHex (Hash_String h) = h"
  unfolding Hash_String_def Hash_Hex_def Encode_def by (subst FromHex_prefixed) simp_all

lemma FromHex_Address_Hex [simp]: "FromHex (Address_Hex keccak a) = a"
  unfolding Address_Hex_def Let_def 
  by (subst FromHex_prefixed) (simp_all add: DecodeString_checksum[unfolded length_EncodeToString])

lemma inj_Hash_String: "inj Hash_String"
  by (rule inj_on_inverseI[where g = FromHex]) simp

lemma inj_Address_String: "inj (Address_String keccak)"
  by (rule inj_on_inverseI[where g = FromHex]) (simp add: Address_String_def)

lemma length_Hash_String [simp]: "length (Hash_String h) = 2 + 2 * length h"
  by (simp add: Hash_String_def Hash_Hex_def Encode_def)

lemma length_Address_String [simp]: "length (Address_String keccak a) = 2 + 2 * length a"
  by (simp add: Address_String_def Address_Hex_def Let_def)

lemma Hash_String_eq_iff [simp]: "Hash_String h = Hash_String h' \<longleftrightarrow> h = h'"
  using inj_Hash_String by (auto dest: injD)

lemma Address_String_eq_iff [simp]: "Address_String k a = Address_String k b \<longleftrightarrow> a = b"
  using inj_Address_String by (auto dest: injD)

text \<open>A fixed-size value keeps its length whatever bytes it is set from; longer input is cropped on the left.\<close>

lemma length_SetBytes:
  "length h = HashLength \<Longrightarrow> length (Hash_SetBytes h b) = HashLength"
  "length a = AddressLength \<Longrightarrow> length (Address_SetBytes a b) = AddressLength"
  by (simp_all add: Hash_SetBytes_def Address_SetBytes_def Let_def)

lemma BytesToHash_id: "length h = HashLength \<Longrightarrow> BytesToHash h = h"
  by (simp add: BytesToHash_def Hash_SetBytes_def)

lemma BytesToAddress_id: "length a = AddressLength \<Longrightarrow> BytesToAddress a = a"
  by (simp add: BytesToAddress_def Address_SetBytes_def)

lemma decodeNibble_fromHexChar: "decodeNibble c = fromHexChar c"
  by (auto simp: decodeNibble_def fromHexChar_def Let_def)

lemma isHexCharacter_iff: "isHexCharacter c \<longleftrightarrow> fromHexChar c \<noteq> None"
  by (auto simp: isHexCharacter_def fromHexChar_def Let_def)

lemma UnmarshalFixedText_Encode:
  assumes "length out = length h"
  shows "UnmarshalFixedText (Encode h) out = Inr h"
proof -
  have "checkText (Encode h) True = Inr (EncodeToString h)"
    by (simp add: checkText_def Encode_def has0xPrefix_def Let_def)
  moreover have "list_all (\<lambda>c. decodeNibble c \<noteq> None) (EncodeToString h)"
    using nibbles_EncodeToString nibble_roundtrip(2) by (fastforce simp: list_all_iff)
  ultimately show ?thesis using assms by (simp add: UnmarshalFixedText_def)
qed

text \<open>Text is accepted exactly if it is a prefix and two digits per byte, in either case.\<close>

lemma fst_DecodeString_length:
  "list_all (\<lambda>c. fromHexChar c \<noteq> None) s \<Longrightarrow> length (fst (DecodeString s)) = length s div 2"
  by (induction s rule: DecodeString.induct) (auto split: prod.splits)

lemma UnmarshalFixedText_length:
  assumes "UnmarshalFixedText input out = Inr h"
  shows "length h = length out"
  using assms
  by (auto simp: UnmarshalFixedText_def decodeNibble_fromHexChar fst_DecodeString_length
      split: sum.splits if_splits)

section \<open>Properties\<close>

text \<open>C18. Fixed-size text is accepted exactly if it has the prefix and two hexadecimal digits per byte of the
  destination, and the value it is then read as fills the destination.\<close>

theorem fixed_text_accepted:
  assumes "out \<noteq> []"
  shows "(case UnmarshalFixedText input out of
      Inr h \<Rightarrow> has0xPrefix input \<and> length input = 2 + 2 * length out \<and> list_all isHexCharacter (drop 2 input) \<and>
        length h = length out
    | Inl e \<Rightarrow> \<not> (has0xPrefix input \<and> length input = 2 + 2 * length out \<and> list_all isHexCharacter (drop 2 input)))"
proof (cases "UnmarshalFixedText input out")
  case (Inr h)
  have len: "length out = (length input - 2) div 2 \<and> even (length input) \<longleftrightarrow> length input = 2 + 2 * length out"
    if "has0xPrefix input" using that assms by (auto simp: has0xPrefix_def elim!: evenE)
  show ?thesis using UnmarshalFixedText_length[OF Inr] Inr assms len
    by (auto simp: UnmarshalFixedText_def checkText_def Let_def isHexCharacter_iff decodeNibble_fromHexChar list_all_iff
        even_iff_mod_2_eq_zero split: if_splits)
next
  case (Inl e)
  then show ?thesis using assms
    by (auto simp: UnmarshalFixedText_def checkText_def Let_def isHexCharacter_iff decodeNibble_fromHexChar list_all_iff
        split: if_splits)
qed

theorem fixed_text_accepted_witness: "isl (UnmarshalFixedText ''0xfg'' [0])"
  using fixed_text_accepted[of "[0]" "''0xfg''"] by (auto simp: isHexCharacter_def has0xPrefix_def isl_def split: sum.splits)

text \<open>An address printed with its checksum is read back as the same address, whatever the Keccak function,
  and the printed form carries a valid checksum.\<close>

theorem address_text_roundtrip:
  assumes "length a = AddressLength"
  shows "HexToAddress (Address_Hex kec a) = a \<and>
    NewMixedcaseAddressFromString (Address_Hex kec a) = Some (NewMixedcaseAddress kec a) \<and>
    ValidChecksum kec (NewMixedcaseAddress kec a)"
proof -
  let ?s = "EncodeToString a" and ?h = "kec (map byte_of_char (EncodeToString a))"
  let ?t = "map2 (checksumChar ?h) [0..<length ?s] ?s"
  have dig: "isHexCharacter c" if c: "c \<in> set ?t" for c
  proof -
    obtain i where i: "i < length ?s" "c = checksumChar ?h i (?s ! i)" using c by (auto simp: set_zip)
    obtain n where "n < 16" "?s ! i = hextable n" using nibbles_EncodeToString nth_mem[OF i(1)] by blast
    then show ?thesis using i(2) by (simp add: isHexCharacter_iff checksumChar_digit)
  qed
  have form: "Address_Hex kec a = ''0x'' @ ?t" by (simp add: Address_Hex_def Let_def)
  have "IsHexAddress (Address_Hex kec a)"
    using dig assms unfolding form IsHexAddress_def by (auto simp: hasHexPrefix_def isHex_def list_all_iff Let_def)
  then show ?thesis
    by (simp add: NewMixedcaseAddressFromString_def NewMixedcaseAddress_def ValidChecksum_def HexToAddress_def
        BytesToAddress_id assms)
qed

theorem address_text_roundtrip_witness: "HexToAddress (Address_Hex (\<lambda>bs. bs) emptyAddress) = emptyAddress"
  using address_text_roundtrip[of emptyAddress "\<lambda>bs. bs"] by (simp add: emptyAddress_def)

end
