(* ===== verification/Json.thy ===== *)
theory Json
  imports Hex
begin

text \<open>
  The part of the standard library's \<^verbatim>\<open>encoding/json\<close> and \<^verbatim>\<open>encoding/base64\<close> that the node
  relies on when it stores and hashes its records.  A document is a value of type \<open>json\<close>;
  \<^verbatim>\<open>json.Marshal\<close> of a struct is the object with its tagged fields in order, \<open>json_text\<close> is the
  compact text that is hashed, and \<^verbatim>\<open>json.Unmarshal\<close> reads the fields back by name.

  Two conventions of the model: a \<^verbatim>\<open>nil\<close> slice and an empty slice are the same list, and a stored
  document is kept as its value, not as its text.  A field whose value does not have the
  field's shape stays at its zero value.
\<close>

datatype json =
    JNull
  | JBool bool
  | JNum int
  | JStr string
  | JArr "json list"
  | JObj "(string \<times> json) list"

section \<open>The text of a document\<close>

fun nat_dec :: "nat \<Rightarrow> string" where
  "nat_dec n = (if n < 10 then [char_of (48 + n)] else nat_dec (n div 10) @ [char_of (48 + n mod 10)])"

declare nat_dec.simps [simp del]

definition int_dec :: "int \<Rightarrow> string" where
  "int_dec i = (if i < 0 then ''-'' @ nat_dec (nat (- i)) else nat_dec (nat i))"

text \<open>
  \<^verbatim>\<open>Marshal\<close> escapes the quote, the backslash, control characters and the HTML characters;
  strings are taken to be valid UTF-8, whose other bytes are copied.
\<close>

definition json_escape :: "char \<Rightarrow> string" where
  "json_escape c =
     (let n = of_char c :: nat in
      if n = 34 then [char_of (92::nat), c]
      else if n = 92 then [char_of (92::nat), c]
      else if n = 10 then [char_of (92::nat), CHR ''n'']
      else if n = 13 then [char_of (92::nat), CHR ''r'']
      else if n = 9 then [char_of (92::nat), CHR ''t'']
      else if n < 32 \<or> n = 60 \<or> n = 62 \<or> n = 38 then
        char_of (92::nat) # ''u00'' @ [hextable (n div 16), hextable (n mod 16)]
      else [c])"

definition json_quote :: "string \<Rightarrow> string" where
  "json_quote s = [char_of (34::nat)] @ concat (map json_escape s) @ [char_of (34::nat)]"

fun join :: "string \<Rightarrow> string list \<Rightarrow> string" where
  "join sep [] = []"
| "join sep [s] = s"
| "join sep (s # t # ts) = s @ sep @ join sep (t # ts)"

fun json_text :: "json \<Rightarrow> string" where
  "json_text JNull = ''null''"
| "json_text (JBool b) = (if b then ''true'' else ''false'')"
| "json_text (JNum i) = int_dec i"
| "json_text (JStr s) = json_quote s"
| "json_text (JArr js) = ''['' @ join '','' (map json_text js) @ '']''"
| "json_text (JObj fs) = ''{'' @ join '','' (map (\<lambda>(k, j). json_quote k @ '':'' @ json_text j) fs) @ ''}''"

lemma length_quote: "length (json_quote s) = 2 + length (concat (map json_escape s))"
  by (simp add: json_quote_def)

lemma escape_hex: "n < 16 \<Longrightarrow> json_escape (hextable n) = [hextable n]"
  by (auto simp: json_escape_def hextable_def Let_def)

lemma escape_hexes: "concat (map json_escape (EncodeToString b)) = EncodeToString b"
  by (induction b)
    (simp_all add: EncodeToString_def EncodeByte_def escape_hex unat_byte_less less_mult_imp_div_less)

section \<open>encoding/base64, the form of a byte slice\<close>

definition b64char :: "nat \<Rightarrow> char" where
  "b64char n = char_of (if n < 26 then 65 + n else if n < 52 then 71 + n
     else if n < 62 then n - 4 else if n = 62 then 43 else 47)"

definition b64val :: "char \<Rightarrow> nat option" where
  "b64val c =
     (let n = of_char c :: nat in
      if 65 \<le> n \<and> n \<le> 90 then Some (n - 65)
      else if 97 \<le> n \<and> n \<le> 122 then Some (n - 71)
      else if 48 \<le> n \<and> n \<le> 57 then Some (n + 4)
      else if n = 43 then Some 62
      else if n = 47 then Some 63
      else None)"

fun b64_encode :: "bytes \<Rightarrow> string" where
  "b64_encode [] = []"
| "b64_encode [a] = [b64char (unat a div 4), b64char (unat a mod 4 * 16), CHR ''='', CHR ''='']"
| "b64_encode [a, b] =
     [b64char (unat a div 4), b64char (unat a mod 4 * 16 + unat b div 16),
      b64char (unat b mod 16 * 4), CHR ''='']"
| "b64_encode (a # b # c # r) =
     [b64char (unat a div 4), b64char (unat a mod 4 * 16 + unat b div 16),
      b64char (unat b mod 16 * 4 + unat c div 64), b64char (unat c mod 64)] @ b64_encode r"

text \<open>One group of four characters gives one to three bytes; padding only at the end.\<close>

fun b64_decode :: "string \<Rightarrow> bytes option" where
  "b64_decode [] = Some []"
| "b64_decode (p # q # r # s # t) =
     (case (b64val p, b64val q, b64val r, b64val s) of
        (Some p', Some q', Some r', Some s') \<Rightarrow>
          map_option (\<lambda>bs. of_nat (p' * 4 + q' div 16) # of_nat (q' mod 16 * 16 + r' div 4)
                           # of_nat (r' mod 4 * 64 + s') # bs) (b64_decode t)
      | (Some p', Some q', Some r', None) \<Rightarrow>
          if s = CHR ''='' \<and> t = [] then
            Some [of_nat (p' * 4 + q' div 16), of_nat (q' mod 16 * 16 + r' div 4)]
          else None
      | (Some p', Some q', None, None) \<Rightarrow>
          if r = CHR ''='' \<and> s = CHR ''='' \<and> t = [] then Some [of_nat (p' * 4 + q' div 16)] else None
      | _ \<Rightarrow> None)"
| "b64_decode _ = None"

lemma b64val_char: "n < 64 \<Longrightarrow> b64val (b64char n) = Some n"
  by (auto simp: b64char_def b64val_def Let_def split: if_splits)

lemma b64val_pad [simp]: "b64val (CHR ''='') = None"
  by code_simp

lemma b64_indices:
  fixes a b c :: byte
  shows "unat a div 4 < 64" "unat a mod 4 * 16 + unat b div 16 < 64"
    "unat b mod 16 * 4 + unat c div 64 < 64" "unat c mod 64 < 64"
    "unat a mod 4 * 16 < 64" "unat b mod 16 * 4 < 64"
  using unat_byte_less[of a] unat_byte_less[of b] unat_byte_less[of c] by linarith+

lemma b64_bytes:
  fixes a b c :: nat
  assumes "a < 256" "b < 256" "c < 256"
  shows "a div 4 * 4 + (a mod 4 * 16 + b div 16) div 16 = a"
    "(a mod 4 * 16 + b div 16) mod 16 * 16 + (b mod 16 * 4 + c div 64) div 4 = b"
    "(b mod 16 * 4 + c div 64) mod 4 * 64 + c mod 64 = c"
    "a div 4 * 4 + a mod 4 * 16 div 16 = a"
    "(a mod 4 * 16 + b div 16) mod 16 * 16 + b mod 16 * 4 div 4 = b"
proof -
  have lt: "b div 16 < 16" "c div 64 < 4" using assms by linarith+
  show "a div 4 * 4 + (a mod 4 * 16 + b div 16) div 16 = a" using lt by simp
  show "(a mod 4 * 16 + b div 16) mod 16 * 16 + (b mod 16 * 4 + c div 64) div 4 = b"
    using lt by simp
  show "(b mod 16 * 4 + c div 64) mod 4 * 64 + c mod 64 = c" using lt by simp
  show "a div 4 * 4 + a mod 4 * 16 div 16 = a" by simp
  show "(a mod 4 * 16 + b div 16) mod 16 * 16 + b mod 16 * 4 div 4 = b" using lt by simp
qed

lemma b64_roundtrip: "b64_decode (b64_encode bs) = Some bs"
proof (induction bs rule: b64_encode.induct)
  case (2 a)
  show ?case
    using b64_bytes(4)[of "unat a"] unat_byte_less[of a]
    by (simp add: b64val_char b64_indices del: of_nat_add of_nat_mult)
next
  case (3 a b)
  show ?case
    using b64_bytes(1,5)[of "unat a" "unat b"] unat_byte_less[of a] unat_byte_less[of b]
    by (simp add: b64val_char b64_indices del: of_nat_add of_nat_mult)
next
  case (4 a b c r)
  then show ?case
    using b64_bytes(1,2,3)[of "unat a" "unat b" "unat c"]
      unat_byte_less[of a] unat_byte_less[of b] unat_byte_less[of c]
    by (simp add: b64val_char b64_indices del: of_nat_add of_nat_mult)
qed simp
end
