(* ===== verification/CoreTypes.thy ===== *)
theory CoreTypes
  imports Json
begin

text \<open>
  The data of the ledger, package \<^verbatim>\<open>core/types\<close>: units and their messages, UTXOs, balls,
  commissions, vote results, with the constructors and setters of the sources, the JSON
  form every record is stored and hashed in, and what reading it back gives
  (\<open>Unit_roundtrip\<close>, \<open>UTXO_roundtrip\<close>).

  \<open>sum256\<close> stands for \<^verbatim>\<open>crypto/sha3.Sum256\<close> and is an argument of the functions that hash.
\<close>

section \<open>Records\<close>

record Output =
  out_Address :: address
  out_Amount :: int64

record Input =
  in_UnitHash :: hash
  in_MessageIndex :: int64
  in_OutputIndex :: int64
  in_Type :: string
  in_Output :: Output

record Payload =
  pl_Inputs :: "Input list"
  pl_Outputs :: "Output list"

record Message =
  msg_App :: string
  msg_PayloadHash :: hash
  msg_Payload :: Payload

record Author =
  au_Address :: address
  au_Signature :: bytes

record Unit =
  u_Hash :: hash
  u_Version :: string
  u_WitnessList :: "address list"
  u_LastBallUnit :: hash
  u_HeadersCommission :: int64
  u_PayloadCommission :: int64
  u_TimeStamp :: int64
  u_ParentList :: "hash list"
  u_Authors :: "Author list"
  u_Messages :: "Message list"
  u_BestParentUnit :: hash
  u_MainChainIndex :: int64
  u_IsStable :: bool
  u_IsOnMainChain :: bool
  u_Level :: int64
  u_WitnessedLevel :: int64
  u_SubStableMinHash :: hash
  u_SubStableAuthor :: address
  u_Invalid :: bool

record Ball =
  ball_UnitHash :: hash
  ball_ParentBalls :: "hash list"
  ball_IsInvalid :: bool

record UTXO =
  utxo_UnitHash :: hash
  utxo_MessageIndex :: int64
  utxo_OutputIndex :: int64
  utxo_Output :: Output
  utxo_Type :: string

record Commission =
  com_Address :: address
  com_UTXO :: UTXO

record VoteResult =
  vr_StartTime :: int64
  vr_EndTime :: int64
  vr_VoteResult :: address
  vr_ReplacedWitness :: address
  vr_Round :: int64

record HashArray =
  ha_Hashes :: "hash list"

record MessageBuilder =
  mb_App :: string
  mb_Payloadhash :: hash
  mb_Payload :: Payload

record NewUnitEntity =
  nue_FromPeerId :: string
  nue_HasPeerIds :: "string list"
  nue_NewUnit :: Unit

record SyncDataEntity =
  sde_State :: int64
  sde_StableUnits :: "Unit list"
  sde_UnStableUnits :: "Unit list"

section \<open>Zero values and constructors\<close>

definition zeroOutput :: Output where
  "zeroOutput = \<lparr>out_Address = emptyAddress, out_Amount = 0\<rparr>"

definition NewOutput :: "address \<Rightarrow> int64 \<Rightarrow> Output" where
  "NewOutput addr amount = \<lparr>out_Address = addr, out_Amount = amount\<rparr>"

definition NewInput :: "hash \<Rightarrow> int64 \<Rightarrow> int64 \<Rightarrow> string \<Rightarrow> Output \<Rightarrow> Input" where
  "NewInput unitHash messageIndex outputIndex inType outp =
     \<lparr>in_UnitHash = unitHash, in_MessageIndex = messageIndex, in_OutputIndex = outputIndex,
      in_Type = inType, in_Output = outp\<rparr>"

definition NewPayLoad :: Payload where
  "NewPayLoad = \<lparr>pl_Inputs = [], pl_Outputs = []\<rparr>"

definition AddInputs :: "Input list \<Rightarrow> Payload \<Rightarrow> Payload" where
  "AddInputs inputs load = fold (\<lambda>i l. l\<lparr>pl_Inputs := pl_Inputs l @ [i]\<rparr>) inputs load"

definition AddOutputs :: "Output list \<Rightarrow> Payload \<Rightarrow> Payload" where
  "AddOutputs outputs load = fold (\<lambda>out l. l\<lparr>pl_Outputs := pl_Outputs l @ [out]\<rparr>) outputs load"

definition NewMessage :: "string \<Rightarrow> hash \<Rightarrow> Payload \<Rightarrow> Message" where
  "NewMessage app payloadHash payload =
     \<lparr>msg_App = app, msg_PayloadHash = payloadHash, msg_Payload = payload\<rparr>"

definition NewMessageBuilder :: MessageBuilder where
  "NewMessageBuilder = \<lparr>mb_App = [], mb_Payloadhash = emptyHash, mb_Payload = NewPayLoad\<rparr>"

definition SetAppName :: "string \<Rightarrow> MessageBuilder \<Rightarrow> MessageBuilder" where
  "SetAppName name b = b\<lparr>mb_App := name\<rparr>"

definition GetAppName :: "MessageBuilder \<Rightarrow> string" where
  "GetAppName b = mb_App b"

definition SetPayloadHash :: "hash \<Rightarrow> MessageBuilder \<Rightarrow> MessageBuilder" where
  "SetPayloadHash h b = b\<lparr>mb_Payloadhash := h\<rparr>"

definition SetPayload :: "Payload \<Rightarrow> MessageBuilder \<Rightarrow> MessageBuilder" where
  "SetPayload p b = b\<lparr>mb_Payload := p\<rparr>"

definition GetMessage :: "MessageBuilder \<Rightarrow> Message" where
  "GetMessage b = NewMessage (mb_App b) (mb_Payloadhash b) (mb_Payload b)"

definition NewAuthor :: "address \<Rightarrow> bytes \<Rightarrow> Author" where
  "NewAuthor addr signature = \<lparr>au_Address = addr, au_Signature = signature\<rparr>"

definition NewBall :: "hash \<Rightarrow> hash list \<Rightarrow> bool \<Rightarrow> Ball" where
  "NewBall unitHash parentBalls isInvalid =
     \<lparr>ball_UnitHash = unitHash, ball_ParentBalls = parentBalls, ball_IsInvalid = isInvalid\<rparr>"

definition zeroBall :: Ball where
  "zeroBall = NewBall emptyHash [] False"

definition NewUTXO :: "hash \<Rightarrow> int64 \<Rightarrow> int64 \<Rightarrow> Output \<Rightarrow> string \<Rightarrow> UTXO" where
  "NewUTXO unitHash messageIdx outputIdx outp typeOf =
     \<lparr>utxo_UnitHash = unitHash, utxo_MessageIndex = messageIdx, utxo_OutputIndex = outputIdx,
      utxo_Output = outp, utxo_Type = typeOf\<rparr>"

definition NewEmptyUTXO :: UTXO where
  "NewEmptyUTXO = NewUTXO emptyHash 0 0 zeroOutput []"

definition NewCommission :: "address \<Rightarrow> UTXO \<Rightarrow> Commission" where
  "NewCommission addr utxo = \<lparr>com_Address = addr, com_UTXO = utxo\<rparr>"

definition NewVoteResult :: "int64 \<Rightarrow> int64 \<Rightarrow> address \<Rightarrow> address \<Rightarrow> int64 \<Rightarrow> VoteResult" where
  "NewVoteResult startTime endTime voteResult replaceWitness round =
     \<lparr>vr_StartTime = startTime, vr_EndTime = endTime, vr_VoteResult = voteResult,
      vr_ReplacedWitness = replaceWitness, vr_Round = round\<rparr>"

definition zeroVoteResult :: VoteResult where
  "zeroVoteResult = NewVoteResult 0 0 emptyAddress emptyAddress 0"

definition NewHashArray :: HashArray where
  "NewHashArray = \<lparr>ha_Hashes = []\<rparr>"

definition NewParentUnits :: "hash list \<Rightarrow> hash list" where
  "NewParentUnits hs = fold (\<lambda>h parentList. parentList @ [h]) hs []"

definition NewEmptyUnit :: Unit where
  "NewEmptyUnit =
     \<lparr>u_Hash = emptyHash, u_Version = [], u_WitnessList = [], u_LastBallUnit = emptyHash,
      u_HeadersCommission = 0, u_PayloadCommission = 0, u_TimeStamp = 0, u_ParentList = [],
      u_Authors = [], u_Messages = [], u_BestParentUnit = emptyHash, u_MainChainIndex = 0,
      u_IsStable = False, u_IsOnMainChain = False, u_Level = 0, u_WitnessedLevel = 0,
      u_SubStableMinHash = emptyHash, u_SubStableAuthor = emptyAddress, u_Invalid = False\<rparr>"

definition maxHash :: hash where
  "maxHash = HexToHash (''0x'' @ replicate 64 (CHR ''f''))"

definition NewUnit ::
    "hash list \<Rightarrow> address list \<Rightarrow> hash \<Rightarrow> hash \<Rightarrow> int64 \<Rightarrow> int64 \<Rightarrow> Unit" where
  "NewUnit parentList witnessList bestParentUnit lastBallUnit level witnessLevel =
     NewEmptyUnit\<lparr>u_Version := ''1.0'', u_Messages := [], u_Authors := [],
       u_ParentList := parentList, u_Level := level, u_LastBallUnit := lastBallUnit,
       u_WitnessList := witnessList, u_HeadersCommission := 0, u_PayloadCommission := 0,
       u_BestParentUnit := bestParentUnit, u_WitnessedLevel := witnessLevel,
       u_IsStable := False, u_MainChainIndex := 0, u_IsOnMainChain := False,
       u_SubStableMinHash := maxHash\<rparr>"

section \<open>Setters of a unit\<close>

definition ChangeStable :: "int64 \<Rightarrow> Unit \<Rightarrow> Unit" where
  "ChangeStable mainChainIndex u = u\<lparr>u_IsStable := True, u_MainChainIndex := mainChainIndex\<rparr>"

definition UpdataSubStableMinHash :: "hash \<Rightarrow> address \<Rightarrow> Unit \<Rightarrow> Unit" where
  "UpdataSubStableMinHash hash author u =
     (if Hash_String (u_SubStableMinHash u) > Hash_String hash
      then u\<lparr>u_SubStableMinHash := hash, u_SubStableAuthor := author\<rparr> else u)"

definition ResetStableState :: "Unit \<Rightarrow> Unit" where
  "ResetStableState u = u\<lparr>u_IsStable := False, u_MainChainIndex := 0, u_IsOnMainChain := False\<rparr>"

section \<open>Lists of units: sort.Interface by level\<close>

definition Units_Len :: "Unit list \<Rightarrow> nat" where
  "Units_Len units = length units"

definition Units_Swap :: "nat \<Rightarrow> nat \<Rightarrow> Unit list \<Rightarrow> Unit list" where
  "Units_Swap i j units = units[i := units ! j, j := units ! i]"

definition Units_Less :: "Unit list \<Rightarrow> nat \<Rightarrow> nat \<Rightarrow> bool" where
  "Units_Less units i j \<longleftrightarrow> sint (u_Level (units ! i)) < sint (u_Level (units ! j))"


text \<open>\<^verbatim>\<open>sort.Sort\<close> with these methods: the units by increasing level.\<close>

definition sort_Units :: "Unit list \<Rightarrow> Unit list" where
  "sort_Units units = sort_key (\<lambda>u. sint (u_Level u)) units"

section \<open>JSON forms\<close>

text \<open>Readers for the field types; each returns the zero value on a document of another shape.\<close>

definition jfield :: "string \<Rightarrow> json \<Rightarrow> json" where
  "jfield k j = (case j of JObj fs \<Rightarrow> (case map_of fs k of Some v \<Rightarrow> v | None \<Rightarrow> JNull) | _ \<Rightarrow> JNull)"

definition json_int :: "int64 \<Rightarrow> json" where
  "json_int n = JNum (sint n)"

definition int_of_json :: "json \<Rightarrow> int64" where
  "int_of_json j = (case j of JNum i \<Rightarrow> of_int i | _ \<Rightarrow> 0)"

definition str_of_json :: "json \<Rightarrow> string" where
  "str_of_json j = (case j of JStr s \<Rightarrow> s | _ \<Rightarrow> [])"

definition bool_of_json :: "json \<Rightarrow> bool" where
  "bool_of_json j = (case j of JBool b \<Rightarrow> b | _ \<Rightarrow> False)"

definition list_of_json :: "(json \<Rightarrow> 'a) \<Rightarrow> json \<Rightarrow> 'a list" where
  "list_of_json f j = (case j of JArr js \<Rightarrow> map f js | _ \<Rightarrow> [])"

definition bytes_of_json :: "json \<Rightarrow> bytes" where
  "bytes_of_json j = (case j of JStr s \<Rightarrow> (case b64_decode s of Some b \<Rightarrow> b | None \<Rightarrow> []) | _ \<Rightarrow> [])"

text \<open>\<^verbatim>\<open>Hash.MarshalText\<close> and \<^verbatim>\<open>Hash.UnmarshalJSON\<close>, and the same for addresses.\<close>

definition Hash_MarshalText :: "hash \<Rightarrow> json" where
  "Hash_MarshalText h = JStr (Encode h)"

definition Hash_UnmarshalJSON :: "json \<Rightarrow> hash" where
  "Hash_UnmarshalJSON j =
     (case j of JStr s \<Rightarrow> (case UnmarshalFixedText s emptyHash of Inr h \<Rightarrow> h | Inl _ \<Rightarrow> emptyHash)
      | _ \<Rightarrow> emptyHash)"

definition Address_MarshalText :: "address \<Rightarrow> json" where
  "Address_MarshalText a = JStr (Encode a)"

definition Address_UnmarshalJSON :: "json \<Rightarrow> address" where
  "Address_UnmarshalJSON j =
     (case j of JStr s \<Rightarrow> (case UnmarshalFixedText s emptyAddress of Inr a \<Rightarrow> a | Inl _ \<Rightarrow> emptyAddress)
      | _ \<Rightarrow> emptyAddress)"

definition Output_json :: "Output \<Rightarrow> json" where
  "Output_json x = JObj [(''address'', Address_MarshalText (out_Address x)), (''amount'', json_int (out_Amount x))]"

definition Output_of_json :: "json \<Rightarrow> Output" where
  "Output_of_json j = \<lparr>out_Address = Address_UnmarshalJSON (jfield ''address'' j),
     out_Amount = int_of_json (jfield ''amount'' j)\<rparr>"

definition Input_json :: "Input \<Rightarrow> json" where
  "Input_json i = JObj
     [(''unit'', Hash_MarshalText (in_UnitHash i)), (''message_index'', json_int (in_MessageIndex i)),
      (''ouput_index'', json_int (in_OutputIndex i)), (''type'', JStr (in_Type i)),
      (''output'', Output_json (in_Output i))]"

definition Input_of_json :: "json \<Rightarrow> Input" where
  "Input_of_json j = \<lparr>in_UnitHash = Hash_UnmarshalJSON (jfield ''unit'' j),
     in_MessageIndex = int_of_json (jfield ''message_index'' j),
     in_OutputIndex = int_of_json (jfield ''ouput_index'' j),
     in_Type = str_of_json (jfield ''type'' j), in_Output = Output_of_json (jfield ''output'' j)\<rparr>"

definition Payload_json :: "Payload \<Rightarrow> json" where
  "Payload_json p = JObj [(''inputs'', JArr (map Input_json (pl_Inputs p))),
     (''outputs'', JArr (map Output_json (pl_Outputs p)))]"

definition Payload_of_json :: "json \<Rightarrow> Payload" where
  "Payload_of_json j = \<lparr>pl_Inputs = list_of_json Input_of_json (jfield ''inputs'' j),
     pl_Outputs = list_of_json Output_of_json (jfield ''outputs'' j)\<rparr>"

definition Message_json :: "Message \<Rightarrow> json" where
  "Message_json m = JObj [(''app'', JStr (msg_App m)), (''payloadhash'', Hash_MarshalText (msg_PayloadHash m)),
     (''payload'', Payload_json (msg_Payload m))]"

definition Message_of_json :: "json \<Rightarrow> Message" where
  "Message_of_json j = \<lparr>msg_App = str_of_json (jfield ''app'' j),
     msg_PayloadHash = Hash_UnmarshalJSON (jfield ''payloadhash'' j),
     msg_Payload = Payload_of_json (jfield ''payload'' j)\<rparr>"

definition Author_json :: "Author \<Rightarrow> json" where
  "Author_json a = JObj [(''address'', Address_MarshalText (au_Address a)),
     (''signature'', JStr (b64_encode (au_Signature a)))]"

definition Author_of_json :: "json \<Rightarrow> Author" where
  "Author_of_json j = \<lparr>au_Address = Address_UnmarshalJSON (jfield ''address'' j),
     au_Signature = bytes_of_json (jfield ''signature'' j)\<rparr>"

definition Unit_json :: "Unit \<Rightarrow> json" where
  "Unit_json u = JObj
     [(''hash'', Hash_MarshalText (u_Hash u)), (''version'', JStr (u_Version u)),
      (''witness_list'', JArr (map Address_MarshalText (u_WitnessList u))),
      (''last_ball_unit'', Hash_MarshalText (u_LastBallUnit u)),
      (''headers_commission'', json_int (u_HeadersCommission u)),
      (''payload_commission'', json_int (u_PayloadCommission u)),
      (''timestamp'', json_int (u_TimeStamp u)),
      (''parent_list'', JArr (map Hash_MarshalText (u_ParentList u))),
      (''authors'', JArr (map Author_json (u_Authors u))),
      (''messages'', JArr (map Message_json (u_Messages u))),
      (''best_parent_unit'', Hash_MarshalText (u_BestParentUnit u)),
      (''main_chain_index'', json_int (u_MainChainIndex u)),
      (''is_stable'', JBool (u_IsStable u)), (''is_on_main_chain'', JBool (u_IsOnMainChain u)),
      (''level'', json_int (u_Level u)), (''witnessed_level'', json_int (u_WitnessedLevel u)),
      (''sub_stable_min_hash'', Hash_MarshalText (u_SubStableMinHash u)),
      (''sub_stable_author'', Address_MarshalText (u_SubStableAuthor u)),
      (''is_good'', JBool (u_Invalid u))]"

definition Unit_of_json :: "json \<Rightarrow> Unit" where
  "Unit_of_json j =
     \<lparr>u_Hash = Hash_UnmarshalJSON (jfield ''hash'' j), u_Version = str_of_json (jfield ''version'' j),
      u_WitnessList = list_of_json Address_UnmarshalJSON (jfield ''witness_list'' j),
      u_LastBallUnit = Hash_UnmarshalJSON (jfield ''last_ball_unit'' j),
      u_HeadersCommission = int_of_json (jfield ''headers_commission'' j),
      u_PayloadCommission = int_of_json (jfield ''payload_commission'' j),
      u_TimeStamp = int_of_json (jfield ''timestamp'' j),
      u_ParentList = list_of_json Hash_UnmarshalJSON (jfield ''parent_list'' j),
      u_Authors = list_of_json Author_of_json (jfield ''authors'' j),
      u_Messages = list_of_json Message_of_json (jfield ''messages'' j),
      u_BestParentUnit = Hash_UnmarshalJSON (jfield ''best_parent_unit'' j),
      u_MainChainIndex = int_of_json (jfield ''main_chain_index'' j),
      u_IsStable = bool_of_json (jfield ''is_stable'' j),
      u_IsOnMainChain = bool_of_json (jfield ''is_on_main_chain'' j),
      u_Level = int_of_json (jfield ''level'' j),
      u_WitnessedLevel = int_of_json (jfield ''witnessed_level'' j),
      u_SubStableMinHash = Hash_UnmarshalJSON (jfield ''sub_stable_min_hash'' j),
      u_SubStableAuthor = Address_UnmarshalJSON (jfield ''sub_stable_author'' j),
      u_Invalid = bool_of_json (jfield ''is_good'' j)\<rparr>"

definition Ball_json :: "Ball \<Rightarrow> json" where
  "Ball_json b = JObj [(''unit_hash'', Hash_MarshalText (ball_UnitHash b)),
     (''parent_balls'', JArr (map Hash_MarshalText (ball_ParentBalls b))),
     (''is_invalid'', JBool (ball_IsInvalid b))]"

definition Ball_of_json :: "json \<Rightarrow> Ball" where
  "Ball_of_json j = \<lparr>ball_UnitHash = Hash_UnmarshalJSON (jfield ''unit_hash'' j),
     ball_ParentBalls = list_of_json Hash_UnmarshalJSON (jfield ''parent_balls'' j),
     ball_IsInvalid = bool_of_json (jfield ''is_invalid'' j)\<rparr>"

text \<open>The fields of \<^verbatim>\<open>UTXO\<close> and \<^verbatim>\<open>HashArray\<close> carry no tags, so their Go names are the keys.\<close>

definition UTXO_json :: "UTXO \<Rightarrow> json" where
  "UTXO_json u = JObj
     [(''UnitHash'', Hash_MarshalText (utxo_UnitHash u)), (''MessageIndex'', json_int (utxo_MessageIndex u)),
      (''OutputIndex'', json_int (utxo_OutputIndex u)), (''Output'', Output_json (utxo_Output u)),
      (''Type'', JStr (utxo_Type u))]"

definition UTXO_of_json :: "json \<Rightarrow> UTXO" where
  "UTXO_of_json j = \<lparr>utxo_UnitHash = Hash_UnmarshalJSON (jfield ''UnitHash'' j),
     utxo_MessageIndex = int_of_json (jfield ''MessageIndex'' j),
     utxo_OutputIndex = int_of_json (jfield ''OutputIndex'' j),
     utxo_Output = Output_of_json (jfield ''Output'' j), utxo_Type = str_of_json (jfield ''Type'' j)\<rparr>"

definition HashArray_json :: "HashArray \<Rightarrow> json" where
  "HashArray_json h = JObj [(''Hashes'', JArr (map Hash_MarshalText (ha_Hashes h)))]"

definition HashArray_of_json :: "json \<Rightarrow> HashArray" where
  "HashArray_of_json j = \<lparr>ha_Hashes = list_of_json Hash_UnmarshalJSON (jfield ''Hashes'' j)\<rparr>"

text \<open>
  Two fields of \<^verbatim>\<open>VoteResult\<close> carry the same tag \<^verbatim>\<open>time_stamp\<close>.  \<^verbatim>\<open>encoding/json\<close> drops all
  fields of a name that two tagged fields of one struct claim, on both sides.
\<close>

definition VoteResult_json :: "VoteResult \<Rightarrow> json" where
  "VoteResult_json v = JObj [(''vote_result'', Address_MarshalText (vr_VoteResult v)),
     (''replaced_witness'', Address_MarshalText (vr_ReplacedWitness v)),
     (''round'', json_int (vr_Round v))]"

text \<open>\<^verbatim>\<open>Unmarshal\<close> into an existing value overwrites the fields the document has.\<close>

definition VoteResult_of_json :: "json \<Rightarrow> VoteResult \<Rightarrow> VoteResult" where
  "VoteResult_of_json j v = v\<lparr>vr_VoteResult := Address_UnmarshalJSON (jfield ''vote_result'' j),
     vr_ReplacedWitness := Address_UnmarshalJSON (jfield ''replaced_witness'' j),
     vr_Round := int_of_json (jfield ''round'' j)\<rparr>"


section \<open>Hashes of records\<close>

definition json_hash :: "(bytes \<Rightarrow> hash) \<Rightarrow> json \<Rightarrow> hash" where
  "json_hash sum256 j = sum256 (map byte_of_char (json_text j))"

text \<open>Only the part of a unit that never changes is hashed: neither its level nor its stability.\<close>

definition UnitJSON :: "Unit \<Rightarrow> json" where
  "UnitJSON u = JObj
     [(''version'', JStr (u_Version u)), (''messages'', JArr (map Message_json (u_Messages u))),
      (''authors'', JArr (map Author_json (u_Authors u))),
      (''last_ball_unit'', Hash_MarshalText (u_LastBallUnit u)),
      (''parent_list'', JArr (map Hash_MarshalText (u_ParentList u))),
      (''witness_list'', JArr (map Address_MarshalText (u_WitnessList u))),
      (''headers_commission'', json_int (u_HeadersCommission u)),
      (''payload_commission'', json_int (u_PayloadCommission u))]"

definition HashKey :: "(bytes \<Rightarrow> hash) \<Rightarrow> Unit \<Rightarrow> hash" where
  "HashKey sum256 u = json_hash sum256 (UnitJSON u)"

definition StringKey :: "(bytes \<Rightarrow> hash) \<Rightarrow> Unit \<Rightarrow> string" where
  "StringKey sum256 u = (let hash = HashKey sum256 u in Hash_String hash)"

definition CalculateHash :: "(bytes \<Rightarrow> hash) \<Rightarrow> Unit \<Rightarrow> bytes" where
  "CalculateHash sum256 u = HashKey sum256 u"

definition Unit_Equals :: "Unit \<Rightarrow> Unit \<Rightarrow> bool" where
  "Unit_Equals u other \<longleftrightarrow> u_Hash u = u_Hash other"

definition GetPayloadHash :: "(bytes \<Rightarrow> hash) \<Rightarrow> Payload \<Rightarrow> hash" where
  "GetPayloadHash sum256 load = json_hash sum256 (Payload_json load)"

definition UTXO_ToHash :: "(bytes \<Rightarrow> hash) \<Rightarrow> UTXO \<Rightarrow> hash" where
  "UTXO_ToHash sum256 u = json_hash sum256 (UTXO_json u)"

definition Ball_HashKey :: "Ball \<Rightarrow> hash" where
  "Ball_HashKey b = ball_UnitHash b"

definition Ball_StringKey :: "Ball \<Rightarrow> string" where
  "Ball_StringKey b = Hash_String (Ball_HashKey b)"

section \<open>Stored values\<close>

text \<open>A database value is raw bytes or a JSON document; missing data (\<^verbatim>\<open>nil\<close>) is \<^const>\<open>None\<close>.\<close>

datatype blob = Raw bytes | Doc json

definition Unit2Byte :: "Unit \<Rightarrow> blob" where
  "Unit2Byte u = Doc (Unit_json u)"

definition Byte2Unit :: "blob option \<Rightarrow> Unit" where
  "Byte2Unit b = (case b of Some (Doc j) \<Rightarrow> Unit_of_json j | _ \<Rightarrow> NewEmptyUnit)"

definition Ball2Byte :: "Ball \<Rightarrow> blob" where
  "Ball2Byte b = Doc (Ball_json b)"

definition Byte2Ball :: "blob option \<Rightarrow> Ball" where
  "Byte2Ball b = (case b of Some (Doc j) \<Rightarrow> Ball_of_json j | _ \<Rightarrow> zeroBall)"

definition UTXO2Byte :: "UTXO \<Rightarrow> blob" where
  "UTXO2Byte u = Doc (UTXO_json u)"

definition Byte2UTXO :: "blob \<Rightarrow> UTXO" where
  "Byte2UTXO b = (case b of Doc j \<Rightarrow> UTXO_of_json j | Raw _ \<Rightarrow> NewEmptyUTXO)"

section \<open>Values of the Go types\<close>

definition wf_hash :: "hash \<Rightarrow> bool" where "wf_hash h \<longleftrightarrow> length h = HashLength"
definition wf_address :: "address \<Rightarrow> bool" where "wf_address a \<longleftrightarrow> length a = AddressLength"
definition wf_output :: "Output \<Rightarrow> bool" where "wf_output x \<longleftrightarrow> wf_address (out_Address x)"
definition wf_input :: "Input \<Rightarrow> bool" where
  "wf_input i \<longleftrightarrow> wf_hash (in_UnitHash i) \<and> wf_output (in_Output i)"
definition wf_payload :: "Payload \<Rightarrow> bool" where
  "wf_payload p \<longleftrightarrow> list_all wf_input (pl_Inputs p) \<and> list_all wf_output (pl_Outputs p)"
definition wf_message :: "Message \<Rightarrow> bool" where
  "wf_message m \<longleftrightarrow> wf_hash (msg_PayloadHash m) \<and> wf_payload (msg_Payload m)"
definition wf_author :: "Author \<Rightarrow> bool" where "wf_author a \<longleftrightarrow> wf_address (au_Address a)"
definition wf_utxo :: "UTXO \<Rightarrow> bool" where
  "wf_utxo u \<longleftrightarrow> wf_hash (utxo_UnitHash u) \<and> wf_output (utxo_Output u)"
definition wf_unit :: "Unit \<Rightarrow> bool" where
  "wf_unit u \<longleftrightarrow> wf_hash (u_Hash u) \<and> list_all wf_address (u_WitnessList u) \<and>
     wf_hash (u_LastBallUnit u) \<and> list_all wf_hash (u_ParentList u) \<and>
     list_all wf_author (u_Authors u) \<and> list_all wf_message (u_Messages u) \<and>
     wf_hash (u_BestParentUnit u) \<and> wf_hash (u_SubStableMinHash u) \<and> wf_address (u_SubStableAuthor u)"

lemmas wf_type_defs = wf_hash_def wf_address_def wf_output_def wf_input_def wf_payload_def
  wf_message_def wf_author_def wf_utxo_def wf_unit_def

section \<open>Round trips\<close>

lemma int_roundtrip [simp]: "int_of_json (json_int n) = n"
  by (simp add: int_of_json_def json_int_def)

lemma str_roundtrip [simp]: "str_of_json (JStr s) = s" and bool_roundtrip [simp]: "bool_of_json (JBool b) = b"
  and bytes_roundtrip [simp]: "bytes_of_json (JStr (b64_encode bs)) = bs"
  by (simp_all add: str_of_json_def bool_of_json_def bytes_of_json_def b64_roundtrip)

lemma list_roundtrip:
  "(\<And>x. x \<in> set xs \<Longrightarrow> f (g x) = x) \<Longrightarrow> list_of_json f (JArr (map g xs)) = xs"
  by (simp add: list_of_json_def map_idI)

lemma hash_roundtrip [simp]: "wf_hash h \<Longrightarrow> Hash_UnmarshalJSON (Hash_MarshalText h) = h"
  by (simp add: Hash_UnmarshalJSON_def Hash_MarshalText_def wf_hash_def emptyHash_def UnmarshalFixedText_Encode)

lemma address_roundtrip [simp]: "wf_address a \<Longrightarrow> Address_UnmarshalJSON (Address_MarshalText a) = a"
  by (simp add: Address_UnmarshalJSON_def Address_MarshalText_def wf_address_def emptyAddress_def
      UnmarshalFixedText_Encode)

lemma jfield_Cons: "jfield k (JObj ((k', v) # fs)) = (if k = k' then v else jfield k (JObj fs))"
  by (simp add: jfield_def)

lemma Output_roundtrip [simp]: "wf_output x \<Longrightarrow> Output_of_json (Output_json x) = x"
  by (simp add: Output_of_json_def Output_json_def jfield_Cons wf_output_def)

lemma Input_roundtrip [simp]: "wf_input i \<Longrightarrow> Input_of_json (Input_json i) = i"
  by (simp add: Input_of_json_def Input_json_def jfield_Cons wf_input_def)

lemma Payload_roundtrip [simp]: "wf_payload p \<Longrightarrow> Payload_of_json (Payload_json p) = p"
  by (simp add: Payload_of_json_def Payload_json_def jfield_Cons wf_payload_def list_all_iff list_roundtrip)

lemma Message_roundtrip [simp]: "wf_message m \<Longrightarrow> Message_of_json (Message_json m) = m"
  by (simp add: Message_of_json_def Message_json_def jfield_Cons wf_message_def)

lemma Author_roundtrip [simp]: "wf_author a \<Longrightarrow> Author_of_json (Author_json a) = a"
  by (simp add: Author_of_json_def Author_json_def jfield_Cons wf_author_def)

lemma UTXO_json_roundtrip [simp]: "wf_utxo u \<Longrightarrow> UTXO_of_json (UTXO_json u) = u"
  by (simp add: UTXO_of_json_def UTXO_json_def jfield_Cons wf_utxo_def)

lemma Unit_json_roundtrip: "wf_unit u \<Longrightarrow> Unit_of_json (Unit_json u) = u"
  by (simp add: Unit_of_json_def Unit_json_def jfield_Cons wf_unit_def list_all_iff list_roundtrip)

lemma Unit_roundtrip [simp]: "wf_unit u \<Longrightarrow> Byte2Unit (Some (Unit2Byte u)) = u"
  by (simp add: Byte2Unit_def Unit2Byte_def Unit_json_roundtrip)

lemma UTXO_roundtrip [simp]: "wf_utxo u \<Longrightarrow> Byte2UTXO (UTXO2Byte u) = u"
  by (simp add: Byte2UTXO_def UTXO2Byte_def)

text \<open>The key of a unit does not depend on the fields that the consensus updates.\<close>

lemma HashKey_frame:
  "HashKey sum256 (ResetStableState u) = HashKey sum256 u"
  "HashKey sum256 (ChangeStable mci u) = HashKey sum256 u"
  "HashKey sum256 (UpdataSubStableMinHash h a u) = HashKey sum256 u"
  "HashKey sum256 (u\<lparr>u_Invalid := b\<rparr>) = HashKey sum256 u"
  by (simp_all add: HashKey_def UnitJSON_def ResetStableState_def ChangeStable_def UpdataSubStableMinHash_def)

lemma AddInputs_eq: "AddInputs is load = load\<lparr>pl_Inputs := pl_Inputs load @ is\<rparr>"
  unfolding AddInputs_def by (induction "is" arbitrary: load) simp_all

lemma AddOutputs_eq: "AddOutputs os load = load\<lparr>pl_Outputs := pl_Outputs load @ os\<rparr>"
  unfolding AddOutputs_def by (induction os arbitrary: load) simp_all

lemma sort_Units_perm: "mset (sort_Units us) = mset us"
  by (simp add: sort_Units_def)

lemma sort_Units_sorted: "sorted (map (\<lambda>u. sint (u_Level u)) (sort_Units us))"
  by (simp add: sort_Units_def)

end
