(* ===== verification/GraphOps.thy ===== *)
theory GraphOps
  imports CoreTypes "HOL-Library.AList"
begin

text \<open>
  The containers of \<^verbatim>\<open>common/graphop\<close> (\<^verbatim>\<open>HashSet\<close>, \<^verbatim>\<open>AddressSet\<close>, \<^verbatim>\<open>HashMap\<close>) and of
  \<^verbatim>\<open>common/set\<close>, all of them thin wrappers of a Go map under a lock.  A Go map is an
  association list with distinct keys; the order in which \<^verbatim>\<open>range\<close> visits it is not
  specified by the language, so every function that iterates takes the order \<open>it\<close> as an
  argument, and \<open>iter_ok\<close> says that it visits every entry exactly once.

  The interface \<open>key_set\<close> is what the rest of the node relies on; the three set types
  implement it (interpretations \<open>hset\<close>, \<open>aset\<close>, \<open>cset\<close>).
\<close>

section \<open>Go maps\<close>

type_synonym ('k, 'v) gomap = "('k \<times> 'v) list"
type_synonym ('k, 'v) iter = "('k, 'v) gomap \<Rightarrow> ('k, 'v) gomap"

definition iter_ok :: "('k, 'v) iter \<Rightarrow> bool" where
  "iter_ok it \<longleftrightarrow> (\<forall>m. mset (it m) = mset m)"

abbreviation wf_map :: "('k, 'v) gomap \<Rightarrow> bool" where
  "wf_map m \<equiv> distinct (map fst m)"

abbreviation map_put :: "'k \<Rightarrow> 'v \<Rightarrow> ('k, 'v) gomap \<Rightarrow> ('k, 'v) gomap" where
  "map_put \<equiv> AList.update"

abbreviation map_del :: "'k \<Rightarrow> ('k, 'v) gomap \<Rightarrow> ('k, 'v) gomap" where
  "map_del \<equiv> AList.delete"

lemma iter_set: "iter_ok it \<Longrightarrow> set (it m) = set m"
  by (metis iter_ok_def mset_eq_setD)

lemma iter_wf: "iter_ok it \<Longrightarrow> wf_map m \<Longrightarrow> wf_map (it m)"
  by (metis iter_ok_def mset_eq_imp_distinct_iff mset_map)

lemma iter_map_of: "iter_ok it \<Longrightarrow> wf_map m \<Longrightarrow> map_of (it m) = map_of m"
  by (simp add: iter_set iter_wf map_of_inject_set)

lemma map_of_put: "map_of (map_put k v m) = (map_of m)(k \<mapsto> v)"
  by (simp add: update_conv')

lemma map_of_del: "map_of (map_del k m) = (map_of m)(k := None)"
  by (simp add: delete_conv')

lemma iter_ok_id [simp]: "iter_ok (\<lambda>m. m)" and iter_ok_rev [simp]: "iter_ok rev"
  by (simp_all add: iter_ok_def)

section \<open>common/graphop/hashset.go\<close>

record HashSet =
  hs_data :: "(hash, unit) gomap"

definition NewHashSet :: HashSet where
  "NewHashSet = \<lparr>hs_data = []\<rparr>"

definition HashSet_Insert :: "hash \<Rightarrow> HashSet \<Rightarrow> HashSet" where
  "HashSet_Insert val hs = hs\<lparr>hs_data := map_put val () (hs_data hs)\<rparr>"

definition HashSet_ListInsert :: "hash list \<Rightarrow> HashSet \<Rightarrow> HashSet" where
  "HashSet_ListInsert list hs = fold (\<lambda>val hs. hs\<lparr>hs_data := map_put val () (hs_data hs)\<rparr>) list hs"

definition HashSet_Remove :: "hash \<Rightarrow> HashSet \<Rightarrow> HashSet" where
  "HashSet_Remove val hs = hs\<lparr>hs_data := map_del val (hs_data hs)\<rparr>"

definition HashSet_Size :: "HashSet \<Rightarrow> nat" where
  "HashSet_Size hs = length (hs_data hs)"

definition HashSet_Empty :: "HashSet \<Rightarrow> bool" where
  "HashSet_Empty hs \<longleftrightarrow> HashSet_Size hs = 0"

definition HashSet_Exists :: "hash \<Rightarrow> HashSet \<Rightarrow> bool" where
  "HashSet_Exists val hs \<longleftrightarrow> map_of (hs_data hs) val \<noteq> None"

definition GetAllHash :: "(hash, unit) iter \<Rightarrow> HashSet \<Rightarrow> hash list" where
  "GetAllHash it hs = fold (\<lambda>(val, _) setList. setList @ [val]) (it (hs_data hs)) []"

definition GetAllHashAsString :: "(hash, unit) iter \<Rightarrow> HashSet \<Rightarrow> string list" where
  "GetAllHashAsString it hs = fold (\<lambda>(val, _) setList. setList @ [Hash_String val]) (it (hs_data hs)) []"

section \<open>common/graphop/addressset.go\<close>

record AddressSet =
  as_data :: "(address, unit) gomap"

definition NewAddressSet :: AddressSet where
  "NewAddressSet = \<lparr>as_data = []\<rparr>"

definition AddressSet_Insert :: "address \<Rightarrow> AddressSet \<Rightarrow> AddressSet" where
  "AddressSet_Insert val hs = hs\<lparr>as_data := map_put val () (as_data hs)\<rparr>"

definition AddressSet_ListInsert :: "address list \<Rightarrow> AddressSet \<Rightarrow> AddressSet" where
  "AddressSet_ListInsert list hs = fold (\<lambda>val hs. hs\<lparr>as_data := map_put val () (as_data hs)\<rparr>) list hs"

definition AddressSet_Remove :: "address \<Rightarrow> AddressSet \<Rightarrow> AddressSet" where
  "AddressSet_Remove val hs = hs\<lparr>as_data := map_del val (as_data hs)\<rparr>"

definition AddressSet_Size :: "AddressSet \<Rightarrow> nat" where
  "AddressSet_Size hs = length (as_data hs)"

definition AddressSet_Empty :: "AddressSet \<Rightarrow> bool" where
  "AddressSet_Empty hs \<longleftrightarrow> AddressSet_Size hs = 0"

definition AddressSet_Exists :: "address \<Rightarrow> AddressSet \<Rightarrow> bool" where
  "AddressSet_Exists val hs \<longleftrightarrow> map_of (as_data hs) val \<noteq> None"

definition GetAllAddress :: "(address, unit) iter \<Rightarrow> AddressSet \<Rightarrow> address list" where
  "GetAllAddress it hs = fold (\<lambda>(val, _) setList. setList @ [val]) (it (as_data hs)) []"

definition GetAllAddressAsString ::
    "(bytes \<Rightarrow> bytes) \<Rightarrow> (address, unit) iter \<Rightarrow> AddressSet \<Rightarrow> string list" where
  "GetAllAddressAsString keccak it hs =
     fold (\<lambda>(val, _) setList. setList @ [Address_String keccak val]) (it (as_data hs)) []"

section \<open>common/set/set.go\<close>

record 'a GoSet =
  set_data :: "('a, unit) gomap"

definition Set_New :: "'a GoSet" where
  "Set_New = \<lparr>set_data = []\<rparr>"

definition Set_Insert :: "'a \<Rightarrow> 'a GoSet \<Rightarrow> 'a GoSet" where
  "Set_Insert val s = s\<lparr>set_data := map_put val () (set_data s)\<rparr>"

definition Set_Remove :: "'a \<Rightarrow> 'a GoSet \<Rightarrow> 'a GoSet" where
  "Set_Remove val s = s\<lparr>set_data := map_del val (set_data s)\<rparr>"

definition Set_Size :: "'a GoSet \<Rightarrow> nat" where
  "Set_Size s = length (set_data s)"

definition Set_Exists :: "'a \<Rightarrow> 'a GoSet \<Rightarrow> bool" where
  "Set_Exists val s \<longleftrightarrow> map_of (set_data s) val \<noteq> None"

text \<open>\<^verbatim>\<open>Do\<close> calls \<open>f\<close> on every element; the effects of \<open>f\<close> are threaded through \<open>acc\<close>.\<close>

definition Set_Do :: "('a, unit) iter \<Rightarrow> ('a \<Rightarrow> 'b \<Rightarrow> 'b) \<Rightarrow> 'a GoSet \<Rightarrow> 'b \<Rightarrow> 'b" where
  "Set_Do it f s acc = fold (\<lambda>(val, _). f val) (it (set_data s)) acc"

definition Set_Reset :: "'a GoSet \<Rightarrow> 'a GoSet" where
  "Set_Reset s = Set_New"

section \<open>common/graphop/hashmap.go\<close>

record HashMap =
  hm_data :: "(hash, Unit) gomap"

definition NewHashMap :: HashMap where
  "NewHashMap = \<lparr>hm_data = []\<rparr>"

definition HashMap_Insert :: "hash \<Rightarrow> Unit \<Rightarrow> HashMap \<Rightarrow> HashMap" where
  "HashMap_Insert h u hm = hm\<lparr>hm_data := map_put h u (hm_data hm)\<rparr>"

definition HashMap_Remove :: "hash \<Rightarrow> HashMap \<Rightarrow> HashMap" where
  "HashMap_Remove h hm = hm\<lparr>hm_data := map_del h (hm_data hm)\<rparr>"

definition HashMap_Size :: "HashMap \<Rightarrow> nat" where
  "HashMap_Size hm = length (hm_data hm)"

definition HashMap_Empty :: "HashMap \<Rightarrow> bool" where
  "HashMap_Empty hm \<longleftrightarrow> HashMap_Size hm = 0"

text \<open>Reading a missing key of a Go map gives the zero value.\<close>

definition HashMap_Read :: "hash \<Rightarrow> HashMap \<Rightarrow> Unit" where
  "HashMap_Read h hm = (case map_of (hm_data hm) h of Some u \<Rightarrow> u | None \<Rightarrow> NewEmptyUnit)"

definition HashMap_Exists :: "hash \<Rightarrow> HashMap \<Rightarrow> bool" where
  "HashMap_Exists val hm \<longleftrightarrow> map_of (hm_data hm) val \<noteq> None"

definition HashMap_GetAllData :: "HashMap \<Rightarrow> (hash, Unit) gomap" where
  "HashMap_GetAllData hm = hm_data hm"

definition GetAllValue :: "(hash, Unit) iter \<Rightarrow> HashMap \<Rightarrow> Unit list" where
  "GetAllValue it hm = fold (\<lambda>(_, val) list. list @ [val]) (it (hm_data hm)) []"

definition GetAllKey :: "(hash, Unit) iter \<Rightarrow> HashMap \<Rightarrow> hash list" where
  "GetAllKey it hm = fold (\<lambda>(val, _) mapList. mapList @ [val]) (it (hm_data hm)) []"

definition GetAllKeyAsString :: "(hash, Unit) iter \<Rightarrow> HashMap \<Rightarrow> string list" where
  "GetAllKeyAsString it hm = fold (\<lambda>(val, _) mapList. mapList @ [Hash_String val]) (it (hm_data hm)) []"

section \<open>The interface of a set of keys\<close>

locale key_set =
  fixes new :: 's
    and insert :: "'k \<Rightarrow> 's \<Rightarrow> 's"
    and remove :: "'k \<Rightarrow> 's \<Rightarrow> 's"
    and exists :: "'k \<Rightarrow> 's \<Rightarrow> bool"
    and size :: "'s \<Rightarrow> nat"
    and elems :: "'s \<Rightarrow> 'k set"
    and invar :: "'s \<Rightarrow> bool"
  assumes elems_new: "elems new = {}"
    and elems_insert: "elems (insert k s) = Set.insert k (elems s)"
    and elems_remove: "elems (remove k s) = elems s - {k}"
    and exists_elems: "exists k s \<longleftrightarrow> k \<in> elems s"
    and size_elems: "invar s \<Longrightarrow> size s = card (elems s)"
    and finite_elems: "finite (elems s)"
    and invar_new: "invar new"
    and invar_insert: "invar s \<Longrightarrow> invar (insert k s)"
    and invar_remove: "invar s \<Longrightarrow> invar (remove k s)"
begin

lemma elems_insert_all: "elems (fold insert ks s) = set ks \<union> elems s"
  by (induction ks arbitrary: s) (auto simp: elems_insert)

lemma invar_insert_all: "invar s \<Longrightarrow> invar (fold insert ks s)"
  by (induction ks arbitrary: s) (auto simp: invar_insert)

lemma elems_remove_all: "elems (fold remove ks s) = elems s - set ks"
  by (induction ks arbitrary: s) (auto simp: elems_remove)

lemma invar_remove_all: "invar s \<Longrightarrow> invar (fold remove ks s)"
  by (induction ks arbitrary: s) (auto simp: invar_remove)

lemma size_zero: "invar s \<Longrightarrow> size s = 0 \<longleftrightarrow> elems s = {}"
  using size_elems finite_elems by simp

lemma size_insert: "invar s \<Longrightarrow> size (insert k s) = (if exists k s then size s else Suc (size s))"
  using finite_elems by (simp add: size_elems invar_insert elems_insert exists_elems insert_absorb)

end

definition hs_elems :: "HashSet \<Rightarrow> hash set" where "hs_elems hs = fst ` set (hs_data hs)"
definition hs_inv :: "HashSet \<Rightarrow> bool" where "hs_inv hs \<longleftrightarrow> wf_map (hs_data hs)"
definition as_elems :: "AddressSet \<Rightarrow> address set" where "as_elems hs = fst ` set (as_data hs)"
definition as_inv :: "AddressSet \<Rightarrow> bool" where "as_inv hs \<longleftrightarrow> wf_map (as_data hs)"
definition set_elems :: "'a GoSet \<Rightarrow> 'a set" where "set_elems s = fst ` set (set_data s)"
definition set_inv :: "'a GoSet \<Rightarrow> bool" where "set_inv s \<longleftrightarrow> wf_map (set_data s)"

lemma keys_put: "fst ` set (map_put k v m) = Set.insert k (fst ` set m)"
  unfolding dom_map_of_conv_image_fst [symmetric] by (auto simp: map_of_put)

lemma keys_del: "fst ` set (map_del k m) = fst ` set m - {k}"
  unfolding dom_map_of_conv_image_fst [symmetric] by (auto simp: map_of_del)

lemma key_exists: "map_of m k \<noteq> None \<longleftrightarrow> k \<in> fst ` set m"
  by (simp add: map_of_eq_None_iff)

lemma keys_card: "wf_map m \<Longrightarrow> length m = card (fst ` set m)"
  by (metis distinct_card length_map set_map)

lemma key_exists_unit: "map_of m k = Some () \<longleftrightarrow> k \<in> fst ` set m"
  using key_exists[of m k] by simp

lemmas keys_simps = key_exists_unit keys_put keys_del keys_card key_exists distinct_update distinct_delete

interpretation hset: key_set NewHashSet HashSet_Insert HashSet_Remove HashSet_Exists HashSet_Size hs_elems hs_inv
  by unfold_locales
    (simp_all add: NewHashSet_def HashSet_Insert_def HashSet_Remove_def HashSet_Exists_def HashSet_Size_def
      hs_elems_def hs_inv_def keys_simps)

interpretation aset: key_set NewAddressSet AddressSet_Insert AddressSet_Remove AddressSet_Exists
    AddressSet_Size as_elems as_inv
  by unfold_locales
    (simp_all add: NewAddressSet_def AddressSet_Insert_def AddressSet_Remove_def AddressSet_Exists_def
      AddressSet_Size_def as_elems_def as_inv_def keys_simps)

interpretation cset: key_set Set_New Set_Insert Set_Remove Set_Exists Set_Size set_elems set_inv
  by unfold_locales
    (simp_all add: Set_New_def Set_Insert_def Set_Remove_def Set_Exists_def Set_Size_def
      set_elems_def set_inv_def keys_simps)

section \<open>Inserting lists and listing the elements\<close>

lemma HashSet_ListInsert_fold: "HashSet_ListInsert ks hs = fold HashSet_Insert ks hs"
  by (simp add: HashSet_ListInsert_def HashSet_Insert_def[abs_def])

lemma AddressSet_ListInsert_fold: "AddressSet_ListInsert ks hs = fold AddressSet_Insert ks hs"
  by (simp add: AddressSet_ListInsert_def AddressSet_Insert_def[abs_def])

lemma HashSet_ListInsert_elems: "hs_elems (HashSet_ListInsert ks hs) = set ks \<union> hs_elems hs"
  and HashSet_ListInsert_inv: "hs_inv hs \<Longrightarrow> hs_inv (HashSet_ListInsert ks hs)"
  by (simp_all add: HashSet_ListInsert_fold hset.elems_insert_all hset.invar_insert_all)

lemma AddressSet_ListInsert_elems: "as_elems (AddressSet_ListInsert ks hs) = set ks \<union> as_elems hs"
  and AddressSet_ListInsert_inv: "as_inv hs \<Longrightarrow> as_inv (AddressSet_ListInsert ks hs)"
  by (simp_all add: AddressSet_ListInsert_fold aset.elems_insert_all aset.invar_insert_all)

lemma HashSet_Empty_iff: "hs_inv hs \<Longrightarrow> HashSet_Empty hs \<longleftrightarrow> hs_elems hs = {}"
  by (simp add: HashSet_Empty_def hset.size_zero)

lemma AddressSet_Empty_iff: "as_inv hs \<Longrightarrow> AddressSet_Empty hs \<longleftrightarrow> as_elems hs = {}"
  by (simp add: AddressSet_Empty_def aset.size_zero)

lemma collect_fold: "fold (\<lambda>x xs. xs @ [f x]) ys xs = xs @ map f ys"
  by (induction ys arbitrary: xs) auto

lemma GetAllHash_eq: "GetAllHash it hs = map fst (it (hs_data hs))"
  using collect_fold[of fst "it (hs_data hs)" "[]"] by (simp add: GetAllHash_def case_prod_beta')

lemma GetAllAddress_eq: "GetAllAddress it hs = map fst (it (as_data hs))"
  using collect_fold[of fst "it (as_data hs)" "[]"] by (simp add: GetAllAddress_def case_prod_beta')

lemma GetAllValue_eq: "GetAllValue it hm = map snd (it (hm_data hm))"
  using collect_fold[of snd "it (hm_data hm)" "[]"] by (simp add: GetAllValue_def case_prod_beta')

lemma GetAllKey_eq: "GetAllKey it hm = map fst (it (hm_data hm))"
  using collect_fold[of fst "it (hm_data hm)" "[]"] by (simp add: GetAllKey_def case_prod_beta')

lemma GetAllHash_set: "iter_ok it \<Longrightarrow> set (GetAllHash it hs) = hs_elems hs"
  and GetAllHash_distinct: "iter_ok it \<Longrightarrow> hs_inv hs \<Longrightarrow> distinct (GetAllHash it hs)"
  by (simp_all add: GetAllHash_eq iter_set hs_elems_def hs_inv_def iter_wf)

lemma GetAllAddress_set: "iter_ok it \<Longrightarrow> set (GetAllAddress it hs) = as_elems hs"
  and GetAllAddress_distinct: "iter_ok it \<Longrightarrow> as_inv hs \<Longrightarrow> distinct (GetAllAddress it hs)"
  by (simp_all add: GetAllAddress_eq iter_set as_elems_def as_inv_def iter_wf)

text \<open>The map of units: what it holds as a partial function.\<close>

definition hm_inv :: "HashMap \<Rightarrow> bool" where "hm_inv hm \<longleftrightarrow> wf_map (hm_data hm)"
definition hm_map :: "HashMap \<Rightarrow> hash \<rightharpoonup> Unit" where "hm_map hm = map_of (hm_data hm)"

lemma hm_simps [abs_simps]:
  "hm_map NewHashMap = Map.empty" "hm_map (HashMap_Insert h u hm) = (hm_map hm)(h \<mapsto> u)"
  "hm_map (HashMap_Remove h hm) = (hm_map hm)(h := None)"
  "HashMap_Exists h hm \<longleftrightarrow> hm_map hm h \<noteq> None"
  "HashMap_Read h hm = (case hm_map hm h of Some u \<Rightarrow> u | None \<Rightarrow> NewEmptyUnit)"
  by (simp_all add: hm_map_def NewHashMap_def HashMap_Insert_def HashMap_Remove_def HashMap_Exists_def
      HashMap_Read_def map_of_put map_of_del)

lemma hm_inv_intros [inv_intros]:
  "hm_inv NewHashMap" "hm_inv hm \<Longrightarrow> hm_inv (HashMap_Insert h u hm)"
  "hm_inv hm \<Longrightarrow> hm_inv (HashMap_Remove h hm)"
  by (simp_all add: hm_inv_def NewHashMap_def HashMap_Insert_def HashMap_Remove_def keys_simps)

lemma GetAllValue_set: "iter_ok it \<Longrightarrow> hm_inv hm \<Longrightarrow> set (GetAllValue it hm) = ran (hm_map hm)"
  by (simp add: GetAllValue_eq iter_set hm_inv_def hm_map_def ran_distinct)

end
