(* ===== verification/LevelDb.thy ===== *)
theory LevelDb
  imports GraphOps "HOL-Library.RBT"
begin

text \<open>
  The database layer: \<^verbatim>\<open>leveldb/database.go\<close> (the wrapper of goleveldb, its batches and
  prefixed tables) and \<^verbatim>\<open>leveldb/dbservice.go\<close> (\<^verbatim>\<open>DatabaseManager\<close>, the typed tables of units,
  balls, tips, witnesses, unspent and pending outputs, vote rounds and results).

  What is not under \<^verbatim>\<open>src/\<close> is an argument: the goleveldb database, the hash functions and the
  constants of the package \<^verbatim>\<open>config\<close> are the fields of the record \<open>env\<close>, and \<open>env_ok\<close> states the
  documented behaviour of goleveldb and that the key prefixes tell the tables apart.
  \<open>mem_env\<close> is a concrete environment that satisfies it.
\<close>

section \<open>The environment\<close>

record config =
  ConstDBUnitPrefix :: string
  ConstDBBallPrefix :: string
  ConstDBParentListPrefix :: string
  ConstDBWitnessListPrefix :: string
  ConstDBOutputPrefix :: string
  ConstDBPendingUnitPrefix :: string
  ConstDBChildrenHash :: string
  ConstDBStableUnitsPrefix :: string
  ConstDBVoteRound :: string
  ConstDBVoteResult :: string
  ConstCacheUnit :: string
  GENISIS_UNIT_HASH :: string
  MajorityOfWitnesses :: nat
  Const_Stable_Rounds :: int64

datatype batchOp = BPut string blob | BDelete string

record 's env =
  cfg :: config
  keccak :: "bytes \<Rightarrow> bytes"
  sum256 :: "bytes \<Rightarrow> hash"
  ldb_Get :: "string \<Rightarrow> 's \<Rightarrow> blob option"
  ldb_Put :: "string \<Rightarrow> blob \<Rightarrow> 's \<Rightarrow> 's"
  ldb_Has :: "string \<Rightarrow> 's \<Rightarrow> bool"
  ldb_Delete :: "string \<Rightarrow> 's \<Rightarrow> 's"
  ldb_Write :: "batchOp list \<Rightarrow> 's \<Rightarrow> 's"
  ldb_Iter :: "string \<Rightarrow> 's \<Rightarrow> (string \<times> blob) list"

fun apply_op :: "'s env \<Rightarrow> batchOp \<Rightarrow> 's \<Rightarrow> 's" where
  "apply_op E (BPut k v) s = ldb_Put E k v s"
| "apply_op E (BDelete k) s = ldb_Delete E k s"

text \<open>
  The documented behaviour of goleveldb: a read sees the last write of the key, a batch is
  its operations in order, and an iterator over a prefix visits the keys with that prefix
  in increasing order.
\<close>

definition ldb_ok :: "'s env \<Rightarrow> bool" where
  "ldb_ok E \<longleftrightarrow>
     (\<forall>k v s k'. ldb_Get E k' (ldb_Put E k v s) = (if k' = k then Some v else ldb_Get E k' s)) \<and>
     (\<forall>k s k'. ldb_Get E k' (ldb_Delete E k s) = (if k' = k then None else ldb_Get E k' s)) \<and>
     (\<forall>k s. ldb_Has E k s \<longleftrightarrow> ldb_Get E k s \<noteq> None) \<and>
     (\<forall>ops s. ldb_Write E ops s = fold (apply_op E) ops s) \<and>
     (\<forall>p s. sorted (map fst (ldb_Iter E p s)) \<and> distinct (map fst (ldb_Iter E p s)) \<and>
        set (ldb_Iter E p s) = {(k, v). prefix p k \<and> ldb_Get E k s = Some v})"

text \<open>No key prefix is a prefix of another, so the tables have no key in common.\<close>

definition db_prefixes :: "config \<Rightarrow> string list" where
  "db_prefixes c =
     [ConstDBUnitPrefix c, ConstDBBallPrefix c, ConstDBParentListPrefix c, ConstDBWitnessListPrefix c,
      ConstDBOutputPrefix c, ConstDBPendingUnitPrefix c, ConstDBChildrenHash c,
      ConstDBStableUnitsPrefix c, ConstDBVoteRound c, ConstDBVoteResult c, ConstCacheUnit c]"

definition apart :: "string \<Rightarrow> string \<Rightarrow> bool" where
  "apart p q \<longleftrightarrow> \<not> prefix p q \<and> \<not> prefix q p"

definition env_ok :: "'s env \<Rightarrow> bool" where
  "env_ok E \<longleftrightarrow> ldb_ok E \<and> sorted_wrt apart (db_prefixes (cfg E)) \<and>
     (\<forall>x. length (sum256 E x) = HashLength)"

section \<open>leveldb/database.go\<close>

datatype dbError = ErrNotFound

definition LDB_Put :: "'s env \<Rightarrow> string \<Rightarrow> blob \<Rightarrow> 's \<Rightarrow> 's" where
  "LDB_Put E key val s = ldb_Put E key val s"

definition LDB_Has :: "'s env \<Rightarrow> string \<Rightarrow> 's \<Rightarrow> bool" where
  "LDB_Has E key s = ldb_Has E key s"

text \<open>The value, \<^verbatim>\<open>nil\<close> with the error if the key is missing.\<close>

definition LDB_Get :: "'s env \<Rightarrow> string \<Rightarrow> 's \<Rightarrow> blob option \<times> dbError option" where
  "LDB_Get E key s = (case ldb_Get E key s of None \<Rightarrow> (None, Some ErrNotFound) | Some dat \<Rightarrow> (Some dat, None))"

definition LDB_Delete :: "'s env \<Rightarrow> string \<Rightarrow> 's \<Rightarrow> 's" where
  "LDB_Delete E key s = ldb_Delete E key s"

definition NewIteratorWithPrefix :: "'s env \<Rightarrow> string \<Rightarrow> 's \<Rightarrow> (string \<times> blob) list" where
  "NewIteratorWithPrefix E p s = ldb_Iter E p s"

record ldbBatch =
  b_ops :: "batchOp list"
  b_size :: nat

fun blob_len :: "blob \<Rightarrow> nat" where
  "blob_len (Raw b) = length b"
| "blob_len (Doc j) = length (json_text j)"

definition NewBatch :: ldbBatch where
  "NewBatch = \<lparr>b_ops = [], b_size = 0\<rparr>"

definition batch_Put :: "string \<Rightarrow> blob \<Rightarrow> ldbBatch \<Rightarrow> ldbBatch" where
  "batch_Put key val b = b\<lparr>b_ops := b_ops b @ [BPut key val], b_size := b_size b + blob_len val\<rparr>"

definition batch_Delete :: "string \<Rightarrow> ldbBatch \<Rightarrow> ldbBatch" where
  "batch_Delete key b = b\<lparr>b_ops := b_ops b @ [BDelete key], b_size := b_size b + 1\<rparr>"

definition batch_Write :: "'s env \<Rightarrow> ldbBatch \<Rightarrow> 's \<Rightarrow> 's" where
  "batch_Write E b s = ldb_Write E (b_ops b) s"

definition batch_ValueSize :: "ldbBatch \<Rightarrow> nat" where
  "batch_ValueSize b = b_size b"

definition batch_Reset :: "ldbBatch \<Rightarrow> ldbBatch" where
  "batch_Reset b = \<lparr>b_ops = [], b_size = 0\<rparr>"

subsection \<open>Tables: a database with a key prefix\<close>

record table =
  tb_prefix :: string

definition NewTable :: "string \<Rightarrow> table" where
  "NewTable p = \<lparr>tb_prefix = p\<rparr>"

definition table_Put :: "'s env \<Rightarrow> table \<Rightarrow> string \<Rightarrow> blob \<Rightarrow> 's \<Rightarrow> 's" where
  "table_Put E dt key val s = LDB_Put E (tb_prefix dt @ key) val s"

definition table_Has :: "'s env \<Rightarrow> table \<Rightarrow> string \<Rightarrow> 's \<Rightarrow> bool" where
  "table_Has E dt key s = LDB_Has E (tb_prefix dt @ key) s"

definition table_Get :: "'s env \<Rightarrow> table \<Rightarrow> string \<Rightarrow> 's \<Rightarrow> blob option \<times> dbError option" where
  "table_Get E dt key s = LDB_Get E (tb_prefix dt @ key) s"

definition table_Delete :: "'s env \<Rightarrow> table \<Rightarrow> string \<Rightarrow> 's \<Rightarrow> 's" where
  "table_Delete E dt key s = LDB_Delete E (tb_prefix dt @ key) s"

record tableBatch =
  tbb_batch :: ldbBatch
  tbb_prefix :: string

definition NewTableBatch :: "string \<Rightarrow> tableBatch" where
  "NewTableBatch p = \<lparr>tbb_batch = NewBatch, tbb_prefix = p\<rparr>"

definition table_NewBatch :: "table \<Rightarrow> tableBatch" where
  "table_NewBatch dt = \<lparr>tbb_batch = NewBatch, tbb_prefix = tb_prefix dt\<rparr>"

definition tableBatch_Put :: "string \<Rightarrow> blob \<Rightarrow> tableBatch \<Rightarrow> tableBatch" where
  "tableBatch_Put key val tb = tb\<lparr>tbb_batch := batch_Put (tbb_prefix tb @ key) val (tbb_batch tb)\<rparr>"

definition tableBatch_Delete :: "string \<Rightarrow> tableBatch \<Rightarrow> tableBatch" where
  "tableBatch_Delete key tb = tb\<lparr>tbb_batch := batch_Delete (tbb_prefix tb @ key) (tbb_batch tb)\<rparr>"

definition tableBatch_Write :: "'s env \<Rightarrow> tableBatch \<Rightarrow> 's \<Rightarrow> 's" where
  "tableBatch_Write E tb s = batch_Write E (tbb_batch tb) s"

definition tableBatch_ValueSize :: "tableBatch \<Rightarrow> nat" where
  "tableBatch_ValueSize tb = batch_ValueSize (tbb_batch tb)"

definition tableBatch_Reset :: "tableBatch \<Rightarrow> tableBatch" where
  "tableBatch_Reset tb = tb\<lparr>tbb_batch := batch_Reset (tbb_batch tb)\<rparr>"

section \<open>leveldb/dbservice.go: keys\<close>

definition unitKey :: "'s env \<Rightarrow> hash \<Rightarrow> string" where
  "unitKey E h = ConstDBUnitPrefix (cfg E) @ Hash_String h"

definition ballKey :: "'s env \<Rightarrow> hash \<Rightarrow> string" where
  "ballKey E h = ConstDBBallPrefix (cfg E) @ Hash_String h"

definition parentKey :: "'s env \<Rightarrow> hash \<Rightarrow> string" where
  "parentKey E h = ConstDBParentListPrefix (cfg E) @ Hash_String h"

definition witnessKey :: "'s env \<Rightarrow> address \<Rightarrow> string" where
  "witnessKey E a = ConstDBWitnessListPrefix (cfg E) @ Address_String (keccak E) a"

definition outputKey :: "'s env \<Rightarrow> address \<Rightarrow> UTXO \<Rightarrow> string" where
  "outputKey E a u = ConstDBOutputPrefix (cfg E) @ Address_String (keccak E) a @ ''.'' @
     Hash_String (UTXO_ToHash (sum256 E) u)"

definition pendingKey :: "'s env \<Rightarrow> address \<Rightarrow> hash \<Rightarrow> string" where
  "pendingKey E a h = ConstDBPendingUnitPrefix (cfg E) @ Address_String (keccak E) a @ ''.'' @ Hash_String h"

definition childrenKey :: "'s env \<Rightarrow> hash \<Rightarrow> string" where
  "childrenKey E h = ConstDBChildrenHash (cfg E) @ Hash_String h"

definition stableUnitsKey :: "'s env \<Rightarrow> hash \<Rightarrow> string" where
  "stableUnitsKey E h = ConstDBStableUnitsPrefix (cfg E) @ Hash_String h"

text \<open>\<^verbatim>\<open>strconv.FormatInt(voteRound, 10)\<close> is the decimal text of the round.\<close>

definition voteResultKey :: "'s env \<Rightarrow> int64 \<Rightarrow> string" where
  "voteResultKey E r = ConstDBVoteResult (cfg E) @ int_dec (sint r)"

definition cacheKey :: "'s env \<Rightarrow> hash \<Rightarrow> string" where
  "cacheKey E h = ConstCacheUnit (cfg E) @ Hash_String h"


section \<open>leveldb/dbservice.go: operations\<close>

definition DB_Delete :: "'s env \<Rightarrow> string \<Rightarrow> 's \<Rightarrow> 's" where
  "DB_Delete E key s = LDB_Delete E key s"

subsection \<open>Units\<close>

definition SaveGenisisUnit :: "'s env \<Rightarrow> Unit \<Rightarrow> 's \<Rightarrow> 's" where
  "SaveGenisisUnit E unit s =
     batch_Write E (batch_Put (''unit.'' @ GENISIS_UNIT_HASH (cfg E)) (Unit2Byte unit) NewBatch) s"

definition SaveUnitToDb :: "'s env \<Rightarrow> Unit \<Rightarrow> 's \<Rightarrow> 's" where
  "SaveUnitToDb E unit s =
     batch_Write E (batch_Put (unitKey E (u_Hash unit)) (Unit2Byte unit) NewBatch) s"

definition DelUnitFromDb :: "'s env \<Rightarrow> Unit \<Rightarrow> 's \<Rightarrow> 's" where
  "DelUnitFromDb E unit s = batch_Write E (batch_Delete (unitKey E (u_Hash unit)) NewBatch) s"

definition SaveUnitsToDb :: "'s env \<Rightarrow> Unit list \<Rightarrow> 's \<Rightarrow> 's" where
  "SaveUnitsToDb E units s =
     batch_Write E (fold (\<lambda>unit b. batch_Put (unitKey E (u_Hash unit)) (Unit2Byte unit) b) units NewBatch) s"

definition GetUnitByHash :: "'s env \<Rightarrow> hash \<Rightarrow> 's \<Rightarrow> Unit \<times> dbError option" where
  "GetUnitByHash E unitHash s =
     (case LDB_Get E (unitKey E unitHash) s of (readData, err) \<Rightarrow> (Byte2Unit readData, err))"

text \<open>\<^verbatim>\<open>it.Seek("")\<close> answers whether the iterator has any key at all.\<close>

definition IsExistUnit :: "'s env \<Rightarrow> hash \<Rightarrow> 's \<Rightarrow> bool" where
  "IsExistUnit E unitHash s \<longleftrightarrow> NewIteratorWithPrefix E (unitKey E unitHash) s \<noteq> []"

definition GetAllUnits :: "'s env \<Rightarrow> 's \<Rightarrow> (string \<times> blob) list" where
  "GetAllUnits E s = NewIteratorWithPrefix E (ConstDBUnitPrefix (cfg E)) s"

definition GetAllUnitCount :: "'s env \<Rightarrow> 's \<Rightarrow> nat" where
  "GetAllUnitCount E s = fold (\<lambda>_ count. count + 1) (NewIteratorWithPrefix E (ConstDBUnitPrefix (cfg E)) s) 0"

definition GetAllStableUnitCount :: "'s env \<Rightarrow> 's \<Rightarrow> nat" where
  "GetAllStableUnitCount E s =
     fold (\<lambda>(k, v) count. if u_IsStable (Byte2Unit (Some v)) then count + 1 else count)
       (NewIteratorWithPrefix E (ConstDBUnitPrefix (cfg E)) s) 0"

definition GetAllUnStableUnitCount :: "'s env \<Rightarrow> 's \<Rightarrow> nat" where
  "GetAllUnStableUnitCount E s =
     fold (\<lambda>(k, v) count. if \<not> u_IsStable (Byte2Unit (Some v)) then count + 1 else count)
       (NewIteratorWithPrefix E (ConstDBUnitPrefix (cfg E)) s) 0"

definition DelAllData :: "'s env \<Rightarrow> string \<Rightarrow> 's \<Rightarrow> 's" where
  "DelAllData E key s = batch_Write E (batch_Delete (ConstDBUnitPrefix (cfg E) @ key) NewBatch) s"

definition SaveCacheUnitToDb :: "'s env \<Rightarrow> Unit \<Rightarrow> 's \<Rightarrow> 's" where
  "SaveCacheUnitToDb E unit s =
     batch_Write E (batch_Put (cacheKey E (u_Hash unit)) (Unit2Byte unit) NewBatch) s"

definition GetCacheUnitFromDb :: "'s env \<Rightarrow> 's \<Rightarrow> Unit list" where
  "GetCacheUnitFromDb E s =
     fold (\<lambda>(k, v) units. units @ [Byte2Unit (Some v)]) (NewIteratorWithPrefix E (ConstCacheUnit (cfg E)) s) []"

definition DelCacheUnitFromDb :: "'s env \<Rightarrow> Unit \<Rightarrow> 's \<Rightarrow> 's" where
  "DelCacheUnitFromDb E unit s = batch_Write E (batch_Delete (cacheKey E (u_Hash unit)) NewBatch) s"

subsection \<open>Balls\<close>

definition SaveBallToDb :: "'s env \<Rightarrow> Ball \<Rightarrow> 's \<Rightarrow> 's" where
  "SaveBallToDb E ball s =
     batch_Write E (batch_Put (ConstDBBallPrefix (cfg E) @ Ball_StringKey ball) (Ball2Byte ball) NewBatch) s"

definition SaveBallsToDb :: "'s env \<Rightarrow> Ball list \<Rightarrow> 's \<Rightarrow> 's" where
  "SaveBallsToDb E balls s =
     batch_Write E (fold (\<lambda>ball b. batch_Put (ConstDBBallPrefix (cfg E) @ Ball_StringKey ball) (Ball2Byte ball) b)
       balls NewBatch) s"

definition GetBallByHash :: "'s env \<Rightarrow> hash \<Rightarrow> 's \<Rightarrow> Ball \<times> dbError option" where
  "GetBallByHash E ballHash s =
     (case LDB_Get E (ballKey E ballHash) s of (readData, err) \<Rightarrow> (Byte2Ball readData, err))"

definition GetAllBalls :: "'s env \<Rightarrow> 's \<Rightarrow> Ball list" where
  "GetAllBalls E s =
     fold (\<lambda>(k, v) balls. balls @ [Byte2Ball (Some v)])
       (NewIteratorWithPrefix E (ConstDBBallPrefix (cfg E)) s) []"

definition SaveBalls :: "'s env \<Rightarrow> hash list \<Rightarrow> 's \<Rightarrow> 's" where
  "SaveBalls E balls s = batch_Write E (fold (\<lambda>w b. batch_Put (ballKey E w) (Raw w) b) balls NewBatch) s"

text \<open>\<^verbatim>\<open>it.Value()\<close> as bytes: the text of a document, or the raw bytes.\<close>

fun blob_bytes :: "blob \<Rightarrow> bytes" where
  "blob_bytes (Raw b) = b"
| "blob_bytes (Doc j) = map byte_of_char (json_text j)"

definition GetBalls :: "'s env \<Rightarrow> 's \<Rightarrow> hash list" where
  "GetBalls E s =
     fold (\<lambda>(k, v) balls. balls @ [BytesToHash (blob_bytes v)])
       (NewIteratorWithPrefix E (ConstDBBallPrefix (cfg E)) s) []"

definition DelBall :: "'s env \<Rightarrow> hash \<Rightarrow> 's \<Rightarrow> 's" where
  "DelBall E h s = DB_Delete E (ballKey E h) s"

subsection \<open>Tips of the graph and witnesses\<close>

definition SaveParentsList :: "'s env \<Rightarrow> hash list \<Rightarrow> 's \<Rightarrow> 's" where
  "SaveParentsList E parentsList s =
     batch_Write E (fold (\<lambda>val b. batch_Put (parentKey E val) (Raw val) b) parentsList NewBatch) s"

definition GetParentsList :: "'s env \<Rightarrow> 's \<Rightarrow> hash list" where
  "GetParentsList E s =
     fold (\<lambda>(k, v) parentsList. parentsList @ [BytesToHash (blob_bytes v)])
       (NewIteratorWithPrefix E (ConstDBParentListPrefix (cfg E)) s) []"

definition DB_SaveParent :: "'s env \<Rightarrow> hash \<Rightarrow> 's \<Rightarrow> 's" where
  "DB_SaveParent E h s = batch_Write E (batch_Put (parentKey E h) (Raw h) NewBatch) s"

definition DB_DelParent :: "'s env \<Rightarrow> hash \<Rightarrow> 's \<Rightarrow> 's" where
  "DB_DelParent E h s = DB_Delete E (parentKey E h) s"

definition DB_SaveWitnessList :: "'s env \<Rightarrow> address list \<Rightarrow> 's \<Rightarrow> 's" where
  "DB_SaveWitnessList E witnesses s =
     batch_Write E (fold (\<lambda>w b. batch_Put (witnessKey E w) (Raw w) b) witnesses NewBatch) s"

definition GetWitnessList :: "'s env \<Rightarrow> 's \<Rightarrow> address list" where
  "GetWitnessList E s =
     fold (\<lambda>(k, v) witnessList. witnessList @ [BytesToAddress (blob_bytes v)])
       (NewIteratorWithPrefix E (ConstDBWitnessListPrefix (cfg E)) s) []"

definition DB_SaveWitness :: "'s env \<Rightarrow> address \<Rightarrow> 's \<Rightarrow> 's" where
  "DB_SaveWitness E a s = batch_Write E (batch_Put (witnessKey E a) (Raw a) NewBatch) s"

definition DB_DelWitness :: "'s env \<Rightarrow> address \<Rightarrow> 's \<Rightarrow> 's" where
  "DB_DelWitness E a s = DB_Delete E (witnessKey E a) s"

subsection \<open>Unspent outputs, stable and pending\<close>

definition SaveUnspentOutput :: "'s env \<Rightarrow> address \<Rightarrow> UTXO \<Rightarrow> 's \<Rightarrow> 's" where
  "SaveUnspentOutput E addr utxo s =
     batch_Write E (batch_Put (outputKey E addr utxo) (UTXO2Byte utxo) NewBatch) s"

definition DelUnspentOutput :: "'s env \<Rightarrow> address \<Rightarrow> UTXO \<Rightarrow> 's \<Rightarrow> 's" where
  "DelUnspentOutput E addr utxo s = batch_Write E (batch_Delete (outputKey E addr utxo) NewBatch) s"

definition SaveBatchUnspentOutput :: "'s env \<Rightarrow> Commission list \<Rightarrow> 's \<Rightarrow> 's" where
  "SaveBatchUnspentOutput E commissions s =
     batch_Write E (fold (\<lambda>com b. batch_Put (outputKey E (com_Address com) (com_UTXO com))
       (UTXO2Byte (com_UTXO com)) b) commissions NewBatch) s"

definition DelPendingUnspentOutput :: "'s env \<Rightarrow> address \<Rightarrow> UTXO \<Rightarrow> 's \<Rightarrow> 's" where
  "DelPendingUnspentOutput E addr utxo s =
     batch_Write E (batch_Delete (pendingKey E addr (UTXO_ToHash (sum256 E) utxo)) NewBatch) s"

definition GetUnspentOutput :: "'s env \<Rightarrow> address \<Rightarrow> 's \<Rightarrow> UTXO list" where
  "GetUnspentOutput E addr s =
     fold (\<lambda>(k, v) utxos. utxos @ [Byte2UTXO v])
       (NewIteratorWithPrefix E (ConstDBOutputPrefix (cfg E) @ Address_String (keccak E) addr) s) []"

definition IsExistUnspentOutput :: "'s env \<Rightarrow> address \<Rightarrow> UTXO \<Rightarrow> 's \<Rightarrow> bool" where
  "IsExistUnspentOutput E addr utxo s \<longleftrightarrow> NewIteratorWithPrefix E (outputKey E addr utxo) s \<noteq> []"

definition SavePendingUTXO :: "'s env \<Rightarrow> address \<Rightarrow> UTXO \<Rightarrow> 's \<Rightarrow> 's" where
  "SavePendingUTXO E addr utxo s =
     batch_Write E (batch_Put (pendingKey E addr (UTXO_ToHash (sum256 E) utxo)) (UTXO2Byte utxo) NewBatch) s"

definition DelPendingUTXO :: "'s env \<Rightarrow> address \<Rightarrow> UTXO \<Rightarrow> 's \<Rightarrow> 's" where
  "DelPendingUTXO E addr utxo s =
     batch_Write E (batch_Delete (pendingKey E addr (UTXO_ToHash (sum256 E) utxo)) NewBatch) s"

definition GetPendingUTXO :: "'s env \<Rightarrow> address \<Rightarrow> hash \<Rightarrow> 's \<Rightarrow> UTXO" where
  "GetPendingUTXO E addr h s =
     fold (\<lambda>(k, v) utxo. Byte2UTXO v) (NewIteratorWithPrefix E (pendingKey E addr h) s) NewEmptyUTXO"

definition GetPendingUTXOByAuthor :: "'s env \<Rightarrow> address \<Rightarrow> 's \<Rightarrow> UTXO list" where
  "GetPendingUTXOByAuthor E addr s =
     fold (\<lambda>(k, v) utxos. utxos @ [Byte2UTXO v])
       (NewIteratorWithPrefix E (ConstDBPendingUnitPrefix (cfg E) @ Address_String (keccak E) addr) s) []"

definition IsExistPendingUTXO :: "'s env \<Rightarrow> address \<Rightarrow> UTXO \<Rightarrow> 's \<Rightarrow> bool" where
  "IsExistPendingUTXO E addr utxo s \<longleftrightarrow>
     NewIteratorWithPrefix E (pendingKey E addr (UTXO_ToHash (sum256 E) utxo)) s \<noteq> []"

definition GetAllPendingUnSpent :: "'s env \<Rightarrow> address \<Rightarrow> 's \<Rightarrow> UTXO list" where
  "GetAllPendingUnSpent E addr s =
     fold (\<lambda>(k, v) utxos. utxos @ [Byte2UTXO v])
       (NewIteratorWithPrefix E (ConstDBPendingUnitPrefix (cfg E) @ Address_String (keccak E) addr @ ''.'') s) []"

definition GetUnspentOutputFromPendingPool :: "'s env \<Rightarrow> address \<Rightarrow> 's \<Rightarrow> (string, UTXO) gomap" where
  "GetUnspentOutputFromPendingPool E addr s =
     fold (\<lambda>(k, v) unSpent. map_put k (Byte2UTXO v) unSpent)
       (NewIteratorWithPrefix E (ConstDBPendingUnitPrefix (cfg E) @ Address_String (keccak E) addr) s) []"

subsection \<open>Children, stable sets, vote rounds and results\<close>

definition SaveChildrenUnit :: "'s env \<Rightarrow> hash \<Rightarrow> HashArray \<Rightarrow> 's \<Rightarrow> 's" where
  "SaveChildrenUnit E parentunit children s =
     batch_Write E (batch_Put (childrenKey E parentunit) (Doc (HashArray_json children)) NewBatch) s"

text \<open>\<^verbatim>\<open>json.Unmarshal\<close> of a stored value into a variable that already has a value.\<close>

definition Byte2HashArray :: "blob \<Rightarrow> HashArray \<Rightarrow> HashArray" where
  "Byte2HashArray b h = (case b of Doc j \<Rightarrow> HashArray_of_json j | Raw _ \<Rightarrow> h)"

definition Byte2VoteResult :: "blob \<Rightarrow> VoteResult \<Rightarrow> VoteResult" where
  "Byte2VoteResult b v = (case b of Doc j \<Rightarrow> VoteResult_of_json j v | Raw _ \<Rightarrow> v)"

definition GetChildrenUnit :: "'s env \<Rightarrow> hash \<Rightarrow> 's \<Rightarrow> HashArray" where
  "GetChildrenUnit E h s =
     fold (\<lambda>(k, v) children. Byte2HashArray v children) (NewIteratorWithPrefix E (childrenKey E h) s) NewHashArray"

definition SaveStableUnits :: "'s env \<Rightarrow> hash \<Rightarrow> HashArray \<Rightarrow> 's \<Rightarrow> 's" where
  "SaveStableUnits E mcUnit stableUnits s =
     batch_Write E (batch_Put (stableUnitsKey E mcUnit) (Doc (HashArray_json stableUnits)) NewBatch) s"

text \<open>A unit of the list that is not stored makes the Go code panic: \<^const>\<open>None\<close>.\<close>

fun collectUnits :: "'s env \<Rightarrow> 's \<Rightarrow> hash list \<Rightarrow> Unit list \<Rightarrow> Unit list option" where
  "collectUnits E s [] acc = Some acc"
| "collectUnits E s (h # hs) acc =
     (case GetUnitByHash E h s of
        (unit, None) \<Rightarrow> collectUnits E s hs (acc @ [unit])
      | (_, Some _) \<Rightarrow> None)"

definition GetStableUnits :: "'s env \<Rightarrow> hash \<Rightarrow> 's \<Rightarrow> Unit list option" where
  "GetStableUnits E h s =
     (let stableUnitsHashes =
        fold (\<lambda>(k, v) ha. Byte2HashArray v ha) (NewIteratorWithPrefix E (stableUnitsKey E h) s) NewHashArray
      in collectUnits E s (ha_Hashes stableUnitsHashes) [])"

definition DB_SaveVoteRound :: "'s env \<Rightarrow> int64 \<Rightarrow> 's \<Rightarrow> 's" where
  "DB_SaveVoteRound E voteRound s =
     batch_Write E (batch_Put (ConstDBVoteRound (cfg E)) (Doc (json_int voteRound)) NewBatch) s"

definition DB_GetVoteRound :: "'s env \<Rightarrow> 's \<Rightarrow> int64" where
  "DB_GetVoteRound E s =
     fold (\<lambda>(k, v) r. case v of Doc j \<Rightarrow> int_of_json j | Raw _ \<Rightarrow> r)
       (NewIteratorWithPrefix E (ConstDBVoteRound (cfg E)) s) 0"

definition DB_SaveVoteResult :: "'s env \<Rightarrow> int64 \<Rightarrow> VoteResult \<Rightarrow> 's \<Rightarrow> 's" where
  "DB_SaveVoteResult E voteRound result s =
     batch_Write E (batch_Put (voteResultKey E voteRound) (Doc (VoteResult_json result)) NewBatch) s"

definition DB_GetVoteResult :: "'s env \<Rightarrow> int64 \<Rightarrow> 's \<Rightarrow> VoteResult" where
  "DB_GetVoteResult E voteRound s =
     fold (\<lambda>(k, v) r. Byte2VoteResult v r) (NewIteratorWithPrefix E (voteResultKey E voteRound) s) zeroVoteResult"


section \<open>Reading after writing\<close>

lemma env_ok_ldb [dest]: "env_ok E \<Longrightarrow> ldb_ok E"
  by (simp add: env_ok_def)

lemma Get_Put: "ldb_ok E \<Longrightarrow> ldb_Get E k' (ldb_Put E k v s) = (if k' = k then Some v else ldb_Get E k' s)"
  and Get_Delete: "ldb_ok E \<Longrightarrow> ldb_Get E k' (ldb_Delete E k s) = (if k' = k then None else ldb_Get E k' s)"
  and Write_fold: "ldb_ok E \<Longrightarrow> ldb_Write E ops s = fold (apply_op E) ops s"
  and Iter_set: "ldb_ok E \<Longrightarrow> set (ldb_Iter E p s) = {(k, v). prefix p k \<and> ldb_Get E k s = Some v}"
  and Iter_sorted: "ldb_ok E \<Longrightarrow> sorted (map fst (ldb_Iter E p s))"
  and Iter_distinct: "ldb_ok E \<Longrightarrow> distinct (map fst (ldb_Iter E p s))"
  by (simp_all add: ldb_ok_def)

text \<open>The three shapes of a batch: one write, one deletion, one write per list element.\<close>

lemma Get_batch_Put:
  "ldb_ok E \<Longrightarrow> ldb_Get E k' (batch_Write E (batch_Put k v NewBatch) s) = (if k' = k then Some v else ldb_Get E k' s)"
  by (simp add: batch_Write_def batch_Put_def NewBatch_def Write_fold Get_Put)

lemma Get_batch_Delete:
  "ldb_ok E \<Longrightarrow> ldb_Get E k' (batch_Write E (batch_Delete k NewBatch) s) = (if k' = k then None else ldb_Get E k' s)"
  by (simp add: batch_Write_def batch_Delete_def NewBatch_def Write_fold Get_Delete)

lemma b_ops_put_all:
  "b_ops (fold (\<lambda>x b. batch_Put (key x) (val x) b) xs b) = b_ops b @ map (\<lambda>x. BPut (key x) (val x)) xs"
  by (induction xs arbitrary: b) (simp_all add: batch_Put_def)

lemma apply_op_Put: "apply_op E (BPut k v) = ldb_Put E k v"
  by (rule ext) simp

lemma batch_put_all_fold:
  "ldb_ok E \<Longrightarrow> batch_Write E (fold (\<lambda>x b. batch_Put (key x) (val x) b) xs NewBatch) s
     = fold (\<lambda>x. ldb_Put E (key x) (val x)) xs s"
  by (simp add: batch_Write_def Write_fold b_ops_put_all NewBatch_def fold_map comp_def apply_op_Put)

lemma Get_put_all:
  assumes "ldb_ok E"
  shows "ldb_Get E k (fold (\<lambda>x. ldb_Put E (key x) (val x)) xs s)
    = (case map_of (rev (map (\<lambda>x. (key x, val x)) xs)) k of Some v \<Rightarrow> Some v | None \<Rightarrow> ldb_Get E k s)"
  by (induction xs arbitrary: s) (auto simp: Get_Put[OF assms] map_add_def split: option.split)

text \<open>Keys of different tables are different; keys of one table determine what they were made of.\<close>

lemma apart_neq: "apart p q \<Longrightarrow> p @ x \<noteq> q @ y"
  by (metis apart_def prefixI prefix_same_cases)

lemma apart_not_prefix: "apart p q \<Longrightarrow> \<not> prefix p (q @ y)"
  by (metis apart_def prefix_def prefix_same_cases)

lemma apart_sym: "apart p q \<Longrightarrow> apart q p"
  by (simp add: apart_def)

lemma prefixes_apart:
  assumes "env_ok E" and "i < 11" "j < 11" "i \<noteq> j"
  shows "apart (db_prefixes (cfg E) ! i) (db_prefixes (cfg E) ! j)"
proof -
  have "sorted_wrt apart (db_prefixes (cfg E))" and "length (db_prefixes (cfg E)) = 11"
    using assms(1) by (auto simp: env_ok_def db_prefixes_def)
  then show ?thesis
    using assms apart_sym by (metis linorder_neqE_nat sorted_wrt_nth_less)
qed

lemma tables_apart:
  assumes "env_ok E"
  shows "apart (ConstDBUnitPrefix (cfg E)) (ConstDBOutputPrefix (cfg E))"
    "apart (ConstDBUnitPrefix (cfg E)) (ConstDBPendingUnitPrefix (cfg E))"
    "apart (ConstDBUnitPrefix (cfg E)) (ConstDBParentListPrefix (cfg E))"
    "apart (ConstDBUnitPrefix (cfg E)) (ConstDBWitnessListPrefix (cfg E))"
    "apart (ConstDBUnitPrefix (cfg E)) (ConstDBVoteRound (cfg E))"
    "apart (ConstDBUnitPrefix (cfg E)) (ConstDBVoteResult (cfg E))"
    "apart (ConstDBOutputPrefix (cfg E)) (ConstDBPendingUnitPrefix (cfg E))"
    "apart (ConstDBOutputPrefix (cfg E)) (ConstDBParentListPrefix (cfg E))"
    "apart (ConstDBParentListPrefix (cfg E)) (ConstDBWitnessListPrefix (cfg E))"
    "apart (ConstDBWitnessListPrefix (cfg E)) (ConstDBVoteRound (cfg E))"
    "apart (ConstDBWitnessListPrefix (cfg E)) (ConstDBVoteResult (cfg E))"
    "apart (ConstDBVoteRound (cfg E)) (ConstDBVoteResult (cfg E))"
  using prefixes_apart[OF assms, of 0 4] prefixes_apart[OF assms, of 0 5] prefixes_apart[OF assms, of 0 2]
    prefixes_apart[OF assms, of 0 3] prefixes_apart[OF assms, of 0 8] prefixes_apart[OF assms, of 0 9]
    prefixes_apart[OF assms, of 4 5] prefixes_apart[OF assms, of 4 2] prefixes_apart[OF assms, of 2 3]
    prefixes_apart[OF assms, of 3 8] prefixes_apart[OF assms, of 3 9] prefixes_apart[OF assms, of 8 9]
  by (simp_all add: db_prefixes_def)

lemma unitKey_inj [simp]: "unitKey E h = unitKey E h' \<longleftrightarrow> h = h'"
  by (simp add: unitKey_def)

lemma parentKey_inj [simp]: "parentKey E h = parentKey E h' \<longleftrightarrow> h = h'"
  by (simp add: parentKey_def)

lemma witnessKey_inj [simp]: "witnessKey E a = witnessKey E b \<longleftrightarrow> a = b"
  by (simp add: witnessKey_def)

lemma outputKey_eq:
  assumes "wf_address a" "wf_address b"
  shows "outputKey E a u = outputKey E b v \<longleftrightarrow> a = b \<and> UTXO_ToHash (sum256 E) u = UTXO_ToHash (sum256 E) v"
proof -
  have "length (Address_String (keccak E) a) = length (Address_String (keccak E) b)"
    using assms by (simp add: wf_address_def)
  then show ?thesis by (auto simp: outputKey_def)
qed

lemma pendingKey_eq:
  assumes "wf_address a" "wf_address b"
  shows "pendingKey E a h = pendingKey E b h' \<longleftrightarrow> a = b \<and> h = h'"
proof -
  have "length (Address_String (keccak E) a) = length (Address_String (keccak E) b)"
    using assms by (simp add: wf_address_def)
  then show ?thesis by (auto simp: pendingKey_def)
qed

section \<open>The table of units\<close>

lemma Get_SaveUnit:
  "ldb_ok E \<Longrightarrow> ldb_Get E k (SaveUnitToDb E u s) = (if k = unitKey E (u_Hash u) then Some (Unit2Byte u) else ldb_Get E k s)"
  by (simp add: SaveUnitToDb_def Get_batch_Put)

lemma GetUnit_SaveUnit [store_simps]:
  assumes "ldb_ok E" and "wf_unit u"
  shows "GetUnitByHash E h (SaveUnitToDb E u s) = (if h = u_Hash u then (u, None) else GetUnitByHash E h s)"
  using assms by (simp add: GetUnitByHash_def LDB_Get_def Get_SaveUnit)

lemma GetUnit_DelUnit [store_simps]:
  assumes "ldb_ok E"
  shows "GetUnitByHash E h (DelUnitFromDb E u s) =
    (if h = u_Hash u then (NewEmptyUnit, Some ErrNotFound) else GetUnitByHash E h s)"
  using assms by (simp add: GetUnitByHash_def LDB_Get_def DelUnitFromDb_def Get_batch_Delete Byte2Unit_def)

text \<open>A write to another table leaves every unit as it is.\<close>

lemma GetUnit_other:
  "ldb_Get E (unitKey E h) s' = ldb_Get E (unitKey E h) s \<Longrightarrow> GetUnitByHash E h s' = GetUnitByHash E h s"
  by (simp add: GetUnitByHash_def LDB_Get_def)

lemma unitKey_neq:
  assumes "env_ok E"
  shows "unitKey E h \<noteq> outputKey E a u" "unitKey E h \<noteq> pendingKey E a h'" "unitKey E h \<noteq> parentKey E h'"
    "unitKey E h \<noteq> witnessKey E a" "unitKey E h \<noteq> voteResultKey E r" "unitKey E h \<noteq> ConstDBVoteRound (cfg E)"
  using tables_apart[OF assms] apart_neq[of "ConstDBUnitPrefix (cfg E)"]
    apart_neq[of "ConstDBUnitPrefix (cfg E)" "ConstDBVoteRound (cfg E)" _ "[]"]
  by (simp_all add: unitKey_def outputKey_def pendingKey_def parentKey_def witnessKey_def voteResultKey_def)

lemma GetUnit_frame [store_simps]:
  assumes "env_ok E"
  shows "GetUnitByHash E h (SaveUnspentOutput E a u s) = GetUnitByHash E h s"
    "GetUnitByHash E h (DelUnspentOutput E a u s) = GetUnitByHash E h s"
    "GetUnitByHash E h (SavePendingUTXO E a u s) = GetUnitByHash E h s"
    "GetUnitByHash E h (DelPendingUTXO E a u s) = GetUnitByHash E h s"
    "GetUnitByHash E h (DelPendingUnspentOutput E a u s) = GetUnitByHash E h s"
    "GetUnitByHash E h (DB_SaveParent E h' s) = GetUnitByHash E h s"
    "GetUnitByHash E h (DB_DelParent E h' s) = GetUnitByHash E h s"
    "GetUnitByHash E h (DB_SaveWitness E a s) = GetUnitByHash E h s"
    "GetUnitByHash E h (DB_DelWitness E a s) = GetUnitByHash E h s"
    "GetUnitByHash E h (DB_SaveVoteRound E r s) = GetUnitByHash E h s"
    "GetUnitByHash E h (DB_SaveVoteResult E r v s) = GetUnitByHash E h s"
  using unitKey_neq[OF assms] env_ok_ldb[OF assms]
  by (auto intro!: GetUnit_other simp: SaveUnspentOutput_def DelUnspentOutput_def SavePendingUTXO_def
      DelPendingUTXO_def DelPendingUnspentOutput_def DB_SaveParent_def DB_DelParent_def DB_Delete_def LDB_Delete_def
      DB_SaveWitness_def DB_DelWitness_def DB_SaveVoteRound_def DB_SaveVoteResult_def
      Get_batch_Put Get_batch_Delete Get_Delete)


section \<open>Iterating over a prefix\<close>

lemma Iter_nonempty: "ldb_ok E \<Longrightarrow> ldb_Iter E p s \<noteq> [] \<longleftrightarrow> (\<exists>k. prefix p k \<and> ldb_Get E k s \<noteq> None)"
  using Iter_set[of E p s] by (auto simp: set_empty[symmetric] simp del: set_empty)

lemma finite_keys: "ldb_ok E \<Longrightarrow> finite {k. prefix p k \<and> ldb_Get E k s \<noteq> None}"
proof -
  assume "ldb_ok E"
  then have "{k. prefix p k \<and> ldb_Get E k s \<noteq> None} = fst ` set (ldb_Iter E p s)"
    by (force simp: Iter_set)
  then show ?thesis by simp
qed

lemma Iter_sum:
  fixes f :: "blob \<Rightarrow> int"
  assumes "ldb_ok E"
  shows "sum_list (map (\<lambda>(k, v). f v) (ldb_Iter E p s))
    = (\<Sum>k | prefix p k \<and> ldb_Get E k s \<noteq> None. f (the (ldb_Get E k s)))"
proof -
  let ?xs = "ldb_Iter E p s"
  have eq: "f v = f (the (ldb_Get E k s))" if "(k, v) \<in> set ?xs" for k v
    using that Iter_set[OF assms, of p s] by auto
  have "sum_list (map (\<lambda>(k, v). f v) ?xs) = sum_list (map (\<lambda>k. f (the (ldb_Get E k s))) (map fst ?xs))"
    using eq by (auto simp: comp_def intro!: arg_cong[where f = sum_list])
  also have "\<dots> = (\<Sum>k\<in>set (map fst ?xs). f (the (ldb_Get E k s)))"
    using Iter_distinct[OF assms, of p s] by (rule sum_list_distinct_conv_sum_set)
  also have "set (map fst ?xs) = {k. prefix p k \<and> ldb_Get E k s \<noteq> None}"
    using Iter_set[OF assms, of p s] by force
  finally show ?thesis .
qed

lemma iter_collect:
  "fold (\<lambda>(k, v) xs. xs @ [f v]) kvs [] = map (\<lambda>(k, v). f v) kvs"
  using collect_fold[of "\<lambda>(k, v). f v" kvs "[]"] by (simp add: case_prod_beta')

end
