(* ===== verification/MemStore.thy ===== *)
theory MemStore
  imports LevelDb
begin

text \<open>
  A concrete environment: the database is a red-black tree in memory, the hash the length
  of the text.  It satisfies \<open>env_ok\<close>, so the theorems that rest on that hypothesis can be
  applied, and every operation of \<open>LevelDb\<close> computes on it.
\<close>

section \<open>The database as a tree\<close>

type_synonym memdb = "(string, blob) rbt"

definition mem_Iter :: "string \<Rightarrow> memdb \<Rightarrow> (string \<times> blob) list" where
  "mem_Iter p s = filter (\<lambda>(k, v). prefix p k) (RBT.entries s)"

definition mem_Op :: "batchOp \<Rightarrow> memdb \<Rightarrow> memdb" where
  "mem_Op b s = (case b of BPut k v \<Rightarrow> RBT.insert k v s | BDelete k \<Rightarrow> RBT.delete k s)"

definition mem_sum256 :: "bytes \<Rightarrow> hash" where
  "mem_sum256 bs = word_of_nat (length bs) # replicate 31 0"

definition mem_config :: config where
  "mem_config = \<lparr>ConstDBUnitPrefix = ''u.'', ConstDBBallPrefix = ''b.'', ConstDBParentListPrefix = ''p.'',
     ConstDBWitnessListPrefix = ''w.'', ConstDBOutputPrefix = ''o.'', ConstDBPendingUnitPrefix = ''q.'',
     ConstDBChildrenHash = ''c.'', ConstDBStableUnitsPrefix = ''s.'', ConstDBVoteRound = ''r.'',
     ConstDBVoteResult = ''v.'', ConstCacheUnit = ''k.'', GENISIS_UNIT_HASH = ''genesis'',
     MajorityOfWitnesses = 1, Const_Stable_Rounds = 5\<rparr>"

definition mem_env :: "memdb env" where
  "mem_env = \<lparr>cfg = mem_config, keccak = (\<lambda>bs. replicate 32 0), sum256 = mem_sum256,
     ldb_Get = (\<lambda>k s. RBT.lookup s k), ldb_Put = RBT.insert, ldb_Has = (\<lambda>k s. RBT.lookup s k \<noteq> None),
     ldb_Delete = RBT.delete, ldb_Write = fold mem_Op, ldb_Iter = mem_Iter\<rparr>"

lemma mem_env_simps [simp]:
  "cfg mem_env = mem_config" "sum256 mem_env = mem_sum256" "ldb_Get mem_env k s = RBT.lookup s k"
  "ldb_Put mem_env = RBT.insert" "ldb_Delete mem_env = RBT.delete" "ldb_Iter mem_env = mem_Iter"
  "ldb_Has mem_env k s \<longleftrightarrow> RBT.lookup s k \<noteq> None" "ldb_Write mem_env = fold mem_Op"
  by (simp_all add: mem_env_def)

lemma mem_apply_op: "apply_op mem_env = mem_Op"
  by (intro ext) (auto simp: mem_Op_def split: batchOp.split)

lemma sorted_filter_fst: "sorted (map fst xs) \<Longrightarrow> sorted (map fst (filter P xs))"
  by (rule sorted_filter)

lemma mem_ldb_ok: "ldb_ok mem_env"
proof -
  have "set (mem_Iter p s) = {(k, v). prefix p k \<and> RBT.lookup s k = Some v}" for p s
    by (auto simp: mem_Iter_def lookup_in_tree)
  moreover have "sorted (map fst (mem_Iter p s))" "distinct (map fst (mem_Iter p s))" for p s
    using RBT.sorted_entries[of s] RBT.distinct_entries[of s]
    by (auto simp: mem_Iter_def intro: sorted_filter_fst distinct_map_filter)
  ultimately show ?thesis
    by (auto simp: ldb_ok_def mem_apply_op)
qed

theorem mem_env_ok: "env_ok mem_env"
proof -
  have "sorted_wrt apart (db_prefixes mem_config)"
    by (simp add: db_prefixes_def mem_config_def apart_def)
  moreover have "length (mem_sum256 x) = HashLength" for x
    by (simp add: mem_sum256_def HashLength_def)
  ultimately show ?thesis by (simp add: env_ok_def mem_ldb_ok)
qed

text \<open>The length of the text of an output, and so its hash here.\<close>

lemma length_UTXO_text:
  "wf_utxo u \<Longrightarrow> length (json_text (UTXO_json u)) = 198 + length (int_dec (sint (utxo_MessageIndex u))) +
     length (int_dec (sint (utxo_OutputIndex u))) + length (int_dec (sint (out_Amount (utxo_Output u)))) +
     length (concat (map json_escape (utxo_Type u)))"
  by (simp add: UTXO_json_def Output_json_def Hash_MarshalText_def Address_MarshalText_def Encode_def json_int_def
      wf_utxo_def wf_output_def wf_hash_def wf_address_def HashLength_def AddressLength_def)
    (simp add: length_quote escape_hexes, simp add: json_escape_def Let_def)

lemma mem_UTXO_hash:
  "UTXO_ToHash mem_sum256 u = word_of_nat (length (json_text (UTXO_json u))) # replicate 31 0"
  by (simp add: UTXO_ToHash_def json_hash_def mem_sum256_def)

section \<open>Sample values\<close>

definition sample_hash :: "byte \<Rightarrow> hash" where "sample_hash b = replicate 32 b"
definition sample_address :: "byte \<Rightarrow> address" where "sample_address b = replicate 20 b"

definition sample_unit :: "byte \<Rightarrow> hash list \<Rightarrow> Unit" where
  "sample_unit b ps = NewEmptyUnit\<lparr>u_Hash := sample_hash b, u_ParentList := ps,
     u_Authors := [NewAuthor (sample_address b) []]\<rparr>"

lemma sample_wf [simp]: "wf_hash (sample_hash b)" "wf_address (sample_address b)"
  by (simp_all add: sample_hash_def sample_address_def wf_hash_def wf_address_def HashLength_def AddressLength_def)

lemma sample_eq [simp]: "sample_hash b = sample_hash c \<longleftrightarrow> b = c" "sample_address b = sample_address c \<longleftrightarrow> b = c"
  by (simp_all add: sample_hash_def sample_address_def replicate_eq_replicate)

lemma sample_unit_simps [simp]:
  "u_Hash (sample_unit b ps) = sample_hash b" "u_ParentList (sample_unit b ps) = ps"
  "u_WitnessList (sample_unit b ps) = []" "u_Authors (sample_unit b ps) = [NewAuthor (sample_address b) []]"
  by (simp_all add: sample_unit_def NewEmptyUnit_def)

lemma wf_NewEmptyUnit: "wf_unit NewEmptyUnit"
  by (simp add: wf_type_defs NewEmptyUnit_def emptyHash_def emptyAddress_def)

lemma sample_unit_wf [simp]: "list_all wf_hash ps \<Longrightarrow> wf_unit (sample_unit b ps)"
  using wf_NewEmptyUnit by (simp add: wf_unit_def sample_unit_def wf_author_def NewAuthor_def)

end
