(* ===== verification/MemDb.thy ===== *)
theory MemDb
  imports MemStore
begin

text \<open>
  The in-memory views of the database, package \<^verbatim>\<open>dag/memdb\<close>: \<^verbatim>\<open>ParentMemDB\<close> keeps the tips of the
  graph (the units no other unit has as a parent), \<^verbatim>\<open>WitnessMemDB\<close> the witnesses and the results
  of the vote rounds.  Both write through to the database, so an operation maps a pair of the
  view and the database to a new pair; the singletons (\<^verbatim>\<open>GetParentMemDBInstance\<close>,
  \<^verbatim>\<open>GetWitnessMemDBInstance\<close>) are the view that is passed along.

  The lemmas show that the view and the table behind it stay equal, that the tips are the
  units without children when units arrive after their parents, and what the replacement of a
  witness does.
\<close>

section \<open>dag/memdb/parent_memdb.go\<close>

record ParentMemDB =
  parentSet :: HashSet

definition NewParentMemDB :: ParentMemDB where
  "NewParentMemDB = \<lparr>parentSet = NewHashSet\<rparr>"

definition InitParentMemDB :: "'s env \<Rightarrow> 's \<Rightarrow> ParentMemDB \<Rightarrow> ParentMemDB" where
  "InitParentMemDB E s pdb = pdb\<lparr>parentSet := HashSet_ListInsert (GetParentsList E s) (parentSet pdb)\<rparr>"

definition DeleteParent :: "'s env \<Rightarrow> hash \<Rightarrow> ParentMemDB \<times> 's \<Rightarrow> ParentMemDB \<times> 's" where
  "DeleteParent E parent ps = (case ps of (pdb, s) \<Rightarrow>
     (pdb\<lparr>parentSet := HashSet_Remove parent (parentSet pdb)\<rparr>, DB_DelParent E parent s))"

definition SaveParent :: "'s env \<Rightarrow> hash \<Rightarrow> ParentMemDB \<times> 's \<Rightarrow> ParentMemDB \<times> 's" where
  "SaveParent E parent ps = (case ps of (pdb, s) \<Rightarrow>
     (let s = DB_SaveParent E parent s;
          pdb = pdb\<lparr>parentSet := HashSet_Insert parent (parentSet pdb)\<rparr>;
          unit = fst (GetUnitByHash E parent s)
      in fold (\<lambda>val. DeleteParent E val) (u_ParentList unit) (pdb, s)))"

text \<open>An empty view is filled from the database first.\<close>

definition fillParents :: "'s env \<Rightarrow> 's \<Rightarrow> ParentMemDB \<Rightarrow> ParentMemDB" where
  "fillParents E s pdb = (if HashSet_Empty (parentSet pdb)
     then pdb\<lparr>parentSet := HashSet_ListInsert (GetParentsList E s) (parentSet pdb)\<rparr> else pdb)"

definition GetParentsAsHash :: "'s env \<Rightarrow> (hash, unit) iter \<Rightarrow> 's \<Rightarrow> ParentMemDB \<Rightarrow> hash list \<times> ParentMemDB" where
  "GetParentsAsHash E it s pdb = (let pdb = fillParents E s pdb in (GetAllHash it (parentSet pdb), pdb))"

definition GetParentsAsString :: "'s env \<Rightarrow> (hash, unit) iter \<Rightarrow> 's \<Rightarrow> ParentMemDB \<Rightarrow> string list \<times> ParentMemDB" where
  "GetParentsAsString E it s pdb = (let pdb = fillParents E s pdb in (GetAllHashAsString it (parentSet pdb), pdb))"

text \<open>The witnesses of a parent that are not in the set, counted up to the second.\<close>

fun countForeign :: "AddressSet \<Rightarrow> address list \<Rightarrow> nat \<Rightarrow> nat" where
  "countForeign witnessSet [] n = n"
| "countForeign witnessSet (witness # ws) n =
     (if \<not> AddressSet_Exists witness witnessSet
      then (let n = n + 1 in if n > 1 then n else countForeign witnessSet ws n)
      else countForeign witnessSet ws n)"

definition GetUnitParentListAsHash ::
    "'s env \<Rightarrow> (hash, unit) iter \<Rightarrow> address list \<Rightarrow> 's \<Rightarrow> ParentMemDB \<Rightarrow> hash list" where
  "GetUnitParentListAsHash E it witnessList s pdb =
     (let parents = GetAllHash it (parentSet pdb);
          witnessSet = AddressSet_ListInsert witnessList NewAddressSet
      in fold (\<lambda>parent parentList.
           let tUnit = fst (GetUnitByHash E parent s);
               n = countForeign witnessSet (u_WitnessList tUnit) 0
           in if n \<le> 1 then parentList @ [parent] else parentList) parents [])"

section \<open>dag/memdb/witness_memdb.go\<close>

record WitnessMemDB =
  witnessSet :: AddressSet
  replaceRound :: int64
  voteRound :: int64
  replaceMap :: "(int64, VoteResult) gomap"

definition NewWitnessMemDB :: WitnessMemDB where
  "NewWitnessMemDB = \<lparr>witnessSet = NewAddressSet, replaceRound = - 1, voteRound = - 1, replaceMap = []\<rparr>"

text \<open>The loop \<^verbatim>\<open>for i := lo; i < hi; i++\<close> over signed 64-bit numbers.\<close>

function loadResults :: "'s env \<Rightarrow> 's \<Rightarrow> int64 \<Rightarrow> int64 \<Rightarrow> (int64, VoteResult) gomap \<Rightarrow> (int64, VoteResult) gomap" where
  "loadResults E s i hi m =
     (if i <s hi then loadResults E s (i + 1) hi (map_put i (DB_GetVoteResult E i s) m) else m)"
  by auto

lemma sint_next: "(i :: int64) <s hi \<Longrightarrow> sint (i + 1) = sint i + 1"
  using sint_range[of i] sint_range[of hi] by (subst sint_add_exact) (auto simp: word_sless_alt)

termination loadResults
  by (relation "measure (\<lambda>(E, s, i, hi, m). nat (sint hi - sint i))")
    (auto simp: sint_next word_sless_alt)

definition InitWitnessMemDB :: "'s env \<Rightarrow> 's \<Rightarrow> WitnessMemDB \<Rightarrow> WitnessMemDB" where
  "InitWitnessMemDB E s wdb =
     (let wdb = wdb\<lparr>witnessSet := AddressSet_ListInsert (GetWitnessList E s) (witnessSet wdb)\<rparr>;
          wdb = wdb\<lparr>voteRound := DB_GetVoteRound E s\<rparr>;
          wdb = wdb\<lparr>replaceRound := voteRound wdb - Const_Stable_Rounds (cfg E)\<rparr>
      in wdb\<lparr>replaceMap := loadResults E s (replaceRound wdb - Const_Stable_Rounds (cfg E)) (replaceRound wdb)
           (replaceMap wdb)\<rparr>)"

definition SaveWitness :: "'s env \<Rightarrow> address \<Rightarrow> WitnessMemDB \<times> 's \<Rightarrow> WitnessMemDB \<times> 's" where
  "SaveWitness E witness ws = (case ws of (wdb, s) \<Rightarrow>
     (wdb\<lparr>witnessSet := AddressSet_Insert witness (witnessSet wdb)\<rparr>, DB_SaveWitness E witness s))"

definition SaveWitnessList :: "'s env \<Rightarrow> address list \<Rightarrow> WitnessMemDB \<times> 's \<Rightarrow> WitnessMemDB \<times> 's" where
  "SaveWitnessList E witnessList ws = (case ws of (wdb, s) \<Rightarrow>
     (wdb\<lparr>witnessSet := AddressSet_ListInsert witnessList (witnessSet wdb)\<rparr>, DB_SaveWitnessList E witnessList s))"

definition DeleteWitness :: "'s env \<Rightarrow> address \<Rightarrow> WitnessMemDB \<times> 's \<Rightarrow> WitnessMemDB \<times> 's" where
  "DeleteWitness E witness ws = (case ws of (wdb, s) \<Rightarrow>
     (wdb\<lparr>witnessSet := AddressSet_Remove witness (witnessSet wdb)\<rparr>, DB_DelWitness E witness s))"

definition ReplaceWitness :: "'s env \<Rightarrow> address \<Rightarrow> address \<Rightarrow> WitnessMemDB \<times> 's \<Rightarrow> WitnessMemDB \<times> 's" where
  "ReplaceWitness E oldWitness newWitness ws =
     (if AddressSet_Exists oldWitness (witnessSet (fst ws))
      then SaveWitness E oldWitness (DeleteWitness E oldWitness ws) else ws)"

definition fillWitnesses :: "'s env \<Rightarrow> 's \<Rightarrow> WitnessMemDB \<Rightarrow> WitnessMemDB" where
  "fillWitnesses E s wdb = (if AddressSet_Empty (witnessSet wdb)
     then wdb\<lparr>witnessSet := AddressSet_ListInsert (GetWitnessList E s) (witnessSet wdb)\<rparr> else wdb)"

definition GetWitnessesAsHash :: "'s env \<Rightarrow> (address, unit) iter \<Rightarrow> 's \<Rightarrow> WitnessMemDB \<Rightarrow> address list \<times> WitnessMemDB" where
  "GetWitnessesAsHash E it s wdb = (let wdb = fillWitnesses E s wdb in (GetAllAddress it (witnessSet wdb), wdb))"

definition GetWitnessesAsString :: "'s env \<Rightarrow> (address, unit) iter \<Rightarrow> 's \<Rightarrow> WitnessMemDB \<Rightarrow> string list \<times> WitnessMemDB" where
  "GetWitnessesAsString E it s wdb =
     (let wdb = fillWitnesses E s wdb in (GetAllAddressAsString (keccak E) it (witnessSet wdb), wdb))"

definition SaveVoteRound :: "'s env \<Rightarrow> int64 \<Rightarrow> WitnessMemDB \<times> 's \<Rightarrow> WitnessMemDB \<times> 's" where
  "SaveVoteRound E round ws = (case ws of (wdb, s) \<Rightarrow>
     (wdb\<lparr>voteRound := round, replaceRound := round - Const_Stable_Rounds (cfg E)\<rparr>, DB_SaveVoteRound E round s))"

definition GetVoteRound :: "WitnessMemDB \<Rightarrow> int64" where
  "GetVoteRound wdb = voteRound wdb"

definition SaveVoteResultByRound :: "'s env \<Rightarrow> int64 \<Rightarrow> VoteResult \<Rightarrow> WitnessMemDB \<times> 's \<Rightarrow> WitnessMemDB \<times> 's" where
  "SaveVoteResultByRound E round result ws = (case ws of (wdb, s) \<Rightarrow>
     (wdb\<lparr>replaceMap := map_put round result (replaceMap wdb)\<rparr>, DB_SaveVoteResult E round result s))"

definition GetVoteResultByRound :: "'s env \<Rightarrow> int64 \<Rightarrow> WitnessMemDB \<times> 's \<Rightarrow> VoteResult" where
  "GetVoteResultByRound E round ws = (case ws of (wdb, s) \<Rightarrow>
     (case map_of (replaceMap wdb) round of Some r \<Rightarrow> r | None \<Rightarrow> DB_GetVoteResult E round s))"

definition ReplaceWitnessByResult :: "'s env \<Rightarrow> VoteResult \<Rightarrow> WitnessMemDB \<times> 's \<Rightarrow> WitnessMemDB \<times> 's" where
  "ReplaceWitnessByResult E result ws =
     (let ws = SaveVoteResultByRound E (vr_Round result) result ws
      in if vr_Round result - Const_Stable_Rounds (cfg E) - voteRound (fst ws) = 1
         then (case ReplaceWitness E (vr_ReplacedWitness result) (vr_VoteResult result) ws of (wdb, s) \<Rightarrow>
           (wdb\<lparr>voteRound := vr_Round result - Const_Stable_Rounds (cfg E)\<rparr>, s))
         else ws)"

section \<open>A view of a table\<close>

text \<open>The tables of tips and of witnesses store every element under its key, as raw bytes.\<close>

definition raw_table :: "'s env \<Rightarrow> string \<Rightarrow> (bytes \<Rightarrow> string) \<Rightarrow> (bytes \<Rightarrow> bool) \<Rightarrow> 's \<Rightarrow> bool" where
  "raw_table E P key ok s \<longleftrightarrow>
     (\<forall>k v. prefix P k \<and> ldb_Get E k s = Some v \<longrightarrow> (\<exists>x. ok x \<and> k = key x \<and> v = Raw x))"

definition raw_elems :: "'s env \<Rightarrow> (bytes \<Rightarrow> string) \<Rightarrow> (bytes \<Rightarrow> bool) \<Rightarrow> 's \<Rightarrow> bytes set" where
  "raw_elems E key ok s = {x. ok x \<and> ldb_Get E (key x) s = Some (Raw x)}"

lemma raw_put:
  assumes "inj key" "ok x" "raw_table E P key ok s"
    and get: "\<And>k. ldb_Get E k s' = (if k = key x then Some (Raw x) else ldb_Get E k s)"
  shows "raw_elems E key ok s' = insert x (raw_elems E key ok s)" "raw_table E P key ok s'"
proof -
  show "raw_elems E key ok s' = insert x (raw_elems E key ok s)"
    using assms(1,2) by (auto simp: raw_elems_def get inj_eq)
  show "raw_table E P key ok s'"
    using assms(2,3) unfolding raw_table_def get by (metis option.inject)
qed

lemma raw_delete:
  assumes "inj key" "raw_table E P key ok s"
    and get: "\<And>k. ldb_Get E k s' = (if k = key x then None else ldb_Get E k s)"
  shows "raw_elems E key ok s' = raw_elems E key ok s - {x}" "raw_table E P key ok s'"
proof -
  show "raw_elems E key ok s' = raw_elems E key ok s - {x}"
    using assms(1) by (auto simp: raw_elems_def get inj_eq)
  show "raw_table E P key ok s'"
    using assms(2) unfolding raw_table_def get by (metis option.distinct(1))
qed

lemma raw_listed:
  assumes "ldb_ok E" "raw_table E P key ok s" "\<And>x. ok x \<Longrightarrow> prefix P (key x) \<and> conv x = x"
  shows "set (map (\<lambda>(k, v). conv (blob_bytes v)) (ldb_Iter E P s)) = raw_elems E key ok s"
proof (intro equalityI subsetI)
  fix x assume "x \<in> set (map (\<lambda>(k, v). conv (blob_bytes v)) (ldb_Iter E P s))"
  then obtain k v where "x = conv (blob_bytes v)" "prefix P k" "ldb_Get E k s = Some v"
    using Iter_set[OF assms(1), of P s] by auto
  moreover from this(2,3) obtain y where "ok y" "k = key y" "v = Raw y"
    using assms(2) unfolding raw_table_def by meson
  ultimately show "x \<in> raw_elems E key ok s" using assms(3) by (auto simp: raw_elems_def)
next
  fix x assume "x \<in> raw_elems E key ok s"
  then have "ok x" "(key x, Raw x) \<in> set (ldb_Iter E P s)"
    using assms(3) Iter_set[OF assms(1), of P s] by (auto simp: raw_elems_def)
  then show "x \<in> set (map (\<lambda>(k, v). conv (blob_bytes v)) (ldb_Iter E P s))"
    using assms(3) by (force simp: image_iff)
qed

text \<open>
  The interface of a set that is kept in memory and in the database: both sides change
  together.
\<close>

datatype 'k change = Add 'k | Del 'k

fun change_set :: "'k change \<Rightarrow> 'k set \<Rightarrow> 'k set" where
  "change_set (Add k) A = insert k A"
| "change_set (Del k) A = A - {k}"

locale mirrored_set =
  fixes add :: "'k \<Rightarrow> 'm \<times> 's \<Rightarrow> 'm \<times> 's"
    and del :: "'k \<Rightarrow> 'm \<times> 's \<Rightarrow> 'm \<times> 's"
    and view :: "'m \<Rightarrow> 'k set"
    and stored :: "'s \<Rightarrow> 'k set"
    and valid :: "'k \<Rightarrow> bool"
    and invar :: "'m \<times> 's \<Rightarrow> bool"
  assumes view_add: "invar ms \<Longrightarrow> valid k \<Longrightarrow> view (fst (add k ms)) = insert k (view (fst ms))"
    and view_del: "invar ms \<Longrightarrow> view (fst (del k ms)) = view (fst ms) - {k}"
    and stored_add: "invar ms \<Longrightarrow> valid k \<Longrightarrow> stored (snd (add k ms)) = insert k (stored (snd ms))"
    and stored_del: "invar ms \<Longrightarrow> stored (snd (del k ms)) = stored (snd ms) - {k}"
    and invar_add: "invar ms \<Longrightarrow> valid k \<Longrightarrow> invar (add k ms)"
    and invar_del: "invar ms \<Longrightarrow> invar (del k ms)"
begin

fun run :: "'k change \<Rightarrow> 'm \<times> 's \<Rightarrow> 'm \<times> 's" where
  "run (Add k) ms = add k ms"
| "run (Del k) ms = del k ms"

lemma run_all:
  assumes "invar ms" "\<And>k. Add k \<in> set cs \<Longrightarrow> valid k"
  shows "invar (fold run cs ms) \<and> view (fst (fold run cs ms)) = fold change_set cs (view (fst ms)) \<and>
    stored (snd (fold run cs ms)) = fold change_set cs (stored (snd ms))"
  using assms
proof (induction cs arbitrary: ms)
  case (Cons c cs)
  show ?case
  proof (cases c)
    case (Add k)
    with Cons.prems have "valid k" by simp
    with Add Cons.prems show ?thesis
      using Cons.IH[of "add k ms"] by (simp add: view_add stored_add invar_add)
  next
    case (Del k)
    with Cons.prems show ?thesis
      using Cons.IH[of "del k ms"] by (simp add: view_del stored_del invar_del)
  qed
qed simp

lemma del_all:
  "invar ms \<Longrightarrow> invar (fold del ks ms) \<and> view (fst (fold del ks ms)) = view (fst ms) - set ks \<and>
    stored (snd (fold del ks ms)) = stored (snd ms) - set ks"
  by (induction ks arbitrary: ms) (auto simp: view_del stored_del invar_del)

end

section \<open>The tips\<close>

abbreviation stored_tips :: "'s env \<Rightarrow> 's \<Rightarrow> hash set" where
  "stored_tips E \<equiv> raw_elems E (parentKey E) wf_hash"

abbreviation tips :: "ParentMemDB \<Rightarrow> hash set" where
  "tips pdb \<equiv> hs_elems (parentSet pdb)"

definition tips_inv :: "'s env \<Rightarrow> ParentMemDB \<times> 's \<Rightarrow> bool" where
  "tips_inv E ps \<longleftrightarrow> env_ok E \<and> hs_inv (parentSet (fst ps)) \<and>
     raw_table E (ConstDBParentListPrefix (cfg E)) (parentKey E) wf_hash (snd ps)"

definition addParent :: "'s env \<Rightarrow> hash \<Rightarrow> ParentMemDB \<times> 's \<Rightarrow> ParentMemDB \<times> 's" where
  "addParent E parent ps = (case ps of (pdb, s) \<Rightarrow>
     (pdb\<lparr>parentSet := HashSet_Insert parent (parentSet pdb)\<rparr>, DB_SaveParent E parent s))"

lemma inj_parentKey: "inj (parentKey E)" and inj_witnessKey: "inj (witnessKey E)"
  by (simp_all add: inj_def)

lemma Get_list_ops:
  assumes "env_ok E"
  shows "ldb_Get E k (DB_SaveParent E h s) = (if k = parentKey E h then Some (Raw h) else ldb_Get E k s)"
    "ldb_Get E k (DB_DelParent E h s) = (if k = parentKey E h then None else ldb_Get E k s)"
    "ldb_Get E k (DB_SaveWitness E a s) = (if k = witnessKey E a then Some (Raw a) else ldb_Get E k s)"
    "ldb_Get E k (DB_DelWitness E a s) = (if k = witnessKey E a then None else ldb_Get E k s)"
  using env_ok_ldb[OF assms] by (simp_all add: DB_SaveParent_def DB_DelParent_def DB_SaveWitness_def
      DB_DelWitness_def DB_Delete_def LDB_Delete_def Get_batch_Put Get_Delete)

lemma tips_invD:
  assumes "tips_inv E (pdb, s)"
  shows "env_ok E" "hs_inv (parentSet pdb)"
    "raw_table E (ConstDBParentListPrefix (cfg E)) (parentKey E) wf_hash s"
  using assms by (simp_all add: tips_inv_def)

interpretation parents: mirrored_set "addParent E" "DeleteParent E" tips "stored_tips E" wf_hash "tips_inv E" for E
proof (unfold_locales; clarsimp simp: addParent_def DeleteParent_def hset.elems_insert hset.elems_remove)
  fix pdb k s
  assume inv: "tips_inv E (pdb, s)"
  note E = tips_invD(1)[OF inv] and tab = tips_invD(3)[OF inv]
  show "stored_tips E (DB_DelParent E k s) = stored_tips E s - {k}"
    by (rule raw_delete(1)[OF inj_parentKey tab]) (simp add: Get_list_ops E)
  show "tips_inv E (pdb\<lparr>parentSet := HashSet_Remove k (parentSet pdb)\<rparr>, DB_DelParent E k s)"
    using raw_delete(2)[OF inj_parentKey tab, of "DB_DelParent E k s" k] inv
    by (simp add: tips_inv_def Get_list_ops E hset.invar_remove)
  assume k: "wf_hash k"
  show "stored_tips E (DB_SaveParent E k s) = insert k (stored_tips E s)"
    by (rule raw_put(1)[OF inj_parentKey k tab]) (simp add: Get_list_ops E)
  show "tips_inv E (pdb\<lparr>parentSet := HashSet_Insert k (parentSet pdb)\<rparr>, DB_SaveParent E k s)"
    using raw_put(2)[OF inj_parentKey k tab, of "DB_SaveParent E k s"] inv
    by (simp add: tips_inv_def Get_list_ops E hset.invar_insert)
qed

section \<open>The witnesses\<close>

abbreviation stored_witnesses :: "'s env \<Rightarrow> 's \<Rightarrow> address set" where
  "stored_witnesses E \<equiv> raw_elems E (witnessKey E) wf_address"

abbreviation witnesses :: "WitnessMemDB \<Rightarrow> address set" where
  "witnesses wdb \<equiv> as_elems (witnessSet wdb)"

definition witness_inv :: "'s env \<Rightarrow> WitnessMemDB \<times> 's \<Rightarrow> bool" where
  "witness_inv E ws \<longleftrightarrow> env_ok E \<and> as_inv (witnessSet (fst ws)) \<and>
     raw_table E (ConstDBWitnessListPrefix (cfg E)) (witnessKey E) wf_address (snd ws)"

lemma witness_invD:
  assumes "witness_inv E (wdb, s)"
  shows "env_ok E" "as_inv (witnessSet wdb)"
    "raw_table E (ConstDBWitnessListPrefix (cfg E)) (witnessKey E) wf_address s"
  using assms by (simp_all add: witness_inv_def)

interpretation witness: mirrored_set "SaveWitness E" "DeleteWitness E" witnesses "stored_witnesses E" wf_address
  "witness_inv E" for E
proof (unfold_locales; clarsimp simp: SaveWitness_def DeleteWitness_def aset.elems_insert aset.elems_remove)
  fix wdb k s
  assume inv: "witness_inv E (wdb, s)"
  note E = witness_invD(1)[OF inv] and tab = witness_invD(3)[OF inv]
  show "stored_witnesses E (DB_DelWitness E k s) = stored_witnesses E s - {k}"
    by (rule raw_delete(1)[OF inj_witnessKey tab]) (simp add: Get_list_ops E)
  show "witness_inv E (wdb\<lparr>witnessSet := AddressSet_Remove k (witnessSet wdb)\<rparr>, DB_DelWitness E k s)"
    using raw_delete(2)[OF inj_witnessKey tab, of "DB_DelWitness E k s" k] inv
    by (simp add: witness_inv_def Get_list_ops E aset.invar_remove)
  assume k: "wf_address k"
  show "stored_witnesses E (DB_SaveWitness E k s) = insert k (stored_witnesses E s)"
    by (rule raw_put(1)[OF inj_witnessKey k tab]) (simp add: Get_list_ops E)
  show "witness_inv E (wdb\<lparr>witnessSet := AddressSet_Insert k (witnessSet wdb)\<rparr>, DB_SaveWitness E k s)"
    using raw_put(2)[OF inj_witnessKey k tab, of "DB_SaveWitness E k s"] inv
    by (simp add: witness_inv_def Get_list_ops E aset.invar_insert)
qed

section \<open>Saving a tip\<close>

text \<open>The tips after a unit is saved: the unit, and the old tips without its parents.\<close>

lemma SaveParent_add:
  assumes "env_ok E"
  shows "SaveParent E h (pdb, s)
    = fold (DeleteParent E) (u_ParentList (fst (GetUnitByHash E h s))) (addParent E h (pdb, s))"
  using GetUnit_frame(6)[OF assms, of h h s] by (simp add: SaveParent_def addParent_def)

lemma SaveParent_tips:
  assumes inv: "tips_inv E (pdb, s)" and h: "wf_hash h"
    and ps': "SaveParent E h (pdb, s) = (pdb', s')"
  defines "gone \<equiv> set (u_ParentList (fst (GetUnitByHash E h s)))"
  shows "tips_inv E (pdb', s')" "tips pdb' = insert h (tips pdb) - gone"
    "stored_tips E s' = insert h (stored_tips E s) - gone"
proof -
  let ?q = "addParent E h (pdb, s)"
  have q: "tips_inv E ?q" by (rule parents.invar_add[OF inv h])
  have "fold (DeleteParent E) (u_ParentList (fst (GetUnitByHash E h s))) ?q = (pdb', s')"
    using ps' SaveParent_add[OF tips_invD(1)[OF inv]] by simp
  then show "tips_inv E (pdb', s')" "tips pdb' = insert h (tips pdb) - gone"
    "stored_tips E s' = insert h (stored_tips E s) - gone"
    using parents.del_all[OF q, of "u_ParentList (fst (GetUnitByHash E h s))"]
      parents.view_add[OF inv h] parents.stored_add[OF inv h]
    by (simp_all add: gone_def)
qed

lemma SaveParent_unit:
  assumes "env_ok E"
  shows "GetUnitByHash E h (snd (SaveParent E k (pdb, s))) = GetUnitByHash E h s"
proof -
  have "GetUnitByHash E h (snd (fold (DeleteParent E) ks ps)) = GetUnitByHash E h (snd ps)" for ks ps
    by (induction ks arbitrary: ps) (auto simp: DeleteParent_def GetUnit_frame(7)[OF assms] split: prod.splits)
  then show ?thesis
    by (simp add: SaveParent_add[OF assms] addParent_def GetUnit_frame(6)[OF assms])
qed

text \<open>
  The units of a sequence that no unit of the sequence has as a parent.  When every unit comes
  after its parents, saving the sequence leaves exactly these as tips.
\<close>

definition parents_of :: "'s env \<Rightarrow> 's \<Rightarrow> hash \<Rightarrow> hash set" where
  "parents_of E s h = set (u_ParentList (fst (GetUnitByHash E h s)))"

fun in_order :: "'s env \<Rightarrow> 's \<Rightarrow> hash list \<Rightarrow> bool" where
  "in_order E s [] \<longleftrightarrow> True"
| "in_order E s (h # hs) \<longleftrightarrow> (\<forall>k\<in>insert h (set hs). k \<notin> parents_of E s h) \<and> in_order E s hs"

definition childless :: "'s env \<Rightarrow> 's \<Rightarrow> hash set \<Rightarrow> hash set" where
  "childless E s H = {h \<in> H. \<forall>k\<in>H. h \<notin> parents_of E s k}"

lemma SaveParent_all:
  assumes "tips_inv E (pdb, s)" "list_all wf_hash hs"
    and "tips pdb = childless E s H" "\<forall>h\<in>H. \<forall>k\<in>set hs. k \<notin> parents_of E s h" "in_order E s hs"
    and "fold (SaveParent E) hs (pdb, s) = (pdb', s')"
  shows "tips_inv E (pdb', s') \<and> tips pdb' = childless E s (H \<union> set hs)"
  using assms
proof (induction hs arbitrary: pdb s H)
  case (Cons h hs)
  obtain pdb1 s1 where ps: "SaveParent E h (pdb, s) = (pdb1, s1)" by (cases "SaveParent E h (pdb, s)")
  have h: "wf_hash h" using Cons.prems(2) by simp
  note E = tips_invD(1)[OF Cons.prems(1)]
  have par: "parents_of E s1 = parents_of E s"
    using SaveParent_unit[OF E, of _ h pdb s] ps by (intro ext) (simp add: parents_of_def)
  have cl: "childless E s1 = childless E s" and io: "in_order E s1 = in_order E s"
    by (intro ext, simp add: childless_def par) (intro ext, induct_tac x, simp_all add: par)
  have "tips pdb1 = childless E s1 (insert h H)"
    using SaveParent_tips(2)[OF Cons.prems(1) h ps] Cons.prems(3,4,5)
    by (auto simp: cl childless_def parents_of_def)
  then show ?case
    using Cons.IH[of pdb1 s1 "insert h H"] SaveParent_tips(1)[OF Cons.prems(1) h ps] Cons.prems(2,4,5,6)
    by (simp add: ps cl io par)
qed (simp add: childless_def)

lemma SaveParent_synced:
  assumes "tips_inv E (pdb, s)" "tips pdb = stored_tips E s" "list_all wf_hash hs"
    and "fold (SaveParent E) hs (pdb, s) = (pdb', s')"
  shows "tips_inv E (pdb', s') \<and> tips pdb' = stored_tips E s'"
  using assms
proof (induction hs arbitrary: pdb s)
  case (Cons h hs)
  obtain pdb1 s1 where ps: "SaveParent E h (pdb, s) = (pdb1, s1)" by (cases "SaveParent E h (pdb, s)")
  have h: "wf_hash h" using Cons.prems(3) by simp
  show ?case
    using SaveParent_tips[OF Cons.prems(1) h ps] Cons.IH[of pdb1 s1] Cons.prems(2-4) by (simp add: ps)
qed simp

lemma GetParentsList_set:
  assumes "tips_inv E (pdb, s)"
  shows "set (GetParentsList E s) = stored_tips E s"
proof -
  have "GetParentsList E s = map (\<lambda>(k, v). BytesToHash (blob_bytes v)) (ldb_Iter E (ConstDBParentListPrefix (cfg E)) s)"
    by (simp add: GetParentsList_def NewIteratorWithPrefix_def iter_collect)
  then show ?thesis
    using raw_listed[OF env_ok_ldb[OF tips_invD(1)[OF assms]] tips_invD(3)[OF assms], of BytesToHash]
    by (simp add: parentKey_def wf_hash_def BytesToHash_id)
qed

lemma GetWitnessList_set:
  assumes "witness_inv E (wdb, s)"
  shows "set (GetWitnessList E s) = stored_witnesses E s"
proof -
  have "GetWitnessList E s = map (\<lambda>(k, v). BytesToAddress (blob_bytes v)) (ldb_Iter E (ConstDBWitnessListPrefix (cfg E)) s)"
    by (simp add: GetWitnessList_def NewIteratorWithPrefix_def iter_collect)
  then show ?thesis
    using raw_listed[OF env_ok_ldb[OF witness_invD(1)[OF assms]] witness_invD(3)[OF assms], of BytesToAddress]
    by (simp add: witnessKey_def wf_address_def BytesToAddress_id)
qed

lemma tips_inv_empty: "tips_inv mem_env (NewParentMemDB, RBT.empty)"
  by (simp add: tips_inv_def mem_env_ok NewParentMemDB_def hset.invar_new raw_table_def)

lemma witness_inv_empty: "witness_inv mem_env (NewWitnessMemDB, RBT.empty)"
  by (simp add: witness_inv_def mem_env_ok NewWitnessMemDB_def aset.invar_new raw_table_def)

lemma countForeign_le:
  "n \<le> 1 \<Longrightarrow> countForeign ws xs n \<le> 1 \<longleftrightarrow> n + length (filter (\<lambda>x. x \<notin> as_elems ws) xs) \<le> 1"
proof (induction xs arbitrary: n)
  case (Cons x xs)
  then show ?case by (cases "n = 1") (simp_all add: aset.exists_elems Let_def)
qed simp

lemma countForeign_zero:
  "countForeign ws xs 0 \<le> Suc 0 \<longleftrightarrow> length (filter (\<lambda>x. x \<notin> as_elems ws) xs) \<le> Suc 0"
  using countForeign_le[of 0 ws xs] by simp

lemma tips_inv_SaveUnit:
  assumes "env_ok E"
  shows "tips_inv E (pdb, SaveUnitToDb E u s) \<longleftrightarrow> tips_inv E (pdb, s)"
proof -
  have "\<not> prefix (ConstDBParentListPrefix (cfg E)) (unitKey E h)" for h
    using apart_not_prefix[OF apart_sym[OF tables_apart(3)[OF assms]]] by (simp add: unitKey_def)
  then have "prefix (ConstDBParentListPrefix (cfg E)) k \<Longrightarrow> k \<noteq> unitKey E h" for k h by metis
  then show ?thesis
    by (simp add: tips_inv_def raw_table_def Get_SaveUnit env_ok_ldb[OF assms] cong: conj_cong)
qed

lemma filter_fold: "fold (\<lambda>x xs. if P x then xs @ [x] else xs) ys xs = xs @ filter P ys"
  by (induction ys arbitrary: xs) auto

section \<open>Properties\<close>

text \<open>C3. Starting from a view whose tips are the childless ones of the units \<open>H\<close>, saving units
  that arrive after their parents leaves exactly the childless units as the tips of the graph.\<close>

theorem tips_are_childless:
  assumes "tips_inv E (pdb, s)" "list_all wf_hash hs" "tips pdb = childless E s H"
    and "\<forall>h\<in>H. \<forall>k\<in>set hs. k \<notin> parents_of E s h" "in_order E s hs"
  shows "tips (fst (fold (SaveParent E) hs (pdb, s))) = childless E s (H \<union> set hs)"
  using SaveParent_all[OF assms] by (cases "fold (SaveParent E) hs (pdb, s)") simp

definition chain_db :: memdb where
  "chain_db = SaveUnitToDb mem_env (sample_unit 2 [sample_hash 1])
     (SaveUnitToDb mem_env (sample_unit 1 []) RBT.empty)"

lemma chain_units [simp]:
  "fst (GetUnitByHash mem_env (sample_hash 1) chain_db) = sample_unit 1 []"
  "fst (GetUnitByHash mem_env (sample_hash 2) chain_db) = sample_unit 2 [sample_hash 1]"
  by (simp_all add: chain_db_def GetUnit_SaveUnit mem_ldb_ok)

lemma chain_tips_inv: "tips_inv mem_env (NewParentMemDB, chain_db)"
  by (simp add: chain_db_def tips_inv_SaveUnit mem_env_ok tips_inv_empty)

lemma stored_tips_SaveUnit: "env_ok E \<Longrightarrow> stored_tips E (SaveUnitToDb E u s) = stored_tips E s"
  using unitKey_neq(3)[of E, symmetric] by (simp add: raw_elems_def Get_SaveUnit env_ok_ldb)

lemma chain_tips_empty: "stored_tips mem_env chain_db = {}"
  unfolding chain_db_def stored_tips_SaveUnit[OF mem_env_ok] by (simp add: raw_elems_def)

lemma tips_new: "tips NewParentMemDB = {}"
  by (simp add: NewParentMemDB_def hset.elems_new)

theorem tips_are_childless_witness:
  "tips (fst (fold (SaveParent mem_env) [sample_hash 1, sample_hash 2] (NewParentMemDB, chain_db))) = {sample_hash 2}"
proof -
  have "tips (fst (fold (SaveParent mem_env) [sample_hash 1, sample_hash 2] (NewParentMemDB, chain_db)))
      = childless mem_env chain_db ({} \<union> set [sample_hash 1, sample_hash 2])"
    by (rule tips_are_childless)
      (simp_all add: chain_tips_inv tips_new childless_def parents_of_def)
  also have "\<dots> = {sample_hash 2}"
    by (auto simp: childless_def parents_of_def)
  finally show ?thesis .
qed

text \<open>C15. A restart loses no tip: whatever units are saved, the view that \<^verbatim>\<open>InitParentMemDB\<close> loads
  from the database has the tips the running view has.\<close>

theorem tips_survive_restart:
  assumes "tips_inv E (pdb, s)" "tips pdb = stored_tips E s" "list_all wf_hash hs"
    and "fold (SaveParent E) hs (pdb, s) = (pdb', s')"
  shows "tips (InitParentMemDB E s' NewParentMemDB) = tips pdb'"
proof -
  have "tips_inv E (pdb', s')" "tips pdb' = stored_tips E s'"
    using SaveParent_synced[OF assms] by simp_all
  then show ?thesis
    using GetParentsList_set
    by (simp add: InitParentMemDB_def NewParentMemDB_def HashSet_ListInsert_elems hset.elems_new)
qed

theorem tips_survive_restart_witness:
  "\<exists>pdb s. fold (SaveParent mem_env) [sample_hash 1, sample_hash 2] (NewParentMemDB, chain_db) = (pdb, s) \<and>
    tips (InitParentMemDB mem_env s NewParentMemDB) = tips pdb"
proof -
  obtain pdb s where *: "fold (SaveParent mem_env) [sample_hash 1, sample_hash 2] (NewParentMemDB, chain_db) = (pdb, s)"
    by (meson surj_pair)
  have "tips NewParentMemDB = stored_tips mem_env chain_db"
    by (simp add: tips_new chain_tips_empty)
  then have "tips (InitParentMemDB mem_env s NewParentMemDB) = tips pdb"
    using tips_survive_restart[OF chain_tips_inv _ _ *] by simp
  with * show ?thesis by blast
qed

text \<open>\<^verbatim>\<open>GetUnitParentListAsHash\<close> selects exactly the tips whose witness list has at most one
  witness outside the given list.\<close>

theorem compatible_parents:
  assumes "iter_ok it"
  shows "set (GetUnitParentListAsHash E it ws s pdb) =
    {h \<in> tips pdb. length (filter (\<lambda>w. w \<notin> set ws) (u_WitnessList (fst (GetUnitByHash E h s)))) \<le> 1}"
  using GetAllHash_set[OF assms, of "parentSet pdb"]
  by (auto simp: GetUnitParentListAsHash_def Let_def filter_fold countForeign_zero
      AddressSet_ListInsert_elems aset.elems_new)

theorem compatible_parents_witness:
  "set (GetUnitParentListAsHash mem_env rev [] chain_db (fst (SaveParent mem_env (sample_hash 2) (NewParentMemDB, chain_db))))
    = {sample_hash 2}"
proof -
  have t: "tips (fst (SaveParent mem_env (sample_hash 2) (NewParentMemDB, chain_db))) = {sample_hash 2}"
    using SaveParent_tips(2)[OF chain_tips_inv, of "sample_hash 2"]
    by (cases "SaveParent mem_env (sample_hash 2) (NewParentMemDB, chain_db)")
      (simp add: tips_new insert_Diff_if)
  have "\<And>h. h \<in> {sample_hash 2} \<Longrightarrow> u_WitnessList (fst (GetUnitByHash mem_env h chain_db)) = []"
    by simp
  then show ?thesis unfolding compatible_parents[OF iter_ok_rev] t by auto
qed

text \<open>\<^verbatim>\<open>ReplaceWitness\<close> does not replace: the new witness is never stored, and the witnesses in
  memory and in the database are what they were before.\<close>

theorem ReplaceWitness_no_effect:
  assumes "witness_inv E (wdb, s)" "witnesses wdb = stored_witnesses E s" "wf_address old"
    and "ReplaceWitness E old new (wdb, s) = (wdb', s')"
  shows "witnesses wdb' = witnesses wdb \<and> stored_witnesses E s' = stored_witnesses E s"
proof (cases "old \<in> witnesses wdb")
  case True
  let ?ws = "DeleteWitness E old (wdb, s)"
  have "(wdb', s') = SaveWitness E old ?ws"
    using assms(4) True by (simp add: ReplaceWitness_def aset.exists_elems)
  then have "wdb' = fst (SaveWitness E old ?ws)" "s' = snd (SaveWitness E old ?ws)"
    by (metis fst_conv, metis snd_conv)
  then show ?thesis
    using True assms(1,2,3) witness.invar_del[OF assms(1), of old] witness.view_del[OF assms(1), of old]
      witness.stored_del[OF assms(1), of old] witness.view_add[of E ?ws old] witness.stored_add[of E ?ws old]
    by auto
next
  case False
  then show ?thesis using assms(4) by (simp add: ReplaceWitness_def aset.exists_elems)
qed

theorem ReplaceWitness_no_effect_witness:
  "\<exists>ws. SaveWitness mem_env (sample_address 1) (NewWitnessMemDB, RBT.empty) = ws \<and>
    witnesses (fst (ReplaceWitness mem_env (sample_address 1) (sample_address 2) ws)) = {sample_address 1}"
proof -
  let ?ws = "SaveWitness mem_env (sample_address 1) (NewWitnessMemDB, RBT.empty)"
  obtain wdb s where ws: "?ws = (wdb, s)" by (cases ?ws)
  obtain wdb' s' where r: "ReplaceWitness mem_env (sample_address 1) (sample_address 2) (wdb, s) = (wdb', s')"
    by (meson surj_pair)
  have inv: "witness_inv mem_env (wdb, s)"
    using witness.invar_add[OF witness_inv_empty, of "sample_address 1"] ws by simp
  have "witnesses wdb = {sample_address 1}" "stored_witnesses mem_env s = {sample_address 1}"
    using witness.view_add[OF witness_inv_empty, of "sample_address 1"]
      witness.stored_add[OF witness_inv_empty, of "sample_address 1"] ws
    by (simp_all add: NewWitnessMemDB_def aset.elems_new raw_elems_def)
  then have "witnesses wdb' = {sample_address 1}"
    using ReplaceWitness_no_effect[OF inv _ _ r] by simp
  then show ?thesis using ws r by auto
qed

end
