(* ===== verification/Queue.thy ===== *)
theory Queue
  imports Prelude
begin

text \<open>
  The FIFO queue of \<^verbatim>\<open>common/queue/queue.go\<close>: a circular slice of fixed-size blocks.
  The Go structure keeps \<^verbatim>\<open>head\<close> and \<^verbatim>\<open>tail\<close> as slices that alias two entries of
  \<^verbatim>\<open>blocks\<close>, and \<^verbatim>\<open>Push\<close> writes through that alias.  The model therefore has an explicit
  store \<open>mem\<close> of blocks; \<open>blocks\<close>, \<open>head\<close> and \<open>tail\<close> hold addresses into it.

  The specification is the interface \<open>fifo\<close>: a queue is a list, pushed at the end and
  popped at the front.  The block queue implements it (interpretation \<open>que\<close>), so every
  traversal of the graph that uses this queue is reasoned about on lists.
\<close>

section \<open>The block queue\<close>

definition blockSize :: nat where
  "blockSize = 4096"

lemma blockSize_pos [simp]: "0 < blockSize" "blockSize \<noteq> 0"
  by (simp_all add: blockSize_def)

record 'a Queue =
  tailIdx :: nat
  headIdx :: nat
  tailOff :: nat
  headOff :: nat
  blocks :: "nat list"
  head :: nat
  tail :: nat
  mem :: "'a option list list"

text \<open>An unset cell is \<^verbatim>\<open>nil\<close>, here \<^const>\<open>None\<close>; \<^verbatim>\<open>make([]interface{}, blockSize)\<close> is a block of them.\<close>

definition newBlock :: "'a option list" where
  "newBlock = replicate blockSize None"

definition New :: "'a Queue" where
  "New = \<lparr>tailIdx = 0, headIdx = 0, tailOff = 0, headOff = 0,
          blocks = [0], head = 0, tail = 0, mem = [newBlock]\<rparr>"

definition Push :: "'a \<Rightarrow> 'a Queue \<Rightarrow> 'a Queue" where
  "Push data q =
     (let q1 = q\<lparr>mem := (mem q)[tail q := (mem q ! tail q)[tailOff q := Some data]],
                 tailOff := tailOff q + 1\<rparr>
      in if tailOff q1 = blockSize then
           (let q2 = q1\<lparr>tailOff := 0, tailIdx := (tailIdx q1 + 1) mod length (blocks q1)\<rparr>;
                q3 = (if tailIdx q2 = headIdx q2 then
                        (let fresh = length (mem q2);
                             buffer = take (tailIdx q2) (blocks q2) @ [fresh] @ drop (tailIdx q2) (blocks q2);
                             q' = q2\<lparr>mem := mem q2 @ [newBlock], blocks := buffer,
                                     headIdx := headIdx q2 + 1\<rparr>
                         in q'\<lparr>head := blocks q' ! headIdx q'\<rparr>)
                      else q2)
            in q3\<lparr>tail := blocks q3 ! tailIdx q3\<rparr>)
         else q1)"

text \<open>\<^verbatim>\<open>Pop\<close> returns the element it clears; \<^verbatim>\<open>nil\<close> (\<^const>\<open>None\<close>) if the cell was never set.\<close>

definition Pop :: "'a Queue \<Rightarrow> 'a option \<times> 'a Queue" where
  "Pop q =
     (let res = mem q ! head q ! headOff q;
          q1 = q\<lparr>mem := (mem q)[head q := (mem q ! head q)[headOff q := None]],
                 headOff := headOff q + 1\<rparr>
      in (res, if headOff q1 = blockSize then
                 (let q2 = q1\<lparr>headOff := 0, headIdx := (headIdx q1 + 1) mod length (blocks q1)\<rparr>
                  in q2\<lparr>head := blocks q2 ! headIdx q2\<rparr>)
               else q1))"

definition Front :: "'a Queue \<Rightarrow> 'a option" where
  "Front q = mem q ! head q ! headOff q"

definition Empty :: "'a Queue \<Rightarrow> bool" where
  "Empty q \<longleftrightarrow> headIdx q = tailIdx q \<and> headOff q = tailOff q"

definition Size :: "'a Queue \<Rightarrow> int" where
  "Size q =
     (if tailIdx q > headIdx q then
        (int (tailIdx q) - int (headIdx q)) * int blockSize - int (headOff q) + int (tailOff q)
      else if tailIdx q < headIdx q then
        (int (length (blocks q)) - int (headIdx q) + int (tailIdx q)) * int blockSize
          - int (headOff q) + int (tailOff q)
      else int (tailOff q) - int (headOff q))"

definition Reset :: "'a Queue \<Rightarrow> 'a Queue" where
  "Reset q = New"

section \<open>The interface: a queue is a list\<close>

text \<open>
  \<open>list\<close> is the content, front first; \<open>invar\<close> is what the operations keep.  \<^verbatim>\<open>Front\<close> and
  \<^verbatim>\<open>Pop\<close> check no bounds, so their laws are about queues that hold an element.
\<close>

locale fifo =
  fixes empty :: 'q
    and push :: "'a \<Rightarrow> 'q \<Rightarrow> 'q"
    and pop :: "'q \<Rightarrow> 'a option \<times> 'q"
    and front :: "'q \<Rightarrow> 'a option"
    and is_empty :: "'q \<Rightarrow> bool"
    and list :: "'q \<Rightarrow> 'a list"
    and invar :: "'q \<Rightarrow> bool"
  assumes list_empty: "list empty = []"
    and list_push: "invar q \<Longrightarrow> list (push x q) = list q @ [x]"
    and front_list: "invar q \<Longrightarrow> list q \<noteq> [] \<Longrightarrow> front q = Some (hd (list q))"
    and pop_list: "invar q \<Longrightarrow> list q \<noteq> [] \<Longrightarrow>
          fst (pop q) = Some (hd (list q)) \<and> list (snd (pop q)) = tl (list q)"
    and is_empty_list: "invar q \<Longrightarrow> is_empty q \<longleftrightarrow> list q = []"
    and invar_empty: "invar empty"
    and invar_push: "invar q \<Longrightarrow> invar (push x q)"
    and invar_pop: "invar q \<Longrightarrow> list q \<noteq> [] \<Longrightarrow> invar (snd (pop q))"
begin

lemma invar_push_all: "invar q \<Longrightarrow> invar (fold push xs q)"
  by (induction xs arbitrary: q) (auto simp: invar_push)

lemma list_push_all: "invar q \<Longrightarrow> list (fold push xs q) = list q @ xs"
  by (induction xs arbitrary: q) (auto simp: invar_push list_push)

lemma pushed_comes_out: "list (fold push xs empty) = xs"
  by (simp add: list_push_all invar_empty list_empty)

end

section \<open>The block queue implements the interface\<close>

text \<open>The blocks in reading order, starting with the head block, and their cells in one row.\<close>

definition ring :: "'a Queue \<Rightarrow> nat list" where
  "ring q = rotate (headIdx q) (blocks q)"

definition flat :: "'a Queue \<Rightarrow> 'a option list" where
  "flat q = concat (map ((!) (mem q)) (ring q))"

text \<open>How many blocks the tail is ahead of the head.\<close>

definition ahead :: "'a Queue \<Rightarrow> nat" where
  "ahead q = (tailIdx q + length (blocks q) - headIdx q) mod length (blocks q)"

definition cells :: "'a Queue \<Rightarrow> 'a option list" where
  "cells q = drop (headOff q) (take (ahead q * blockSize + tailOff q) (flat q))"

definition q_list :: "'a Queue \<Rightarrow> 'a list" where
  "q_list q = map the (cells q)"

definition q_inv :: "'a Queue \<Rightarrow> bool" where
  "q_inv q \<longleftrightarrow>
     distinct (blocks q) \<and> set (blocks q) \<subseteq> {..<length (mem q)} \<and>
     (\<forall>b\<in>set (mem q). length b = blockSize) \<and>
     headIdx q < length (blocks q) \<and> tailIdx q < length (blocks q) \<and>
     headOff q < blockSize \<and> tailOff q < blockSize \<and>
     head q = blocks q ! headIdx q \<and> tail q = blocks q ! tailIdx q \<and>
     (headIdx q = tailIdx q \<longrightarrow> headOff q \<le> tailOff q) \<and>
     (\<forall>c\<in>set (cells q). c \<noteq> None)"


subsection \<open>The shape of a well-formed queue\<close>

lemma ring_basic:
  assumes "q_inv q"
  shows "distinct (ring q)" "set (ring q) \<subseteq> {..<length (mem q)}"
    "\<And>a. a \<in> set (ring q) \<Longrightarrow> length (mem q ! a) = blockSize"
    "length (ring q) = length (blocks q)" "0 < length (blocks q)"
  using assms by (auto simp: ring_def q_inv_def)

lemma ahead_less: "q_inv q \<Longrightarrow> ahead q < length (ring q)"
  using ring_basic[of q] by (simp add: ahead_def)

lemma ring_head:
  assumes "q_inv q"
  shows "ring q ! 0 = head q"
proof -
  have "headIdx q < length (blocks q)" and "head q = blocks q ! headIdx q"
    using assms by (auto simp: q_inv_def)
  then show ?thesis by (subst ring_def, subst nth_rotate) auto
qed

lemma ring_tail:
  assumes "q_inv q"
  shows "ring q ! ahead q = tail q"
proof -
  let ?n = "length (blocks q)"
  have lt: "headIdx q < ?n" "tailIdx q < ?n" using assms by (auto simp: q_inv_def)
  have "(headIdx q + ahead q) mod ?n = (headIdx q + (tailIdx q + ?n - headIdx q)) mod ?n"
    by (simp add: ahead_def mod_add_right_eq)
  also have "\<dots> = tailIdx q" using lt by simp
  finally have "(headIdx q + ahead q) mod ?n = tailIdx q" .
  moreover have "ahead q < ?n" using ahead_less[OF assms] ring_basic[OF assms] by simp
  ultimately show ?thesis using assms by (simp add: ring_def nth_rotate q_inv_def)
qed

lemma block_length:
  assumes "q_inv q"
  shows "length (mem q ! head q) = blockSize" "length (mem q ! tail q) = blockSize"
  using assms by (simp_all add: q_inv_def subset_iff)

lemma ahead_cases:
  assumes "q_inv q"
  shows "ahead q = (if headIdx q \<le> tailIdx q then tailIdx q - headIdx q
                    else tailIdx q + length (blocks q) - headIdx q)"
proof -
  have lt: "headIdx q < length (blocks q)" "tailIdx q < length (blocks q)"
    using assms by (auto simp: q_inv_def)
  show ?thesis
  proof (cases "headIdx q \<le> tailIdx q")
    case True
    then have "tailIdx q + length (blocks q) - headIdx q = (tailIdx q - headIdx q) + length (blocks q)"
      by simp
    then have "ahead q = (tailIdx q - headIdx q) mod length (blocks q)"
      by (simp only: ahead_def mod_add_self2)
    then show ?thesis using True lt by simp
  next
    case False
    then show ?thesis using lt by (simp add: ahead_def)
  qed
qed

lemma ahead_zero:
  assumes "q_inv q"
  shows "ahead q = 0 \<longleftrightarrow> headIdx q = tailIdx q"
proof -
  have "headIdx q < length (blocks q)" using assms by (simp add: q_inv_def)
  then show ?thesis using ahead_cases[OF assms] by auto
qed

lemma length_flat: "q_inv q \<Longrightarrow> length (flat q) = length (ring q) * blockSize"
  using ring_basic[of q] unfolding flat_def
  by (subst length_concat_const[where n = blockSize]) auto

lemma tail_pos_less:
  assumes "q_inv q"
  shows "ahead q * blockSize + tailOff q < length (flat q)"
proof -
  have "ahead q * blockSize + tailOff q < Suc (ahead q) * blockSize"
    using assms by (simp add: q_inv_def)
  also have "\<dots> \<le> length (ring q) * blockSize"
    using ahead_less[OF assms] by (intro mult_le_mono1) simp
  finally show ?thesis using length_flat[OF assms] by simp
qed

lemma head_le_tail: "q_inv q \<Longrightarrow> headOff q \<le> ahead q * blockSize + tailOff q"
  using ahead_zero[of q] by (cases "ahead q") (auto simp: q_inv_def)

lemma length_cells:
  "q_inv q \<Longrightarrow> length (cells q) = ahead q * blockSize + tailOff q - headOff q"
  using tail_pos_less[of q] by (simp add: cells_def)

lemma Empty_iff:
  assumes "q_inv q"
  shows "Empty q \<longleftrightarrow> q_list q = []"
proof -
  have "q_list q = [] \<longleftrightarrow> ahead q * blockSize + tailOff q \<le> headOff q"
    using length_cells[OF assms] by (auto simp: q_list_def)
  moreover have "headOff q < blockSize" using assms by (simp add: q_inv_def)
  ultimately show ?thesis
    using ahead_zero[OF assms] assms
    by (cases "ahead q") (auto simp: Empty_def q_inv_def)
qed

lemma Size_length:
  assumes "q_inv q"
  shows "Size q = int (length (q_list q))"
proof -
  have "int (length (q_list q)) = int (ahead q) * int blockSize + int (tailOff q) - int (headOff q)"
    using length_cells[OF assms] head_le_tail[OF assms] by (simp add: q_list_def of_nat_diff)
  moreover have "int (ahead q) = (if headIdx q \<le> tailIdx q then int (tailIdx q) - int (headIdx q)
      else int (length (blocks q)) - int (headIdx q) + int (tailIdx q))"
    using ahead_cases[OF assms] assms by (auto simp: q_inv_def of_nat_diff)
  ultimately show ?thesis
    by (auto simp: Size_def)
qed

subsection \<open>Front and Pop\<close>

lemma cells_Cons:
  assumes "q_inv q" and "q_list q \<noteq> []"
  shows "cells q = flat q ! headOff q # drop (Suc (headOff q)) (take (ahead q * blockSize + tailOff q) (flat q))"
proof -
  have lt: "headOff q < ahead q * blockSize + tailOff q"
  proof -
    have "0 < length (cells q)" using assms(2) by (simp add: q_list_def)
    then show ?thesis using length_cells[OF assms(1)] by linarith
  qed
  then have "headOff q < length (take (ahead q * blockSize + tailOff q) (flat q))"
    using tail_pos_less[OF assms(1)] by simp
  then show ?thesis
    using lt unfolding cells_def by (subst Cons_nth_drop_Suc[symmetric]) auto
qed

lemma flat_head:
  assumes "q_inv q"
  shows "flat q ! headOff q = mem q ! head q ! headOff q"
proof -
  obtain r where r: "ring q = head q # r"
    using ring_head[OF assms] ring_basic(4,5)[OF assms] by (cases "ring q") auto
  have "length (mem q ! head q) = blockSize"
    using ring_basic(3)[OF assms, of "head q"] r by simp
  then show ?thesis using assms r by (simp add: flat_def nth_append q_inv_def)
qed

lemma Front_hd:
  assumes "q_inv q" and "q_list q \<noteq> []"
  shows "Front q = Some (hd (q_list q))"
proof -
  have "flat q ! headOff q \<noteq> None"
    using cells_Cons[OF assms] assms(1) by (auto simp: q_inv_def)
  then show ?thesis
    using cells_Cons[OF assms] flat_head[OF assms(1)]
    by (simp add: Front_def q_list_def)
qed

text \<open>Clearing the head cell and moving on, inside a block or to the next block of the ring.\<close>

lemma flat_clear_head:
  assumes "q_inv q"
  shows "concat (map ((!) ((mem q)[head q := (mem q ! head q)[headOff q := None]])) (ring q))
       = (flat q)[headOff q := None]"
  using concat_map_list_update[OF ring_basic(1)[OF assms], of 0 "mem q" blockSize "headOff q" None]
    ring_basic[OF assms] ring_head[OF assms] assms
  by (auto simp: flat_def q_inv_def)

lemma Pop_within_block:
  assumes "q_inv q" and ne: "q_list q \<noteq> []" and "Suc (headOff q) \<noteq> blockSize"
  shows "cells (snd (Pop q)) = tl (cells q)"
proof -
  let ?q = "snd (Pop q)"
  have "flat ?q = (flat q)[headOff q := None]"
    using assms(3) flat_clear_head[OF assms(1)] by (simp add: flat_def Pop_def Let_def ring_def)
  moreover have "ahead ?q = ahead q" "tailOff ?q = tailOff q" "headOff ?q = Suc (headOff q)"
    using assms(3) by (simp_all add: Pop_def Let_def ahead_def)
  ultimately show ?thesis
    unfolding cells_Cons[OF assms(1) ne] by (simp add: cells_def take_update_swap)
qed

lemma Pop_next_block_parts:
  assumes "q_inv q" and ne: "q_list q \<noteq> []" and last: "Suc (headOff q) = blockSize"
  shows "0 < ahead q" "ahead (snd (Pop q)) = ahead q - 1"
    "ring (snd (Pop q)) = rotate1 (ring q)"
proof -
  let ?n = "length (blocks q)"
  have lt: "headIdx q < ?n" "tailIdx q < ?n" "tailOff q < blockSize"
    using assms(1) by (auto simp: q_inv_def)
  have "0 < length (cells q)" using ne by (simp add: q_list_def)
  then show pos: "0 < ahead q"
    using length_cells[OF assms(1)] last lt by (cases "ahead q") auto
  have "ahead (snd (Pop q)) = (tailIdx q + ?n - (headIdx q + 1) mod ?n) mod ?n"
    using last by (simp add: Pop_def Let_def ahead_def)
  also have "\<dots> = ahead q - 1"
    using pos lt ahead_cases[OF assms(1)] ahead_zero[OF assms(1)]
    by (cases "Suc (headIdx q) = ?n"; cases "headIdx q \<le> tailIdx q") (auto simp: le_mod_geq)
  finally show "ahead (snd (Pop q)) = ahead q - 1" .
  have "ring (snd (Pop q)) = rotate ((headIdx q + 1) mod ?n) (blocks q)"
    using last by (simp add: Pop_def Let_def ring_def)
  then show "ring (snd (Pop q)) = rotate1 (ring q)"
    by (simp add: ring_def rotate_Suc flip: rotate_conv_mod)
qed

lemma Pop_next_block:
  assumes "q_inv q" and ne: "q_list q \<noteq> []" and last: "Suc (headOff q) = blockSize"
  shows "cells (snd (Pop q)) = tl (cells q)"
proof -
  let ?q = "snd (Pop q)" and ?m = "(mem q)[head q := (mem q ! head q)[headOff q := None]]"
  note parts = Pop_next_block_parts[OF assms]
  obtain r where r: "ring q = head q # r"
    using ring_head[OF assms(1)] ring_basic(4,5)[OF assms(1)] by (cases "ring q") auto
  have "head q \<notin> set r" using ring_basic(1)[OF assms(1)] r by simp
  then have same: "map ((!) ?m) r = map ((!) (mem q)) r"
    by (intro map_cong refl) (metis nth_list_update_neq)
  have len: "length (mem q ! head q) = blockSize"
    using ring_basic(3)[OF assms(1), of "head q"] r by simp
  have flat': "flat ?q = drop blockSize (flat q) @ ?m ! head q"
    using last parts(3) r same len by (simp add: flat_def Pop_def Let_def del: map_eq_conv)
  have "(ahead q - 1) * blockSize + tailOff q \<le> length (drop blockSize (flat q))"
    using tail_pos_less[OF assms(1)] parts(1) by (cases "ahead q") auto
  then have "take ((ahead q - 1) * blockSize + tailOff q) (flat ?q)
      = take ((ahead q - 1) * blockSize + tailOff q) (drop blockSize (flat q))"
    by (simp add: flat')
  also have "\<dots> = drop blockSize (take (ahead q * blockSize + tailOff q) (flat q))"
    using parts(1) by (cases "ahead q") (simp_all add: take_drop add.commute add.left_commute)
  finally have "take ((ahead q - 1) * blockSize + tailOff q) (flat ?q)
      = drop blockSize (take (ahead q * blockSize + tailOff q) (flat q))" .
  moreover have "tailOff ?q = tailOff q" "headOff ?q = 0"
    using last by (simp_all add: Pop_def Let_def)
  ultimately show ?thesis
    unfolding cells_Cons[OF assms(1) ne] using parts(2) last by (simp add: cells_def)
qed

lemma cells_Pop: "q_inv q \<Longrightarrow> q_list q \<noteq> [] \<Longrightarrow> cells (snd (Pop q)) = tl (cells q)"
  by (cases "Suc (headOff q) = blockSize") (auto intro: Pop_within_block Pop_next_block)

lemma Pop_inv:
  assumes "q_inv q" and ne: "q_list q \<noteq> []"
  shows "q_inv (snd (Pop q))"
proof -
  let ?q = "snd (Pop q)"
  have inv: "distinct (blocks q)" "set (blocks q) \<subseteq> {..<length (mem q)}"
    "\<forall>b\<in>set (mem q). length b = blockSize" "headIdx q < length (blocks q)"
    "tailIdx q < length (blocks q)" "headOff q < blockSize" "tailOff q < blockSize"
    "head q = blocks q ! headIdx q" "tail q = blocks q ! tailIdx q"
    using assms(1) by (auto simp: q_inv_def)
  have mems: "\<forall>b\<in>set ((mem q)[head q := (mem q ! head q)[headOff q := None]]). length b = blockSize"
    using inv(3) block_length[OF assms(1)] by (auto dest!: set_update_subset_insert[THEN subsetD])
  have "set (cells ?q) \<subseteq> set (cells q)"
    using cells_Pop[OF assms] by (metis list.set_sel(2) subsetI tl_Nil)
  then have some: "\<forall>c\<in>set (cells ?q). c \<noteq> None" using assms(1) by (auto simp: q_inv_def)
  show ?thesis
  proof (cases "Suc (headOff q) = blockSize")
    case True
    moreover have "Suc (headIdx q) mod length (blocks q) < length (blocks q)"
      using ring_basic(5)[OF assms(1)] by simp
    ultimately show ?thesis using inv mems some unfolding q_inv_def by (simp add: Pop_def Let_def)
  next
    case False
    have "0 < length (cells q)" using ne by (simp add: q_list_def)
    then have "headIdx q = tailIdx q \<longrightarrow> Suc (headOff q) \<le> tailOff q"
      using length_cells[OF assms(1)] ahead_zero[OF assms(1)] by auto
    then show ?thesis using False inv mems some unfolding q_inv_def by (simp add: Pop_def Let_def)
  qed
qed

subsection \<open>Push\<close>

text \<open>The queue after the write of \<^verbatim>\<open>Push\<close>, before the block end is looked at.\<close>

abbreviation push_write :: "'a \<Rightarrow> 'a Queue \<Rightarrow> 'a option list list" where
  "push_write x q \<equiv> (mem q)[tail q := (mem q ! tail q)[tailOff q := Some x]]"

lemma flat_write:
  assumes "q_inv q"
  shows "concat (map ((!) (push_write x q)) (ring q)) = (flat q)[ahead q * blockSize + tailOff q := Some x]"
  using concat_map_list_update[OF ring_basic(1)[OF assms] ahead_less[OF assms] ring_basic(2,3)[OF assms],
      of "tailOff q" "Some x"] ring_tail[OF assms] assms
  by (auto simp: flat_def q_inv_def)

lemma take_Suc_update: "n < length xs \<Longrightarrow> take (Suc n) (xs[n := v]) = take n xs @ [v]"
  by (simp add: take_Suc_conv_app_nth)

lemma cells_snoc:
  assumes "q_inv q"
  shows "drop (headOff q) (take (Suc (ahead q * blockSize + tailOff q))
           ((flat q)[ahead q * blockSize + tailOff q := Some x])) = cells q @ [Some x]"
  using tail_pos_less[OF assms] head_le_tail[OF assms] by (simp add: take_Suc_update cells_def)

lemma Push_within_block:
  assumes "q_inv q" and "Suc (tailOff q) \<noteq> blockSize"
  shows "cells (Push x q) = cells q @ [Some x]"
proof -
  have "flat (Push x q) = (flat q)[ahead q * blockSize + tailOff q := Some x]"
    using assms(2) flat_write[OF assms(1), of x] by (simp add: flat_def Push_def Let_def ring_def)
  moreover have "ahead (Push x q) = ahead q" "tailOff (Push x q) = Suc (tailOff q)"
    "headOff (Push x q) = headOff q"
    using assms(2) by (simp_all add: Push_def Let_def ahead_def)
  ultimately show ?thesis using cells_snoc[OF assms(1), of x] by (simp add: cells_def)
qed

lemma Push_next_block:
  assumes "q_inv q" and last: "Suc (tailOff q) = blockSize"
    and free: "(tailIdx q + 1) mod length (blocks q) \<noteq> headIdx q"
  shows "cells (Push x q) = cells q @ [Some x]" "ahead (Push x q) = Suc (ahead q)"
proof -
  let ?n = "length (blocks q)"
  have lt: "headIdx q < ?n" "tailIdx q < ?n" using assms(1) by (auto simp: q_inv_def)
  have p: "Push x q = q\<lparr>mem := push_write x q, tailOff := 0, tailIdx := (tailIdx q + 1) mod ?n,
                          tail := blocks q ! ((tailIdx q + 1) mod ?n)\<rparr>"
    using last free by (simp add: Push_def Let_def)
  have "ahead (Push x q) = ((tailIdx q + 1) mod ?n + ?n - headIdx q) mod ?n"
    by (simp add: p ahead_def)
  also have "\<dots> = Suc (ahead q)"
    using free lt ahead_cases[OF assms(1)]
    by (cases "Suc (tailIdx q) = ?n"; cases "headIdx q \<le> tailIdx q") (auto simp: le_mod_geq)
  finally show ah: "ahead (Push x q) = Suc (ahead q)" .
  have fl: "flat (Push x q) = (flat q)[ahead q * blockSize + tailOff q := Some x]"
    using flat_write[OF assms(1), of x] by (simp add: p flat_def ring_def)
  have "cells (Push x q) = drop (headOff q) (take (ahead (Push x q) * blockSize + 0) (flat (Push x q)))"
    by (simp add: cells_def p)
  also have "ahead (Push x q) * blockSize + 0 = Suc (ahead q * blockSize + tailOff q)"
    using ah last by simp
  finally show "cells (Push x q) = cells q @ [Some x]"
    using cells_snoc[OF assms(1), of x] fl by simp
qed

text \<open>
  The ring is full: a fresh block goes in before the head block, which is the place after
  the last block of the ring.
\<close>

lemma ahead_full:
  assumes "q_inv q" and "(tailIdx q + 1) mod length (blocks q) = headIdx q"
  shows "Suc (ahead q) = length (blocks q)"
proof -
  have "headIdx q < length (blocks q)" "tailIdx q < length (blocks q)"
    using assms(1) by (auto simp: q_inv_def)
  then show ?thesis
    using assms(2) ahead_cases[OF assms(1)] by (cases "Suc (tailIdx q) = length (blocks q)") auto
qed

lemma Push_grow_parts:
  assumes "q_inv q" and last: "Suc (tailOff q) = blockSize"
    and full: "(tailIdx q + 1) mod length (blocks q) = headIdx q"
  shows "ring (Push x q) = ring q @ [length (mem q)]" "ahead (Push x q) = Suc (ahead q)"
    "mem (Push x q) = push_write x q @ [newBlock]"
    "tailOff (Push x q) = 0" "headOff (Push x q) = headOff q"
    "tailIdx (Push x q) = headIdx q" "headIdx (Push x q) = Suc (headIdx q)"
    "blocks (Push x q) = take (headIdx q) (blocks q) @ [length (mem q)] @ drop (headIdx q) (blocks q)"
    "head (Push x q) = blocks (Push x q) ! headIdx (Push x q)"
    "tail (Push x q) = blocks (Push x q) ! tailIdx (Push x q)"
proof -
  have lt: "headIdx q < length (blocks q)" using assms(1) by (auto simp: q_inv_def)
  show m: "mem (Push x q) = push_write x q @ [newBlock]"
    and "tailOff (Push x q) = 0" "headOff (Push x q) = headOff q"
    and t: "tailIdx (Push x q) = headIdx q" and h: "headIdx (Push x q) = Suc (headIdx q)"
    and b: "blocks (Push x q) = take (headIdx q) (blocks q) @ [length (mem q)] @ drop (headIdx q) (blocks q)"
    and "head (Push x q) = blocks (Push x q) ! headIdx (Push x q)"
    and "tail (Push x q) = blocks (Push x q) ! tailIdx (Push x q)"
    using last full by (simp_all add: Push_def Let_def)
  show "ring (Push x q) = ring q @ [length (mem q)]"
    using lt by (simp add: ring_def b h rotate_drop_take)
  show "ahead (Push x q) = Suc (ahead q)"
    using lt ahead_full[OF assms(1) full] by (simp add: ahead_def b h t)
qed

lemma Push_grow:
  assumes "q_inv q" and last: "Suc (tailOff q) = blockSize"
    and full: "(tailIdx q + 1) mod length (blocks q) = headIdx q"
  shows "cells (Push x q) = cells q @ [Some x]"
proof -
  note parts = Push_grow_parts[OF assms, of x]
  have fl: "flat (Push x q) = (flat q)[ahead q * blockSize + tailOff q := Some x] @ newBlock"
  proof -
    have "map ((!) (push_write x q @ [newBlock])) (ring q) = map ((!) (push_write x q)) (ring q)"
      using ring_basic(2)[OF assms(1)] by (auto simp: nth_append)
    moreover have "(push_write x q @ [newBlock]) ! length (mem q) = newBlock"
      by (simp add: nth_append)
    ultimately show ?thesis
      using flat_write[OF assms(1), of x] by (simp add: flat_def parts(1,3) del: map_eq_conv)
  qed
  have "cells (Push x q) = drop (headOff q) (take (ahead (Push x q) * blockSize + 0) (flat (Push x q)))"
    by (simp add: cells_def parts)
  also have "ahead (Push x q) * blockSize + 0 = Suc (ahead q * blockSize + tailOff q)"
    using parts(2) last by simp
  finally show ?thesis
    using cells_snoc[OF assms(1), of x] tail_pos_less[OF assms(1)] fl by simp
qed

lemma cells_Push: "q_inv q \<Longrightarrow> cells (Push x q) = cells q @ [Some x]"
  by (cases "Suc (tailOff q) = blockSize"; cases "(tailIdx q + 1) mod length (blocks q) = headIdx q")
    (simp_all only: Push_within_block Push_next_block(1) Push_grow not_False_eq_True)

lemma Push_inv:
  assumes "q_inv q"
  shows "q_inv (Push x q)"
proof -
  have inv: "distinct (blocks q)" "set (blocks q) \<subseteq> {..<length (mem q)}"
    "\<forall>b\<in>set (mem q). length b = blockSize" "headIdx q < length (blocks q)"
    "tailIdx q < length (blocks q)" "headOff q < blockSize" "tailOff q < blockSize"
    "head q = blocks q ! headIdx q" "tail q = blocks q ! tailIdx q"
    "headIdx q = tailIdx q \<longrightarrow> headOff q \<le> tailOff q"
    using assms by (auto simp: q_inv_def)
  have mems: "\<forall>b\<in>set (push_write x q). length b = blockSize"
    using inv(3) block_length[OF assms] by (auto dest!: set_update_subset_insert[THEN subsetD])
  have some: "\<forall>c\<in>set (cells (Push x q)). c \<noteq> None"
    using assms cells_Push[OF assms] by (auto simp: q_inv_def)
  show ?thesis
  proof (cases "Suc (tailOff q) = blockSize")
    case False
    moreover have "headIdx q = tailIdx q \<longrightarrow> headOff q \<le> Suc (tailOff q)" using inv(10) by auto
    ultimately show ?thesis using inv mems some unfolding q_inv_def by (simp add: Push_def Let_def)
  next
    case last: True
    show ?thesis
    proof (cases "(tailIdx q + 1) mod length (blocks q) = headIdx q")
      case False
      moreover have "Suc (tailIdx q) mod length (blocks q) < length (blocks q)"
        using ring_basic(5)[OF assms] by simp
      ultimately show ?thesis
        using last inv mems some unfolding q_inv_def by (simp add: Push_def Let_def)
    next
      case True
      note parts = Push_grow_parts[OF assms last True, of x]
      have "distinct (blocks (Push x q))"
        using ring_basic(1,2)[OF assms] parts(1) by (metis distinct_append distinct_rotate
            distinct_singleton disjoint_insert(1) inf_bot_right lessThan_iff less_irrefl list.set(1,2) ring_def subset_iff)
      moreover have "set (blocks (Push x q)) \<subseteq> {..<length (mem (Push x q))}"
        using inv(2) parts(3,8) by (auto simp: less_Suc_eq dest!: in_set_takeD in_set_dropD)
      ultimately show ?thesis
        using inv mems some parts(3-7,9,10) unfolding q_inv_def
        by (simp add: parts(8) newBlock_def)
    qed
  qed
qed

lemma New_inv: "q_inv New" and cells_New: "cells New = []"
  by (simp_all add: q_inv_def New_def cells_def newBlock_def ahead_def)

subsection \<open>The interpretation\<close>

interpretation que: fifo New Push Pop Front Empty q_list q_inv
proof unfold_locales
  fix q :: "'a Queue" and x
  show "q_list New = []" by (simp add: q_list_def cells_New)
  show "q_inv New" by (rule New_inv)
  assume inv: "q_inv q"
  show "q_list (Push x q) = q_list q @ [x]" by (simp add: q_list_def cells_Push inv)
  show "Empty q \<longleftrightarrow> q_list q = []" by (rule Empty_iff[OF inv])
  show "q_inv (Push x q)" by (rule Push_inv[OF inv])
  assume ne: "q_list q \<noteq> []"
  show "Front q = Some (hd (q_list q))" by (rule Front_hd[OF inv ne])
  show "q_inv (snd (Pop q))" by (rule Pop_inv[OF inv ne])
  have "fst (Pop q) = Front q" by (simp add: Pop_def Front_def Let_def)
  then show "fst (Pop q) = Some (hd (q_list q)) \<and> q_list (snd (Pop q)) = tl (q_list q)"
    using Front_hd[OF inv ne] cells_Pop[OF inv ne] by (simp add: q_list_def map_tl)
qed

lemmas que_simps [abs_simps] = que.list_empty que.list_push que.front_list que.pop_list
  que.is_empty_list que.invar_empty que.invar_push que.invar_pop

section \<open>Runs of the queue\<close>

text \<open>A run is a sequence of pushes and pops.  On lists it fails when it pops from an empty list.\<close>

datatype 'a queue_op = OpPush 'a | OpPop

fun run_queue :: "'a queue_op list \<Rightarrow> 'a Queue \<Rightarrow> 'a option list \<times> 'a Queue" where
  "run_queue [] q = ([], q)"
| "run_queue (OpPush x # ops) q = run_queue ops (Push x q)"
| "run_queue (OpPop # ops) q =
     (let (x, q) = Pop q; (out, q) = run_queue ops q in (x # out, q))"

fun run_list :: "'a queue_op list \<Rightarrow> 'a list \<Rightarrow> ('a list \<times> 'a list) option" where
  "run_list [] xs = Some ([], xs)"
| "run_list (OpPush x # ops) xs = run_list ops (xs @ [x])"
| "run_list (OpPop # ops) [] = None"
| "run_list (OpPop # ops) (x # xs) = map_option (apfst ((#) x)) (run_list ops xs)"

lemma run_queue_list:
  assumes "q_inv q" "run_list ops (q_list q) = Some (out, xs)"
  shows "fst (run_queue ops q) = map Some out \<and> q_list (snd (run_queue ops q)) = xs \<and> q_inv (snd (run_queue ops q))"
  using assms
proof (induction ops q arbitrary: out rule: run_queue.induct)
  case (2 x ops q)
  then show ?case by (simp add: que_simps)
next
  case (3 ops q)
  then obtain y ys where ys: "q_list q = y # ys" by (cases "q_list q") auto
  then obtain q' where q': "Pop q = (Some y, q')" "q_list q' = ys" "q_inv q'"
    using que.pop_list[OF 3(2)] que.invar_pop[OF 3(2)] by (cases "Pop q") auto
  obtain out' where out': "run_list ops ys = Some (out', xs)" "out = y # out'" using 3(3) ys by auto
  show ?case using 3(1)[OF q'(1)[symmetric] refl q'(3)] out' by (auto simp: q'(1,2) split: prod.splits)
qed simp

text \<open>C5. The block queue behaves as a list: every run of pushes and pops that never pops from an empty list
  returns the same elements, and leaves a queue that holds the same list, with \<^verbatim>\<open>Empty\<close> and \<^verbatim>\<open>Size\<close> of that list.\<close>

theorem queue_runs_as_list:
  assumes "run_list ops [] = Some (out, xs)"
  shows "\<exists>q. run_queue ops New = (map Some out, q) \<and> q_list q = xs \<and> (Empty q \<longleftrightarrow> xs = []) \<and> Size q = int (length xs)"
  using run_queue_list[OF que.invar_empty, of ops out xs] assms
  by (intro exI[of _ "snd (run_queue ops New)"]) (auto simp: que_simps prod_eq_iff Size_length)

theorem queue_runs_as_list_witness:
  "\<exists>q. run_queue [OpPush (1::nat), OpPush 2, OpPop] New = ([Some 1], q) \<and> q_list q = [2] \<and> \<not> Empty q \<and> Size q = 1"
  using queue_runs_as_list[of "[OpPush (1::nat), OpPush 2, OpPop]" "[1]" "[2]"] by simp

end
