(* ===== verification/GraphInfo.thy ===== *)
theory GraphInfo
  imports MemDb Queue "HOL-Library.Product_Lexorder"
begin

text \<open>
  \<^verbatim>\<open>dag/graph_info.go\<close>: what a node reads off the graph when it composes a unit (best parent,
  level, witnessed level, last stable ball) or answers a peer (the units it misses).

  The graph walks of the source are loops on the queue of \<^verbatim>\<open>common/queue\<close>; each is a function
  with fuel over the same queue, and what it returns is an \<open>outcome\<close>.  The lemmas relate the
  loops to the chain of best parents (\<open>anc\<close>) and to reachability along parent links.
\<close>

section \<open>dag/graph_info.go\<close>

record GraphInfoGetter =
  gig_parentList :: "hash list"
  gig_witnessList :: "address list"
  gig_bestParent :: hash

abbreviation unit_at :: "'s env \<Rightarrow> 's \<Rightarrow> hash \<Rightarrow> Unit" where
  "unit_at E s h \<equiv> fst (GetUnitByHash E h s)"

definition GetLevel :: "'s env \<Rightarrow> 's \<Rightarrow> GraphInfoGetter \<Rightarrow> int64" where
  "GetLevel E s gig =
     (let level = fold (\<lambda>parentHash level.
        let tLevel = u_Level (unit_at E s parentHash) in if level <s tLevel then tLevel else level)
        (gig_parentList gig) 0
      in level + 1)"

text \<open>One comparison of the search for the best parent.\<close>

definition pickParent :: "'s env \<Rightarrow> Unit \<Rightarrow> Unit \<Rightarrow> Unit" where
  "pickParent E tParentUnit bestParentUnit =
     (if u_WitnessedLevel bestParentUnit <s u_WitnessedLevel tParentUnit then tParentUnit
      else if u_WitnessedLevel bestParentUnit = u_WitnessedLevel tParentUnit \<and>
              u_Level tParentUnit <s u_Level bestParentUnit then tParentUnit
      else if u_WitnessedLevel bestParentUnit = u_WitnessedLevel tParentUnit \<and>
              u_Level bestParentUnit = u_Level tParentUnit \<and>
              StringKey (sum256 E) bestParentUnit > StringKey (sum256 E) tParentUnit then tParentUnit
      else bestParentUnit)"

definition GetBestParentUnit :: "'s env \<Rightarrow> 's \<Rightarrow> GraphInfoGetter \<Rightarrow> hash \<times> GraphInfoGetter" where
  "GetBestParentUnit E s gig =
     (if gig_parentList gig = [] then (emptyHash, gig)
      else (let bestParentUnit = fold (\<lambda>parentHash best. pickParent E (unit_at E s parentHash) best)
                  (gig_parentList gig) (unit_at E s (hd (gig_parentList gig)));
                gig = gig\<lparr>gig_bestParent := u_Hash bestParentUnit\<rparr>
            in (gig_bestParent gig, gig)))"

definition NewGraphInfoGetter :: "'s env \<Rightarrow> 's \<Rightarrow> hash list \<Rightarrow> address list \<Rightarrow> GraphInfoGetter" where
  "NewGraphInfoGetter E s parentList witnessList =
     (let gig = \<lparr>gig_parentList = parentList, gig_witnessList = witnessList, gig_bestParent = emptyHash\<rparr>
      in snd (GetBestParentUnit E s gig))"

text \<open>
  The loop of \<^verbatim>\<open>GetWitnessLevel\<close>.  \<^verbatim>\<open>unit.Authors[0]\<close> of a unit without authors is a panic.
  The test \<^verbatim>\<open>len(gig.bestParent) == 0\<close> of the source is never true: a hash is an array.
\<close>

fun witnessLoop :: "'s env \<Rightarrow> 's \<Rightarrow> AddressSet \<Rightarrow> nat \<Rightarrow> hash Queue \<Rightarrow> AddressSet \<Rightarrow> int64 \<Rightarrow> int64 outcome" where
  "witnessLoop E s stableWitnessSet 0 que witnessCountSet witnessLevel = OutOfFuel"
| "witnessLoop E s stableWitnessSet (Suc fuel) que witnessCountSet witnessLevel =
     (if Empty que then Returned (- 1)
      else (case Front que of None \<Rightarrow> Panicked | Some h \<Rightarrow>
        (let unit = unit_at E s h; que = snd (Pop que) in
         if u_Authors unit = [] then Panicked
         else (let author = au_Address (hd (u_Authors unit));
                   isWitness = AddressSet_Exists author stableWitnessSet;
                   witnessCountSet = (if isWitness then AddressSet_Insert author witnessCountSet else witnessCountSet);
                   witnessLevel = (if isWitness \<and> u_Level unit <s witnessLevel then u_Level unit else witnessLevel)
               in if isWitness \<and> AddressSet_Size witnessCountSet = MajorityOfWitnesses (cfg E)
                  then Returned witnessLevel
                  else if Hash_String (u_Hash unit) = GENISIS_UNIT_HASH (cfg E) then Returned 0
                  else witnessLoop E s stableWitnessSet fuel (Push (u_BestParentUnit unit) que)
                         witnessCountSet witnessLevel))))"

definition GetWitnessLevel :: "nat \<Rightarrow> 's env \<Rightarrow> 's \<Rightarrow> GraphInfoGetter \<Rightarrow> int64 outcome" where
  "GetWitnessLevel fuel E s gig =
     (let bestParent = gig_bestParent gig;
          stableWitnessSet = AddressSet_ListInsert (gig_witnessList gig) NewAddressSet;
          witnessLevel = u_Level (unit_at E s bestParent)
      in witnessLoop E s stableWitnessSet fuel (Push bestParent New) NewAddressSet witnessLevel)"

text \<open>The two searches for the last stable ball differ in the field they return.\<close>

fun stableLoop :: "'s env \<Rightarrow> 's \<Rightarrow> nat \<Rightarrow> hash Queue \<Rightarrow> Unit \<Rightarrow> Unit outcome" where
  "stableLoop E s 0 que unit = OutOfFuel"
| "stableLoop E s (Suc fuel) que unit =
     (if Empty que then Returned unit
      else (case Front que of None \<Rightarrow> Panicked | Some subHash \<Rightarrow>
        (let que = snd (Pop que); unit = unit_at E s subHash
         in if u_IsStable unit \<and> u_IsOnMainChain unit then Returned unit
            else stableLoop E s fuel (Push (u_BestParentUnit unit) que) unit)))"

primrec map_outcome_of :: "('a \<Rightarrow> 'b) \<Rightarrow> 'a outcome \<Rightarrow> 'b outcome" where
  "map_outcome_of f (Returned x) = Returned (f x)"
| "map_outcome_of f Panicked = Panicked"
| "map_outcome_of f OutOfFuel = OutOfFuel"

definition GetLastStableBall :: "nat \<Rightarrow> 's env \<Rightarrow> 's \<Rightarrow> GraphInfoGetter \<Rightarrow> hash outcome" where
  "GetLastStableBall fuel E s gig =
     map_outcome_of u_Hash (stableLoop E s fuel (Push (gig_bestParent gig) New) NewEmptyUnit)"

definition GetLastStableBallMCI :: "nat \<Rightarrow> 's env \<Rightarrow> 's \<Rightarrow> GraphInfoGetter \<Rightarrow> int64 outcome" where
  "GetLastStableBallMCI fuel E s gig =
     map_outcome_of u_MainChainIndex (stableLoop E s fuel (Push (gig_bestParent gig) New) NewEmptyUnit)"

text \<open>\<^verbatim>\<open>GetMissingUnits\<close>: the state of the search is the queue and the two maps.\<close>

type_synonym search = "hash Queue \<times> HashMap \<times> HashMap"

definition startSearch :: "'s env \<Rightarrow> 's \<Rightarrow> hash list \<Rightarrow> search" where
  "startSearch E s parentList = fold (\<lambda>val (que, stableUnitMap, unstableUnitMap).
       if \<not> HashMap_Exists val unstableUnitMap
       then (Push val que, stableUnitMap, HashMap_Insert val (unit_at E s val) unstableUnitMap)
       else (que, stableUnitMap, unstableUnitMap)) parentList (New, NewHashMap, NewHashMap)"

definition visitParent :: "'s env \<Rightarrow> 's \<Rightarrow> int64 \<Rightarrow> hash \<Rightarrow> search \<Rightarrow> search" where
  "visitParent E s lastKnownMCI val st = (case st of (que, stableUnitMap, unstableUnitMap) \<Rightarrow>
     (let unit = unit_at E s val
      in if u_IsStable unit
         then (if \<not> HashMap_Exists val stableUnitMap \<and> lastKnownMCI <s u_MainChainIndex unit
               then (Push val que, HashMap_Insert val unit stableUnitMap, unstableUnitMap)
               else (que, stableUnitMap, unstableUnitMap))
         else (if \<not> HashMap_Exists val unstableUnitMap
               then (Push val que, stableUnitMap, HashMap_Insert val unit unstableUnitMap)
               else (que, stableUnitMap, unstableUnitMap))))"

fun searchLoop :: "'s env \<Rightarrow> 's \<Rightarrow> int64 \<Rightarrow> nat \<Rightarrow> search \<Rightarrow> (HashMap \<times> HashMap) outcome" where
  "searchLoop E s lastKnownMCI 0 st = OutOfFuel"
| "searchLoop E s lastKnownMCI (Suc fuel) (que, stableUnitMap, unstableUnitMap) =
     (if Empty que then Returned (stableUnitMap, unstableUnitMap)
      else (case Front que of None \<Rightarrow> Panicked | Some h \<Rightarrow>
        searchLoop E s lastKnownMCI fuel
          (fold (visitParent E s lastKnownMCI) (u_ParentList (unit_at E s h))
             (snd (Pop que), stableUnitMap, unstableUnitMap))))"

definition Units_IsSorted :: "Unit list \<Rightarrow> bool" where
  "Units_IsSorted units = list_all (\<lambda>i. \<not> Units_Less units i (i - 1)) [1..<length units]"

definition sortUnlessSorted :: "Unit list \<Rightarrow> Unit list" where
  "sortUnlessSorted units = (if \<not> Units_IsSorted units then sort_Units units else units)"

definition GetMissingUnits ::
    "nat \<Rightarrow> 's env \<Rightarrow> (hash, Unit) iter \<Rightarrow> 's \<Rightarrow> GraphInfoGetter \<Rightarrow> int64 \<Rightarrow> int64 \<Rightarrow> (Unit list \<times> Unit list) outcome" where
  "GetMissingUnits fuel E it s gig lastStableMCI lastKnownMCI =
     (if lastStableMCI <s lastKnownMCI then Returned ([], [])
      else map_outcome_of (\<lambda>(stableUnitMap, unstableUnitMap).
             (sortUnlessSorted (GetAllValue it stableUnitMap), sortUnlessSorted (GetAllValue it unstableUnitMap)))
           (searchLoop E s lastKnownMCI fuel (startSearch E s (gig_parentList gig))))"

fun mainChainLoop :: "'s env \<Rightarrow> 's \<Rightarrow> int64 \<Rightarrow> int64 \<Rightarrow> nat \<Rightarrow> hash Queue \<Rightarrow> HashMap \<Rightarrow> HashMap outcome" where
  "mainChainLoop E s lastStableMCI lastKnownMCI 0 que stableBallMap = OutOfFuel"
| "mainChainLoop E s lastStableMCI lastKnownMCI (Suc fuel) que stableBallMap =
     (if Empty que then Returned stableBallMap
      else (case Front que of None \<Rightarrow> Panicked | Some h \<Rightarrow>
        (let que = snd (Pop que); unit = unit_at E s h;
             stableBallMap = (if u_IsOnMainChain unit \<and> lastKnownMCI <=s u_MainChainIndex unit \<and>
                                 u_MainChainIndex unit <=s lastStableMCI
                              then HashMap_Insert h unit stableBallMap else stableBallMap)
         in mainChainLoop E s lastStableMCI lastKnownMCI fuel (Push (u_BestParentUnit unit) que) stableBallMap)))"

definition GetMissingStableUnitsHashOnMainChain ::
    "nat \<Rightarrow> 's env \<Rightarrow> (hash, Unit) iter \<Rightarrow> 's \<Rightarrow> GraphInfoGetter \<Rightarrow> int64 \<Rightarrow> int64 \<Rightarrow> hash list outcome" where
  "GetMissingStableUnitsHashOnMainChain fuel E it s gig lastStableMCI lastKnownMCI =
     (if lastStableMCI <s lastKnownMCI then Returned []
      else map_outcome_of (\<lambda>stableBallMap. map u_Hash (sortUnlessSorted (GetAllValue it stableBallMap)))
           (mainChainLoop E s lastStableMCI lastKnownMCI fuel (Push (gig_bestParent gig) New) NewHashMap))"

section \<open>The best parent\<close>

text \<open>The order of the search: witnessed level downwards, level upwards, key upwards.\<close>

definition parent_rank :: "'s env \<Rightarrow> Unit \<Rightarrow> int \<times> int \<times> string" where
  "parent_rank E u = (- sint (u_WitnessedLevel u), sint (u_Level u), StringKey (sum256 E) u)"

lemma pickParent_rank: "pickParent E t b = (if parent_rank E t < parent_rank E b then t else b)"
  by (auto simp: pickParent_def parent_rank_def word_sless_alt less_prod_def' int64_eq_sint)

lemma fold_pick:
  "parent_rank E (fold (pickParent E) us b) = Min (insert (parent_rank E b) (parent_rank E ` set us))"
  "fold (pickParent E) us b \<in> insert b (set us)"
proof -
  show "parent_rank E (fold (pickParent E) us b) = Min (insert (parent_rank E b) (parent_rank E ` set us))"
  proof (induction us arbitrary: b)
    case (Cons u us)
    have "parent_rank E (pickParent E u b) = min (parent_rank E b) (parent_rank E u)"
      by (auto simp: pickParent_rank min_def)
    then show ?case using Cons.IH[of "pickParent E u b"] by (simp del: Min_insert add: Min_insert_min)
  qed simp
  show "fold (pickParent E) us b \<in> insert b (set us)"
    by (induction us arbitrary: b) (auto simp: pickParent_rank)
qed

lemma best_parent_fold:
  "gig_parentList gig \<noteq> [] \<Longrightarrow> \<exists>u \<in> unit_at E s ` set (gig_parentList gig).
     fst (GetBestParentUnit E s gig) = u_Hash u \<and>
     parent_rank E u = Min (parent_rank E ` unit_at E s ` set (gig_parentList gig))"
proof -
  assume ne: "gig_parentList gig \<noteq> []"
  let ?us = "map (unit_at E s) (gig_parentList gig)" and ?u0 = "unit_at E s (hd (gig_parentList gig))"
  let ?best = "fold (pickParent E) ?us ?u0"
  have u0: "?u0 \<in> set ?us" using ne by simp
  have "fst (GetBestParentUnit E s gig) = u_Hash ?best"
    using ne by (simp add: GetBestParentUnit_def Let_def fold_map comp_def)
  moreover have "?best \<in> set ?us"
    using fold_pick(2)[of E ?us ?u0] u0 by (simp only: insert_absorb)
  moreover have "insert (parent_rank E ?u0) (parent_rank E ` set ?us) = parent_rank E ` set ?us"
    using u0 by (intro insert_absorb imageI)
  then have "parent_rank E ?best = Min (parent_rank E ` set ?us)"
    using fold_pick(1)[of E ?us ?u0] by (simp only:)
  ultimately show ?thesis by (intro bexI[of _ ?best]) simp_all
qed

section \<open>The level\<close>

lemma GetLevel_max:
  assumes "m = Max (insert 0 ((\<lambda>h. sint (u_Level (unit_at E s h))) ` set (gig_parentList gig)))"
    and "m < 2 ^ 63 - 1"
  shows "sint (GetLevel E s gig) = m + 1"
proof -
  let ?f = "\<lambda>h level. let tLevel = u_Level (unit_at E s h) in if level <s tLevel then tLevel else level"
  have "sint (fold ?f hs l) = Max (insert (sint l) ((\<lambda>h. sint (u_Level (unit_at E s h))) ` set hs))" for hs l
  proof (induction hs arbitrary: l)
    case (Cons h hs)
    have "sint (?f h l) = max (sint l) (sint (u_Level (unit_at E s h)))"
      by (simp add: Let_def word_sless_alt max_def)
    then show ?case using Cons.IH[of "?f h l"] by (simp del: Max_insert add: Max_insert_max)
  qed simp
  then have "sint (fold ?f (gig_parentList gig) 0) = m" by (simp add: assms(1))
  moreover have "0 \<le> m" using assms(1) by simp
  ultimately show ?thesis
    using assms(2) by (simp add: GetLevel_def sint_add_exact)
qed

section \<open>The chain of best parents\<close>

definition best_parent_of :: "'s env \<Rightarrow> 's \<Rightarrow> hash \<Rightarrow> hash" where
  "best_parent_of E s h = u_BestParentUnit (unit_at E s h)"

definition anc :: "'s env \<Rightarrow> 's \<Rightarrow> hash \<Rightarrow> nat \<Rightarrow> Unit" where
  "anc E s h n = unit_at E s ((best_parent_of E s ^^ n) h)"

lemma anc_0: "anc E s h 0 = unit_at E s h"
  and anc_Suc: "anc E s h (Suc n) = anc E s (u_BestParentUnit (unit_at E s h)) n"
  by (simp_all add: anc_def funpow_swap1 flip: best_parent_of_def)

text \<open>A queue that holds one hash: what one round of a chain loop does with it.\<close>

lemma single_queue:
  assumes "q_inv q" "q_list q = [h]"
  shows "\<not> Empty q" "Front q = Some h" "q_inv (Push x (snd (Pop q)))" "q_list (Push x (snd (Pop q))) = [x]"
  using assms by (simp_all add: que_simps)

lemma start_queue: "q_inv (Push h New)" "q_list (Push h New) = [h]"
  by (simp_all add: que_simps)

text \<open>
  A walk along the chain that looks for the first unit with a property: the shape of every
  loop of this file but the search.
\<close>

definition first_such :: "(nat \<Rightarrow> bool) \<Rightarrow> nat \<Rightarrow> nat option" where
  "first_such P fuel = (if \<exists>n<fuel. P n then Some (LEAST n. P n) else None)"

lemma first_such_0 [simp]: "first_such P 0 = None"
  by (simp add: first_such_def)

lemma first_such_Suc: "first_such P (Suc fuel) = (if P 0 then Some 0 else map_option Suc (first_such (\<lambda>n. P (Suc n)) fuel))"
proof (cases "P 0")
  case False
  have "(\<exists>n<Suc fuel. P n) \<longleftrightarrow> (\<exists>n<fuel. P (Suc n))"
    using False by (metis Suc_less_eq less_Suc_eq_0_disj)
  moreover have "P n \<Longrightarrow> (LEAST n. P n) = Suc (LEAST n. P (Suc n))" for n
    using Least_Suc[of P n] False by simp
  ultimately show ?thesis
    using False by (auto simp: first_such_def)
qed (auto simp: first_such_def Least_equality)

definition is_stable_ball :: "Unit \<Rightarrow> bool" where
  "is_stable_ball u \<longleftrightarrow> u_IsStable u \<and> u_IsOnMainChain u"

lemma stableLoop_first:
  assumes "q_inv q" "q_list q = [h]"
  shows "stableLoop E s fuel q u = (case first_such (\<lambda>n. is_stable_ball (anc E s h n)) fuel of
    Some n \<Rightarrow> Returned (anc E s h n) | None \<Rightarrow> OutOfFuel)"
  using assms
proof (induction fuel arbitrary: q h u)
  case (Suc fuel)
  let ?u = "unit_at E s h"
  have "stableLoop E s (Suc fuel) q u = (if is_stable_ball ?u then Returned ?u
      else stableLoop E s fuel (Push (u_BestParentUnit ?u) (snd (Pop q))) ?u)"
    using single_queue[OF Suc.prems] by (simp add: Let_def is_stable_ball_def)
  then show ?case
    using Suc.IH[OF single_queue(3,4)[OF Suc.prems], of "u_BestParentUnit ?u" ?u]
    by (auto simp: first_such_Suc anc_0 anc_Suc split: option.splits)
qed simp

lemma mainChainLoop_diverges:
  "q_inv q \<Longrightarrow> q_list q = [h] \<Longrightarrow> mainChainLoop E s lo hi fuel q m = OutOfFuel"
proof (induction fuel arbitrary: q h m)
  case (Suc fuel)
  then show ?case
    using Suc.IH[OF single_queue(3,4)[OF Suc.prems]] single_queue[OF Suc.prems] by (simp add: Let_def)
qed simp

section \<open>The witnessed level\<close>

definition author_of :: "Unit \<Rightarrow> address" where
  "author_of u = au_Address (hd (u_Authors u))"

definition by_witness :: "address set \<Rightarrow> Unit \<Rightarrow> bool" where
  "by_witness W u \<longleftrightarrow> author_of u \<in> W"

text \<open>The witnesses and the least level met before round \<open>k\<close>, and where the walk ends.\<close>

definition met :: "address set \<Rightarrow> (nat \<Rightarrow> Unit) \<Rightarrow> nat \<Rightarrow> address set" where
  "met W c k = {author_of (c i) | i. i < k \<and> by_witness W (c i)}"

definition low :: "address set \<Rightarrow> (nat \<Rightarrow> Unit) \<Rightarrow> nat \<Rightarrow> int" where
  "low W c k = Min (insert (sint (u_Level (c 0))) {sint (u_Level (c i)) | i. i < k \<and> by_witness W (c i)})"

lemma met_0 [simp]: "met W c 0 = {}"
  and met_Suc: "met W c (Suc k) = (if by_witness W (c k) then insert (author_of (c k)) (met W c k) else met W c k)"
  by (auto simp: met_def less_Suc_eq)

lemma low_0 [simp]: "low W c 0 = sint (u_Level (c 0))"
  by (simp add: low_def)

lemma low_Suc: "low W c (Suc k) = (if by_witness W (c k) then min (low W c k) (sint (u_Level (c k))) else low W c k)"
proof -
  let ?A = "{sint (u_Level (c i)) | i. i < k \<and> by_witness W (c i)}"
  have "{sint (u_Level (c i)) | i. i < Suc k \<and> by_witness W (c i)}
      = (if by_witness W (c k) then insert (sint (u_Level (c k))) ?A else ?A)"
    by (auto simp: less_Suc_eq)
  moreover have "Min (insert a (insert b ?A)) = min b (Min (insert a ?A))" for a b
    by (simp only: insert_commute[of a b], rule Min_insert) simp_all
  ultimately show ?thesis by (simp only: low_def min.commute if_distrib[of "insert _"] if_distrib[of Min])
qed

definition majority_at :: "'s env \<Rightarrow> address set \<Rightarrow> (nat \<Rightarrow> Unit) \<Rightarrow> nat \<Rightarrow> bool" where
  "majority_at E W c n \<longleftrightarrow> by_witness W (c n) \<and> card (met W c (Suc n)) = MajorityOfWitnesses (cfg E)"

definition is_genesis :: "'s env \<Rightarrow> Unit \<Rightarrow> bool" where
  "is_genesis E u \<longleftrightarrow> Hash_String (u_Hash u) = GENISIS_UNIT_HASH (cfg E)"

lemma witnessLoop_step:
  assumes "q_inv q" "q_list q = [h]" "u_Authors (unit_at E s h) \<noteq> []"
  shows "witnessLoop E s ws (Suc fuel) q cs wl =
    (let u = unit_at E s h; w = AddressSet_Exists (author_of u) ws;
         cs' = (if w then AddressSet_Insert (author_of u) cs else cs);
         wl' = (if w \<and> u_Level u <s wl then u_Level u else wl)
     in if w \<and> AddressSet_Size cs' = MajorityOfWitnesses (cfg E) then Returned wl'
        else if is_genesis E u then Returned 0
        else witnessLoop E s ws fuel (Push (u_BestParentUnit u) (snd (Pop q))) cs' wl')"
  using assms(3) single_queue[OF assms(1,2)]
  by (simp only: witnessLoop.simps option.case Let_def author_of_def is_genesis_def if_False)

lemma witnessLoop_majority:
  assumes "as_elems ws = W" "\<forall>i\<le>n. u_Authors (c i) \<noteq> []" "\<forall>i<n. \<not> majority_at E W c i \<and> \<not> is_genesis E (c i)"
    and "majority_at E W c n" and "\<And>i. c i = anc E s bp i"
    and "k \<le> n" "n < k + fuel" "q_inv q" "q_list q = [(best_parent_of E s ^^ k) bp]"
    and "as_inv cs" "as_elems cs = met W c k" "sint wl = low W c k"
  shows "\<exists>l. witnessLoop E s ws fuel q cs wl = Returned l \<and> sint l = low W c (Suc n)"
  using assms(6-)
proof (induction fuel arbitrary: k q cs wl)
  case (Suc fuel)
  let ?h = "(best_parent_of E s ^^ k) bp"
  let ?u = "unit_at E s ?h" and ?a = "author_of (unit_at E s ?h)"
  have u: "c k = ?u" by (simp add: assms(5) anc_def)
  have au: "u_Authors ?u \<noteq> []" using assms(2) Suc.prems(1) by (simp flip: u)
  have wit: "AddressSet_Exists ?a ws \<longleftrightarrow> by_witness W (c k)"
    by (simp add: aset.exists_elems assms(1) by_witness_def u)
  define cs' where "cs' = (if by_witness W (c k) then AddressSet_Insert ?a cs else cs)"
  define wl' where "wl' = (if by_witness W (c k) \<and> u_Level ?u <s wl then u_Level ?u else wl)"
  have cs': "as_inv cs'" "as_elems cs' = met W c (Suc k)"
    using Suc.prems by (simp_all add: cs'_def aset.invar_insert aset.elems_insert met_Suc u)
  have wl': "sint wl' = low W c (Suc k)"
    using Suc.prems by (simp add: wl'_def low_Suc u word_sless_alt min_def)
  have maj: "by_witness W (c k) \<and> AddressSet_Size cs' = MajorityOfWitnesses (cfg E) \<longleftrightarrow> majority_at E W c k"
    using cs' by (auto simp: majority_at_def aset.size_elems)
  have step: "witnessLoop E s ws (Suc fuel) q cs wl = (if majority_at E W c k then Returned wl'
      else if is_genesis E (c k) then Returned 0
      else witnessLoop E s ws fuel (Push (u_BestParentUnit ?u) (snd (Pop q))) cs' wl')"
    using witnessLoop_step[OF Suc.prems(3,4) au, of ws fuel cs wl] unfolding Let_def wit
    unfolding cs'_def[symmetric] wl'_def[symmetric] unfolding maj unfolding u[symmetric] .
  show ?case
  proof (cases "k = n")
    case True
    then show ?thesis using step wl' assms(4) by simp
  next
    case False
    then have "k < n" using Suc.prems(1) by simp
    moreover have "u_BestParentUnit ?u = (best_parent_of E s ^^ Suc k) bp"
      by (simp add: best_parent_of_def)
    ultimately show ?thesis
      using Suc.IH[of "Suc k" "Push (u_BestParentUnit ?u) (snd (Pop q))" cs' wl']
        single_queue[OF Suc.prems(3,4)] Suc.prems(2) cs' wl' assms(3) step by simp
  qed
qed simp

section \<open>The search for missing units\<close>

text \<open>
  A unit is followed if it is unstable or stable beyond the peer's index \<open>k\<close>; \<open>found\<close> is what can
  be reached from the tips \<open>T\<close> over such units.
\<close>

definition accepted :: "'s env \<Rightarrow> 's \<Rightarrow> int64 \<Rightarrow> hash \<Rightarrow> bool" where
  "accepted E s k v \<longleftrightarrow> (u_IsStable (unit_at E s v) \<longrightarrow> k <s u_MainChainIndex (unit_at E s v))"

inductive_set found :: "'s env \<Rightarrow> 's \<Rightarrow> int64 \<Rightarrow> hash set \<Rightarrow> hash set" for E s k T where
  found_tip: "h \<in> T \<Longrightarrow> h \<in> found E s k T"
| found_parent: "x \<in> found E s k T \<Longrightarrow> v \<in> parents_of E s x \<Longrightarrow> accepted E s k v \<Longrightarrow> v \<in> found E s k T"

definition stable_found :: "'s env \<Rightarrow> 's \<Rightarrow> int64 \<Rightarrow> hash set \<Rightarrow> hash set" where
  "stable_found E s k T = {v. u_IsStable (unit_at E s v) \<and> k <s u_MainChainIndex (unit_at E s v) \<and>
     (\<exists>x\<in>found E s k T. v \<in> parents_of E s x)}"

definition unstable_found :: "'s env \<Rightarrow> 's \<Rightarrow> int64 \<Rightarrow> hash set \<Rightarrow> hash set" where
  "unstable_found E s k T = T \<union> {v \<in> found E s k T. \<not> u_IsStable (unit_at E s v)}"

text \<open>A map of units that holds, for the hashes of \<open>A\<close>, what the database has for them.\<close>

definition holds :: "'s env \<Rightarrow> 's \<Rightarrow> HashMap \<Rightarrow> hash set \<Rightarrow> bool" where
  "holds E s m A \<longleftrightarrow> hm_inv m \<and> hm_map m = (\<lambda>h. if h \<in> A then Some (unit_at E s h) else None)"

lemma holds_simps:
  "holds E s NewHashMap {}"
  "holds E s m A \<Longrightarrow> holds E s (HashMap_Insert h (unit_at E s h) m) (insert h A)"
  "holds E s m A \<Longrightarrow> HashMap_Exists h m \<longleftrightarrow> h \<in> A"
  by (auto simp: holds_def abs_simps inv_intros fun_eq_iff)

text \<open>
  The search seen through its abstraction: the list in the queue and the two sets of hashes.
\<close>

type_synonym abs_search = "hash list \<times> hash set \<times> hash set"

definition repr :: "'s env \<Rightarrow> 's \<Rightarrow> search \<Rightarrow> abs_search \<Rightarrow> bool" where
  "repr E s st a \<longleftrightarrow> (case (st, a) of ((que, sm, um), (xs, A, B)) \<Rightarrow>
     q_inv que \<and> q_list que = xs \<and> holds E s sm A \<and> holds E s um B)"

definition visit :: "'s env \<Rightarrow> 's \<Rightarrow> int64 \<Rightarrow> hash \<Rightarrow> abs_search \<Rightarrow> abs_search" where
  "visit E s k v a = (case a of (xs, A, B) \<Rightarrow>
     if u_IsStable (unit_at E s v)
     then (if v \<notin> A \<and> k <s u_MainChainIndex (unit_at E s v) then (xs @ [v], insert v A, B) else a)
     else (if v \<notin> B then (xs @ [v], A, insert v B) else a))"

lemma repr_visit: "repr E s st a \<Longrightarrow> repr E s (visitParent E s k v st) (visit E s k v a)"
  by (cases st; cases a) (auto simp: repr_def visitParent_def visit_def Let_def que_simps holds_simps)

lemma repr_visits: "repr E s st a \<Longrightarrow> repr E s (fold (visitParent E s k) vs st) (fold (visit E s k) vs a)"
  by (induction vs arbitrary: st a) (simp_all add: repr_visit)

lemma repr_start: "\<exists>xs. repr E s (startSearch E s T) (xs, {}, set T) \<and> distinct xs \<and> set xs = set T"
proof -
  let ?f = "\<lambda>val (que, sm, um). if \<not> HashMap_Exists val um
    then (Push val que, sm, HashMap_Insert val (unit_at E s val) um) else (que, sm, um)"
  have "repr E s st (xs, {}, B) \<Longrightarrow> distinct xs \<Longrightarrow> set xs = B \<Longrightarrow>
      \<exists>ys. repr E s (fold ?f hs st) (ys, {}, B \<union> set hs) \<and> distinct ys \<and> set ys = B \<union> set hs" for hs st xs B
  proof (induction hs arbitrary: st xs B)
    case (Cons h hs)
    show ?case
    proof (cases "h \<in> B")
      case True
      then have "?f h st = st" using Cons.prems(1) by (cases st) (auto simp: repr_def holds_simps)
      then show ?thesis using Cons.IH[OF Cons.prems] True by (simp add: insert_absorb)
    next
      case False
      then have "repr E s (?f h st) (xs @ [h], {}, insert h B)"
        using Cons.prems(1) by (cases st) (auto simp: repr_def que_simps holds_simps)
      then show ?thesis using Cons.IH[of "?f h st" "xs @ [h]" "insert h B"] Cons.prems(2,3) False by simp
    qed
  qed auto
  from this[of "(New, NewHashMap, NewHashMap)" "[]" "{}" T] show ?thesis
    by (simp add: repr_def que_simps holds_simps startSearch_def)
qed

text \<open>The invariant of the search: what the maps hold, and which hashes are still to be expanded.\<close>

definition expanded :: "'s env \<Rightarrow> 's \<Rightarrow> int64 \<Rightarrow> hash set \<Rightarrow> hash set \<Rightarrow> hash \<Rightarrow> bool" where
  "expanded E s k A B x \<longleftrightarrow> (\<forall>v\<in>parents_of E s x. accepted E s k v \<longrightarrow>
     (u_IsStable (unit_at E s v) \<longrightarrow> v \<in> A) \<and> (\<not> u_IsStable (unit_at E s v) \<longrightarrow> v \<in> B))"

definition sound :: "'s env \<Rightarrow> 's \<Rightarrow> int64 \<Rightarrow> hash set \<Rightarrow> abs_search \<Rightarrow> bool" where
  "sound E s k T a \<longleftrightarrow> (case a of (xs, A, B) \<Rightarrow>
     A \<subseteq> stable_found E s k T \<and> T \<subseteq> B \<and> B \<subseteq> unstable_found E s k T \<and> set xs \<subseteq> A \<union> B)"

definition complete :: "'s env \<Rightarrow> 's \<Rightarrow> int64 \<Rightarrow> hash set \<Rightarrow> abs_search \<Rightarrow> bool" where
  "complete E s k X a \<longleftrightarrow> (case a of (xs, A, B) \<Rightarrow>
     \<forall>x\<in>A \<union> B. x \<in> set xs \<or> x \<in> X \<or> expanded E s k A B x)"

definition to_do :: "hash set \<Rightarrow> abs_search \<Rightarrow> nat" where
  "to_do F a = (case a of (xs, A, B) \<Rightarrow> length xs + card (F - A) + card (F - B))"

lemma found_sets: "A \<subseteq> stable_found E s k T \<Longrightarrow> x \<in> A \<Longrightarrow> x \<in> found E s k T"
    "B \<subseteq> unstable_found E s k T \<Longrightarrow> x \<in> B \<Longrightarrow> x \<in> found E s k T"
  by (auto simp: stable_found_def unstable_found_def accepted_def dest!: subsetD intro: found.intros)

lemma visit_sound:
  "sound E s k T a \<Longrightarrow> x \<in> found E s k T \<Longrightarrow> v \<in> parents_of E s x \<Longrightarrow> sound E s k T (visit E s k v a)"
  by (cases a) (auto simp: sound_def visit_def stable_found_def unstable_found_def accepted_def
      intro: found_parent)

lemma visit_complete:
  assumes "complete E s k X a"
  shows "complete E s k X (visit E s k v a)"
proof -
  have "expanded E s k A B x \<Longrightarrow> A \<subseteq> A' \<Longrightarrow> B \<subseteq> B' \<Longrightarrow> expanded E s k A' B' x" for A B A' B' x
    unfolding expanded_def by blast
  then show ?thesis
    using assms by (cases a) (auto simp: complete_def visit_def subset_insertI)
qed

lemma visit_to_do:
  assumes "finite F" "v \<in> F"
  shows "to_do F (visit E s k v a) = to_do F a"
proof -
  have "v \<notin> A \<Longrightarrow> card (F - A) = Suc (card (F - insert v A))" for A
    using assms by (metis Diff_insert card_Suc_Diff1 DiffI finite_Diff)
  then show ?thesis by (cases a) (auto simp: to_do_def visit_def)
qed

lemma visits:
  assumes "sound E s k T a" "x \<in> found E s k T" "set vs \<subseteq> parents_of E s x" "complete E s k X a"
    and "finite F" "set vs \<subseteq> F"
  shows "sound E s k T (fold (visit E s k) vs a)" "complete E s k X (fold (visit E s k) vs a)"
    "to_do F (fold (visit E s k) vs a) = to_do F a"
  using assms
  by (induction vs arbitrary: a) (simp_all add: visit_sound visit_complete visit_to_do)

lemma visits_expand:
  assumes "fold (visit E s k) vs (xs, A, B) = (xs', A', B')"
  shows "A \<subseteq> A' \<and> B \<subseteq> B' \<and> (\<forall>v\<in>set vs. accepted E s k v \<longrightarrow>
    (u_IsStable (unit_at E s v) \<longrightarrow> v \<in> A') \<and> (\<not> u_IsStable (unit_at E s v) \<longrightarrow> v \<in> B'))"
  using assms
proof (induction vs arbitrary: xs A B)
  case (Cons v vs)
  obtain ys C D where v: "visit E s k v (xs, A, B) = (ys, C, D)" by (metis prod_cases3)
  then have "A \<subseteq> C" "B \<subseteq> D" "accepted E s k v \<Longrightarrow> (u_IsStable (unit_at E s v) \<longrightarrow> v \<in> C) \<and> (\<not> u_IsStable (unit_at E s v) \<longrightarrow> v \<in> D)"
    by (auto simp: visit_def accepted_def split: if_splits)
  moreover have "C \<subseteq> A' \<and> D \<subseteq> B' \<and> (\<forall>v\<in>set vs. accepted E s k v \<longrightarrow>
      (u_IsStable (unit_at E s v) \<longrightarrow> v \<in> A') \<and> (\<not> u_IsStable (unit_at E s v) \<longrightarrow> v \<in> B'))"
    using Cons.IH[of ys C D] Cons.prems v by simp
  ultimately show ?case by auto
qed simp

text \<open>One round of the loop, and the end of it.\<close>

lemma round_ok:
  assumes "sound E s k T (h # xs, A, B)" "complete E s k {} (h # xs, A, B)"
    and "finite F" "\<And>x. x \<in> F \<Longrightarrow> parents_of E s x \<subseteq> F" "h \<in> F"
  defines "a \<equiv> fold (visit E s k) (u_ParentList (unit_at E s h)) (xs, A, B)"
  shows "sound E s k T a" "complete E s k {} a" "Suc (to_do F a) = to_do F (h # xs, A, B)"
proof -
  have h: "h \<in> found E s k T" using assms(1) found_sets by (fastforce simp: sound_def)
  have vs: "set (u_ParentList (unit_at E s h)) = parents_of E s h" by (simp add: parents_of_def)
  have pre: "sound E s k T (xs, A, B)" "complete E s k {h} (xs, A, B)"
    using assms(1,2) by (auto simp: sound_def complete_def)
  note * = visits[OF pre(1) h _ pre(2) assms(3), of "u_ParentList (unit_at E s h)", folded a_def]
  have sub: "parents_of E s h \<subseteq> F" using assms(4,5) .
  show "sound E s k T a" "Suc (to_do F a) = to_do F (h # xs, A, B)"
    using * sub by (simp_all add: vs to_do_def)
  obtain ys A' B' where a: "a = (ys, A', B')" by (metis prod_cases3)
  then have "expanded E s k A' B' h"
    using visits_expand[of E s k "u_ParentList (unit_at E s h)" xs A B ys A' B'] vs
    unfolding a_def expanded_def by blast
  then show "complete E s k {} a"
    using *(2) sub by (auto simp: vs a complete_def)
qed

lemma search_done:
  assumes "sound E s k T ([], A, B)" "complete E s k {} ([], A, B)"
  shows "A = stable_found E s k T" "B = unstable_found E s k T"
proof -
  have ex: "expanded E s k A B x" if "x \<in> A \<union> B" for x
    using assms(2) that by (simp add: complete_def)
  have all: "x \<in> A \<union> B" if "x \<in> found E s k T" for x
    using that
  proof induction
    case (found_tip h) then show ?case using assms(1) by (auto simp: sound_def)
  next
    case (found_parent x v) then show ?case using ex[of x] by (auto simp: expanded_def)
  qed
  have "v \<in> A" if st: "v \<in> stable_found E s k T" for v
  proof -
    obtain x where "x \<in> found E s k T" "v \<in> parents_of E s x" and v: "u_IsStable (unit_at E s v)" "accepted E s k v"
      using st by (auto simp: stable_found_def accepted_def)
    then show ?thesis using ex[OF all[of x]] by (simp add: expanded_def)
  qed
  then show "A = stable_found E s k T" using assms(1) by (auto simp: sound_def)
  have "v \<in> B" if "v \<in> found E s k T" "\<not> u_IsStable (unit_at E s v)" for v
    using all[OF that(1)] that(2) assms(1) by (auto simp: sound_def stable_found_def)
  then show "B = unstable_found E s k T" using assms(1) by (auto simp: sound_def unstable_found_def)
qed

lemma searchLoop_finds:
  assumes "repr E s st (xs, A, B)" "sound E s k T (xs, A, B)" "complete E s k {} (xs, A, B)"
    and F: "finite F" "\<And>x. x \<in> F \<Longrightarrow> parents_of E s x \<subseteq> F" "found E s k T \<subseteq> F"
    and "to_do F (xs, A, B) < fuel"
  shows "\<exists>sm um. searchLoop E s k fuel st = Returned (sm, um) \<and>
    holds E s sm (stable_found E s k T) \<and> holds E s um (unstable_found E s k T)"
  using assms(1-3,7)
proof (induction fuel arbitrary: st xs A B)
  case (Suc fuel)
  obtain que sm um where st: "st = (que, sm, um)" by (metis prod_cases3)
  have q: "q_inv que" "q_list que = xs" "holds E s sm A" "holds E s um B"
    using Suc.prems(1) by (simp_all add: repr_def st)
  show ?case
  proof (cases xs)
    case Nil
    then show ?thesis using search_done[of E s k T A B] Suc.prems(2,3) q by (simp add: st que_simps)
  next
    case (Cons h ys)
    let ?vs = "u_ParentList (unit_at E s h)"
    have "h \<in> F" using Suc.prems(2) found_sets[of A E s k T h] found_sets[of B E s k T h] F(3)
      by (auto simp: sound_def Cons)
    note r = round_ok[OF Suc.prems(2,3)[unfolded Cons] F(1,2) this]
    obtain zs A' B' where a: "fold (visit E s k) ?vs (ys, A, B) = (zs, A', B')" by (metis prod_cases3)
    have "repr E s (snd (Pop que), sm, um) (ys, A, B)"
      using q by (simp add: repr_def Cons que_simps)
    then have "repr E s (fold (visitParent E s k) ?vs (snd (Pop que), sm, um)) (zs, A', B')"
      using repr_visits a by metis
    then show ?thesis
      using Suc.IH[of "fold (visitParent E s k) ?vs (snd (Pop que), sm, um)" zs A' B'] r Suc.prems(4) q a
      by (simp add: st Cons que_simps)
  qed
qed simp

lemma sortUnlessSorted:
  "set (sortUnlessSorted us) = set us" "sorted (map (\<lambda>u. sint (u_Level u)) (sortUnlessSorted us))"
proof -
  show "set (sortUnlessSorted us) = set us"
    by (simp add: sortUnlessSorted_def sort_Units_def)
  have "sorted (map (\<lambda>u. sint (u_Level u)) us)" if "Units_IsSorted us"
    unfolding sorted_iff_nth_Suc
  proof (intro allI impI)
    fix i assume "Suc i < length (map (\<lambda>u. sint (u_Level u)) us)"
    then have "Suc i \<in> set [1..<length us]" by simp
    then have "\<not> Units_Less us (Suc i) (Suc i - 1)"
      using that unfolding Units_IsSorted_def list_all_iff by blast
    then show "map (\<lambda>u. sint (u_Level u)) us ! i \<le> map (\<lambda>u. sint (u_Level u)) us ! Suc i"
      using \<open>Suc i \<in> set [1..<length us]\<close> by (simp add: Units_Less_def)
  qed
  then show "sorted (map (\<lambda>u. sint (u_Level u)) (sortUnlessSorted us))"
    by (simp add: sortUnlessSorted_def sort_Units_sorted)
qed

lemma holds_values: "iter_ok it \<Longrightarrow> holds E s m A \<Longrightarrow> set (GetAllValue it m) = unit_at E s ` A"
  by (auto simp: holds_def GetAllValue_set ran_def)

text \<open>The database is finite, so there is a finite set that the search cannot leave.\<close>

lemma finite_graph:
  assumes "ldb_ok E"
  shows "\<exists>F. finite F \<and> set T \<subseteq> F \<and> (\<forall>x\<in>F. parents_of E s x \<subseteq> F)"
proof -
  let ?K = "{h. ldb_Get E (unitKey E h) s \<noteq> None}"
  have "unitKey E ` ?K \<subseteq> {k. prefix (ConstDBUnitPrefix (cfg E)) k \<and> ldb_Get E k s \<noteq> None}"
    by (auto simp: unitKey_def)
  then have "finite (unitKey E ` ?K)" using finite_keys[OF assms] finite_subset by blast
  then have K: "finite ?K" by (rule finite_imageD) (simp add: inj_on_def)
  have none: "parents_of E s h = {}" if "h \<notin> ?K" for h
    using that by (simp add: parents_of_def GetUnitByHash_def LDB_Get_def Byte2Unit_def NewEmptyUnit_def)
  let ?F = "set T \<union> (\<Union>h\<in>?K. parents_of E s h)"
  have "finite ?F" using K by (auto simp: parents_of_def)
  moreover have "parents_of E s x \<subseteq> ?F" for x using none[of x] by (cases "x \<in> ?K") auto
  ultimately show ?thesis by (intro exI[of _ ?F]) auto
qed

lemma found_subset:
  assumes "set T \<subseteq> F" "\<forall>x\<in>F. parents_of E s x \<subseteq> F"
  shows "found E s k (set T) \<subseteq> F"
proof
  fix x assume "x \<in> found E s k (set T)"
  then show "x \<in> F" by induction (use assms in auto)
qed

section \<open>A sample graph\<close>

text \<open>Unit 1 is stable and on the main chain; unit 2 has it as parent, unit 3 has unit 2.\<close>

definition graph_unit :: "byte \<Rightarrow> Unit" where
  "graph_unit b = (if b = 1 then (sample_unit 1 [])\<lparr>u_IsStable := True, u_IsOnMainChain := True, u_MainChainIndex := 7\<rparr>
     else (sample_unit b [sample_hash (b - 1)])\<lparr>u_BestParentUnit := sample_hash (b - 1), u_Level := ucast (b - 1),
       u_Version := (if b = 3 then ''1.0'' else [])\<rparr>)"

definition graph_db :: memdb where
  "graph_db = SaveUnitToDb mem_env (graph_unit 3) (SaveUnitToDb mem_env (graph_unit 2)
     (SaveUnitToDb mem_env (graph_unit 1) RBT.empty))"

definition graph_gig :: GraphInfoGetter where
  "graph_gig = \<lparr>gig_parentList = [sample_hash 3], gig_witnessList = [sample_address 2], gig_bestParent = sample_hash 3\<rparr>"

lemma graph_unit_wf: "wf_unit (graph_unit b)"
proof -
  have "wf_unit (sample_unit 1 [])" "wf_unit (sample_unit b [sample_hash (b - 1)])" by simp_all
  then show ?thesis by (simp add: graph_unit_def wf_unit_def)
qed

lemma graph_unit_hash: "u_Hash (graph_unit b) = sample_hash b"
  by (simp add: graph_unit_def)

lemma graph_units [simp]: "b \<in> {1, 2, 3} \<Longrightarrow> unit_at mem_env graph_db (sample_hash b) = graph_unit b"
  by (auto simp: graph_db_def GetUnit_SaveUnit mem_ldb_ok graph_unit_wf graph_unit_hash)

lemma graph_anc:
  "anc mem_env graph_db (sample_hash 3) 0 = graph_unit 3" "anc mem_env graph_db (sample_hash 3) (Suc 0) = graph_unit 2"
  "anc mem_env graph_db (sample_hash 3) 2 = graph_unit 1"
  by (simp_all add: anc_0 anc_Suc numeral_2_eq_2 graph_unit_def)

section \<open>Properties\<close>

text \<open>C13. The best parent does not depend on the order in which the tips are listed: two lists with the
  same tips give the same hash, if no two of the tips share their key but not their hash.\<close>

theorem best_parent_order_irrelevant:
  assumes "set (gig_parentList g1) = set (gig_parentList g2)" "gig_parentList g1 \<noteq> []"
    and "\<And>x y. x \<in> set (gig_parentList g1) \<Longrightarrow> y \<in> set (gig_parentList g1) \<Longrightarrow>
      StringKey (sum256 E) (unit_at E s x) = StringKey (sum256 E) (unit_at E s y) \<Longrightarrow>
      u_Hash (unit_at E s x) = u_Hash (unit_at E s y)"
  shows "fst (GetBestParentUnit E s g1) = fst (GetBestParentUnit E s g2)"
proof -
  have "gig_parentList g2 \<noteq> []" using assms(1,2) by auto
  then obtain v where v: "v \<in> unit_at E s ` set (gig_parentList g1)" "fst (GetBestParentUnit E s g2) = u_Hash v"
    "parent_rank E v = Min (parent_rank E ` unit_at E s ` set (gig_parentList g1))"
    using best_parent_fold[of g2 E s] unfolding assms(1) by meson
  obtain u where u: "u \<in> unit_at E s ` set (gig_parentList g1)" "fst (GetBestParentUnit E s g1) = u_Hash u"
    "parent_rank E u = Min (parent_rank E ` unit_at E s ` set (gig_parentList g1))"
    using best_parent_fold[OF assms(2), of E s] by meson
  have "parent_rank E u = parent_rank E v" using u(3) v(3) by (rule trans[OF _ sym])
  then have "StringKey (sum256 E) u = StringKey (sum256 E) v" by (simp add: parent_rank_def)
  then show ?thesis using u(1,2) v(1,2) assms(3) by auto
qed

lemma graph_keys: "StringKey mem_sum256 (graph_unit 2) \<noteq> StringKey mem_sum256 (graph_unit 3)"
proof -
  have "length (json_text (UnitJSON (graph_unit 3))) = length (json_text (UnitJSON (graph_unit 2))) + 3"
    by (simp add: UnitJSON_def graph_unit_def NewEmptyUnit_def sample_unit_def Hash_MarshalText_def sample_hash_def
        Author_json_def NewAuthor_def Address_MarshalText_def sample_address_def length_quote escape_hexes Encode_def)
      (simp add: json_escape_def Let_def)
  then show ?thesis
    by (simp add: StringKey_def HashKey_def json_hash_def mem_sum256_def)
qed

theorem best_parent_order_irrelevant_witness:
  "fst (GetBestParentUnit mem_env graph_db (graph_gig\<lparr>gig_parentList := [sample_hash 2, sample_hash 3]\<rparr>))
    = fst (GetBestParentUnit mem_env graph_db (graph_gig\<lparr>gig_parentList := [sample_hash 3, sample_hash 2]\<rparr>))"
  by (rule best_parent_order_irrelevant) (use graph_keys in auto)

text \<open>The level of a new unit is one more than the highest level of its parents, as long as that
  fits 64 bits; so it is above the level of every parent.\<close>

theorem level_above_parents:
  assumes "h \<in> set (gig_parentList gig)"
    and "\<And>p. p \<in> set (gig_parentList gig) \<Longrightarrow> sint (u_Level (unit_at E s p)) < 2 ^ 63 - 1"
  shows "sint (u_Level (unit_at E s h)) < sint (GetLevel E s gig) \<and>
    (\<exists>p. p \<in> set (gig_parentList gig) \<and> sint (GetLevel E s gig) = max 0 (sint (u_Level (unit_at E s p))) + 1)"
proof -
  let ?L = "(\<lambda>h. sint (u_Level (unit_at E s h))) ` set (gig_parentList gig)"
  have fin: "finite ?L" "?L \<noteq> {}" using assms(1) by auto
  have bound: "Max (insert 0 ?L) < 2 ^ 63 - 1" using assms(2) fin by simp
  have lev: "sint (GetLevel E s gig) = Max (insert 0 ?L) + 1" using GetLevel_max[OF refl bound] .
  have "sint (u_Level (unit_at E s h)) \<le> Max (insert 0 ?L)" using assms(1) by simp
  moreover obtain p where "p \<in> set (gig_parentList gig)" "Max ?L = sint (u_Level (unit_at E s p))"
    by (rule imageE[OF Max_in[OF fin]]) simp
  ultimately show ?thesis using lev fin by (intro conjI exI[of _ p]) simp_all
qed

theorem level_above_parents_witness:
  "sint (u_Level (unit_at mem_env graph_db (sample_hash 3))) < sint (GetLevel mem_env graph_db graph_gig)"
  by (rule conjunct1[OF level_above_parents]) (simp_all add: graph_gig_def graph_unit_def)

text \<open>\<^verbatim>\<open>GetLastStableBall\<close> walks the chain of best parents: it returns the hash of the first unit on
  it that is stable and on the main chain, and runs forever exactly if there is none.\<close>

theorem last_stable_ball:
  "GetLastStableBall fuel E s gig =
    (if \<exists>n<fuel. is_stable_ball (anc E s (gig_bestParent gig) n)
     then Returned (u_Hash (anc E s (gig_bestParent gig) (LEAST n. is_stable_ball (anc E s (gig_bestParent gig) n))))
     else OutOfFuel)"
  by (simp add: GetLastStableBall_def stableLoop_first[OF start_queue] first_such_def)

text \<open>\<^verbatim>\<open>GetLastStableBallMCI\<close> returns the main chain index of that unit.\<close>

lemma last_stable_ball_mci:
  "GetLastStableBallMCI fuel E s gig =
    (if \<exists>n<fuel. is_stable_ball (anc E s (gig_bestParent gig) n)
     then Returned (u_MainChainIndex (anc E s (gig_bestParent gig) (LEAST n. is_stable_ball (anc E s (gig_bestParent gig) n))))
     else OutOfFuel)"
  by (simp add: GetLastStableBallMCI_def stableLoop_first[OF start_queue] first_such_def)

text \<open>C14. The witnessed level: if, walking up the best parents, unit \<open>n\<close> is the first at which a majority
  of different witnesses has been met (and the walk has not reached genesis before), the result is the
  least level among the best parent and the units of witnesses up to \<open>n\<close>.\<close>

theorem witnessed_level:
  fixes E :: "'s env" and s gig
  defines "c \<equiv> anc E s (gig_bestParent gig)"
  defines "W \<equiv> set (gig_witnessList gig)"
  assumes "\<forall>i\<le>n. u_Authors (c i) \<noteq> []" "\<forall>i<n. \<not> majority_at E W c i \<and> \<not> is_genesis E (c i)"
    and "majority_at E W c n" "n < fuel"
  shows "\<exists>l. GetWitnessLevel fuel E s gig = Returned l \<and>
    sint l = Min (insert (sint (u_Level (c 0))) {sint (u_Level (c i)) | i. i \<le> n \<and> by_witness W (c i)})"
proof -
  have "\<exists>l. GetWitnessLevel fuel E s gig = Returned l \<and> sint l = low W c (Suc n)"
    unfolding GetWitnessLevel_def Let_def
    by (rule witnessLoop_majority[OF _ assms(3-5), where k = 0 and bp = "gig_bestParent gig"])
      (simp_all add: AddressSet_ListInsert_elems aset.elems_new aset.invar_new W_def c_def assms(6) que_simps anc_0)
  then show ?thesis by (simp add: low_def less_Suc_eq_le)
qed

theorem witnessed_level_witness:
  "\<exists>l. GetWitnessLevel 5 mem_env graph_db graph_gig = Returned l \<and> sint l = 1"
proof -
  let ?c = "anc mem_env graph_db (gig_bestParent graph_gig)" and ?W = "set (gig_witnessList graph_gig)"
  have c: "?c 0 = graph_unit 3" "?c (Suc 0) = graph_unit 2" by (simp_all add: graph_gig_def graph_anc)
  have W: "by_witness ?W (graph_unit b) \<longleftrightarrow> b = 2" for b
    by (simp add: by_witness_def graph_gig_def author_of_def graph_unit_def NewAuthor_def)
  have le1: "i \<le> Suc 0 \<longleftrightarrow> i = 0 \<or> i = Suc 0" for i :: nat by auto
  have gen: "\<not> is_genesis mem_env (graph_unit 3)"
    by (auto simp: is_genesis_def mem_config_def graph_unit_hash sample_hash_def dest!: arg_cong[where f = length])
  have "{sint (u_Level (?c i)) | i. i \<le> Suc 0 \<and> by_witness ?W (?c i)} = {sint (u_Level (graph_unit 2))}"
    using W[of 2] W[of 3] c by (auto simp: le1 intro!: exI[of _ "Suc 0"])
  moreover have "\<exists>l. GetWitnessLevel 5 mem_env graph_db graph_gig = Returned l \<and>
      sint l = Min (insert (sint (u_Level (?c 0))) {sint (u_Level (?c i)) | i. i \<le> Suc 0 \<and> by_witness ?W (?c i)})"
    by (rule witnessed_level)
      (auto simp: le1 c W gen majority_at_def met_Suc mem_config_def, simp_all add: graph_unit_def)
  ultimately show ?thesis by (simp add: c graph_unit_def)
qed

lemma search_finds_missing:
  fixes gig :: GraphInfoGetter
  assumes "ldb_ok E" "iter_ok it" "\<not> lastStableMCI <s k"
  defines "T \<equiv> set (gig_parentList gig)"
  shows "\<exists>N. \<forall>fuel\<ge>N. \<exists>st un. GetMissingUnits fuel E it s gig lastStableMCI k = Returned (st, un) \<and>
    set st = unit_at E s ` stable_found E s k T \<and> set un = unit_at E s ` unstable_found E s k T \<and>
    sorted (map (\<lambda>u. sint (u_Level u)) st) \<and> sorted (map (\<lambda>u. sint (u_Level u)) un)"
proof -
  obtain F where F: "finite F" "T \<subseteq> F" "\<forall>x\<in>F. parents_of E s x \<subseteq> F"
    using finite_graph[OF assms(1)] unfolding T_def by meson
  obtain xs where xs: "repr E s (startSearch E s (gig_parentList gig)) (xs, {}, T)" "set xs = T"
    using repr_start unfolding T_def by meson
  have start: "sound E s k T (xs, {}, T)" "complete E s k {} (xs, {}, T)"
    using xs(2) by (auto simp: sound_def complete_def unstable_found_def)
  have sub: "found E s k T \<subseteq> F" unfolding T_def by (rule found_subset) (use F(2,3) in \<open>simp_all add: T_def\<close>)
  have "\<exists>st un. GetMissingUnits fuel E it s gig lastStableMCI k = Returned (st, un) \<and>
      set st = unit_at E s ` stable_found E s k T \<and> set un = unit_at E s ` unstable_found E s k T \<and>
      sorted (map (\<lambda>u. sint (u_Level u)) st) \<and> sorted (map (\<lambda>u. sint (u_Level u)) un)"
    if "Suc (to_do F (xs, {}, T)) \<le> fuel" for fuel
    using searchLoop_finds[OF xs(1) start F(1) _ sub, of fuel] F(3) that assms(3)
    by (auto simp: GetMissingUnits_def sortUnlessSorted holds_values[OF assms(2)])
  then show ?thesis by blast
qed

text \<open>C4. \<^verbatim>\<open>GetMissingUnits\<close> always ends, and returns exactly the stable units beyond the peer's index and
  the unstable units that can be reached from the tips, each list by increasing level.\<close>

theorem missing_units:
  fixes gig :: GraphInfoGetter
  assumes "ldb_ok E" "iter_ok it" "\<not> lastStableMCI <s k"
  defines "T \<equiv> set (gig_parentList gig)"
  shows "\<exists>N. \<forall>fuel\<ge>N. \<exists>st un. GetMissingUnits fuel E it s gig lastStableMCI k = Returned (st, un) \<and>
    set st = unit_at E s ` stable_found E s k T \<and> set un = unit_at E s ` unstable_found E s k T \<and>
    sorted (map (\<lambda>u. sint (u_Level u)) st) \<and> sorted (map (\<lambda>u. sint (u_Level u)) un)"
  unfolding T_def by (rule search_finds_missing[OF assms(1-3)])

theorem missing_units_witness:
  "\<exists>N. \<forall>fuel\<ge>N. \<exists>st un. GetMissingUnits fuel mem_env rev graph_db graph_gig 7 0 = Returned (st, un) \<and>
    set st = unit_at mem_env graph_db ` stable_found mem_env graph_db 0 {sample_hash 3}"
proof -
  have "\<not> (7 :: int64) <s 0" by (simp add: word_sless_alt)
  then show ?thesis
    using missing_units[OF mem_ldb_ok iter_ok_rev, of 7 0 graph_db graph_gig] by (fastforce simp: graph_gig_def)
qed

text \<open>\<^verbatim>\<open>GetMissingStableUnitsHashOnMainChain\<close> never returns when it has something to look for: its
  loop pushes a best parent in every round and has no other exit.\<close>

theorem main_chain_hashes_diverge:
  assumes "\<not> lastStableMCI <s lastKnownMCI"
  shows "GetMissingStableUnitsHashOnMainChain fuel E it s gig lastStableMCI lastKnownMCI = OutOfFuel"
  using assms by (simp add: GetMissingStableUnitsHashOnMainChain_def mainChainLoop_diverges[OF start_queue])

theorem main_chain_hashes_diverge_witness:
  "GetMissingStableUnitsHashOnMainChain 100 mem_env rev graph_db graph_gig 7 0 = OutOfFuel"
  by (rule main_chain_hashes_diverge) (simp add: word_sless_alt)

end
