(* ===== verification/TxValid.thy ===== *)
theory TxValid
  imports GraphInfo
begin

text \<open>
  \<^verbatim>\<open>transaction/utils.go\<close> and \<^verbatim>\<open>transaction/errors.go\<close>: the checks a unit passes before it is
  accepted, with the errors as values.  Amounts are signed 64-bit words, and sums wrap as they do
  in Go; an index out of range is a panic.
\<close>

section \<open>transaction/errors.go\<close>

datatype txError =
    ErrNotUnSpentInput | ErrNotEnoughBalance | ErrNotEnoughCommission | ErrNotFindAccount | ErrUnitInfo
  | ErrUnitInputs | ErrUnitInputsLen | ErrUnitOutputs | ErrUnitOutputsLen | ErrUnitAmountNoEqual
  | ErrUnitAuthorAddress | ErrMainUpdate | ErrPendingHandle | ErrUnitInfoValid | ErrNotFindFrom
  | ErrParentsList | ErrCheckUnitHash | ErrTimeStamp

section \<open>transaction/utils.go\<close>

text \<open>
  The loop over the inputs of message \<open>i\<close> looks at input \<open>i\<close> in every round, not at the input of
  the round.
\<close>

fun inputsLoop :: "nat \<Rightarrow> Input list \<Rightarrow> nat \<Rightarrow> txError option outcome" where
  "inputsLoop i inputs 0 = Returned None"
| "inputsLoop i inputs (Suc rounds) =
     (if \<not> i < length inputs then Panicked
      else if out_Amount (in_Output (inputs ! i)) <=s 0 then Returned (Some ErrUnitInfo)
      else inputsLoop i inputs rounds)"

fun outputsLoop :: "Output list \<Rightarrow> txError option" where
  "outputsLoop [] = None"
| "outputsLoop (out # outs) = (if out_Amount out <=s 0 then Some ErrUnitInfo else outputsLoop outs)"

fun messagesLoop :: "nat \<Rightarrow> Message list \<Rightarrow> txError option outcome" where
  "messagesLoop i [] = Returned None"
| "messagesLoop i (m # ms) =
     (let inputs = pl_Inputs (msg_Payload m); outputs = pl_Outputs (msg_Payload m) in
      if length inputs \<le> 0 then Returned (Some ErrUnitInfo)
      else (case inputsLoop i inputs (length inputs) of
          Returned None \<Rightarrow>
            (if length outputs \<le> 0 then Returned (Some ErrUnitInfo)
             else (case outputsLoop outputs of
                 Some e \<Rightarrow> Returned (Some e)
               | None \<Rightarrow> messagesLoop (Suc i) ms))
        | r \<Rightarrow> r))"

definition ValidUnitInputsAndOutputs :: "Unit \<Rightarrow> txError option outcome" where
  "ValidUnitInputsAndOutputs unit =
     (if length (u_Messages unit) \<le> 0 then Returned (Some ErrUnitInfo)
      else (case messagesLoop 0 (u_Messages unit) of
          Returned None \<Rightarrow> if length (u_Authors unit) \<le> 0 then Returned (Some ErrUnitInfo) else Returned None
        | r \<Rightarrow> r))"

definition ValidUTXOAmount :: "Unit \<Rightarrow> txError option outcome" where
  "ValidUTXOAmount unit =
     (case u_Messages unit of [] \<Rightarrow> Panicked | m # _ \<Rightarrow>
       (let inputAmount = fold (\<lambda>inp n. n + out_Amount (in_Output inp)) (pl_Inputs (msg_Payload m)) 0;
            outputAmount = fold (\<lambda>out n. n + out_Amount out) (pl_Outputs (msg_Payload m)) 0;
            outputAmount = outputAmount + u_PayloadCommission unit + u_HeadersCommission unit
        in if inputAmount \<noteq> outputAmount then Returned (Some ErrUnitAmountNoEqual) else Returned None))"

fun authorLoop :: "(bytes \<Rightarrow> bytes) \<Rightarrow> address \<Rightarrow> Input list \<Rightarrow> txError option" where
  "authorLoop kec target [] = None"
| "authorLoop kec target (inp # inputs) =
     (if Address_String kec (out_Address (in_Output inp)) \<noteq> Address_String kec target
      then Some ErrUnitAuthorAddress else authorLoop kec target inputs)"

definition ValidAuthorAddress :: "(bytes \<Rightarrow> bytes) \<Rightarrow> Unit \<Rightarrow> txError option outcome" where
  "ValidAuthorAddress kec unit =
     (case (u_Authors unit, u_Messages unit) of
        (targetAddress # _, m # _) \<Rightarrow>
          Returned (authorLoop kec (au_Address targetAddress) (pl_Inputs (msg_Payload m)))
      | _ \<Rightarrow> Panicked)"

text \<open>Commissions by size, as \<^verbatim>\<open>big.Int\<close>.\<close>

definition GetWitnessCommission :: "Unit \<Rightarrow> int" where
  "GetWitnessCommission u = int (length (json_text (JArr (map Message_json (u_Messages u)))))"

definition GetMinerCommission :: "Unit \<Rightarrow> int" where
  "GetMinerCommission u = int (length (json_text (Unit_json u))) - GetWitnessCommission u"

section \<open>What the checks accept\<close>

lemma inputsLoop_iff:
  "inputsLoop i ins (Suc n) = Returned None \<longleftrightarrow> i < length ins \<and> 0 < sint (out_Amount (in_Output (ins ! i)))"
proof (induction n)
  case (Suc n)
  show ?case using Suc by (subst inputsLoop.simps) (auto simp: word_sle_eq split: if_splits)
qed (auto simp: word_sle_eq)

lemma outputsLoop_iff: "outputsLoop outs = None \<longleftrightarrow> list_all (\<lambda>out. 0 < sint (out_Amount out)) outs"
  by (induction outs) (auto simp: word_sle_eq)

definition message_ok :: "nat \<Rightarrow> Message \<Rightarrow> bool" where
  "message_ok i m \<longleftrightarrow> i < length (pl_Inputs (msg_Payload m)) \<and>
     0 < sint (out_Amount (in_Output (pl_Inputs (msg_Payload m) ! i))) \<and>
     pl_Outputs (msg_Payload m) \<noteq> [] \<and> list_all (\<lambda>out. 0 < sint (out_Amount out)) (pl_Outputs (msg_Payload m))"

lemma messagesLoop_iff:
  "messagesLoop i ms = Returned None \<longleftrightarrow> (\<forall>j<length ms. message_ok (i + j) (ms ! j))"
proof (induction ms arbitrary: i)
  case (Cons m ms)
  let ?ins = "pl_Inputs (msg_Payload m)" and ?outs = "pl_Outputs (msg_Payload m)"
  have "messagesLoop i (m # ms) = Returned None \<longleftrightarrow> message_ok i m \<and> messagesLoop (Suc i) ms = Returned None"
  proof (cases ?ins)
    case (Cons a list)
    then have "inputsLoop i ?ins (length ?ins) = Returned None
        \<longleftrightarrow> i < length ?ins \<and> 0 < sint (out_Amount (in_Output (?ins ! i)))"
      using inputsLoop_iff[of i ?ins "length list"] by (simp del: inputsLoop.simps)
    then show ?thesis using Cons outputsLoop_iff[of ?outs]
      by (auto simp: message_ok_def Let_def simp del: inputsLoop.simps split: outcome.splits option.splits)
  qed (simp add: message_ok_def)
  also have "\<dots> \<longleftrightarrow> (\<forall>j<length (m # ms). message_ok (i + j) ((m # ms) ! j))"
    using Cons.IH[of "Suc i"] by (auto simp: less_Suc_eq_0_disj nth_Cons')
  finally show ?case .
qed simp

lemma fold_add_sum: "fold (\<lambda>x n. n + f x) xs n = n + sum_list (map f xs)" for f :: "'a \<Rightarrow> 'b::comm_monoid_add"
  by (induction xs arbitrary: n) (simp_all add: algebra_simps)

definition in_total :: "Message \<Rightarrow> int" where
  "in_total m = sum_list (map (\<lambda>i. sint (out_Amount (in_Output i))) (pl_Inputs (msg_Payload m)))"

definition out_total :: "Message \<Rightarrow> int" where
  "out_total m = sum_list (map (\<lambda>out. sint (out_Amount out)) (pl_Outputs (msg_Payload m)))"

lemma of_int_sum_sint: "sum_list (map f xs) = of_int (sum_list (map (\<lambda>x. sint (f x)) xs))" for f :: "'a \<Rightarrow> int64"
  by (induction xs) simp_all

lemma authorLoop_iff:
  "authorLoop kec t ins = None \<longleftrightarrow> list_all (\<lambda>i. out_Address (in_Output i) = t) ins"
  by (induction ins) auto

text \<open>The amounts match modulo \<open>2 ^ 64\<close>, and no more than that.\<close>

lemma ValidUTXOAmount_mod:
  "ValidUTXOAmount unit = Returned None \<longleftrightarrow> u_Messages unit \<noteq> [] \<and>
     (in_total (hd (u_Messages unit)) - (out_total (hd (u_Messages unit)) +
       sint (u_PayloadCommission unit) + sint (u_HeadersCommission unit))) mod 2 ^ 64 = 0"
proof (cases "u_Messages unit")
  case (Cons m ms)
  let ?i = "in_total m" and ?o = "out_total m + sint (u_PayloadCommission unit) + sint (u_HeadersCommission unit)"
  have "ValidUTXOAmount unit = Returned None \<longleftrightarrow> (of_int ?i :: int64) = of_int ?o"
    by (simp add: ValidUTXOAmount_def Cons Let_def fold_add_sum of_int_sum_sint in_total_def out_total_def)
  also have "\<dots> \<longleftrightarrow> ?i mod 2 ^ 64 = ?o mod 2 ^ 64"
    by (simp only: word_of_int_eq_iff take_bit_eq_mod) simp
  also have "\<dots> \<longleftrightarrow> (?i - ?o) mod 2 ^ 64 = 0"
    by (simp add: mod_eq_dvd_iff mod_eq_0_iff_dvd)
  finally show ?thesis by (simp add: Cons)
qed (simp add: ValidUTXOAmount_def)

section \<open>A sample payment\<close>

definition pay_unit :: Unit where
  "pay_unit = NewEmptyUnit\<lparr>u_Hash := sample_hash 9, u_Authors := [NewAuthor (sample_address 1) []],
     u_PayloadCommission := 10, u_HeadersCommission := 100, u_SubStableAuthor := sample_address 3,
     u_Messages := [NewMessage [] emptyHash
       \<lparr>pl_Inputs = [NewInput (sample_hash 8) 0 0 [] (NewOutput (sample_address 1) 1000000)],
        pl_Outputs = [NewOutput (sample_address 2) 999890]\<rparr>]\<rparr>"

lemmas pay_unit_simps = pay_unit_def NewMessage_def NewInput_def NewOutput_def NewAuthor_def

section \<open>Properties\<close>

text \<open>The check of inputs and outputs accepts a unit exactly if it has authors and messages, every
  message has outputs, all of them positive, and input number \<open>j\<close> of message number \<open>j\<close> exists and is
  positive; no other input is looked at.\<close>

theorem valid_inputs_outputs_iff:
  "ValidUnitInputsAndOutputs unit = Returned None \<longleftrightarrow>
     u_Messages unit \<noteq> [] \<and> u_Authors unit \<noteq> [] \<and>
     (\<forall>j<length (u_Messages unit). message_ok j (u_Messages unit ! j))"
  using messagesLoop_iff[of 0 "u_Messages unit"]
  by (auto simp: ValidUnitInputsAndOutputs_def split: outcome.splits option.splits)

theorem valid_inputs_outputs_iff_witness: "ValidUnitInputsAndOutputs pay_unit = Returned None"
  unfolding valid_inputs_outputs_iff by (simp add: message_ok_def pay_unit_simps)



definition minting_unit :: "address \<Rightarrow> hash \<Rightarrow> Unit" where
  "minting_unit a h = NewEmptyUnit\<lparr>u_Authors := [NewAuthor a []], u_PayloadCommission := 100, u_HeadersCommission := 100,
     u_Messages := [NewMessage [] emptyHash
       \<lparr>pl_Inputs = [NewInput h 0 0 [] (NewOutput a 200)], pl_Outputs = replicate 4 (NewOutput a (2 ^ 62))\<rparr>]\<rparr>"

text \<open>C20. The checks do not stop a unit from creating coins: the sums wrap, so a unit
  with one input of 200 passes all three although it pays out \<open>2 ^ 64\<close> and two commissions of 100.\<close>

theorem coins_from_nothing:
  "ValidUnitInputsAndOutputs (minting_unit a h) = Returned None \<and> ValidUTXOAmount (minting_unit a h) = Returned None \<and>
    ValidAuthorAddress kec (minting_unit a h) = Returned None \<and>
    out_total (hd (u_Messages (minting_unit a h))) = in_total (hd (u_Messages (minting_unit a h))) - 200 + 2 ^ 64"
proof -
  have m: "u_Messages (minting_unit a h) = [NewMessage [] emptyHash
       \<lparr>pl_Inputs = [NewInput h 0 0 [] (NewOutput a 200)], pl_Outputs = replicate 4 (NewOutput a (2 ^ 62))\<rparr>]"
    by (simp add: minting_unit_def)
  have o: "sint (2 ^ 62 :: int64) = 2 ^ 62" "sint (200 :: int64) = 200" "sint (100 :: int64) = 100" by simp_all
  have tot: "in_total (hd (u_Messages (minting_unit a h))) = 200"
    "out_total (hd (u_Messages (minting_unit a h))) = 2 ^ 64"
    by (simp_all add: m in_total_def out_total_def NewMessage_def NewInput_def NewOutput_def eval_nat_numeral)
  have "ValidUTXOAmount (minting_unit a h) = Returned None"
    using tot by (simp add: ValidUTXOAmount_mod m) (simp add: minting_unit_def)
  moreover have "ValidUnitInputsAndOutputs (minting_unit a h) = Returned None"
    by (simp add: ValidUnitInputsAndOutputs_def m NewMessage_def NewInput_def NewOutput_def eval_nat_numeral word_sle_eq)
      (simp add: minting_unit_def)
  moreover have "ValidAuthorAddress kec (minting_unit a h) = Returned None"
    by (simp add: ValidAuthorAddress_def m authorLoop_iff NewMessage_def NewInput_def NewOutput_def)
      (simp add: minting_unit_def NewAuthor_def)
  ultimately show ?thesis using tot by simp
qed

end
