(* ===== verification/Pools.thy ===== *)
theory Pools
  imports LevelDb
begin

text \<open>
  The two tables of outputs of \<^verbatim>\<open>leveldb/dbservice.go\<close> as pools: what the existence tests
  answer, what every write does to the pool, and the amount a pool holds.
\<close>

section \<open>Pools of outputs\<close>

text \<open>
  The tables of unspent and of pending outputs have keys of one shape.  For the table with
  prefix \<open>P\<close>: \<open>pool_wf\<close> says that every entry is a UTXO stored under its own key, \<open>held\<close> is
  the pool the table represents, \<open>pool_total\<close> the amount in it.
\<close>

definition poolKey :: "'s env \<Rightarrow> string \<Rightarrow> address \<Rightarrow> UTXO \<Rightarrow> string" where
  "poolKey E P a u = P @ Address_String (keccak E) a @ ''.'' @ Hash_String (UTXO_ToHash (sum256 E) u)"

definition pool_wf :: "'s env \<Rightarrow> string \<Rightarrow> 's \<Rightarrow> bool" where
  "pool_wf E P s \<longleftrightarrow> (\<forall>k v. prefix P k \<and> ldb_Get E k s = Some v \<longrightarrow>
     (\<exists>a u. wf_address a \<and> wf_utxo u \<and> k = poolKey E P a u \<and> v = UTXO2Byte u))"

definition held :: "'s env \<Rightarrow> string \<Rightarrow> 's \<Rightarrow> (address \<times> UTXO) set" where
  "held E P s = {(a, u). wf_address a \<and> wf_utxo u \<and> ldb_Get E (poolKey E P a u) s = Some (UTXO2Byte u)}"

definition utxo_amount :: "UTXO \<Rightarrow> int" where
  "utxo_amount u = sint (out_Amount (utxo_Output u))"

definition pool_total :: "'s env \<Rightarrow> string \<Rightarrow> 's \<Rightarrow> int" where
  "pool_total E P s = sum_list (map (\<lambda>(k, v). utxo_amount (Byte2UTXO v)) (ldb_Iter E P s))"

text \<open>Hash collisions are excluded on a set \<open>U\<close> of outputs that contains all that occur.\<close>

definition collision_free :: "'s env \<Rightarrow> UTXO set \<Rightarrow> bool" where
  "collision_free E U \<longleftrightarrow> inj_on (UTXO_ToHash (sum256 E)) U"

definition pool_inv :: "'s env \<Rightarrow> string \<Rightarrow> UTXO set \<Rightarrow> 's \<Rightarrow> bool" where
  "pool_inv E P U s \<longleftrightarrow> env_ok E \<and> collision_free E U \<and> pool_wf E P s \<and> snd ` held E P s \<subseteq> U"

lemma pool_wfE:
  assumes "pool_wf E P s" "prefix P k" "ldb_Get E k s = Some v"
  obtains a u where "wf_address a" "wf_utxo u" "k = poolKey E P a u" "v = UTXO2Byte u"
  using assms unfolding pool_wf_def by meson

lemma heldI: "wf_address a \<Longrightarrow> wf_utxo u \<Longrightarrow> ldb_Get E (poolKey E P a u) s = Some (UTXO2Byte u) \<Longrightarrow> (a, u) \<in> held E P s"
  and heldD: "(a, u) \<in> held E P s \<Longrightarrow> wf_address a \<and> wf_utxo u \<and> ldb_Get E (poolKey E P a u) s = Some (UTXO2Byte u)"
  by (simp_all add: held_def)

lemma held_in_U: "pool_inv E P U s \<Longrightarrow> (a, u) \<in> held E P s \<Longrightarrow> u \<in> U"
  unfolding pool_inv_def by (metis image_subset_iff snd_conv)

lemma outputKey_pool: "outputKey E = poolKey E (ConstDBOutputPrefix (cfg E))"
  by (intro ext) (simp add: outputKey_def poolKey_def)

lemma pendingKey_pool: "pendingKey E a (UTXO_ToHash (sum256 E) u) = poolKey E (ConstDBPendingUnitPrefix (cfg E)) a u"
  by (simp add: pendingKey_def poolKey_def)

lemma poolKey_eq:
  assumes "wf_address a" "wf_address b"
  shows "poolKey E P a u = poolKey E P b v \<longleftrightarrow> a = b \<and> UTXO_ToHash (sum256 E) u = UTXO_ToHash (sum256 E) v"
proof -
  have "length (Address_String (keccak E) a) = length (Address_String (keccak E) b)"
    using assms by (simp add: wf_address_def)
  then show ?thesis by (auto simp: poolKey_def)
qed

lemma prefix_poolKey [simp]: "prefix P (poolKey E P a u)"
  by (simp add: poolKey_def)

lemma length_poolKey: "env_ok E \<Longrightarrow> wf_address a \<Longrightarrow> length (poolKey E P a u) = length P + 109"
  by (simp add: poolKey_def wf_address_def UTXO_ToHash_def json_hash_def env_ok_def HashLength_def AddressLength_def)

lemma UTXO2Byte_inj: "wf_utxo u \<Longrightarrow> wf_utxo v \<Longrightarrow> UTXO2Byte u = UTXO2Byte v \<Longrightarrow> u = v"
  by (metis UTXO_roundtrip)

lemma collision_freeD:
  "collision_free E U \<Longrightarrow> u \<in> U \<Longrightarrow> v \<in> U \<Longrightarrow> UTXO_ToHash (sum256 E) u = UTXO_ToHash (sum256 E) v \<Longrightarrow> u = v"
  by (auto simp: collision_free_def inj_on_def)

text \<open>In a pool the key of an entry determines it.\<close>

lemma held_at_key:
  assumes "pool_inv E P U s" "wf_address a" "wf_utxo u" "u \<in> U" "ldb_Get E (poolKey E P a u) s = Some v"
  shows "(a, u) \<in> held E P s" "v = UTXO2Byte u"
proof -
  have wf: "pool_wf E P s" using assms(1) by (simp add: pool_inv_def)
  obtain b w where bw: "wf_address b" "wf_utxo w" "poolKey E P a u = poolKey E P b w" "v = UTXO2Byte w"
    by (rule pool_wfE[OF wf prefix_poolKey assms(5)])
  then have "b = a" and hash: "UTXO_ToHash (sum256 E) u = UTXO_ToHash (sum256 E) w"
    using poolKey_eq[OF assms(2) bw(1)] by auto
  have "(b, w) \<in> held E P s" using bw assms(5) by (simp add: heldI)
  then have "w \<in> U" by (rule held_in_U[OF assms(1)])
  then have "u = w"
    using collision_freeD[of E U u w] assms(1,4) hash by (simp add: pool_inv_def)
  with bw show "v = UTXO2Byte u" by simp
  then show "(a, u) \<in> held E P s" using assms by (simp add: heldI)
qed

text \<open>The existence test asks for any key with the entry's key as prefix; all keys have one length.\<close>

lemma exists_iff_key:
  assumes "env_ok E" "pool_wf E P s" "wf_address a"
  shows "ldb_Iter E (poolKey E P a u) s \<noteq> [] \<longleftrightarrow> ldb_Get E (poolKey E P a u) s \<noteq> None"
proof -
  have "k = poolKey E P a u" if k: "prefix (poolKey E P a u) k" "ldb_Get E k s \<noteq> None" for k
  proof -
    have "prefix P k"
      using k(1) prefix_poolKey prefix_order.trans by blast
    moreover obtain x where "ldb_Get E k s = Some x" using k(2) by blast
    ultimately obtain b v where "wf_address b" "k = poolKey E P b v"
      by (rule pool_wfE[OF assms(2)])
    then have "length k = length (poolKey E P a u)"
      using length_poolKey[OF assms(1)] assms(3) by simp
    with k(1) show ?thesis by (auto simp: prefix_def)
  qed
  then show ?thesis
    using env_ok_ldb[OF assms(1)] by (auto simp: Iter_nonempty)
qed

lemma exists_held:
  assumes "pool_inv E P U s" "wf_address a" "wf_utxo u" "u \<in> U"
  shows "ldb_Iter E (poolKey E P a u) s \<noteq> [] \<longleftrightarrow> (a, u) \<in> held E P s"
proof -
  have "env_ok E" "pool_wf E P s" using assms(1) by (simp_all add: pool_inv_def)
  then have "ldb_Iter E (poolKey E P a u) s \<noteq> [] \<longleftrightarrow> ldb_Get E (poolKey E P a u) s \<noteq> None"
    using exists_iff_key[OF _ _ assms(2)] by simp
  then show ?thesis
    using held_at_key(1)[OF assms] heldD[of a u E P s] by auto
qed

subsection \<open>What a write does to a pool\<close>

lemma same_key_held:
  assumes "pool_inv E P U s" "(b, w) \<in> held E P s" "wf_address a" "u \<in> U"
  shows "poolKey E P b w = poolKey E P a u \<longleftrightarrow> (b, w) = (a, u)"
proof -
  have "w \<in> U" "wf_address b" using held_in_U[OF assms(1,2)] heldD[OF assms(2)] by simp_all
  then show ?thesis
    using poolKey_eq[of b a E P w u] collision_freeD[of E U w u] assms(1,3,4) by (auto simp: pool_inv_def)
qed

lemma held_put:
  assumes inv: "pool_inv E P U s" and new: "wf_address a" "wf_utxo u" "u \<in> U"
    and get: "\<And>k. ldb_Get E k s' = (if k = poolKey E P a u then Some (UTXO2Byte u) else ldb_Get E k s)"
  shows "held E P s' = insert (a, u) (held E P s)" "pool_inv E P U s'"
proof -
  have "(b, w) \<in> held E P s' \<longleftrightarrow> (b, w) = (a, u) \<or> (b, w) \<in> held E P s" for b w
  proof (cases "poolKey E P b w = poolKey E P a u")
    case True
    have "(b, w) = (a, u)" if "(b, w) \<in> held E P s'"
      using heldD[OF that] True UTXO2Byte_inj[OF _ new(2)] poolKey_eq[OF _ new(1), of b E P w u] by (simp add: get)
    moreover have "(a, u) \<in> held E P s'" using new by (simp add: heldI get)
    moreover have "(b, w) = (a, u)" if "(b, w) \<in> held E P s"
      using same_key_held[OF inv that new(1,3)] True by simp
    ultimately show ?thesis by blast
  next
    case False
    then show ?thesis by (auto simp: held_def get)
  qed
  then show h: "held E P s' = insert (a, u) (held E P s)" by auto
  have "pool_wf E P s'"
    using inv new unfolding pool_inv_def pool_wf_def get by (metis option.inject)
  then show "pool_inv E P U s'"
    using inv new unfolding pool_inv_def h by simp
qed

lemma held_delete:
  assumes inv: "pool_inv E P U s" and old: "wf_address a" "u \<in> U"
    and get: "\<And>k. ldb_Get E k s' = (if k = poolKey E P a u then None else ldb_Get E k s)"
  shows "held E P s' = held E P s - {(a, u)}" "pool_inv E P U s'"
proof -
  have "(b, w) \<in> held E P s' \<longleftrightarrow> (b, w) \<in> held E P s \<and> poolKey E P b w \<noteq> poolKey E P a u" for b w
    by (simp add: held_def get)
  then show h: "held E P s' = held E P s - {(a, u)}"
    using same_key_held[OF inv _ old] by auto
  have "pool_wf E P s'"
    using inv unfolding pool_inv_def pool_wf_def get by (metis option.distinct(1))
  then show "pool_inv E P U s'"
    using inv unfolding pool_inv_def h by auto
qed

lemma held_frame:
  assumes "\<And>k. prefix P k \<Longrightarrow> ldb_Get E k s' = ldb_Get E k s"
  shows "held E P s' = held E P s" "pool_inv E P U s' = pool_inv E P U s"
proof -
  show h: "held E P s' = held E P s" using assms prefix_poolKey unfolding held_def by metis
  show "pool_inv E P U s' = pool_inv E P U s"
    using assms unfolding pool_inv_def h pool_wf_def by metis
qed

lemma held_image_keys:
  assumes "pool_inv E P U s"
  shows "(\<lambda>(a, u). poolKey E P a u) ` held E P s = {k. prefix P k \<and> ldb_Get E k s \<noteq> None}"
proof (intro equalityI subsetI)
  fix k assume "k \<in> {k. prefix P k \<and> ldb_Get E k s \<noteq> None}"
  then obtain v where "prefix P k" "ldb_Get E k s = Some v" by auto
  moreover have "pool_wf E P s" using assms by (simp add: pool_inv_def)
  ultimately obtain a u where "wf_address a" "wf_utxo u" "k = poolKey E P a u" "v = UTXO2Byte u"
    by (metis (no_types) pool_wf_def)
  with \<open>ldb_Get E k s = Some v\<close> have "(a, u) \<in> held E P s" "k = poolKey E P a u"
    by (simp_all add: heldI)
  then show "k \<in> (\<lambda>(a, u). poolKey E P a u) ` held E P s" by force
qed (auto dest: heldD)

lemma held_inj_keys:
  assumes "pool_inv E P U s"
  shows "inj_on (\<lambda>(a, u). poolKey E P a u) (held E P s)"
proof (rule inj_onI, clarify)
  fix a u b w
  assume *: "(a, u) \<in> held E P s" "(b, w) \<in> held E P s" "poolKey E P a u = poolKey E P b w"
  then show "a = b \<and> u = w"
    using same_key_held[OF assms *(1), of b w] held_in_U[OF assms *(2)] heldD[OF *(2)] by simp
qed

lemma finite_held:
  assumes "pool_inv E P U s"
  shows "finite (held E P s)"
proof (rule finite_imageD[OF _ held_inj_keys[OF assms]])
  have "ldb_ok E" using assms by (auto simp: pool_inv_def)
  then show "finite ((\<lambda>(a, u). poolKey E P a u) ` held E P s)"
    unfolding held_image_keys[OF assms] by (rule finite_keys)
qed

lemma pool_total_held:
  assumes "pool_inv E P U s"
  shows "pool_total E P s = (\<Sum>(a, u)\<in>held E P s. utxo_amount u)"
proof -
  have "ldb_ok E" using assms by (auto simp: pool_inv_def)
  then have "pool_total E P s
      = (\<Sum>k | prefix P k \<and> ldb_Get E k s \<noteq> None. utxo_amount (Byte2UTXO (the (ldb_Get E k s))))"
    unfolding pool_total_def by (rule Iter_sum)
  also have "\<dots> = (\<Sum>(a, u)\<in>held E P s. utxo_amount (Byte2UTXO (the (ldb_Get E (poolKey E P a u) s))))"
    using held_inj_keys[OF assms] held_image_keys[OF assms, symmetric]
    by (simp add: sum.reindex case_prod_beta')
  also have "\<dots> = (\<Sum>(a, u)\<in>held E P s. utxo_amount u)"
    by (rule sum.cong) (auto dest: heldD)
  finally show ?thesis .
qed

section \<open>The contract of a pool\<close>

definition set_total :: "(address \<times> UTXO) set \<Rightarrow> int" where
  "set_total A = (\<Sum>(a, u)\<in>A. utxo_amount u)"

lemma set_total_insert: "finite A \<Longrightarrow> (a, u) \<notin> A \<Longrightarrow> set_total (insert (a, u) A) = set_total A + utxo_amount u"
  and set_total_remove: "finite A \<Longrightarrow> (a, u) \<in> A \<Longrightarrow> set_total (A - {(a, u)}) = set_total A - utxo_amount u"
  by (simp_all add: set_total_def sum_diff1)

text \<open>
  What the transaction layer relies on: a test that answers membership, an insertion and a
  deletion, for outputs of the set \<open>U\<close>.
\<close>

locale utxo_pool =
  fixes exist :: "address \<Rightarrow> UTXO \<Rightarrow> 's \<Rightarrow> bool"
    and save :: "address \<Rightarrow> UTXO \<Rightarrow> 's \<Rightarrow> 's"
    and del :: "address \<Rightarrow> UTXO \<Rightarrow> 's \<Rightarrow> 's"
    and pool :: "'s \<Rightarrow> (address \<times> UTXO) set"
    and inv :: "'s \<Rightarrow> bool"
    and U :: "UTXO set"
  assumes exist_iff: "\<lbrakk>inv s; wf_address a; wf_utxo u; u \<in> U\<rbrakk> \<Longrightarrow> exist a u s \<longleftrightarrow> (a, u) \<in> pool s"
    and save_pool: "\<lbrakk>inv s; wf_address a; wf_utxo u; u \<in> U\<rbrakk> \<Longrightarrow> pool (save a u s) = insert (a, u) (pool s)"
    and save_inv: "\<lbrakk>inv s; wf_address a; wf_utxo u; u \<in> U\<rbrakk> \<Longrightarrow> inv (save a u s)"
    and del_pool: "\<lbrakk>inv s; wf_address a; u \<in> U\<rbrakk> \<Longrightarrow> pool (del a u s) = pool s - {(a, u)}"
    and del_inv: "\<lbrakk>inv s; wf_address a; u \<in> U\<rbrakk> \<Longrightarrow> inv (del a u s)"
    and pool_finite: "inv s \<Longrightarrow> finite (pool s)"
begin

lemma spent_is_gone:
  "\<lbrakk>inv s; wf_address a; wf_utxo u; u \<in> U\<rbrakk> \<Longrightarrow> \<not> exist a u (del a u s)"
  by (simp add: exist_iff del_inv del_pool)

lemma saved_is_there:
  "\<lbrakk>inv s; wf_address a; wf_utxo u; u \<in> U\<rbrakk> \<Longrightarrow> exist a u (save a u s)"
  by (simp add: exist_iff save_inv save_pool)

lemma del_total:
  "\<lbrakk>inv s; wf_address a; wf_utxo u; u \<in> U; exist a u s\<rbrakk>
    \<Longrightarrow> set_total (pool (del a u s)) = set_total (pool s) - utxo_amount u"
  by (simp add: del_pool exist_iff set_total_remove pool_finite)

lemma save_total:
  "\<lbrakk>inv s; wf_address a; wf_utxo u; u \<in> U; \<not> exist a u s\<rbrakk>
    \<Longrightarrow> set_total (pool (save a u s)) = set_total (pool s) + utxo_amount u"
  by (simp add: save_pool exist_iff set_total_insert pool_finite)

lemma save_all:
  assumes "inv s" "\<And>a u. (a, u) \<in> set xs \<Longrightarrow> wf_address a \<and> wf_utxo u \<and> u \<in> U"
  shows "inv (fold (\<lambda>(a, u). save a u) xs s)" "pool (fold (\<lambda>(a, u). save a u) xs s) = pool s \<union> set xs"
proof -
  have "inv (fold (\<lambda>(a, u). save a u) xs s) \<and> pool (fold (\<lambda>(a, u). save a u) xs s) = pool s \<union> set xs"
    using assms
  proof (induction xs arbitrary: s)
    case (Cons x xs)
    obtain a u where x: "x = (a, u)" by (cases x)
    then have ok: "wf_address a" "wf_utxo u" "u \<in> U" using Cons.prems(2) by auto
    then have "inv (save a u s)" "pool (save a u s) = insert (a, u) (pool s)"
      using Cons.prems(1) by (simp_all add: save_inv save_pool)
    then show ?case using Cons.IH[of "save a u s"] Cons.prems(2) x by auto
  qed simp
  then show "inv (fold (\<lambda>(a, u). save a u) xs s)" "pool (fold (\<lambda>(a, u). save a u) xs s) = pool s \<union> set xs"
    by simp_all
qed

end

section \<open>The tables of the database are such pools\<close>

abbreviation stableP :: "'s env \<Rightarrow> string" where "stableP E \<equiv> ConstDBOutputPrefix (cfg E)"
abbreviation pendingP :: "'s env \<Rightarrow> string" where "pendingP E \<equiv> ConstDBPendingUnitPrefix (cfg E)"

lemma pool_inv_ldb: "pool_inv E P U s \<Longrightarrow> ldb_ok E"
  by (auto simp: pool_inv_def)

lemma Get_pool_ops:
  assumes "ldb_ok E"
  shows "ldb_Get E k (SaveUnspentOutput E a u s) = (if k = poolKey E (stableP E) a u then Some (UTXO2Byte u) else ldb_Get E k s)"
    "ldb_Get E k (DelUnspentOutput E a u s) = (if k = poolKey E (stableP E) a u then None else ldb_Get E k s)"
    "ldb_Get E k (SavePendingUTXO E a u s) = (if k = poolKey E (pendingP E) a u then Some (UTXO2Byte u) else ldb_Get E k s)"
    "ldb_Get E k (DelPendingUTXO E a u s) = (if k = poolKey E (pendingP E) a u then None else ldb_Get E k s)"
    "ldb_Get E k (DelPendingUnspentOutput E a u s) = (if k = poolKey E (pendingP E) a u then None else ldb_Get E k s)"
  using assms by (simp_all add: SaveUnspentOutput_def DelUnspentOutput_def SavePendingUTXO_def DelPendingUTXO_def
      DelPendingUnspentOutput_def Get_batch_Put Get_batch_Delete outputKey_pool pendingKey_pool)

interpretation stable: utxo_pool "IsExistUnspentOutput E" "SaveUnspentOutput E" "DelUnspentOutput E"
  "held E (stableP E)" "pool_inv E (stableP E) U" U for E U
proof (unfold_locales, goal_cases)
  case (1 s a u)
  then show ?case
    by (simp add: IsExistUnspentOutput_def NewIteratorWithPrefix_def outputKey_pool exists_held)
next
  case (2 s a u)
  show ?case by (rule held_put(1)[OF 2]) (simp add: Get_pool_ops pool_inv_ldb[OF 2(1)])
next
  case (3 s a u)
  show ?case by (rule held_put(2)[OF 3]) (simp add: Get_pool_ops pool_inv_ldb[OF 3(1)])
next
  case (4 s a u)
  show ?case by (rule held_delete(1)[OF 4]) (simp add: Get_pool_ops pool_inv_ldb[OF 4(1)])
next
  case (5 s a u)
  show ?case by (rule held_delete(2)[OF 5]) (simp add: Get_pool_ops pool_inv_ldb[OF 5(1)])
qed (rule finite_held)

interpretation pending: utxo_pool "IsExistPendingUTXO E" "SavePendingUTXO E" "DelPendingUTXO E"
  "held E (pendingP E)" "pool_inv E (pendingP E) U" U for E U
proof (unfold_locales, goal_cases)
  case (1 s a u)
  then show ?case
    by (simp add: IsExistPendingUTXO_def NewIteratorWithPrefix_def pendingKey_pool exists_held)
next
  case (2 s a u)
  show ?case by (rule held_put(1)[OF 2]) (simp add: Get_pool_ops pool_inv_ldb[OF 2(1)])
next
  case (3 s a u)
  show ?case by (rule held_put(2)[OF 3]) (simp add: Get_pool_ops pool_inv_ldb[OF 3(1)])
next
  case (4 s a u)
  show ?case by (rule held_delete(1)[OF 4]) (simp add: Get_pool_ops pool_inv_ldb[OF 4(1)])
next
  case (5 s a u)
  show ?case by (rule held_delete(2)[OF 5]) (simp add: Get_pool_ops pool_inv_ldb[OF 5(1)])
qed (rule finite_held)

text \<open>A batch of commissions is the insertion of each of them.\<close>

lemma SaveBatch_fold:
  assumes "ldb_ok E"
  shows "SaveBatchUnspentOutput E cs s = fold (\<lambda>(a, u). SaveUnspentOutput E a u) (map (\<lambda>c. (com_Address c, com_UTXO c)) cs) s"
proof -
  have "SaveUnspentOutput E a u = ldb_Put E (outputKey E a u) (UTXO2Byte u)" for a u
    using batch_put_all_fold[OF assms, of "\<lambda>_. outputKey E a u" "\<lambda>_. UTXO2Byte u" "[undefined]"]
    by (intro ext) (simp add: SaveUnspentOutput_def)
  then show ?thesis
    by (simp add: SaveBatchUnspentOutput_def batch_put_all_fold[OF assms] fold_map comp_def)
qed

lemma pool_frame:
  assumes "apart P Q" "\<And>k. \<not> prefix Q k \<Longrightarrow> ldb_Get E k s' = ldb_Get E k s"
  shows "held E P s' = held E P s" "pool_inv E P U s' = pool_inv E P U s"
proof -
  have "\<not> prefix Q k" if "prefix P k" for k
    using that assms(1) by (metis apart_def prefix_same_cases)
  with assms(2) have "\<And>k. prefix P k \<Longrightarrow> ldb_Get E k s' = ldb_Get E k s" by blast
  then show "held E P s' = held E P s" "pool_inv E P U s' = pool_inv E P U s"
    by (simp_all add: held_frame(1)[of P E s' s] held_frame(2)[of P E s' s U])
qed

lemma stable_frame [store_simps]:
  assumes "env_ok E"
  shows "held E (stableP E) (SavePendingUTXO E a u s) = held E (stableP E) s"
    "held E (stableP E) (DelPendingUTXO E a u s) = held E (stableP E) s"
    "held E (stableP E) (DelPendingUnspentOutput E a u s) = held E (stableP E) s"
    "held E (stableP E) (SaveUnitToDb E unit s) = held E (stableP E) s"
    "pool_inv E (stableP E) U (SavePendingUTXO E a u s) = pool_inv E (stableP E) U s"
    "pool_inv E (stableP E) U (DelPendingUTXO E a u s) = pool_inv E (stableP E) U s"
    "pool_inv E (stableP E) U (DelPendingUnspentOutput E a u s) = pool_inv E (stableP E) U s"
    "pool_inv E (stableP E) U (SaveUnitToDb E unit s) = pool_inv E (stableP E) U s"
proof -
  note ap = tables_apart(7)[OF assms] apart_sym[OF tables_apart(1)[OF assms]] and [simp] = env_ok_ldb[OF assms]
  note pend = pool_frame[OF ap(1)] and uni = pool_frame[OF ap(2)]
  show "held E (stableP E) (SavePendingUTXO E a u s) = held E (stableP E) s"
    "pool_inv E (stableP E) U (SavePendingUTXO E a u s) = pool_inv E (stableP E) U s"
    by (intro pend; auto simp: Get_pool_ops)+
  show "held E (stableP E) (DelPendingUTXO E a u s) = held E (stableP E) s"
    "pool_inv E (stableP E) U (DelPendingUTXO E a u s) = pool_inv E (stableP E) U s"
    by (intro pend; auto simp: Get_pool_ops)+
  show "held E (stableP E) (DelPendingUnspentOutput E a u s) = held E (stableP E) s"
    "pool_inv E (stableP E) U (DelPendingUnspentOutput E a u s) = pool_inv E (stableP E) U s"
    by (intro pend; auto simp: Get_pool_ops)+
  show "held E (stableP E) (SaveUnitToDb E unit s) = held E (stableP E) s"
    "pool_inv E (stableP E) U (SaveUnitToDb E unit s) = pool_inv E (stableP E) U s"
    by (intro uni; auto simp: Get_SaveUnit unitKey_def)+
qed

section \<open>The outputs of one address\<close>

lemma poolKey_address: "poolKey E P a u = (P @ Address_String (keccak E) a) @ ''.'' @ Hash_String (UTXO_ToHash (sum256 E) u)"
  by (simp add: poolKey_def)

lemma address_prefix_iff:
  assumes "wf_address a" "wf_address b"
  shows "prefix (P @ Address_String (keccak E) a) (poolKey E P b u) \<longleftrightarrow> a = b"
    "prefix (P @ Address_String (keccak E) a @ ''.'') (poolKey E P b u) \<longleftrightarrow> a = b"
proof -
  have len: "length (Address_String (keccak E) a) = length (Address_String (keccak E) b)"
    using assms by (simp add: wf_address_def)
  show "prefix (P @ Address_String (keccak E) a) (poolKey E P b u) \<longleftrightarrow> a = b"
    using len by (auto simp: poolKey_def prefix_def)
  show "prefix (P @ Address_String (keccak E) a @ ''.'') (poolKey E P b u) \<longleftrightarrow> a = b"
    using len by (auto simp: poolKey_def prefix_def)
qed

text \<open>Iterating over the keys of an address visits exactly its outputs, each once.\<close>

lemma iter_address:
  assumes inv: "pool_inv E P U s" and a: "wf_address a"
    and Q: "Q = P @ Address_String (keccak E) a \<or> Q = P @ Address_String (keccak E) a @ ''.''"
  shows "set (map (\<lambda>(k, v). Byte2UTXO v) (ldb_Iter E Q s)) = {u. (a, u) \<in> held E P s}"
    "distinct (map (\<lambda>(k, v). Byte2UTXO v) (ldb_Iter E Q s))"
proof -
  have ok: "ldb_ok E" "pool_wf E P s" using inv by (auto simp: pool_inv_def)
  have pre: "prefix Q (poolKey E P b u) \<longleftrightarrow> a = b" if "wf_address b" for b u
    using Q address_prefix_iff[OF a that] by metis
  have PQ: "prefix P k" if "prefix Q k" for k using Q that by (auto simp: prefix_def)
  have entry: "\<exists>u. k = poolKey E P a u \<and> v = UTXO2Byte u \<and> (a, u) \<in> held E P s" if kv: "(k, v) \<in> set (ldb_Iter E Q s)" for k v
  proof -
    have k: "prefix Q k" "ldb_Get E k s = Some v" using kv Iter_set[OF ok(1), of Q s] by auto
    obtain b u where bu: "wf_address b" "wf_utxo u" "k = poolKey E P b u" "v = UTXO2Byte u"
      by (rule pool_wfE[OF ok(2) PQ[OF k(1)] k(2)])
    then have "a = b" using pre k(1) by simp
    then show ?thesis using bu k(2) by (auto simp: heldI)
  qed
  have backw: "(poolKey E P a u, UTXO2Byte u) \<in> set (ldb_Iter E Q s)" if "(a, u) \<in> held E P s" for u
    using heldD[OF that] Iter_set[OF ok(1), of Q s] pre[OF a] by simp
  have rt: "Byte2UTXO (UTXO2Byte u) = u" if "(a, u) \<in> held E P s" for u using heldD[OF that] by simp
  show "set (map (\<lambda>(k, v). Byte2UTXO v) (ldb_Iter E Q s)) = {u. (a, u) \<in> held E P s}"
  proof (intro equalityI subsetI)
    fix u assume "u \<in> set (map (\<lambda>(k, v). Byte2UTXO v) (ldb_Iter E Q s))"
    then obtain k v where "(k, v) \<in> set (ldb_Iter E Q s)" "u = Byte2UTXO v" by auto
    with entry rt show "u \<in> {u. (a, u) \<in> held E P s}" by fastforce
  next
    fix u assume "u \<in> {u. (a, u) \<in> held E P s}"
    with backw rt show "u \<in> set (map (\<lambda>(k, v). Byte2UTXO v) (ldb_Iter E Q s))" by force
  qed
  have "inj_on (\<lambda>(k, v). Byte2UTXO v) (set (ldb_Iter E Q s))"
    using entry rt by (intro inj_onI) (clarsimp, metis)
  moreover have "distinct (ldb_Iter E Q s)" using Iter_distinct[OF ok(1), of Q s] by (simp add: distinct_map)
  ultimately show "distinct (map (\<lambda>(k, v). Byte2UTXO v) (ldb_Iter E Q s))" by (simp add: distinct_map)
qed

lemma GetUnspentOutput_lists:
  assumes "pool_inv E (stableP E) U s" "wf_address a"
  shows "set (GetUnspentOutput E a s) = {u. (a, u) \<in> held E (stableP E) s}" "distinct (GetUnspentOutput E a s)"
  using iter_address[OF assms] by (simp_all add: GetUnspentOutput_def NewIteratorWithPrefix_def iter_collect)

lemma GetAllPendingUnSpent_lists:
  assumes "pool_inv E (pendingP E) U s" "wf_address a"
  shows "set (GetAllPendingUnSpent E a s) = {u. (a, u) \<in> held E (pendingP E) s}"
    "set (GetPendingUTXOByAuthor E a s) = {u. (a, u) \<in> held E (pendingP E) s}"
  using iter_address[OF assms]
  by (simp_all add: GetAllPendingUnSpent_def GetPendingUTXOByAuthor_def NewIteratorWithPrefix_def iter_collect)

end
