(* ===== verification/Stable.thy ===== *)
theory Stable
  imports TxValid Pools
begin

text \<open>
  What happens to the outputs when units become stable: \<^verbatim>\<open>transaction/stableprocess.go\<close>
  (\<^verbatim>\<open>HandleUnit\<close> spends the inputs of a unit and lists what it pays), the commissions of
  \<^verbatim>\<open>transaction/transaction.go\<close>, and \<^verbatim>\<open>handleStableUnits\<close> of \<^verbatim>\<open>transaction/consensus.go\<close>, which
  writes the payments of a batch of units back to the pool.

  These files call the package \<^verbatim>\<open>boydb\<close>, which is not under \<^verbatim>\<open>src/\<close>: its operations are the
  fields of the record \<open>boydb\<close>, an argument of every definition.  The locale \<open>stable_db\<close> states
  what the code relies on; \<open>boydb_of\<close> is an instance made of the operations of
  \<^verbatim>\<open>leveldb/dbservice.go\<close>, with the address of an output taken from the output itself.
\<close>

section \<open>The operations of boydb\<close>

record 's boydb =
  bd_GetUnitByHash :: "hash \<Rightarrow> 's \<Rightarrow> Unit \<times> dbError option"
  bd_IsExistUnspentOutput :: "UTXO \<Rightarrow> 's \<Rightarrow> bool"
  bd_DelUnspentOutput :: "address \<Rightarrow> UTXO \<Rightarrow> 's \<Rightarrow> 's"
  bd_DelPendingUnspentOutput :: "UTXO \<Rightarrow> 's \<Rightarrow> 's"
  bd_IsExistPendingUTXO :: "UTXO \<Rightarrow> 's \<Rightarrow> bool"
  bd_SavePendingUTXO :: "address \<Rightarrow> UTXO \<Rightarrow> 's \<Rightarrow> 's"
  bd_SaveUnitToDb :: "Unit \<Rightarrow> 's \<Rightarrow> 's"
  bd_SaveBatchUnspentOutput :: "Commission list \<Rightarrow> 's \<Rightarrow> 's"

section \<open>transaction/stableprocess.go\<close>

text \<open>The output an input spends; a type the switch does not know leaves the zero value.\<close>

definition spentUTXO :: "'s boydb \<Rightarrow> Input \<Rightarrow> 's \<Rightarrow> txError + UTXO" where
  "spentUTXO B inp s =
     (if in_Type inp = ''wc'' \<or> in_Type inp = ''mc'' then
        (case bd_GetUnitByHash B (in_UnitHash inp) s of
           (_, Some _) \<Rightarrow> Inl ErrNotFindFrom
         | (inputUnit, None) \<Rightarrow> Inr (NewUTXO (u_Hash inputUnit) 0 0 (in_Output inp) (in_Type inp)))
      else if in_Type inp = [] then
        (case bd_GetUnitByHash B (in_UnitHash inp) s of
           (_, Some _) \<Rightarrow> Inl ErrNotFindFrom
         | (inputUnit, None) \<Rightarrow> Inr (NewUTXO (u_Hash inputUnit) 0 (in_OutputIndex inp) (in_Output inp) []))
      else Inr NewEmptyUTXO)"

text \<open>How the loop over the inputs of a message ends.\<close>

datatype spending = AllSpent | NoSource txError | DoubleSpend | NoAuthor

fun spendInputs :: "'s boydb \<Rightarrow> Unit \<Rightarrow> Input list \<Rightarrow> 's \<Rightarrow> spending \<times> 's" where
  "spendInputs B newUnit [] s = (AllSpent, s)"
| "spendInputs B newUnit (inp # inputs) s =
     (case spentUTXO B inp s of
        Inl e \<Rightarrow> (NoSource e, s)
      | Inr pendingSpent \<Rightarrow>
          if bd_IsExistUnspentOutput B pendingSpent s
          then (case u_Authors newUnit of [] \<Rightarrow> (NoAuthor, s)
                | author # _ \<Rightarrow> spendInputs B newUnit inputs (bd_DelUnspentOutput B (au_Address author) pendingSpent s))
          else (DoubleSpend, s))"

definition unSpentOf :: "Unit \<Rightarrow> nat \<Rightarrow> nat \<Rightarrow> Output \<Rightarrow> UTXO" where
  "unSpentOf newUnit i z out = NewUTXO (u_Hash newUnit) (of_nat i) (of_nat z)
     \<lparr>out_Address = out_Address out, out_Amount = out_Amount out\<rparr> []"

fun payOutputs :: "'s boydb \<Rightarrow> Unit \<Rightarrow> nat \<Rightarrow> nat \<Rightarrow> Output list \<Rightarrow> Commission list \<times> 's \<Rightarrow> Commission list \<times> 's" where
  "payOutputs B newUnit i z [] cs = cs"
| "payOutputs B newUnit i z (out # outs) (commissions, s) =
     (let unSpent = unSpentOf newUnit i z out;
          s = bd_DelPendingUnspentOutput B unSpent s
      in payOutputs B newUnit i (Suc z) outs (commissions @ [NewCommission (out_Address out) unSpent], s))"

definition distributionMinerCommission :: "Unit \<Rightarrow> Commission" where
  "distributionMinerCommission newUnit =
     (let minHashAuthor = u_SubStableAuthor newUnit;
          minerUnSpent = NewUTXO (u_Hash newUnit) 0 0 (NewOutput minHashAuthor (u_HeadersCommission newUnit)) ''mc''
      in NewCommission minHashAuthor minerUnSpent)"

type_synonym stableResult = "(Commission list \<times> bool \<times> txError option) outcome"

fun stableMessages :: "'s boydb \<Rightarrow> Unit \<Rightarrow> nat \<Rightarrow> Message list \<Rightarrow> Commission list \<Rightarrow> 's \<Rightarrow> stableResult \<times> 's" where
  "stableMessages B newUnit i [] commissions s =
     (Returned (commissions @ [distributionMinerCommission newUnit], True, None), s)"
| "stableMessages B newUnit i (m # ms) commissions s =
     (case spendInputs B newUnit (pl_Inputs (msg_Payload m)) s of
        (NoSource e, s) \<Rightarrow> (Returned (commissions, False, Some e), s)
      | (DoubleSpend, s) \<Rightarrow> (Returned (commissions, False, None), s)
      | (NoAuthor, s) \<Rightarrow> (Panicked, s)
      | (AllSpent, s) \<Rightarrow>
          (case payOutputs B newUnit i 0 (pl_Outputs (msg_Payload m)) (commissions, s) of (commissions, s) \<Rightarrow>
            stableMessages B newUnit (Suc i) ms commissions s))"

definition Stable_HandleUnit :: "'s boydb \<Rightarrow> Unit \<Rightarrow> 's \<Rightarrow> stableResult \<times> 's" where
  "Stable_HandleUnit B newUnit s = stableMessages B newUnit 0 (u_Messages newUnit) [] s"

section \<open>transaction/transaction.go: commissions\<close>

definition StableTx :: "'s boydb \<Rightarrow> Unit \<Rightarrow> 's \<Rightarrow> stableResult \<times> 's" where
  "StableTx B unit s = Stable_HandleUnit B unit s"

text \<open>
  \<^verbatim>\<open>units[len(units)-1]\<close> and \<^verbatim>\<open>Authors[0]\<close> panic on empty lists.  The literal sets an amount and no
  address, so the address of the output stays the zero address.
\<close>

definition CalcWitnessEarnings :: "Unit list \<Rightarrow> Commission list option" where
  "CalcWitnessEarnings units =
     (if units = [] then None
      else (let commissionUnit = last units in
        case u_Authors commissionUnit of [] \<Rightarrow> None
        | author # _ \<Rightarrow> Some (fold (\<lambda>unit commissions. commissions @
            [NewCommission (au_Address author)
               (NewUTXO (u_Hash unit) 0 0 (NewOutput emptyAddress (u_PayloadCommission unit)) ''wc'')]) units [])))"

definition HandleCommission :: "Unit list \<Rightarrow> Commission list option" where
  "HandleCommission units = CalcWitnessEarnings units"

definition ConstHeaderCommission :: int64 where "ConstHeaderCommission = 100"
definition ConstPayloadCommission :: int64 where "ConstPayloadCommission = 100"

definition GiveMinerEarnings :: "Unit list \<Rightarrow> Commission list" where
  "GiveMinerEarnings units = fold (\<lambda>unit commissions. commissions @
     [NewCommission (u_SubStableAuthor unit)
        (NewUTXO (u_SubStableMinHash unit) 0 0 (NewOutput emptyAddress ConstHeaderCommission) ''mc'')]) units []"

section \<open>transaction/consensus.go: handleStableUnits\<close>

datatype batchResult = BatchOk "Unit list" "Commission list" | BatchAbort txError | BatchPanic

fun stableUnitsLoop :: "'s boydb \<Rightarrow> Unit list \<Rightarrow> Unit list \<Rightarrow> Commission list \<Rightarrow> 's \<Rightarrow> batchResult \<times> 's" where
  "stableUnitsLoop B [] validUnits allCommissions s = (BatchOk validUnits allCommissions, s)"
| "stableUnitsLoop B (tUnit # units) validUnits allCommissions s =
     (case StableTx B tUnit s of
        (Returned (stableCommissions, valid, err), s) \<Rightarrow>
          (case err of Some e \<Rightarrow> (BatchAbort e, s)
           | None \<Rightarrow>
              (let validUnits = (if valid then validUnits @ [tUnit] else validUnits);
                   s = (if valid then s else bd_SaveUnitToDb B (tUnit\<lparr>u_Invalid := True\<rparr>) s)
               in stableUnitsLoop B units validUnits (allCommissions @ stableCommissions) s))
      | (_, s) \<Rightarrow> (BatchPanic, s))"

definition distributeCommission ::
    "'s boydb \<Rightarrow> (address, Commission list) iter \<Rightarrow> (address, Commission list) gomap \<Rightarrow> 's \<Rightarrow> 's" where
  "distributeCommission B it comMap s = fold (\<lambda>(_, commissions). bd_SaveBatchUnspentOutput B commissions) (it comMap) s"

definition groupCommissions :: "Commission list \<Rightarrow> (address, Commission list) gomap" where
  "groupCommissions allCommissions = fold (\<lambda>com m. map_put (com_Address com)
     ((case map_of m (com_Address com) of Some cs \<Rightarrow> cs | None \<Rightarrow> []) @ [com]) m) allCommissions []"

definition handleStableUnits ::
    "'s boydb \<Rightarrow> (address, Commission list) iter \<Rightarrow> Unit list \<Rightarrow> 's \<Rightarrow> unit outcome \<times> 's" where
  "handleStableUnits B it units s =
     (case stableUnitsLoop B units [] [] s of
        (BatchAbort _, s) \<Rightarrow> (Returned (), s)
      | (BatchPanic, s) \<Rightarrow> (Panicked, s)
      | (BatchOk validUnits allCommissions, s) \<Rightarrow>
          (if validUnits = [] then (Returned (), distributeCommission B it (groupCommissions allCommissions) s)
           else (case HandleCommission validUnits of
               None \<Rightarrow> (Panicked, s)
             | Some witnessCommission \<Rightarrow>
                 (Returned (), distributeCommission B it (groupCommissions (allCommissions @ witnessCommission)) s))))"

section \<open>What the code relies on\<close>

abbreviation owner :: "UTXO \<Rightarrow> address" where
  "owner u \<equiv> out_Address (utxo_Output u)"

definition payment :: "Commission \<Rightarrow> address \<times> UTXO" where
  "payment c = (com_Address c, com_UTXO c)"

definition payments_ok :: "UTXO set \<Rightarrow> Commission list \<Rightarrow> bool" where
  "payments_ok U cs \<longleftrightarrow> list_all (\<lambda>c. wf_address (com_Address c) \<and> wf_utxo (com_UTXO c) \<and> com_UTXO c \<in> U) cs"

text \<open>
  The contract of the database: the pool of unspent outputs, the test and the deletion on it, and
  that units are not affected.
\<close>

locale stable_db =
  fixes B :: "'s boydb"
    and pool :: "'s \<Rightarrow> (address \<times> UTXO) set"
    and inv :: "'s \<Rightarrow> bool"
    and U :: "UTXO set"
  assumes exist_iff: "\<lbrakk>inv s; wf_utxo u; u \<in> U\<rbrakk> \<Longrightarrow> bd_IsExistUnspentOutput B u s \<longleftrightarrow> (owner u, u) \<in> pool s"
    and del_pool: "\<lbrakk>inv s; wf_address a; u \<in> U\<rbrakk> \<Longrightarrow> pool (bd_DelUnspentOutput B a u s) = pool s - {(a, u)}"
    and del_inv: "\<lbrakk>inv s; wf_address a; u \<in> U\<rbrakk> \<Longrightarrow> inv (bd_DelUnspentOutput B a u s)"
    and pending_pool: "inv s \<Longrightarrow> pool (bd_DelPendingUnspentOutput B u s) = pool s"
    and pending_inv: "inv s \<Longrightarrow> inv (bd_DelPendingUnspentOutput B u s)"
    and batch_pool: "\<lbrakk>inv s; payments_ok U cs\<rbrakk> \<Longrightarrow> pool (bd_SaveBatchUnspentOutput B cs s) = pool s \<union> payment ` set cs"
    and batch_inv: "\<lbrakk>inv s; payments_ok U cs\<rbrakk> \<Longrightarrow> inv (bd_SaveBatchUnspentOutput B cs s)"
    and get_wf: "inv s \<Longrightarrow> wf_hash (u_Hash (fst (bd_GetUnitByHash B h s)))"
    and get_del: "inv s \<Longrightarrow> bd_GetUnitByHash B h (bd_DelUnspentOutput B a u s) = bd_GetUnitByHash B h s"
    and get_pending: "inv s \<Longrightarrow> bd_GetUnitByHash B h (bd_DelPendingUnspentOutput B u s) = bd_GetUnitByHash B h s"
    and pool_finite: "inv s \<Longrightarrow> finite (pool s)"

text \<open>The output an input resolves to, and the inputs that a checked unit has.\<close>

definition utxo_of :: "'s boydb \<Rightarrow> 's \<Rightarrow> Input \<Rightarrow> UTXO" where
  "utxo_of B s inp = (case spentUTXO B inp s of Inr u \<Rightarrow> u | Inl _ \<Rightarrow> NewEmptyUTXO)"

definition input_ok :: "'s boydb \<Rightarrow> UTXO set \<Rightarrow> 's \<Rightarrow> address \<Rightarrow> Input \<Rightarrow> bool" where
  "input_ok B U s a inp \<longleftrightarrow> wf_output (in_Output inp) \<and> in_Type inp \<in> {''wc'', ''mc'', []} \<and>
     out_Address (in_Output inp) = a \<and> utxo_of B s inp \<in> U"

definition resolves :: "'s boydb \<Rightarrow> 's \<Rightarrow> Input \<Rightarrow> bool" where
  "resolves B s inp \<longleftrightarrow> utxo_Output (utxo_of B s inp) = in_Output inp"

definition same_units :: "'s boydb \<Rightarrow> 's \<Rightarrow> 's \<Rightarrow> bool" where
  "same_units B s s' \<longleftrightarrow> (\<forall>h. bd_GetUnitByHash B h s' = bd_GetUnitByHash B h s)"

lemma same_units_refl [simp]: "same_units B s s"
  and same_units_trans [trans]: "same_units B s s' \<Longrightarrow> same_units B s' s'' \<Longrightarrow> same_units B s s''"
  by (auto simp: same_units_def)

lemma same_units_inputs:
  assumes "same_units B s s'"
  shows "spentUTXO B inp s' = spentUTXO B inp s" "utxo_of B s' = utxo_of B s" "input_ok B U s' = input_ok B U s"
    "resolves B s' = resolves B s"
proof -
  show *: "spentUTXO B inp s' = spentUTXO B inp s" for inp
    using assms by (simp add: same_units_def spentUTXO_def)
  then show "utxo_of B s' = utxo_of B s" by (intro ext) (simp add: utxo_of_def)
  then show "input_ok B U s' = input_ok B U s" "resolves B s' = resolves B s"
    by (intro ext, simp add: input_ok_def resolves_def)+
qed

lemma utxo_of_amount:
  assumes "in_Type inp \<in> {''wc'', ''mc'', []}" "spentUTXO B inp s = Inr u"
  shows "utxo_of B s inp = u" "utxo_Output u = in_Output inp" "utxo_UnitHash u = u_Hash (fst (bd_GetUnitByHash B (in_UnitHash inp) s))"
  using assms by (auto simp: utxo_of_def spentUTXO_def NewUTXO_def split: prod.splits option.splits if_splits)

text \<open>What a unit pays: its outputs, in the order of the loops.\<close>

fun pays :: "Unit \<Rightarrow> nat \<Rightarrow> nat \<Rightarrow> Output list \<Rightarrow> Commission list" where
  "pays u i z [] = []"
| "pays u i z (out # outs) = NewCommission (out_Address out) (unSpentOf u i z out) # pays u i (Suc z) outs"

fun pays_all :: "Unit \<Rightarrow> nat \<Rightarrow> Message list \<Rightarrow> Commission list" where
  "pays_all u i [] = []"
| "pays_all u i (m # ms) = pays u i 0 (pl_Outputs (msg_Payload m)) @ pays_all u (Suc i) ms"

definition inputs_of :: "Message list \<Rightarrow> Input list" where
  "inputs_of ms = concat (map (\<lambda>m. pl_Inputs (msg_Payload m)) ms)"

lemma two_removals:
  "X \<subseteq> P \<Longrightarrow> Q = P - X \<Longrightarrow> Y \<subseteq> Q \<Longrightarrow> R = Q - Y \<Longrightarrow> X \<union> Y \<subseteq> P \<and> R = P - (X \<union> Y) \<and> X \<inter> Y = {}"
  by blast

lemma Pair_removed: "Pair a ` A \<subseteq> P - {(a, u)} \<Longrightarrow> u \<notin> A \<and> Pair a ` A \<subseteq> P"
  by blast

context stable_db begin

lemma spend_all:
  assumes "inv s" "wf_address a" "u_Authors unit = au # aus" "au_Address au = a"
    and "list_all (input_ok B U s a) ins" "spendInputs B unit ins s = (AllSpent, s')"
  shows "inv s' \<and> same_units B s s' \<and> distinct (map (utxo_of B s) ins) \<and>
    list_all (resolves B s) ins \<and> Pair a ` utxo_of B s ` set ins \<subseteq> pool s \<and> pool s' = pool s - Pair a ` utxo_of B s ` set ins"
  using assms(1,5,6)
proof (induction ins arbitrary: s)
  case (Cons inp ins)
  have ok: "input_ok B U s a inp" using Cons.prems(2) by simp
  obtain u where u: "spentUTXO B inp s = Inr u" using Cons.prems(3) by (auto split: sum.splits)
  note ut = utxo_of_amount[OF _ u] and io = ok[unfolded input_ok_def]
  have wf: "wf_utxo u" "u \<in> U" "owner u = a"
    using io ut get_wf[OF Cons.prems(1)] by (auto simp: wf_utxo_def)
  let ?s = "bd_DelUnspentOutput B a u s"
  have ex: "(a, u) \<in> pool s" and rest: "spendInputs B unit ins ?s = (AllSpent, s')"
    using Cons.prems(3) u assms(3,4) exist_iff[OF Cons.prems(1) wf(1,2)] wf(3) by (auto split: if_splits)
  have same: "same_units B s ?s" by (simp add: same_units_def get_del[OF Cons.prems(1)])
  have "inv ?s" "pool ?s = pool s - {(a, u)}" using Cons.prems(1) assms(2) wf by (simp_all add: del_inv del_pool)
  moreover have "list_all (input_ok B U ?s a) ins" using Cons.prems(2) by (simp add: same_units_inputs[OF same])
  ultimately have IH: "inv s' \<and> same_units B ?s s' \<and> distinct (map (utxo_of B s) ins) \<and>
      list_all (resolves B s) ins \<and> Pair a ` utxo_of B s ` set ins \<subseteq> pool s - {(a, u)} \<and>
      pool s' = pool s - {(a, u)} - Pair a ` utxo_of B s ` set ins"
    using Cons.IH[of ?s] rest same_units_inputs(2,4)[OF same] by simp
  moreover have "utxo_of B s inp = u" "resolves B s inp" using ut(1,2) io by (simp_all add: resolves_def)
  moreover have "same_units B s s'" by (rule same_units_trans[OF same]) (use IH in simp)
  moreover have "u \<notin> utxo_of B s ` set ins \<and> Pair a ` utxo_of B s ` set ins \<subseteq> pool s"
    using Pair_removed[of a "utxo_of B s ` set ins" "pool s" u] IH by simp
  moreover have "pool s - {(a, u)} - X = pool s - insert (a, u) X" for X by blast
  ultimately show ?case using ex by (simp only: list.map distinct.simps list.set image_insert insert_subset set_map simp_thms
      list.pred_inject)
qed simp

lemma pay_all:
  assumes "inv s" "payOutputs B unit i z outs (cs, s) = (cs', s')"
  shows "inv s' \<and> same_units B s s' \<and> pool s' = pool s \<and> cs' = cs @ pays unit i z outs"
  using assms
proof (induction outs arbitrary: s cs z)
  case (Cons out outs)
  let ?s = "bd_DelPendingUnspentOutput B (unSpentOf unit i z out) s"
  let ?c = "NewCommission (out_Address out) (unSpentOf unit i z out)"
  have same: "same_units B s ?s" by (simp add: same_units_def get_pending[OF Cons.prems(1)])
  have IH: "inv s' \<and> same_units B ?s s' \<and> pool s' = pool s \<and> cs' = (cs @ [?c]) @ pays unit i (Suc z) outs"
    using Cons.IH[of ?s "Suc z" "cs @ [?c]"] Cons.prems
    by (simp add: Let_def pending_inv[OF Cons.prems(1)] pending_pool[OF Cons.prems(1)])
  moreover have "same_units B s s'" by (rule same_units_trans[OF same]) (use IH in simp)
  ultimately show ?case by simp
qed simp

lemma messages_all:
  assumes "inv s" "wf_address a" "u_Authors unit = au # aus" "au_Address au = a"
    and "list_all (input_ok B U s a) (inputs_of ms)"
    and "stableMessages B unit i ms cs s = (Returned (cs', True, None), s')"
  shows "inv s' \<and> same_units B s s' \<and> distinct (map (utxo_of B s) (inputs_of ms)) \<and>
    list_all (resolves B s) (inputs_of ms) \<and> Pair a ` utxo_of B s ` set (inputs_of ms) \<subseteq> pool s \<and>
    pool s' = pool s - Pair a ` utxo_of B s ` set (inputs_of ms) \<and>
    cs' = cs @ pays_all unit i ms @ [distributionMinerCommission unit]"
  using assms(1,5,6)
proof (induction ms arbitrary: s cs i)
  case (Cons m ms)
  obtain s1 where s1: "spendInputs B unit (pl_Inputs (msg_Payload m)) s = (AllSpent, s1)"
    using Cons.prems(3) by (auto split: prod.splits spending.splits)
  obtain cs2 s2 where s2: "payOutputs B unit i 0 (pl_Outputs (msg_Payload m)) (cs, s1) = (cs2, s2)"
    by (meson surj_pair)
  have A: "inv s1 \<and> same_units B s s1 \<and> distinct (map (utxo_of B s) (pl_Inputs (msg_Payload m))) \<and>
      list_all (resolves B s) (pl_Inputs (msg_Payload m)) \<and> Pair a ` utxo_of B s ` set (pl_Inputs (msg_Payload m)) \<subseteq> pool s \<and>
      pool s1 = pool s - Pair a ` utxo_of B s ` set (pl_Inputs (msg_Payload m))"
    using spend_all[OF Cons.prems(1) assms(2-4) _ s1] Cons.prems(2) by (simp add: inputs_of_def)
  then have P: "inv s2 \<and> same_units B s1 s2 \<and> pool s2 = pool s1 \<and> cs2 = cs @ pays unit i 0 (pl_Outputs (msg_Payload m))"
    using pay_all[OF _ s2] by simp
  have C: "same_units B s s2" using A P same_units_trans[of B s s1 s2] by simp
  note D = same_units_inputs(2,3,4)[OF C]
  have E: "inv s' \<and> same_units B s2 s' \<and> distinct (map (utxo_of B s) (inputs_of ms)) \<and>
      list_all (resolves B s) (inputs_of ms) \<and> Pair a ` utxo_of B s ` set (inputs_of ms) \<subseteq> pool s2 \<and>
      pool s' = pool s2 - Pair a ` utxo_of B s ` set (inputs_of ms) \<and>
      cs' = cs2 @ pays_all unit (Suc i) ms @ [distributionMinerCommission unit]"
    using Cons.IH[of s2 "Suc i" cs2] P D Cons.prems(2,3) s1 s2 by (simp add: inputs_of_def)
  have set_split: "set (inputs_of (m # ms)) = set (pl_Inputs (msg_Payload m)) \<union> set (inputs_of ms)"
    by (simp add: inputs_of_def)
  let ?X = "Pair a ` utxo_of B s ` set (pl_Inputs (msg_Payload m))" and ?Y = "Pair a ` utxo_of B s ` set (inputs_of ms)"
  have R: "?X \<union> ?Y \<subseteq> pool s \<and> pool s' = pool s - (?X \<union> ?Y) \<and> ?X \<inter> ?Y = {}"
    by (rule two_removals[of _ _ "pool s2"]) (use A P E in simp_all)
  then have "utxo_of B s ` set (pl_Inputs (msg_Payload m)) \<inter> utxo_of B s ` set (inputs_of ms) = {}" by blast
  then have "distinct (map (utxo_of B s) (inputs_of (m # ms)))" using A E by (simp add: inputs_of_def)
  moreover have "same_units B s s'" using C E same_units_trans[of B s s2 s'] by simp
  moreover have "Pair a ` utxo_of B s ` set (inputs_of (m # ms)) = ?X \<union> ?Y"
    by (simp add: set_split image_Un)
  moreover have "list_all (resolves B s) (inputs_of (m # ms))" using A E by (simp add: inputs_of_def)
  moreover note R
  ultimately show ?case using P E by simp
qed (simp add: inputs_of_def)

end

section \<open>Amounts\<close>

lemma set_total_diff: "finite A \<Longrightarrow> X \<subseteq> A \<Longrightarrow> set_total (A - X) = set_total A - set_total X"
  by (simp add: set_total_def sum_diff)


lemma set_total_list: "distinct xs \<Longrightarrow> set_total (set xs) = sum_list (map (\<lambda>x. utxo_amount (snd x)) xs)"
  by (simp add: set_total_def case_prod_beta' sum_list_distinct_conv_sum_set)

definition unit_in :: "Unit \<Rightarrow> int" where
  "unit_in u = sum_list (map in_total (u_Messages u))"



lemma amount_of_inputs:
  assumes "list_all (resolves B s) (inputs_of (u_Messages u))"
  shows "sum_list (map (\<lambda>i. utxo_amount (utxo_of B s i)) (inputs_of (u_Messages u))) = unit_in u"
proof -
  have "map (\<lambda>i. utxo_amount (utxo_of B s i)) (inputs_of (u_Messages u))
      = map (\<lambda>i. sint (out_Amount (in_Output i))) (inputs_of (u_Messages u))"
    using assms by (auto simp: list_all_iff resolves_def utxo_amount_def)
  moreover have "sum_list (map f (inputs_of ms)) = sum_list (map (\<lambda>m. sum_list (map f (pl_Inputs (msg_Payload m)))) ms)"
    for f :: "Input \<Rightarrow> int" and ms
    by (induction ms) (simp_all add: inputs_of_def)
  ultimately show ?thesis by (simp only: unit_in_def in_total_def[abs_def])
qed

definition unit_pays :: "Unit \<Rightarrow> Commission list" where
  "unit_pays u = pays_all u 0 (u_Messages u) @ [distributionMinerCommission u]"












section \<open>A batch of units\<close>

definition spends :: "'s boydb \<Rightarrow> 's \<Rightarrow> Unit \<Rightarrow> (address \<times> UTXO) set" where
  "spends B s u = Pair (author_of u) ` utxo_of B s ` set (inputs_of (u_Messages u))"

definition unit_ok :: "'s boydb \<Rightarrow> UTXO set \<Rightarrow> 's \<Rightarrow> Unit \<Rightarrow> bool" where
  "unit_ok B U s u \<longleftrightarrow> u_Authors u \<noteq> [] \<and> wf_address (author_of u) \<and>
     list_all (input_ok B U s (author_of u)) (inputs_of (u_Messages u))"

lemma stableMessages_valid: "fst (stableMessages B u i ms cs s) = Returned (cs', True, e) \<Longrightarrow> e = None"
  by (induction ms arbitrary: i cs s) (auto split: prod.splits spending.splits)

lemma stableUnitsLoop_length:
  "stableUnitsLoop B us vu ac s = (BatchOk vu' ac', s') \<Longrightarrow> length vu' \<le> length vu + length us"
proof (induction us arbitrary: vu ac s)
  case (Cons u us)
  obtain r s1 where r: "StableTx B u s = (r, s1)" by (meson surj_pair)
  with Cons.prems obtain cs v where "r = Returned (cs, v, None)"
    by (auto split: outcome.splits prod.splits option.splits)
  then show ?case
    using Cons.prems Cons.IH[of "vu @ [u]" "ac @ cs" s1] r
      Cons.IH[of vu "ac @ cs" "bd_SaveUnitToDb B (u\<lparr>u_Invalid := True\<rparr>) s1"]
    by (cases v) (simp_all add: Let_def)
qed simp




text \<open>The map of the commissions by address holds every commission.\<close>

definition members :: "('k \<rightharpoonup> 'a list) \<Rightarrow> 'a set" where
  "members f = {x. \<exists>k l. f k = Some l \<and> x \<in> set l}"

lemma members_append:
  "members (f(k \<mapsto> (case f k of Some cs \<Rightarrow> cs | None \<Rightarrow> []) @ [c])) = insert c (members f)"
proof (intro set_eqI iffI)
  fix x assume "x \<in> members (f(k \<mapsto> (case f k of Some cs \<Rightarrow> cs | None \<Rightarrow> []) @ [c]))"
  then obtain j l where "(f(k \<mapsto> (case f k of Some cs \<Rightarrow> cs | None \<Rightarrow> []) @ [c])) j = Some l" "x \<in> set l"
    by (auto simp: members_def)
  then show "x \<in> insert c (members f)" by (cases "j = k"; cases "f k") (auto simp: members_def)
next
  fix x assume "x \<in> insert c (members f)"
  then consider "x = c" | j l where "f j = Some l" "x \<in> set l" by (auto simp: members_def)
  then show "x \<in> members (f(k \<mapsto> (case f k of Some cs \<Rightarrow> cs | None \<Rightarrow> []) @ [c]))"
  proof cases
    case 1
    then show ?thesis by (auto simp: members_def intro!: exI[of _ k])
  next
    case 2
    then show ?thesis by (cases "j = k") (auto simp: members_def intro!: exI[of _ j])
  qed
qed

lemma groupCommissions_set: "wf_map (groupCommissions cs)" "members (map_of (groupCommissions cs)) = set cs"
proof -
  let ?f = "\<lambda>com m. map_put (com_Address com) ((case map_of m (com_Address com) of Some cs \<Rightarrow> cs | None \<Rightarrow> []) @ [com]) m"
  have "wf_map m \<Longrightarrow> wf_map (fold ?f cs m) \<and> members (map_of (fold ?f cs m)) = set cs \<union> members (map_of m)" for m
    by (induction cs arbitrary: m) (simp_all add: distinct_update map_of_put members_append)
  moreover have "members (map_of []) = {}" by (simp add: members_def)
  ultimately show "wf_map (groupCommissions cs)" "members (map_of (groupCommissions cs)) = set cs"
    unfolding groupCommissions_def by auto
qed

context stable_db begin

lemma handle_ok:
  assumes "inv s" "unit_ok B U s u" "Stable_HandleUnit B u s = (Returned (cs, True, e), s')"
  shows "inv s' \<and> same_units B s s' \<and> spends B s u \<subseteq> pool s \<and> pool s' = pool s - spends B s u \<and>
    set_total (spends B s u) = unit_in u \<and> cs = unit_pays u"
proof -
  obtain au aus where au: "u_Authors u = au # aus" using assms(2) by (cases "u_Authors u") (auto simp: unit_ok_def)
  have a: "author_of u = au_Address au" by (simp add: author_of_def au)
  have e: "e = None" using stableMessages_valid assms(3) by (metis Stable_HandleUnit_def fst_conv)
  let ?ins = "inputs_of (u_Messages u)"
  have ok: "wf_address (au_Address au)" "list_all (input_ok B U s (au_Address au)) ?ins"
    using assms(2) by (simp_all add: unit_ok_def a)
  note m = messages_all[OF assms(1) ok(1) au refl ok(2), of 0 "[]" cs s']
  have all: "inv s' \<and> same_units B s s' \<and> distinct (map (utxo_of B s) ?ins) \<and> list_all (resolves B s) ?ins \<and>
      spends B s u \<subseteq> pool s \<and> pool s' = pool s - spends B s u \<and> cs = unit_pays u"
    using m assms(3) unfolding e by (simp add: Stable_HandleUnit_def spends_def unit_pays_def a)
  let ?xs = "map (Pair (author_of u)) (map (utxo_of B s) ?ins)"
  have "distinct ?xs" unfolding distinct_map[of "Pair (author_of u)"] using all by (simp add: inj_on_def)
  moreover have "spends B s u = set ?xs" by (simp only: spends_def set_map)
  ultimately have "set_total (spends B s u) = sum_list (map (\<lambda>i. utxo_amount (utxo_of B s i)) ?ins)"
    using set_total_list[of ?xs] by (simp add: comp_def)
  then show ?thesis using all amount_of_inputs[of B s u] by simp
qed

lemma loop_all_valid:
  assumes "inv s" "list_all (unit_ok B U s) us" "stableUnitsLoop B us vu ac s = (BatchOk vu' ac', s')"
    and "length vu' = length vu + length us"
  shows "inv s' \<and> same_units B s s' \<and> ac' = ac @ concat (map unit_pays us) \<and> pool s' \<subseteq> pool s \<and>
    set_total (pool s') = set_total (pool s) - sum_list (map unit_in us)"
  using assms
proof (induction us arbitrary: vu ac s)
  case (Cons u us)
  obtain r s1 where r: "StableTx B u s = (r, s1)" by (meson surj_pair)
  with Cons.prems(3) obtain cs v where cs: "r = Returned (cs, v, None)"
    by (auto split: outcome.splits prod.splits option.splits)
  have v: v
  proof (rule ccontr)
    assume "\<not> v"
    then have "stableUnitsLoop B us vu (ac @ cs) (bd_SaveUnitToDb B (u\<lparr>u_Invalid := True\<rparr>) s1) = (BatchOk vu' ac', s')"
      using Cons.prems(3) r cs by (simp add: Let_def)
    then show False using stableUnitsLoop_length Cons.prems(4) by fastforce
  qed
  have h: "inv s1 \<and> same_units B s s1 \<and> spends B s u \<subseteq> pool s \<and> pool s1 = pool s - spends B s u \<and>
      set_total (spends B s u) = unit_in u \<and> cs = unit_pays u"
    using handle_ok[OF Cons.prems(1), of u cs None s1] Cons.prems(2) r cs v by (simp add: StableTx_def)
  then have "unit_ok B U s1 = unit_ok B U s"
    using same_units_inputs(3)[of B s s1] by (intro ext) (simp add: unit_ok_def)
  then have IH: "inv s' \<and> same_units B s1 s' \<and> ac' = (ac @ cs) @ concat (map unit_pays us) \<and> pool s' \<subseteq> pool s1 \<and>
      set_total (pool s') = set_total (pool s1) - sum_list (map unit_in us)"
    using Cons.IH[of s1 "vu @ [u]" "ac @ cs"] Cons.prems(2,3,4) h r cs v by (simp add: Let_def)
  moreover have "set_total (pool s1) = set_total (pool s) - unit_in u"
    using h set_total_diff[OF pool_finite[OF Cons.prems(1)]] by simp
  moreover have "same_units B s s'" using IH h same_units_trans[of B s s1 s'] by simp
  moreover have "pool s' \<subseteq> pool s" using IH h by auto
  ultimately show ?case using h by simp
qed simp

lemma distribute_pool:
  assumes "inv s" "payments_ok U cs" "iter_ok it"
  shows "inv (distributeCommission B it (groupCommissions cs) s)"
    "pool (distributeCommission B it (groupCommissions cs) s) = pool s \<union> payment ` set cs"
proof -
  have wf: "wf_map (it (groupCommissions cs))" by (rule iter_wf[OF assms(3) groupCommissions_set(1)])
  have all: "(\<Union>(a, l)\<in>set (it (groupCommissions cs)). set l) = set cs"
    unfolding iter_set[OF assms(3)] groupCommissions_set(2)[of cs, symmetric] members_def
      map_of_eq_Some_iff[OF groupCommissions_set(1)] by auto
  have "(\<And>a l. (a, l) \<in> set kvs \<Longrightarrow> payments_ok U l) \<Longrightarrow> inv s \<Longrightarrow>
      inv (fold (\<lambda>(_, l). bd_SaveBatchUnspentOutput B l) kvs s) \<and>
      pool (fold (\<lambda>(_, l). bd_SaveBatchUnspentOutput B l) kvs s) = pool s \<union> payment ` (\<Union>(a, l)\<in>set kvs. set l)"
    for kvs :: "(address, Commission list) gomap" and s
  proof (induction kvs arbitrary: s)
    case (Cons kv kvs)
    obtain a l where kv: "kv = (a, l)" by (cases kv)
    then have "payments_ok U l" using Cons.prems(1)[of a l] by simp
    then have "inv (bd_SaveBatchUnspentOutput B l s)"
      "pool (bd_SaveBatchUnspentOutput B l s) = pool s \<union> payment ` set l"
      using Cons.prems(2) by (simp_all add: batch_inv batch_pool)
    moreover have "\<And>a l. (a, l) \<in> set kvs \<Longrightarrow> payments_ok U l" using Cons.prems(1) by (meson list.set_intros(2))
    ultimately show ?case
      using Cons.IH[of "bd_SaveBatchUnspentOutput B l s"] kv by (simp add: image_Un Un_assoc)
  qed simp
  moreover have "payments_ok U l" if "(a, l) \<in> set (it (groupCommissions cs))" for a l
    using assms(2) all that unfolding payments_ok_def list_all_iff by blast
  ultimately show "inv (distributeCommission B it (groupCommissions cs) s)"
    "pool (distributeCommission B it (groupCommissions cs) s) = pool s \<union> payment ` set cs"
    using assms(1) all unfolding distributeCommission_def by metis+
qed

end

section \<open>The instance made of leveldb/dbservice.go\<close>

definition boydb_of :: "'s env \<Rightarrow> 's boydb" where
  "boydb_of E = \<lparr>bd_GetUnitByHash = GetUnitByHash E,
     bd_IsExistUnspentOutput = (\<lambda>u. IsExistUnspentOutput E (owner u) u), bd_DelUnspentOutput = DelUnspentOutput E,
     bd_DelPendingUnspentOutput = (\<lambda>u. DelPendingUnspentOutput E (owner u) u),
     bd_IsExistPendingUTXO = (\<lambda>u. IsExistPendingUTXO E (owner u) u), bd_SavePendingUTXO = SavePendingUTXO E,
     bd_SaveUnitToDb = SaveUnitToDb E, bd_SaveBatchUnspentOutput = SaveBatchUnspentOutput E\<rparr>"

lemma boydb_of_simps [simp]:
  "bd_GetUnitByHash (boydb_of E) = GetUnitByHash E"
  "bd_IsExistUnspentOutput (boydb_of E) u = IsExistUnspentOutput E (owner u) u"
  "bd_DelUnspentOutput (boydb_of E) = DelUnspentOutput E"
  "bd_DelPendingUnspentOutput (boydb_of E) u = DelPendingUnspentOutput E (owner u) u"
  "bd_IsExistPendingUTXO (boydb_of E) u = IsExistPendingUTXO E (owner u) u"
  "bd_SavePendingUTXO (boydb_of E) = SavePendingUTXO E"
  "bd_SaveUnitToDb (boydb_of E) = SaveUnitToDb E" "bd_SaveBatchUnspentOutput (boydb_of E) = SaveBatchUnspentOutput E"
  by (simp_all add: boydb_of_def)

lemma stored_hash_wf: "wf_hash (u_Hash (fst (GetUnitByHash E h s)))"
proof -
  have "wf_hash (Hash_UnmarshalJSON j)" for j
    by (auto simp: Hash_UnmarshalJSON_def wf_hash_def emptyHash_def UnmarshalFixedText_length
        split: json.splits sum.splits)
  then show ?thesis
    by (auto simp: GetUnitByHash_def Byte2Unit_def Unit_of_json_def NewEmptyUnit_def wf_hash_def emptyHash_def
        split: prod.splits option.splits blob.splits)
qed

interpretation ldb: stable_db "boydb_of E" "held E (stableP E)" "pool_inv E (stableP E) U" U for E U
proof (unfold_locales, goal_cases)
  case (1 s u)
  then show ?case using stable.exist_iff[of E U s "owner u" u] by (simp add: wf_utxo_def wf_output_def)
next
  case (2 s a u) then show ?case by (simp add: stable.del_pool)
next
  case (3 s a u) then show ?case by (simp add: stable.del_inv)
next
  case (4 s u) then show ?case by (simp add: pool_inv_def stable_frame)
next
  case (5 s u)
  then have "env_ok E" by (simp add: pool_inv_def)
  then show ?case using 5 by (simp add: stable_frame(7))
next
  case (6 s cs)
  then show ?case
    using stable.save_all(2)[OF 6(1), of "map payment cs"]
    by (fastforce simp: SaveBatch_fold pool_inv_ldb payment_def[abs_def] payments_ok_def list_all_iff)
next
  case (7 s cs)
  then show ?case
    using stable.save_all(1)[OF 7(1), of "map payment cs"]
    by (fastforce simp: SaveBatch_fold pool_inv_ldb payment_def[abs_def] payments_ok_def list_all_iff)
next
  case (9 s h a u) then show ?case by (simp add: pool_inv_def GetUnit_frame)
next
  case (10 s h u) then show ?case by (simp add: pool_inv_def GetUnit_frame)
qed (simp_all add: stored_hash_wf finite_held)

section \<open>Lemmas for the properties\<close>







context stable_db begin

lemma second_input_missing:
  assumes "inv s" "wf_address a" "u_Authors u = au # aus" "au_Address au = a"
    and "input_ok B U s a x" "input_ok B U s a y" "spentUTXO B x s = Inr ux" "spentUTXO B y s = Inr uy"
    and "(a, ux) \<in> pool s" "(a, uy) \<notin> pool s"
  shows "spendInputs B u (x # y # zs) s = (DoubleSpend, bd_DelUnspentOutput B a ux s)"
    "pool (bd_DelUnspentOutput B a ux s) = pool s - {(a, ux)}" "inv (bd_DelUnspentOutput B a ux s)"
proof -
  let ?s = "bd_DelUnspentOutput B a ux s"
  have ty: "in_Type x \<in> {''wc'', ''mc'', []}" "in_Type y \<in> {''wc'', ''mc'', []}"
    using assms(5,6) by (simp_all add: input_ok_def)
  note ux = utxo_of_amount[OF ty(1) assms(7)] and uy = utxo_of_amount[OF ty(2) assms(8)]
  have x: "wf_utxo ux" "ux \<in> U" "owner ux = a"
    and y: "wf_utxo uy" "uy \<in> U" "owner uy = a"
    using assms(5,6) ux uy get_wf[OF assms(1)] by (auto simp: input_ok_def wf_utxo_def)
  show del: "pool ?s = pool s - {(a, ux)}" "inv ?s" using del_pool del_inv assms(1,2) x by auto
  have same: "same_units B s ?s" by (simp add: same_units_def get_del[OF assms(1)])
  have "spentUTXO B y ?s = Inr uy" using same_units_inputs(1)[OF same, of y] assms(8) by simp
  moreover have "bd_IsExistUnspentOutput B ux s" using exist_iff[OF assms(1) x(1,2)] x(3) assms(9) by simp
  moreover have "\<not> bd_IsExistUnspentOutput B uy ?s" using exist_iff[OF del(2) y(1,2)] y(3) assms(10) del(1) by simp
  ultimately show "spendInputs B u (x # y # zs) s = (DoubleSpend, ?s)"
    using assms(3,4,7) by simp
qed

end

section \<open>A sample state\<close>

text \<open>The pool holds the one output that \<open>pay_unit\<close> spends.\<close>

definition src_utxo :: UTXO where
  "src_utxo = NewUTXO (sample_hash 8) 0 0 (NewOutput (sample_address 1) 1000000) []"

definition pay_db :: memdb where
  "pay_db = SaveUnspentOutput mem_env (sample_address 1) src_utxo (SaveUnitToDb mem_env (sample_unit 8 []) RBT.empty)"

definition pay_outputs :: "UTXO list" where
  "pay_outputs = [src_utxo, NewUTXO (sample_hash 9) 0 0 (NewOutput (sample_address 2) 999890) [],
     NewUTXO (sample_hash 9) 0 0 (NewOutput (sample_address 3) 100) ''mc'',
     NewUTXO (sample_hash 9) 0 0 (NewOutput emptyAddress 10) ''wc'',
     NewUTXO (sample_hash 8) 0 0 (NewOutput (sample_address 1) 1) []]"

abbreviation sampleB :: "memdb boydb" where "sampleB \<equiv> boydb_of mem_env"
abbreviation sampleU :: "UTXO set" where "sampleU \<equiv> set pay_outputs"

lemma pay_outputs_wf: "list_all wf_utxo pay_outputs"
  by (simp add: pay_outputs_def src_utxo_def NewUTXO_def NewOutput_def wf_utxo_def wf_output_def)
    (simp add: emptyAddress_def wf_address_def)

lemma pay_collision_free: "collision_free mem_env sampleU"
proof -
  have "map (\<lambda>u. length (json_text (UTXO_json u))) pay_outputs = [207, 206, 205, 204, 201]"
    using pay_outputs_wf
    by (simp add: pay_outputs_def length_UTXO_text, simp add: src_utxo_def NewUTXO_def NewOutput_def)
      (simp add: int_dec_def nat_dec.simps json_escape_def Let_def)
  then have "distinct (map (UTXO_ToHash mem_sum256) pay_outputs)"
    by (simp add: pay_outputs_def mem_UTXO_hash)
  then show ?thesis by (simp add: collision_free_def distinct_map)
qed

lemma pool_inv_empty: "collision_free mem_env U \<Longrightarrow> pool_inv mem_env P U RBT.empty"
  by (simp add: pool_inv_def mem_env_ok pool_wf_def held_def)

lemma src_utxo_ok: "src_utxo \<in> sampleU" "wf_utxo src_utxo" "owner src_utxo = sample_address 1"
  using pay_outputs_wf by (simp_all add: pay_outputs_def) (simp add: src_utxo_def NewUTXO_def NewOutput_def)

lemma pay_db_pool:
  "pool_inv mem_env (stableP mem_env) sampleU pay_db" "held mem_env (stableP mem_env) pay_db = {(sample_address 1, src_utxo)}"
proof -
  let ?s = "SaveUnitToDb mem_env (sample_unit 8 []) RBT.empty"
  have s: "pool_inv mem_env (stableP mem_env) sampleU ?s" "held mem_env (stableP mem_env) ?s = {}"
    using pool_inv_empty[OF pay_collision_free] stable_frame(4,8)[OF mem_env_ok] by (simp_all add: held_def)
  show "pool_inv mem_env (stableP mem_env) sampleU pay_db"
    unfolding pay_db_def by (rule stable.save_inv[OF s(1)]) (use src_utxo_ok in simp_all)
  show "held mem_env (stableP mem_env) pay_db = {(sample_address 1, src_utxo)}"
    unfolding pay_db_def using stable.save_pool[OF s(1), of "sample_address 1" src_utxo] src_utxo_ok s(2) by simp
qed

lemma pay_held: "held mem_env (ConstDBOutputPrefix mem_config) pay_db = {(sample_address 1, src_utxo)}"
  using pay_db_pool(2) by simp

lemma pay_db_unit: "GetUnitByHash mem_env (sample_hash 8) pay_db = (sample_unit 8 [], None)"
  by (simp add: pay_db_def GetUnit_frame(1)[OF mem_env_ok] GetUnit_SaveUnit mem_ldb_ok)

definition pay_input :: Input where
  "pay_input = NewInput (sample_hash 8) 0 0 [] (NewOutput (sample_address 1) 1000000)"

lemma pay_input_spends: "spentUTXO sampleB pay_input pay_db = Inr src_utxo"
  by (simp add: spentUTXO_def pay_input_def NewInput_def pay_db_unit src_utxo_def)

lemma pay_unit_parts:
  "inputs_of (u_Messages pay_unit) = [pay_input]" "author_of pay_unit = sample_address 1" "u_Authors pay_unit \<noteq> []"
  by (simp_all add: inputs_of_def pay_input_def pay_unit_simps author_of_def)

lemma pay_unit_ok: "unit_ok sampleB sampleU pay_db pay_unit"
  using src_utxo_ok pay_input_spends
  by (simp add: unit_ok_def pay_unit_parts input_ok_def utxo_of_def)
    (simp add: pay_input_def NewInput_def NewOutput_def wf_output_def)

lemma pay_run: "\<exists>cs s'. Stable_HandleUnit sampleB pay_unit pay_db = (Returned (cs, True, None), s')"
proof -
  have "IsExistUnspentOutput mem_env (sample_address 1) src_utxo pay_db"
    using ldb.exist_iff[OF pay_db_pool(1), of src_utxo] src_utxo_ok pay_db_pool(2) by simp
  then have "\<exists>s'. spendInputs sampleB pay_unit [pay_input] pay_db = (AllSpent, s')"
    using pay_input_spends src_utxo_ok by (simp add: pay_unit_def)
  then obtain s' where "spendInputs sampleB pay_unit [pay_input] pay_db = (AllSpent, s')" by blast
  moreover have "u_Messages pay_unit = [NewMessage [] emptyHash \<lparr>pl_Inputs = [pay_input], pl_Outputs = [NewOutput (sample_address 2) 999890]\<rparr>]"
    by (simp add: pay_unit_def pay_input_def)
  ultimately show ?thesis
    by (simp add: Stable_HandleUnit_def NewMessage_def Let_def)
qed

section \<open>Properties\<close>








text \<open>C19. A rejected unit can still destroy coins: if its first input is in the pool and its second is not,
  the unit is rejected as a double spend, and its first input has left the pool for good.\<close>

theorem rejected_unit_burns_input:
  assumes "stable_db B pool good U" "good s" "unit_ok B U s u" "u_Messages u = [m]" "pl_Inputs (msg_Payload m) = x # y # zs"
    and "spentUTXO B x s = Inr ux" "spentUTXO B y s = Inr uy"
    and "(author_of u, ux) \<in> pool s" "(author_of u, uy) \<notin> pool s"
  shows "\<exists>s'. Stable_HandleUnit B u s = (Returned ([], False, None), s') \<and> pool s' = pool s - {(author_of u, ux)} \<and>
    set_total (pool s') = set_total (pool s) - utxo_amount ux"
proof -
  obtain au aus where au: "u_Authors u = au # aus" "au_Address au = author_of u"
    using assms(3) by (cases "u_Authors u") (auto simp: unit_ok_def author_of_def)
  have ok: "wf_address (author_of u)" "input_ok B U s (author_of u) x" "input_ok B U s (author_of u) y"
    using assms(3-5) by (simp_all add: unit_ok_def inputs_of_def)
  note m = stable_db.second_input_missing[OF assms(1,2) ok(1) au ok(2,3) assms(6-9)]
  have "Stable_HandleUnit B u s = (Returned ([], False, None), bd_DelUnspentOutput B (author_of u) ux s)"
    using m(1) assms(4,5) by (simp add: Stable_HandleUnit_def)
  then show ?thesis
    using m(2) set_total_remove[OF stable_db.pool_finite[OF assms(1,2)] assms(8)] by simp
qed

definition burn_input :: Input where
  "burn_input = NewInput (sample_hash 8) 0 0 [] (NewOutput (sample_address 1) 1)"

definition burn_unit :: Unit where
  "burn_unit = pay_unit\<lparr>u_Messages := [NewMessage [] emptyHash \<lparr>pl_Inputs = [pay_input, burn_input], pl_Outputs = []\<rparr>]\<rparr>"

theorem rejected_unit_burns_input_witness:
  "\<exists>s'. Stable_HandleUnit sampleB burn_unit pay_db = (Returned ([], False, None), s') \<and>
    set_total (held mem_env (stableP mem_env) s') = 0"
proof -
  let ?uy = "NewUTXO (sample_hash 8) 0 0 (NewOutput (sample_address 1) 1) []"
  have sp: "spentUTXO sampleB burn_input pay_db = Inr ?uy"
    by (simp add: spentUTXO_def burn_input_def NewInput_def pay_db_unit)
  have a: "author_of burn_unit = sample_address 1" using pay_unit_parts(2) by (simp add: burn_unit_def author_of_def)
  have "?uy \<in> sampleU" by (simp add: pay_outputs_def)
  then have ok: "unit_ok sampleB sampleU pay_db burn_unit"
    using pay_unit_ok sp pay_unit_parts
    by (simp add: unit_ok_def a, simp add: burn_unit_def inputs_of_def NewMessage_def input_ok_def utxo_of_def)
      (simp add: burn_input_def NewInput_def NewOutput_def wf_output_def)
  have "(sample_address 1, ?uy) \<notin> held mem_env (stableP mem_env) pay_db"
    by (simp add: pay_held src_utxo_def NewUTXO_def NewOutput_def)
  moreover have "set_total (held mem_env (stableP mem_env) pay_db) - utxo_amount src_utxo = 0"
    by (simp add: pay_held set_total_def)
  ultimately show ?thesis
    using rejected_unit_burns_input[OF ldb.stable_db_axioms pay_db_pool(1) ok _ _ pay_input_spends sp, of _ "[]"]
    by (simp add: a pay_held) (auto simp: burn_unit_def NewMessage_def)
qed

text \<open>A batch can lose the payments of its accepted units: if a later unit names an input whose unit is
  unknown, \<^verbatim>\<open>handleStableUnits\<close> returns before anything is written back, and the outputs the accepted
  unit spent are gone with nothing paid.\<close>

theorem aborted_batch_loses_payments:
  assumes "stable_db B pool good U" "good s" "unit_ok B U s u" "Stable_HandleUnit B u s = (Returned (cs, True, e), s1)"
    and "u_Messages v = m # ms" "pl_Inputs (msg_Payload m) = x # zs" "spentUTXO B x s = Inl err"
  shows "handleStableUnits B it [u, v] s = (Returned (), s1) \<and>
    set_total (pool s1) = set_total (pool s) - unit_in u"
proof -
  have h: "same_units B s s1" "spends B s u \<subseteq> pool s" "pool s1 = pool s - spends B s u" "set_total (spends B s u) = unit_in u"
    using stable_db.handle_ok[OF assms(1-4)] by simp_all
  have e: "e = None" using stableMessages_valid assms(4) by (metis Stable_HandleUnit_def fst_conv)
  have "spentUTXO B x s1 = Inl err" using same_units_inputs(1)[OF h(1)] assms(7) by simp
  then have "Stable_HandleUnit B v s1 = (Returned ([], False, Some err), s1)"
    using assms(5,6) by (simp add: Stable_HandleUnit_def)
  then show ?thesis
    using assms(4) h set_total_diff[OF stable_db.pool_finite[OF assms(1,2)]]
    by (simp add: handleStableUnits_def StableTx_def e Let_def)
qed

definition lost_unit :: Unit where
  "lost_unit = pay_unit\<lparr>u_Messages := [NewMessage [] emptyHash \<lparr>pl_Inputs = [NewInput (sample_hash 7) 0 0 [] zeroOutput], pl_Outputs = []\<rparr>]\<rparr>"

theorem aborted_batch_loses_payments_witness:
  "\<exists>s'. handleStableUnits sampleB rev [pay_unit, lost_unit] pay_db = (Returned (), s') \<and>
    set_total (held mem_env (stableP mem_env) s') = 0"
proof -
  obtain cs s1 where r: "Stable_HandleUnit sampleB pay_unit pay_db = (Returned (cs, True, None), s1)"
    using pay_run by blast
  have "spentUTXO sampleB (NewInput (sample_hash 7) 0 0 [] zeroOutput) pay_db = Inl ErrNotFindFrom"
    by (simp add: spentUTXO_def NewInput_def pay_db_def GetUnit_frame(1)[OF mem_env_ok] GetUnit_SaveUnit mem_ldb_ok)
      (simp add: GetUnitByHash_def LDB_Get_def)
  moreover have "set_total (held mem_env (stableP mem_env) pay_db) - unit_in pay_unit = 0"
    by (simp add: pay_held set_total_def utxo_amount_def src_utxo_def NewUTXO_def unit_in_def in_total_def pay_unit_simps)
  ultimately show ?thesis
    using aborted_batch_loses_payments[OF ldb.stable_db_axioms pay_db_pool(1) pay_unit_ok r, of lost_unit]
    by (simp add: lost_unit_def NewMessage_def)
qed

end
