(* ===== verification/Pending.thy ===== *)
theory Pending
  imports Stable
begin

text \<open>
  Units that are not stable yet: \<^verbatim>\<open>transaction/pendingprocess.go\<close> (the pool of pending outputs),
  \<^verbatim>\<open>transaction/backtrack.go\<close> (the check that a chain of pending outputs still rests on an unspent
  stable one, and the rebuilding of the pool when it does not) and the parts of
  \<^verbatim>\<open>transaction/auth.go\<close> that verify the inputs of a unit.

  The one-argument operations of \<^verbatim>\<open>boydb\<close> are those of the record \<open>boydb\<close>; where the source calls
  the operations with an address, they are those of \<open>LevelDb\<close>.
\<close>

section \<open>transaction/pendingprocess.go\<close>

record UtxoHelper =
  uh_Address :: address
  uh_UTXO :: UTXO
  uh_IsStable :: bool

record PendingPool =
  PendingTx_map :: "(string, UTXO) gomap"

definition NewPendingPool :: PendingPool where
  "NewPendingPool = \<lparr>PendingTx_map = []\<rparr>"

text \<open>
  The loop over the inputs of one message.  It ends with an error, with the early \<^verbatim>\<open>return nil\<close> of a
  missing output, or with the list of what will be spent.
\<close>

datatype gathering = GatherError txError | GatherStop | Gathered "UtxoHelper list"

definition futureSpentOf :: "Unit \<Rightarrow> Input \<Rightarrow> UTXO" where
  "futureSpentOf inputUnit inp =
     NewUTXO (u_Hash inputUnit) (in_MessageIndex inp) (in_OutputIndex inp) (in_Output inp) (in_Type inp)"

fun gatherInputs :: "'s boydb \<Rightarrow> Input list \<Rightarrow> UtxoHelper list \<Rightarrow> 's \<Rightarrow> gathering" where
  "gatherInputs B [] utxos s = Gathered utxos"
| "gatherInputs B (inp # inputs) utxos s =
     (case bd_GetUnitByHash B (in_UnitHash inp) s of
        (_, Some _) \<Rightarrow> GatherError ErrNotFindFrom
      | (inputUnit, None) \<Rightarrow>
          (let futureSpent = futureSpentOf inputUnit inp;
               isExist = (if u_IsStable inputUnit then bd_IsExistUnspentOutput B futureSpent s
                          else bd_IsExistPendingUTXO B futureSpent s)
           in if \<not> isExist then GatherStop
              else gatherInputs B inputs
                (utxos @ [\<lparr>uh_Address = emptyAddress, uh_UTXO = futureSpent, uh_IsStable = u_IsStable inputUnit\<rparr>]) s))"

definition dropSpent :: "'s boydb \<Rightarrow> UtxoHelper list \<Rightarrow> 's \<Rightarrow> 's" where
  "dropSpent B utxos s = fold (\<lambda>spent s. if \<not> uh_IsStable spent then bd_DelPendingUnspentOutput B (uh_UTXO spent) s else s) utxos s"

text \<open>The outputs that go back to the author; \<^verbatim>\<open>unit.Authors[0]\<close> of a unit without authors panics.\<close>

fun saveChange :: "'s boydb \<Rightarrow> Unit \<Rightarrow> nat \<Rightarrow> nat \<Rightarrow> Output list \<Rightarrow> 's \<Rightarrow> bool \<times> 's" where
  "saveChange B unit i z [] s = (True, s)"
| "saveChange B unit i z (out # outs) s =
     (case u_Authors unit of [] \<Rightarrow> (False, s)
      | author # _ \<Rightarrow>
          saveChange B unit i (Suc z) outs
            (if out_Address out = au_Address author
             then bd_SavePendingUTXO B (out_Address out) (unSpentOf unit i z out) s else s))"

text \<open>The list of spent outputs is declared outside the loop over the messages, so it grows over them.\<close>

fun pendingMessages :: "'s boydb \<Rightarrow> Unit \<Rightarrow> nat \<Rightarrow> Message list \<Rightarrow> UtxoHelper list \<Rightarrow> 's \<Rightarrow> txError option outcome \<times> 's" where
  "pendingMessages B unit i [] utxos s = (Returned None, s)"
| "pendingMessages B unit i (m # ms) utxos s =
     (case gatherInputs B (pl_Inputs (msg_Payload m)) utxos s of
        GatherError e \<Rightarrow> (Returned (Some e), s)
      | GatherStop \<Rightarrow> (Returned None, s)
      | Gathered utxos \<Rightarrow>
          (case saveChange B unit i 0 (pl_Outputs (msg_Payload m)) (dropSpent B utxos s) of
             (False, s) \<Rightarrow> (Panicked, s)
           | (True, s) \<Rightarrow> pendingMessages B unit (Suc i) ms utxos s))"

definition Pending_HandleUnit :: "'s boydb \<Rightarrow> Unit \<Rightarrow> 's \<Rightarrow> txError option outcome \<times> 's" where
  "Pending_HandleUnit B unit s = pendingMessages B unit 0 (u_Messages unit) [] s"

definition PendingTx :: "'s boydb \<Rightarrow> Unit \<Rightarrow> 's \<Rightarrow> txError option outcome \<times> 's" where
  "PendingTx B unit s = Pending_HandleUnit B unit s"

section \<open>transaction/backtrack.go and transaction/types.go\<close>

record ResultBack =
  rb_stable :: bool
  rb_exist :: bool
  rb_utxo :: UTXO

text \<open>
  What \<^verbatim>\<open>isInputHasSpent\<close> sends on its channel: nothing for a type the switch does not know.  An error
  of the lookup is only logged; the unit is then the zero unit.
\<close>

definition isInputHasSpent :: "'s env \<Rightarrow> 's \<Rightarrow> address \<Rightarrow> Input \<Rightarrow> ResultBack option" where
  "isInputHasSpent E s author input =
     (let inputUnit = unit_at E s (in_UnitHash input) in
      if in_Type input = ''wc'' \<or> in_Type input = ''mc'' then
        (let preUTXO = NewUTXO (u_Hash inputUnit) 0 0 (in_Output input) (in_Type input)
         in Some \<lparr>rb_stable = u_IsStable inputUnit, rb_exist = IsExistUnspentOutput E author preUTXO s, rb_utxo = preUTXO\<rparr>)
      else if in_Type input = [] then
        (let preUTXO = NewUTXO (u_Hash inputUnit) 0 (in_OutputIndex input) (in_Output input) []
         in Some \<lparr>rb_stable = u_IsStable inputUnit, rb_exist = IsExistUnspentOutput E author preUTXO s, rb_utxo = preUTXO\<rparr>)
      else None)"

text \<open>
  The results of all inputs of a unit, sent before the first is received.  A missing one blocks the
  receiver for ever; \<^verbatim>\<open>Messages[0]\<close> and \<^verbatim>\<open>Authors[0]\<close> panic on empty lists.
\<close>

definition inputResults :: "'s env \<Rightarrow> 's \<Rightarrow> Unit \<Rightarrow> ResultBack list outcome" where
  "inputResults E s curUnit =
     (case u_Messages curUnit of [] \<Rightarrow> Panicked
      | m # _ \<Rightarrow>
         (case u_Authors curUnit of
            [] \<Rightarrow> (if pl_Inputs (msg_Payload m) = [] then Returned []
                   else if list_ex (\<lambda>inp. in_Type inp \<in> {''wc'', ''mc'', []}) (pl_Inputs (msg_Payload m)) then Panicked
                   else OutOfFuel)
          | author # _ \<Rightarrow>
             (let rs = map (isInputHasSpent E s (au_Address author)) (pl_Inputs (msg_Payload m))
              in if list_all (\<lambda>r. r \<noteq> None) rs then Returned (map the rs) else OutOfFuel)))"

text \<open>One pass over the results: the verdict so far, whether to stop, and the queue.\<close>

fun readResults :: "ResultBack list \<Rightarrow> bool \<Rightarrow> bool \<Rightarrow> UTXO Queue \<Rightarrow> bool \<times> bool \<times> UTXO Queue" where
  "readResults [] backTrackResult isBreak que = (backTrackResult, isBreak, que)"
| "readResults (r # rs) backTrackResult isBreak que =
     (if rb_stable r then readResults rs (rb_exist r) True que
      else readResults rs backTrackResult isBreak (Push (rb_utxo r) que))"

fun backTrackLoop :: "'s env \<Rightarrow> 's \<Rightarrow> nat \<Rightarrow> UTXO Queue \<Rightarrow> bool \<Rightarrow> bool outcome" where
  "backTrackLoop E s 0 que backTrackResult = OutOfFuel"
| "backTrackLoop E s (Suc fuel) que backTrackResult =
     (if Empty que then Returned backTrackResult
      else (case Front que of None \<Rightarrow> Panicked | Some utxo \<Rightarrow>
        (case GetUnitByHash E (utxo_UnitHash utxo) s of
           (_, Some _) \<Rightarrow> Returned backTrackResult
         | (curUnit, None) \<Rightarrow>
            (case inputResults E s curUnit of
               Panicked \<Rightarrow> Panicked
             | OutOfFuel \<Rightarrow> OutOfFuel
             | Returned rs \<Rightarrow>
                (case readResults rs backTrackResult False (snd (Pop que)) of (backTrackResult, isBreak, que) \<Rightarrow>
                  if isBreak then Returned backTrackResult else backTrackLoop E s fuel que backTrackResult)))))"

text \<open>
  \<^verbatim>\<open>make(types.Units, len(utxos))\<close> followed by \<^verbatim>\<open>append\<close>: the list starts with as many zero units as there
  are pending outputs.
\<close>

fun pendingTxs :: "'s boydb \<Rightarrow> Unit list \<Rightarrow> 's \<Rightarrow> unit outcome \<times> 's" where
  "pendingTxs B [] s = (Returned (), s)"
| "pendingTxs B (u # us) s =
     (case PendingTx B u s of
        (Returned _, s) \<Rightarrow> pendingTxs B us s
      | (Panicked, s) \<Rightarrow> (Panicked, s)
      | (OutOfFuel, s) \<Rightarrow> (OutOfFuel, s))"

definition reBuildPendingPool :: "'s env \<Rightarrow> 's boydb \<Rightarrow> Unit \<Rightarrow> 's \<Rightarrow> unit outcome \<times> 's" where
  "reBuildPendingPool E B newUnit s =
     (case u_Authors newUnit of [] \<Rightarrow> (Panicked, s)
      | author # _ \<Rightarrow>
         (let utxos = GetPendingUTXOByAuthor E (au_Address author) s;
              pendingUnits = fold (\<lambda>u us. case GetUnitByHash E (utxo_UnitHash u) s of
                  (_, Some _) \<Rightarrow> us | (unit, None) \<Rightarrow> us @ [unit]) utxos (replicate (length utxos) NewEmptyUnit);
              pUnSpent = GetAllPendingUnSpent E (au_Address author) s;
              s = fold (\<lambda>u. DelPendingUTXO E (au_Address author) u) pUnSpent s
          in pendingTxs B (sort_Units pendingUnits) s))"

definition BackTrackingUTXO :: "nat \<Rightarrow> 's env \<Rightarrow> 's boydb \<Rightarrow> Unit \<Rightarrow> 's \<Rightarrow> unit outcome \<times> 's" where
  "BackTrackingUTXO fuel E B newUnit s =
     (case u_Authors newUnit of [] \<Rightarrow> (Panicked, s)
      | author # _ \<Rightarrow>
         (case GetPendingUTXOByAuthor E (au_Address author) s of
            [] \<Rightarrow> (Returned (), s)
          | putxo # _ \<Rightarrow>
             (case backTrackLoop E s fuel (Push putxo New) False of
                OutOfFuel \<Rightarrow> (OutOfFuel, s)
              | Panicked \<Rightarrow> (Panicked, s)
              | Returned backTrackResult \<Rightarrow>
                  if \<not> backTrackResult then reBuildPendingPool E B newUnit s else (Returned (), s))))"

section \<open>transaction/auth.go\<close>

text \<open>\<^verbatim>\<open>isAddInputHasSpent\<close> computes what \<^verbatim>\<open>isInputHasSpent\<close> does.\<close>

definition isAddInputHasSpent :: "'s env \<Rightarrow> 's \<Rightarrow> address \<Rightarrow> Input \<Rightarrow> ResultBack option" where
  "isAddInputHasSpent E s author input = isInputHasSpent E s author input"

fun hasSpentLoop :: "'s env \<Rightarrow> 's \<Rightarrow> nat \<Rightarrow> UTXO Queue \<Rightarrow> UTXO list \<Rightarrow> UTXO list outcome" where
  "hasSpentLoop E s 0 que stableUTXOS = OutOfFuel"
| "hasSpentLoop E s (Suc fuel) que stableUTXOS =
     (if Empty que then Returned stableUTXOS
      else (case Front que of None \<Rightarrow> Panicked | Some utxo \<Rightarrow>
        (case GetUnitByHash E (utxo_UnitHash utxo) s of
           (_, Some _) \<Rightarrow> Returned stableUTXOS
         | (curUnit, None) \<Rightarrow>
            (case inputResults E s curUnit of
               Panicked \<Rightarrow> Panicked
             | OutOfFuel \<Rightarrow> OutOfFuel
             | Returned rs \<Rightarrow>
                hasSpentLoop E s fuel
                  (fold (\<lambda>r que. if rb_stable r then que else Push (rb_utxo r) que) rs (snd (Pop que)))
                  (stableUTXOS @ map rb_utxo (filter (\<lambda>r. rb_stable r \<and> rb_exist r) rs))))))"

definition BackTrackingHasSpentUTXO :: "nat \<Rightarrow> 's env \<Rightarrow> 's \<Rightarrow> UTXO \<Rightarrow> UTXO list outcome" where
  "BackTrackingHasSpentUTXO fuel E s unspent = hasSpentLoop E s fuel (Push unspent New) []"

datatype authError = ErrInputSource | ErrInputSpent

text \<open>\<open>VerifyMessageInputs\<close>: the inner lookups repeat the outer one and cannot fail after it.\<close>

fun verifyInputs :: "'s env \<Rightarrow> 's \<Rightarrow> Unit \<Rightarrow> Input list \<Rightarrow> authError option outcome" where
  "verifyInputs E s unit [] = Returned None"
| "verifyInputs E s unit (inp # inputs) =
     (case GetUnitByHash E (in_UnitHash inp) s of
        (_, Some _) \<Rightarrow> Returned (Some ErrInputSource)
      | (inputUnit, None) \<Rightarrow>
          (case u_Authors unit of [] \<Rightarrow> Panicked
           | author # _ \<Rightarrow>
              if u_IsStable inputUnit then
                (let futureSpent = NewUTXO (u_Hash inputUnit) (in_MessageIndex inp) (in_OutputIndex inp) (in_Output inp)
                       (if in_Type inp = ''wc'' \<or> in_Type inp = ''mc'' then in_Type inp else [])
                 in if \<not> IsExistUnspentOutput E (au_Address author) futureSpent s
                    then Returned (Some ErrInputSpent) else verifyInputs E s unit inputs)
              else
                (let futureSpent = NewUTXO (u_Hash inputUnit) (in_MessageIndex inp) (in_OutputIndex inp) (in_Output inp) []
                 in if \<not> IsExistPendingUTXO E (au_Address author) futureSpent s
                    then Returned None else verifyInputs E s unit inputs)))"

definition VerifyMessageInputs :: "'s env \<Rightarrow> 's \<Rightarrow> Unit \<Rightarrow> authError option outcome" where
  "VerifyMessageInputs E s unit =
     (case u_Messages unit of [] \<Rightarrow> Panicked
      | curMessage # _ \<Rightarrow> verifyInputs E s unit (pl_Inputs (msg_Payload curMessage)))"

section \<open>What the code relies on\<close>

text \<open>The contract of the pool of pending outputs, with the operations that take no address.\<close>

locale pending_db =
  fixes B :: "'s boydb"
    and pend :: "'s \<Rightarrow> (address \<times> UTXO) set"
    and inv :: "'s \<Rightarrow> bool"
    and U :: "UTXO set"
  assumes exist_iff: "\<lbrakk>inv s; wf_utxo u; u \<in> U\<rbrakk> \<Longrightarrow> bd_IsExistPendingUTXO B u s \<longleftrightarrow> (owner u, u) \<in> pend s"
    and del_pend: "\<lbrakk>inv s; wf_utxo u; u \<in> U\<rbrakk> \<Longrightarrow> pend (bd_DelPendingUnspentOutput B u s) = pend s - {(owner u, u)}"
    and del_inv: "\<lbrakk>inv s; wf_utxo u; u \<in> U\<rbrakk> \<Longrightarrow> inv (bd_DelPendingUnspentOutput B u s)"
    and save_pend: "\<lbrakk>inv s; wf_address a; wf_utxo u; u \<in> U\<rbrakk> \<Longrightarrow> pend (bd_SavePendingUTXO B a u s) = insert (a, u) (pend s)"
    and save_inv: "\<lbrakk>inv s; wf_address a; wf_utxo u; u \<in> U\<rbrakk> \<Longrightarrow> inv (bd_SavePendingUTXO B a u s)"

interpretation ldbp: pending_db "boydb_of E" "held E (pendingP E)" "pool_inv E (pendingP E) U" U for E U
proof (unfold_locales, goal_cases)
  case (1 s u)
  then show ?case using pending.exist_iff[of E U s "owner u" u] by (simp add: wf_utxo_def wf_output_def)
next
  case (2 s u)
  then show ?case using pending.del_pool[of E U s "owner u" u]
    by (simp add: DelPendingUnspentOutput_def DelPendingUTXO_def wf_utxo_def wf_output_def)
next
  case (3 s u)
  then show ?case using pending.del_inv[of E U s "owner u" u]
    by (simp add: DelPendingUnspentOutput_def DelPendingUTXO_def wf_utxo_def wf_output_def)
next
  case (4 s a u) then show ?case by (simp add: pending.save_pool)
next
  case (5 s a u) then show ?case by (simp add: pending.save_inv)
qed

text \<open>The outputs that go back to the author, and what was gathered from the inputs.\<close>

fun change_of :: "Unit \<Rightarrow> nat \<Rightarrow> nat \<Rightarrow> Output list \<Rightarrow> (address \<times> UTXO) list" where
  "change_of u i z [] = []"
| "change_of u i z (out # outs) =
     (if out_Address out = author_of u then [(out_Address out, unSpentOf u i z out)] else []) @ change_of u i (Suc z) outs"

definition unstable_spent :: "UtxoHelper list \<Rightarrow> (address \<times> UTXO) set" where
  "unstable_spent hs = (\<lambda>h. (owner (uh_UTXO h), uh_UTXO h)) ` {h \<in> set hs. \<not> uh_IsStable h}"

definition helpers_ok :: "UTXO set \<Rightarrow> UtxoHelper list \<Rightarrow> bool" where
  "helpers_ok U hs \<longleftrightarrow> list_all (\<lambda>h. wf_utxo (uh_UTXO h) \<and> uh_UTXO h \<in> U) hs"

definition changes_ok :: "UTXO set \<Rightarrow> (address \<times> UTXO) list \<Rightarrow> bool" where
  "changes_ok U cs \<longleftrightarrow> list_all (\<lambda>(a, u). wf_address a \<and> wf_utxo u \<and> u \<in> U) cs"

context pending_db begin

lemma dropSpent_pend:
  "inv s \<Longrightarrow> helpers_ok U hs \<Longrightarrow> inv (dropSpent B hs s) \<and> pend (dropSpent B hs s) = pend s - unstable_spent hs"
proof (induction hs arbitrary: s)
  case (Cons h hs)
  let ?s = "if \<not> uh_IsStable h then bd_DelPendingUnspentOutput B (uh_UTXO h) s else s"
  have ok: "wf_utxo (uh_UTXO h)" "uh_UTXO h \<in> U" "helpers_ok U hs" using Cons.prems(2) by (simp_all add: helpers_ok_def)
  have "inv ?s" "pend ?s = pend s - unstable_spent [h]"
    using Cons.prems(1) ok by (auto simp: del_inv del_pend unstable_spent_def)
  moreover have "unstable_spent (h # hs) = unstable_spent [h] \<union> unstable_spent hs" by (auto simp: unstable_spent_def)
  moreover have "dropSpent B (h # hs) s = dropSpent B hs ?s" by (simp add: dropSpent_def)
  ultimately show ?case using Cons.IH[of ?s] ok(3) by (auto simp del: not_Cons_self)
qed (simp add: dropSpent_def unstable_spent_def)

lemma saveChange_pend:
  assumes "inv s" "u_Authors u \<noteq> []" "changes_ok U (change_of u i z outs)"
  shows "\<exists>s'. saveChange B u i z outs s = (True, s') \<and> inv s' \<and> pend s' = pend s \<union> set (change_of u i z outs)"
  using assms(1,3)
proof (induction outs arbitrary: s z)
  case (Cons out outs)
  obtain au aus where au: "u_Authors u = au # aus" using assms(2) by (cases "u_Authors u") auto
  have a: "author_of u = au_Address au" by (simp add: author_of_def au)
  let ?s = "if out_Address out = au_Address au then bd_SavePendingUTXO B (out_Address out) (unSpentOf u i z out) s else s"
  have ok: "changes_ok U (change_of u i (Suc z) outs)" using Cons.prems(2) by (simp add: changes_ok_def)
  have "inv ?s" "pend ?s = pend s \<union> set (if out_Address out = author_of u then [(out_Address out, unSpentOf u i z out)] else [])"
    using Cons.prems by (auto simp: changes_ok_def a save_inv save_pend)
  then show ?case using Cons.IH[of ?s "Suc z"] ok by (auto simp: au)
qed simp

end

section \<open>What is gathered, what is verified\<close>

definition source_known :: "'s boydb \<Rightarrow> 's \<Rightarrow> Input \<Rightarrow> bool" where
  "source_known B s inp \<longleftrightarrow> snd (bd_GetUnitByHash B (in_UnitHash inp) s) = None"

definition available :: "'s boydb \<Rightarrow> 's \<Rightarrow> Input \<Rightarrow> bool" where
  "available B s inp \<longleftrightarrow> (let v = fst (bd_GetUnitByHash B (in_UnitHash inp) s); u = futureSpentOf v inp in
     if u_IsStable v then bd_IsExistUnspentOutput B u s else bd_IsExistPendingUTXO B u s)"

definition helper_of :: "'s boydb \<Rightarrow> 's \<Rightarrow> Input \<Rightarrow> UtxoHelper" where
  "helper_of B s inp = (let v = fst (bd_GetUnitByHash B (in_UnitHash inp) s) in
     \<lparr>uh_Address = emptyAddress, uh_UTXO = futureSpentOf v inp, uh_IsStable = u_IsStable v\<rparr>)"

lemma gatherInputs_step:
  assumes "source_known B s inp"
  shows "gatherInputs B (inp # ins) hs s =
    (if available B s inp then gatherInputs B ins (hs @ [helper_of B s inp]) s else GatherStop)"
proof -
  obtain v where v: "bd_GetUnitByHash B (in_UnitHash inp) s = (v, None)"
    using assms by (cases "bd_GetUnitByHash B (in_UnitHash inp) s") (simp add: source_known_def)
  then show ?thesis by (cases "u_IsStable v") (simp_all add: available_def helper_of_def Let_def)
qed


lemma gatherInputs_missing:
  "list_all (source_known B s) ins \<Longrightarrow> \<not> list_all (available B s) ins \<Longrightarrow> gatherInputs B ins hs s = GatherStop"
  by (induction ins arbitrary: hs) (auto simp: gatherInputs_step simp del: gatherInputs.simps(2))

datatype verdict = Fine | Bad authError | NotPending

definition verify_one :: "'s env \<Rightarrow> 's \<Rightarrow> address \<Rightarrow> Input \<Rightarrow> verdict" where
  "verify_one E s a inp = (case GetUnitByHash E (in_UnitHash inp) s of
     (_, Some _) \<Rightarrow> Bad ErrInputSource
   | (v, None) \<Rightarrow>
       (let typ' = (if u_IsStable v \<and> (in_Type inp = ''wc'' \<or> in_Type inp = ''mc'') then in_Type inp else []);
            u = NewUTXO (u_Hash v) (in_MessageIndex inp) (in_OutputIndex inp) (in_Output inp) typ'
        in if u_IsStable v then (if IsExistUnspentOutput E a u s then Fine else Bad ErrInputSpent)
           else (if IsExistPendingUTXO E a u s then Fine else NotPending)))"

lemma verifyInputs_step:
  "u_Authors unit \<noteq> [] \<Longrightarrow> verifyInputs E s unit (inp # ins) = (case verify_one E s (author_of unit) inp of
     Fine \<Rightarrow> verifyInputs E s unit ins | Bad e \<Rightarrow> Returned (Some e) | NotPending \<Rightarrow> Returned None)"
  by (auto simp: verify_one_def author_of_def Let_def neq_Nil_conv split: prod.splits option.splits)

lemma verifyInputs_accepts:
  assumes "u_Authors unit \<noteq> []"
  shows "verifyInputs E s unit ins = Returned None \<longleftrightarrow>
    (\<forall>inp\<in>set (takeWhile (\<lambda>inp. verify_one E s (author_of unit) inp \<noteq> NotPending) ins).
       verify_one E s (author_of unit) inp = Fine)"
proof (induction ins)
  case (Cons inp ins)
  then show ?case
    using verifyInputs_step[OF assms, of E s inp ins] by (cases "verify_one E s (author_of unit) inp") auto
qed simp

lemma readResults_last:
  "readResults rs b k que = (b', k', que') \<Longrightarrow>
    b' = (if \<exists>r\<in>set rs. rb_stable r then rb_exist (last (filter rb_stable rs)) else b) \<and> k' = (k \<or> (\<exists>r\<in>set rs. rb_stable r))"
proof (induction rs arbitrary: b k que)
  case (Cons r rs)
  show ?case
    using Cons.IH[of "rb_exist r" True que] Cons.IH[of b k "Push (rb_utxo r) que"] Cons.prems
    by (cases "rb_stable r") (auto simp: filter_empty_conv)
qed simp

section \<open>A sample state\<close>

text \<open>Unit 8 is known and unstable; its output is pending in \<open>pend_db\<close> and nowhere in \<open>bare_db\<close>.\<close>

definition bare_db :: memdb where
  "bare_db = SaveUnitToDb mem_env (sample_unit 8 []) RBT.empty"

definition pend_db :: memdb where
  "pend_db = SavePendingUTXO mem_env (sample_address 1) src_utxo bare_db"

lemma bare_db_unit: "GetUnitByHash mem_env (sample_hash 8) bare_db = (sample_unit 8 [], None)"
  by (simp add: bare_db_def GetUnit_SaveUnit mem_ldb_ok)


lemma sample_unstable [simp]: "\<not> u_IsStable (sample_unit b ps)"
  by (simp add: sample_unit_def NewEmptyUnit_def)

lemma pending_frame:
  assumes "env_ok E"
  shows "held E (pendingP E) (SaveUnitToDb E u s) = held E (pendingP E) s"
    "pool_inv E (pendingP E) U (SaveUnitToDb E u s) = pool_inv E (pendingP E) U s"
proof -
  have "ldb_Get E k (SaveUnitToDb E u s) = ldb_Get E k s" if "\<not> prefix (ConstDBUnitPrefix (cfg E)) k" for k
    using that by (auto simp: Get_SaveUnit env_ok_ldb[OF assms] unitKey_def)
  note * = pool_frame[OF apart_sym[OF tables_apart(2)[OF assms]] this]
  show "held E (pendingP E) (SaveUnitToDb E u s) = held E (pendingP E) s"
    "pool_inv E (pendingP E) U (SaveUnitToDb E u s) = pool_inv E (pendingP E) U s"
    using *(1) *(2)[where U = U] by simp_all
qed

lemma bare_db_pool: "pool_inv mem_env (pendingP mem_env) sampleU bare_db" "held mem_env (pendingP mem_env) bare_db = {}"
  unfolding bare_db_def pending_frame[OF mem_env_ok]
  by (rule pool_inv_empty[OF pay_collision_free]) (simp add: held_def)

lemma pend_db_pool:
  "pool_inv mem_env (pendingP mem_env) sampleU pend_db"
  "held mem_env (pendingP mem_env) pend_db = {(sample_address 1, src_utxo)}"
  unfolding pend_db_def using src_utxo_ok bare_db_pool
    pending.save_inv[OF bare_db_pool(1), of "sample_address 1" src_utxo]
    pending.save_pool[OF bare_db_pool(1), of "sample_address 1" src_utxo] by simp_all

lemma pay_message: "u_Messages pay_unit = [hd (u_Messages pay_unit)]"
  "pl_Inputs (msg_Payload (hd (u_Messages pay_unit))) = [pay_input]"
  "pl_Outputs (msg_Payload (hd (u_Messages pay_unit))) = [NewOutput (sample_address 2) 999890]"
  by (simp_all add: pay_unit_def pay_input_def NewMessage_def)

lemma pay_input_source: "in_UnitHash pay_input = sample_hash 8" "futureSpentOf (sample_unit 8 []) pay_input = src_utxo"
  by (simp_all add: pay_input_def NewInput_def futureSpentOf_def src_utxo_def)

lemma pay_available: "bd_IsExistPendingUTXO sampleB src_utxo pend_db" "\<not> bd_IsExistPendingUTXO sampleB src_utxo bare_db"
  using ldbp.exist_iff[OF pend_db_pool(1), of src_utxo] ldbp.exist_iff[OF bare_db_pool(1), of src_utxo]
    src_utxo_ok pend_db_pool(2) bare_db_pool(2) by simp_all

section \<open>Properties\<close>



text \<open>A unit that spends an output which is in neither pool is not reported: the pending process returns no
  error and leaves everything as it is.\<close>

theorem pending_unit_ignored:
  assumes "u_Messages u = m # ms" "list_all (source_known B s) (pl_Inputs (msg_Payload m))"
    and "\<not> list_all (available B s) (pl_Inputs (msg_Payload m))"
  shows "Pending_HandleUnit B u s = (Returned None, s)"
  using gatherInputs_missing[OF assms(2,3), of "[]"] by (simp add: Pending_HandleUnit_def assms(1))

theorem pending_unit_ignored_witness: "Pending_HandleUnit sampleB pay_unit bare_db = (Returned None, bare_db)"
  by (rule pending_unit_ignored[OF pay_message(1)])
    (use pay_available in \<open>simp_all add: pay_message(2,3) source_known_def available_def pay_input_source bare_db_unit\<close>)

text \<open>\<^verbatim>\<open>VerifyMessageInputs\<close> accepts exactly if the inputs before the first one that is missing from the
  pending pool are fine: from a missing pending output on, nothing is checked.\<close>

theorem verify_inputs_accepts:
  assumes "u_Authors unit \<noteq> []" "u_Messages unit = m # ms"
  shows "VerifyMessageInputs E s unit = Returned None \<longleftrightarrow>
    (\<forall>inp\<in>set (takeWhile (\<lambda>inp. verify_one E s (author_of unit) inp \<noteq> NotPending) (pl_Inputs (msg_Payload m))).
       verify_one E s (author_of unit) inp = Fine)"
  using verifyInputs_accepts[OF assms(1)] by (simp add: VerifyMessageInputs_def assms(2))

theorem verify_inputs_accepts_witness: "VerifyMessageInputs mem_env bare_db pay_unit = Returned None"
proof -
  have "NewUTXO (sample_hash 8) (in_MessageIndex pay_input) (in_OutputIndex pay_input) (in_Output pay_input) [] = src_utxo"
    by (simp add: pay_input_def NewInput_def src_utxo_def)
  then have "verify_one mem_env bare_db (author_of pay_unit) pay_input = NotPending"
    using pay_available(2) src_utxo_ok(3) by (simp add: verify_one_def pay_input_source bare_db_unit pay_unit_parts Let_def)
  then show ?thesis
    using verify_inputs_accepts[OF pay_unit_parts(3) pay_message(1), of mem_env bare_db] by (simp add: pay_message(2,3))
qed

text \<open>The verdict of a backtracking round is that of the last stable input: an earlier input that has been
  spent is forgotten when a later one is unspent.\<close>

theorem backtrack_last_input_wins:
  assumes "rb_stable r" "filter rb_stable rs = []"
  shows "fst (readResults (qs @ r # rs) b k que) = rb_exist r \<and> fst (snd (readResults (qs @ r # rs) b k que))"
proof -
  obtain b' k' que' where r: "readResults (qs @ r # rs) b k que = (b', k', que')" by (metis prod_cases3)
  show ?thesis using readResults_last[OF r] assms by (auto simp: r)
qed

theorem backtrack_last_input_wins_witness:
  "fst (readResults [\<lparr>rb_stable = True, rb_exist = False, rb_utxo = NewEmptyUTXO\<rparr>,
     \<lparr>rb_stable = True, rb_exist = True, rb_utxo = NewEmptyUTXO\<rparr>] False False New)"
  using backtrack_last_input_wins[of "\<lparr>rb_stable = True, rb_exist = True, rb_utxo = NewEmptyUTXO\<rparr>" "[]"
      "[\<lparr>rb_stable = True, rb_exist = False, rb_utxo = NewEmptyUTXO\<rparr>]" False False New] by simp

end
