(* ===== verification/Merkle.thy ===== *)
theory Merkle
  imports Prelude
begin

text \<open>
  The Merkle tree of \<^verbatim>\<open>common/merkletree.go\<close>.  Nodes are objects that point at their children and at
  their parent, and a parent is set after the node has been made, so the model has an explicit store:
  a node is an index into a list of records, \<^verbatim>\<open>nil\<close> is \<^const>\<open>None\<close>.  The interface \<^verbatim>\<open>Content\<close> is a
  record of its two methods; SHA-256 is the argument \<open>H\<close>.

  The specification is \<open>root_of\<close>, a recursion over the list of leaf hashes that knows no nodes.  The
  theory shows that the tree has that root, that it verifies, which contents it verifies, what its root
  commits to, and that two different lists of contents can share a root.
\<close>

section \<open>common/merkletree.go\<close>

record ('c, 'e) Content =
  ct_CalculateHash :: "'c \<Rightarrow> 'e + bytes"
  ct_Equals :: "'c \<Rightarrow> 'c \<Rightarrow> 'e + bool"

record 'c Node =
  nd_Parent :: "nat option"
  nd_Left :: "nat option"
  nd_Right :: "nat option"
  nd_leaf :: bool
  nd_dup :: bool
  nd_Hash :: bytes
  nd_C :: "'c option"

type_synonym 'c nodes = "'c Node list"

record 'c MerkleTree =
  mt_Root :: nat
  mt_merkleRoot :: bytes
  mt_Leafs :: "nat list"
  mt_nodes :: "'c nodes"

datatype 'e merkleError = NoContent | ContentError 'e

text \<open>A node without content, or without a child that is read, is a nil pointer: a panic.\<close>

fun verifyNode :: "(bytes \<Rightarrow> bytes) \<Rightarrow> ('c, 'e) Content \<Rightarrow> 'c nodes \<Rightarrow> nat \<Rightarrow> nat \<Rightarrow> ('e merkleError + bytes) outcome" where
  "verifyNode H K st 0 n = OutOfFuel"
| "verifyNode H K st (Suc fuel) n =
     (if nd_leaf (st ! n) then
        (case nd_C (st ! n) of None \<Rightarrow> Panicked
         | Some c \<Rightarrow> Returned (map_sum ContentError id (ct_CalculateHash K c)))
      else (case (nd_Left (st ! n), nd_Right (st ! n)) of
          (Some l, Some r) \<Rightarrow>
            (case verifyNode H K st fuel r of
               Returned (Inr rightBytes) \<Rightarrow>
                 (case verifyNode H K st fuel l of
                    Returned (Inr leftBytes) \<Rightarrow> Returned (Inr (H (leftBytes @ rightBytes)))
                  | res \<Rightarrow> res)
             | res \<Rightarrow> res)
        | _ \<Rightarrow> Panicked))"

definition calculateNodeHash :: "(bytes \<Rightarrow> bytes) \<Rightarrow> ('c, 'e) Content \<Rightarrow> 'c nodes \<Rightarrow> nat \<Rightarrow> ('e merkleError + bytes) outcome" where
  "calculateNodeHash H K st n =
     (if nd_leaf (st ! n) then
        (case nd_C (st ! n) of None \<Rightarrow> Panicked
         | Some c \<Rightarrow> Returned (map_sum ContentError id (ct_CalculateHash K c)))
      else (case (nd_Left (st ! n), nd_Right (st ! n)) of
          (Some l, Some r) \<Rightarrow> Returned (Inr (H (nd_Hash (st ! l) @ nd_Hash (st ! r))))
        | _ \<Rightarrow> Panicked))"

text \<open>One round of the loop of \<^verbatim>\<open>buildIntermediate\<close>: the new node and the two parent pointers.\<close>

definition joinNodes :: "(bytes \<Rightarrow> bytes) \<Rightarrow> nat \<Rightarrow> nat \<Rightarrow> 'c nodes \<Rightarrow> nat \<times> 'c nodes" where
  "joinNodes H left right st =
     (let n = length st;
          chash = nd_Hash (st ! left) @ nd_Hash (st ! right);
          st = st @ [\<lparr>nd_Parent = None, nd_Left = Some left, nd_Right = Some right, nd_leaf = False, nd_dup = False,
                      nd_Hash = H chash, nd_C = None\<rparr>];
          st = st[left := (st ! left)\<lparr>nd_Parent := Some n\<rparr>]
      in (n, st[right := (st ! right)\<lparr>nd_Parent := Some n\<rparr>]))"

fun joinLevel :: "(bytes \<Rightarrow> bytes) \<Rightarrow> nat list \<Rightarrow> 'c nodes \<Rightarrow> nat list \<times> 'c nodes" where
  "joinLevel H [] st = ([], st)"
| "joinLevel H [l] st = (let (n, st) = joinNodes H l l st in ([n], st))"
| "joinLevel H (l # r # nl) st =
     (let (n, st) = joinNodes H l r st; (nodes, st) = joinLevel H nl st in (n # nodes, st))"

text \<open>A level of two nodes returns the node that joins them.  A level of at most one node never gets there.\<close>

fun buildIntermediate :: "(bytes \<Rightarrow> bytes) \<Rightarrow> nat \<Rightarrow> nat list \<Rightarrow> 'c nodes \<Rightarrow> (nat \<times> 'c nodes) outcome" where
  "buildIntermediate H 0 nl st = OutOfFuel"
| "buildIntermediate H (Suc fuel) nl st =
     (case nl of
        [l, r] \<Rightarrow> Returned (joinNodes H l r st)
      | _ \<Rightarrow> (let (nodes, st) = joinLevel H nl st in buildIntermediate H fuel nodes st))"

fun makeLeafs :: "('c, 'e) Content \<Rightarrow> 'c list \<Rightarrow> 'c nodes \<Rightarrow> 'e merkleError + 'c nodes" where
  "makeLeafs K [] leafs = Inr leafs"
| "makeLeafs K (c # cs) leafs =
     (case ct_CalculateHash K c of
        Inl e \<Rightarrow> Inl (ContentError e)
      | Inr h \<Rightarrow> makeLeafs K cs (leafs @ [\<lparr>nd_Parent = None, nd_Left = None, nd_Right = None, nd_leaf = True,
          nd_dup = False, nd_Hash = h, nd_C = Some c\<rparr>]))"

definition padLeafs :: "'c nodes \<Rightarrow> 'c nodes" where
  "padLeafs leafs =
     (if length leafs mod 2 = 1
      then leafs @ [\<lparr>nd_Parent = None, nd_Left = None, nd_Right = None, nd_leaf = True, nd_dup = True,
                     nd_Hash = nd_Hash (last leafs), nd_C = nd_C (last leafs)\<rparr>]
      else leafs)"

definition buildWithContent :: "(bytes \<Rightarrow> bytes) \<Rightarrow> ('c, 'e) Content \<Rightarrow> nat \<Rightarrow> 'c list \<Rightarrow>
    ('e merkleError + (nat \<times> nat list \<times> 'c nodes)) outcome" where
  "buildWithContent H K fuel cs =
     (if length cs = 0 then Returned (Inl NoContent)
      else (case makeLeafs K cs [] of
          Inl e \<Rightarrow> Returned (Inl e)
        | Inr leafs \<Rightarrow>
           (let leafs = padLeafs leafs in
            case buildIntermediate H fuel [0..<length leafs] leafs of
              Returned (root, st) \<Rightarrow> Returned (Inr (root, [0..<length leafs], st))
            | Panicked \<Rightarrow> Panicked
            | OutOfFuel \<Rightarrow> OutOfFuel)))"

definition NewTree :: "(bytes \<Rightarrow> bytes) \<Rightarrow> ('c, 'e) Content \<Rightarrow> nat \<Rightarrow> 'c list \<Rightarrow> ('e merkleError + 'c MerkleTree) outcome" where
  "NewTree H K fuel cs =
     (case buildWithContent H K fuel cs of
        Returned (Inr (root, leafs, st)) \<Rightarrow>
          Returned (Inr \<lparr>mt_Root = root, mt_merkleRoot = nd_Hash (st ! root), mt_Leafs = leafs, mt_nodes = st\<rparr>)
      | Returned (Inl e) \<Rightarrow> Returned (Inl e)
      | Panicked \<Rightarrow> Panicked
      | OutOfFuel \<Rightarrow> OutOfFuel)"

definition MerkleRoot :: "'c MerkleTree \<Rightarrow> bytes" where
  "MerkleRoot m = mt_merkleRoot m"

text \<open>The tree after the call, and the error; on an error the tree stays as it was.\<close>

definition RebuildTreeWith :: "(bytes \<Rightarrow> bytes) \<Rightarrow> ('c, 'e) Content \<Rightarrow> nat \<Rightarrow> 'c list \<Rightarrow> 'c MerkleTree \<Rightarrow>
    ('e merkleError option \<times> 'c MerkleTree) outcome" where
  "RebuildTreeWith H K fuel cs m =
     (case buildWithContent H K fuel cs of
        Returned (Inr (root, leafs, st)) \<Rightarrow>
          Returned (None, m\<lparr>mt_Root := root, mt_Leafs := leafs, mt_merkleRoot := nd_Hash (st ! root), mt_nodes := st\<rparr>)
      | Returned (Inl e) \<Rightarrow> Returned (Some e, m)
      | Panicked \<Rightarrow> Panicked
      | OutOfFuel \<Rightarrow> OutOfFuel)"

definition RebuildTree :: "(bytes \<Rightarrow> bytes) \<Rightarrow> ('c, 'e) Content \<Rightarrow> nat \<Rightarrow> 'c MerkleTree \<Rightarrow>
    ('e merkleError option \<times> 'c MerkleTree) outcome" where
  "RebuildTree H K fuel m =
     (let cs = map (\<lambda>l. nd_C (mt_nodes m ! l)) (mt_Leafs m) in
      if None \<in> set cs then Panicked else RebuildTreeWith H K fuel (map the cs) m)"

definition VerifyTree :: "(bytes \<Rightarrow> bytes) \<Rightarrow> ('c, 'e) Content \<Rightarrow> nat \<Rightarrow> 'c MerkleTree \<Rightarrow> ('e merkleError + bool) outcome" where
  "VerifyTree H K fuel m =
     (case verifyNode H K (mt_nodes m) fuel (mt_Root m) of
        Returned (Inr calculated) \<Rightarrow> Returned (Inr (mt_merkleRoot m = calculated))
      | Returned (Inl e) \<Rightarrow> Returned (Inl e)
      | Panicked \<Rightarrow> Panicked
      | OutOfFuel \<Rightarrow> OutOfFuel)"

text \<open>The walk from a leaf to the root; both branches of the source's conditional compute the same check.\<close>

fun climb :: "(bytes \<Rightarrow> bytes) \<Rightarrow> ('c, 'e) Content \<Rightarrow> 'c nodes \<Rightarrow> nat \<Rightarrow> nat option \<Rightarrow> ('e merkleError + bool) outcome" where
  "climb H K st 0 cur = OutOfFuel"
| "climb H K st (Suc fuel) None = Returned (Inr True)"
| "climb H K st (Suc fuel) (Some p) =
     (case (nd_Left (st ! p), nd_Right (st ! p)) of
        (Some l, Some r) \<Rightarrow>
          (case calculateNodeHash H K st r of
             Returned (Inr rightBytes) \<Rightarrow>
               (case calculateNodeHash H K st l of
                  Returned (Inr leftBytes) \<Rightarrow>
                    if H (leftBytes @ rightBytes) \<noteq> nd_Hash (st ! p) then Returned (Inr False)
                    else climb H K st fuel (nd_Parent (st ! p))
                | Returned (Inl e) \<Rightarrow> Returned (Inl e) | Panicked \<Rightarrow> Panicked | OutOfFuel \<Rightarrow> OutOfFuel)
           | Returned (Inl e) \<Rightarrow> Returned (Inl e) | Panicked \<Rightarrow> Panicked | OutOfFuel \<Rightarrow> OutOfFuel)
      | _ \<Rightarrow> Panicked)"

fun searchLeafs :: "(bytes \<Rightarrow> bytes) \<Rightarrow> ('c, 'e) Content \<Rightarrow> nat \<Rightarrow> 'c nodes \<Rightarrow> 'c \<Rightarrow> nat list \<Rightarrow> ('e merkleError + bool) outcome" where
  "searchLeafs H K fuel st content [] = Returned (Inr False)"
| "searchLeafs H K fuel st content (l # ls) =
     (case nd_C (st ! l) of None \<Rightarrow> Panicked
      | Some c \<Rightarrow>
         (case ct_Equals K c content of
            Inl e \<Rightarrow> Returned (Inl (ContentError e))
          | Inr ok \<Rightarrow> if ok then climb H K st fuel (nd_Parent (st ! l)) else searchLeafs H K fuel st content ls))"

definition VerifyContent :: "(bytes \<Rightarrow> bytes) \<Rightarrow> ('c, 'e) Content \<Rightarrow> nat \<Rightarrow> 'c \<Rightarrow> 'c MerkleTree \<Rightarrow> ('e merkleError + bool) outcome" where
  "VerifyContent H K fuel content m = searchLeafs H K fuel (mt_nodes m) content (mt_Leafs m)"

section \<open>The specification: the root of a list of hashes\<close>

fun levelUp :: "(bytes \<Rightarrow> bytes) \<Rightarrow> bytes list \<Rightarrow> bytes list" where
  "levelUp H [] = []"
| "levelUp H [h] = [H (h @ h)]"
| "levelUp H (h # k # hs) = H (h @ k) # levelUp H hs"

lemma length_levelUp [simp]: "length (levelUp H hs) = (length hs + 1) div 2"
  by (induction hs rule: levelUp.induct) auto

function root_of :: "(bytes \<Rightarrow> bytes) \<Rightarrow> bytes list \<Rightarrow> bytes" where
  "root_of H hs = (if length hs \<le> 2 then H (concat hs) else root_of H (levelUp H hs))"
  by auto
termination by (relation "measure (length \<circ> snd)") auto

declare root_of.simps [simp del]

definition pad :: "'a list \<Rightarrow> 'a list" where
  "pad xs = (if odd (length xs) then xs @ [last xs] else xs)"

definition hashable :: "('c, 'e) Content \<Rightarrow> 'c list \<Rightarrow> bool" where
  "hashable K cs \<longleftrightarrow> list_all (\<lambda>c. \<not> isl (ct_CalculateHash K c)) cs"

definition hash_of :: "('c, 'e) Content \<Rightarrow> 'c \<Rightarrow> bytes" where
  "hash_of K c = projr (ct_CalculateHash K c)"

section \<open>Stores\<close>

text \<open>
  In a good store the hash of every node is that of its content or of its children, children lie before
  their parent, and a parent pointer names a later inner node.
\<close>

definition node_ok :: "(bytes \<Rightarrow> bytes) \<Rightarrow> ('c, 'e) Content \<Rightarrow> 'c nodes \<Rightarrow> nat \<Rightarrow> bool" where
  "node_ok H K st i \<longleftrightarrow>
     (if nd_leaf (st ! i) then \<exists>c. nd_C (st ! i) = Some c \<and> ct_CalculateHash K c = Inr (nd_Hash (st ! i))
      else \<exists>l r. nd_Left (st ! i) = Some l \<and> nd_Right (st ! i) = Some r \<and> l < i \<and> r < i \<and>
        nd_Hash (st ! i) = H (nd_Hash (st ! l) @ nd_Hash (st ! r))) \<and>
     (\<forall>p. nd_Parent (st ! i) = Some p \<longrightarrow> i < p \<and> p < length st \<and> \<not> nd_leaf (st ! p))"

definition store_ok :: "(bytes \<Rightarrow> bytes) \<Rightarrow> ('c, 'e) Content \<Rightarrow> 'c nodes \<Rightarrow> bool" where
  "store_ok H K st \<longleftrightarrow> (\<forall>i<length st. node_ok H K st i)"

text \<open>A later store keeps everything of an earlier one but the parent pointers.\<close>

definition keeps :: "'c nodes \<Rightarrow> 'c nodes \<Rightarrow> bool" where
  "keeps st st' \<longleftrightarrow> length st \<le> length st' \<and>
     (\<forall>i<length st. (st' ! i)\<lparr>nd_Parent := None\<rparr> = (st ! i)\<lparr>nd_Parent := None\<rparr>)"

lemma keeps_refl [simp]: "keeps st st" by (simp add: keeps_def)

lemma keeps_trans: "keeps st1 st2 \<Longrightarrow> keeps st2 st3 \<Longrightarrow> keeps st1 st3"
  by (auto simp: keeps_def)

lemma Node_eq: "(n :: 'c Node) = m \<longleftrightarrow> nd_Parent n = nd_Parent m \<and> nd_Left n = nd_Left m \<and> nd_Right n = nd_Right m \<and>
    nd_leaf n = nd_leaf m \<and> nd_dup n = nd_dup m \<and> nd_Hash n = nd_Hash m \<and> nd_C n = nd_C m"
  by auto

lemma keepsD:
  assumes "keeps st st'" "i < length st"
  shows "nd_Hash (st' ! i) = nd_Hash (st ! i)" "nd_C (st' ! i) = nd_C (st ! i)" "nd_leaf (st' ! i) = nd_leaf (st ! i)"
    "nd_Left (st' ! i) = nd_Left (st ! i)" "nd_Right (st' ! i) = nd_Right (st ! i)" "i < length st'"
proof -
  have *: "(st' ! i)\<lparr>nd_Parent := None\<rparr> = (st ! i)\<lparr>nd_Parent := None\<rparr>" using assms by (simp add: keeps_def)
  show "nd_Hash (st' ! i) = nd_Hash (st ! i)" using arg_cong[OF *, of nd_Hash] by simp
  show "nd_C (st' ! i) = nd_C (st ! i)" using arg_cong[OF *, of nd_C] by simp
  show "nd_leaf (st' ! i) = nd_leaf (st ! i)" using arg_cong[OF *, of nd_leaf] by simp
  show "nd_Left (st' ! i) = nd_Left (st ! i)" using arg_cong[OF *, of nd_Left] by simp
  show "nd_Right (st' ! i) = nd_Right (st ! i)" using arg_cong[OF *, of nd_Right] by simp
  show "i < length st'" using assms by (simp add: keeps_def)
qed

lemma joinNodes_props:
  assumes "l < length st" "r < length st" "joinNodes H l r st = (n, st')"
  shows "n = length st" "length st' = Suc n" "keeps st st'"
    "\<And>i. i < length st \<Longrightarrow> nd_Parent (st' ! i) = (if i = l \<or> i = r then Some n else nd_Parent (st ! i))"
    "st' ! n = \<lparr>nd_Parent = None, nd_Left = Some l, nd_Right = Some r, nd_leaf = False, nd_dup = False,
       nd_Hash = H (nd_Hash (st ! l) @ nd_Hash (st ! r)), nd_C = None\<rparr>"
  using assms by (auto simp: joinNodes_def Let_def keeps_def nth_list_update nth_append)

lemma joinNodes_ok:
  assumes "store_ok H K st" "l < length st" "r < length st" "joinNodes H l r st = (n, st')"
  shows "store_ok H K st'" "nd_Hash (st' ! n) = H (nd_Hash (st ! l) @ nd_Hash (st ! r))"
proof -
  note j = joinNodes_props[OF assms(2-4)]
  note k = keepsD[OF j(3)]
  show "nd_Hash (st' ! n) = H (nd_Hash (st ! l) @ nd_Hash (st ! r))" by (simp add: j(5))
  have "node_ok H K st' i" if "i < length st'" for i
  proof (cases "i = n")
    case True then show ?thesis unfolding node_ok_def True j(5) using j(1) assms(2,3) by (simp add: k)
  next
    case False
    with that j have i: "i < length st" by simp
    then have "node_ok H K st i" using assms(1) by (simp add: store_ok_def)
    then show ?thesis using i j(1,2,5) by (auto simp: node_ok_def k j(4) split: if_splits)
  qed
  then show "store_ok H K st'" by (simp add: store_ok_def)
qed

abbreviation hashes :: "'c nodes \<Rightarrow> nat list \<Rightarrow> bytes list" where
  "hashes st nl \<equiv> map (\<lambda>n. nd_Hash (st ! n)) nl"

lemma hashes_keep: "keeps st st' \<Longrightarrow> set nl \<subseteq> {..<length st} \<Longrightarrow> hashes st' nl = hashes st nl"
  by (auto simp: keepsD)

lemma joinLevel_ok:
  assumes "store_ok H K st" "set nl \<subseteq> {..<length st}" "joinLevel H nl st = (nodes, st')"
  shows "store_ok H K st' \<and> keeps st st' \<and> set nodes \<subseteq> {..<length st'} \<and> hashes st' nodes = levelUp H (hashes st nl)"
  using assms
proof (induction H nl st arbitrary: nodes st' rule: joinLevel.induct)
  case (2 H l st)
  obtain n st1 where j: "joinNodes H l l st = (n, st1)" by fastforce
  have l: "l < length st" using 2(2) by simp
  have "nodes = [n]" "st' = st1" using 2(3) by (simp_all add: j)
  then show ?case using joinNodes_ok[OF 2(1) l l j] joinNodes_props(1-3)[OF l l j] by simp
next
  case (3 H l r nl st)
  obtain n st1 where j: "joinNodes H l r st = (n, st1)" by fastforce
  obtain ns st2 where rest: "joinLevel H nl st1 = (ns, st2)" by fastforce
  have lr: "l < length st" "r < length st" using 3(3) by auto
  note ok = joinNodes_ok[OF 3(2) lr j] and pr = joinNodes_props[OF lr j]
  have sub: "set nl \<subseteq> {..<length st1}" using 3(3) pr(1,2) by auto
  have IH: "store_ok H K st2 \<and> keeps st1 st2 \<and> set ns \<subseteq> {..<length st2} \<and> hashes st2 ns = levelUp H (hashes st1 nl)"
    by (rule 3(1)[OF j[symmetric] refl ok(1) sub rest])
  have "hashes st1 nl = hashes st nl" using hashes_keep[OF pr(3)] 3(3) by auto
  moreover have "nd_Hash (st2 ! n) = nd_Hash (st1 ! n)" "n < length st2" using IH keepsD[of st1 st2 n] pr(1,2) by auto
  ultimately show ?case using 3(4) IH ok(2) keeps_trans[OF pr(3)] by (auto simp: j rest simp del: map_eq_conv)
qed simp

lemma buildIntermediate_ok:
  assumes "store_ok H K st" "set nl \<subseteq> {..<length st}" "2 \<le> length nl" "length nl \<le> fuel"
  shows "\<exists>root st'. buildIntermediate H fuel nl st = Returned (root, st') \<and> store_ok H K st' \<and> keeps st st' \<and>
    root < length st' \<and> nd_Hash (st' ! root) = root_of H (hashes st nl)"
  using assms
proof (induction fuel arbitrary: nl st)
  case (Suc fuel)
  show ?case
  proof (cases "length nl = 2")
    case True
    then obtain l r where nl: "nl = [l, r]" by (auto simp: numeral_2_eq_2 length_Suc_conv)
    obtain n st' where j: "joinNodes H l r st = (n, st')" by fastforce
    then show ?thesis using joinNodes_ok[OF Suc.prems(1) _ _ j] joinNodes_props[OF _ _ j] Suc.prems(2)
      by (auto simp: nl root_of.simps)
  next
    case False
    obtain ns st1 where j: "joinLevel H nl st = (ns, st1)" by fastforce
    note ok = joinLevel_ok[OF Suc.prems(1,2) j]
    have len: "length ns = (length nl + 1) div 2"
      using arg_cong[OF conjunct2[OF conjunct2[OF conjunct2[OF ok]]], of length] by simp
    have "2 \<le> length ns" "length ns \<le> fuel" using len False Suc.prems(3,4) by presburger+
    then obtain root st' where r: "buildIntermediate H fuel ns st1 = Returned (root, st')" "store_ok H K st'" "keeps st1 st'"
      "root < length st'" "nd_Hash (st' ! root) = root_of H (hashes st1 ns)"
      using Suc.IH[of st1 ns] ok by auto
    have "buildIntermediate H (Suc fuel) nl st = buildIntermediate H fuel ns st1"
      using False j by (auto split: list.splits simp del: joinLevel.simps)
    moreover have "root_of H (hashes st nl) = root_of H (hashes st1 ns)"
      using ok False Suc.prems(3) by (subst root_of.simps) simp
    ultimately show ?thesis using r ok keeps_trans[of st st1 st'] by auto
  qed
qed simp

section \<open>Trees\<close>

definition leaf_of :: "('c, 'e) Content \<Rightarrow> bool \<Rightarrow> 'c \<Rightarrow> 'c Node" where
  "leaf_of K d c = \<lparr>nd_Parent = None, nd_Left = None, nd_Right = None, nd_leaf = True, nd_dup = d,
     nd_Hash = hash_of K c, nd_C = Some c\<rparr>"

lemma makeLeafs_eq: "hashable K cs \<Longrightarrow> makeLeafs K cs leafs = Inr (leafs @ map (leaf_of K False) cs)"
  by (induction cs arbitrary: leafs) (auto simp: hashable_def leaf_of_def hash_of_def isl_def split: sum.splits)

lemma padLeafs_eq:
  assumes "cs \<noteq> []"
  shows "padLeafs (map (leaf_of K False) cs) =
    map (leaf_of K False) cs @ (if odd (length cs) then [leaf_of K True (last cs)] else [])"
  using assms by (auto simp: padLeafs_def leaf_of_def last_map odd_iff_mod_2_eq_one)

lemma padLeafs_facts:
  assumes "cs \<noteq> []" "st = padLeafs (map (leaf_of K False) cs)"
  shows "map nd_Hash st = pad (map (hash_of K) cs)" "map nd_C st = map Some (pad cs)" "length st = length (pad cs)"
    "\<And>n. n \<in> set st \<Longrightarrow> \<exists>d c. c \<in> set cs \<and> n = leaf_of K d c"
  using assms by (auto simp: padLeafs_eq leaf_of_def pad_def last_map)

lemma length_pad: "xs \<noteq> [] \<Longrightarrow> 2 \<le> length (pad xs) \<and> length (pad xs) \<le> Suc (length xs)"
  by (cases xs rule: list.exhaust; cases "tl xs") (auto simp: pad_def)

lemma leafs_ok:
  assumes "hashable K cs" "cs \<noteq> []"
  shows "store_ok H K (padLeafs (map (leaf_of K False) cs))"
proof -
  define st where "st = padLeafs (map (leaf_of K False) cs)"
  have "node_ok H K st i" if i: "i < length st" for i
  proof -
    obtain d c where c: "c \<in> set cs" "st ! i = leaf_of K d c"
      using padLeafs_facts(4)[OF assms(2) st_def nth_mem[OF i]] by blast
    have "ct_CalculateHash K c = Inr (hash_of K c)"
      using assms(1) c(1) by (auto simp: hashable_def list_all_iff hash_of_def)
    then show ?thesis by (simp add: node_ok_def c(2) leaf_of_def)
  qed
  then show ?thesis by (simp add: store_ok_def st_def)
qed

text \<open>What is known of a tree that was built from a list of contents.\<close>

definition tree_of :: "(bytes \<Rightarrow> bytes) \<Rightarrow> ('c, 'e) Content \<Rightarrow> 'c list \<Rightarrow> 'c MerkleTree \<Rightarrow> bool" where
  "tree_of H K cs m \<longleftrightarrow> store_ok H K (mt_nodes m) \<and> mt_Root m < length (mt_nodes m) \<and>
     nd_Hash (mt_nodes m ! mt_Root m) = mt_merkleRoot m \<and> mt_merkleRoot m = root_of H (pad (map (hash_of K) cs)) \<and>
     set (mt_Leafs m) \<subseteq> {..<length (mt_nodes m)} \<and> map (\<lambda>l. nd_C (mt_nodes m ! l)) (mt_Leafs m) = map Some (pad cs)"

lemma NewTree_tree:
  assumes "hashable K cs" "cs \<noteq> []" "length cs < fuel"
  shows "\<exists>m. NewTree H K fuel cs = Returned (Inr m) \<and> tree_of H K cs m"
proof -
  define st where "st = padLeafs (map (leaf_of K False) cs)"
  note f = padLeafs_facts[OF assms(2) st_def]
  have len: "2 \<le> length st" "length st \<le> fuel" using length_pad[OF assms(2)] assms(3) by (simp_all add: f(3))
  obtain root st' where b: "buildIntermediate H fuel [0..<length st] st = Returned (root, st')" "store_ok H K st'"
    "keeps st st'" "root < length st'" "nd_Hash (st' ! root) = root_of H (hashes st [0..<length st])"
    using buildIntermediate_ok[OF leafs_ok[OF assms(1,2), of H, folded st_def], of "[0..<length st]" fuel] len
    by (auto simp: lessThan_atLeast0)
  have "hashes st [0..<length st] = map nd_Hash st" "map (\<lambda>l. nd_C (st ! l)) [0..<length st] = map nd_C st"
    by (auto intro: nth_equalityI)
  moreover have "map (\<lambda>l. nd_C (st' ! l)) [0..<length st] = map (\<lambda>l. nd_C (st ! l)) [0..<length st]"
    using keepsD(2)[OF b(3)] by simp
  moreover have "length st \<le> length st'" using b(3) by (simp add: keeps_def)
  ultimately show ?thesis using b f(1,2) assms(2)
    by (auto simp: NewTree_def buildWithContent_def makeLeafs_eq[OF assms(1)] st_def[symmetric] tree_of_def)
qed

lemma verifyNode_hash:
  assumes "store_ok H K st"
  shows "i < length st \<Longrightarrow> i < fuel \<Longrightarrow> verifyNode H K st fuel i = Returned (Inr (nd_Hash (st ! i)))"
proof (induction fuel arbitrary: i)
  case (Suc fuel)
  have "node_ok H K st i" using assms Suc.prems(1) by (simp add: store_ok_def)
  then show ?case using Suc.IH Suc.prems by (auto simp: node_ok_def split: if_splits)
qed simp

lemma calculateNodeHash_hash:
  assumes "store_ok H K st" "i < length st"
  shows "calculateNodeHash H K st i = Returned (Inr (nd_Hash (st ! i)))"
proof -
  have "node_ok H K st i" using assms by (simp add: store_ok_def)
  then show ?thesis by (auto simp: node_ok_def calculateNodeHash_def split: if_splits)
qed

lemma climb_true:
  assumes "store_ok H K st"
  shows "(\<And>p. cur = Some p \<Longrightarrow> p < length st \<and> \<not> nd_leaf (st ! p) \<and> length st < p + fuel) \<Longrightarrow> 0 < fuel \<Longrightarrow>
    climb H K st fuel cur = Returned (Inr True)"
proof (induction fuel arbitrary: cur)
  case (Suc fuel)
  show ?case
  proof (cases cur)
    case (Some p)
    have p: "p < length st" "\<not> nd_leaf (st ! p)" "length st < p + Suc fuel" using Suc.prems(1)[OF Some] by auto
    have ok: "node_ok H K st p" using assms p(1) by (simp add: store_ok_def)
    then obtain l r where lr: "nd_Left (st ! p) = Some l" "nd_Right (st ! p) = Some r" "l < p" "r < p"
      "nd_Hash (st ! p) = H (nd_Hash (st ! l) @ nd_Hash (st ! r))" using p(2) by (auto simp: node_ok_def)
    have "climb H K st fuel (nd_Parent (st ! p)) = Returned (Inr True)"
      by (rule Suc.IH) (use ok p in \<open>auto simp: node_ok_def\<close>)
    then show ?thesis using lr p(1) by (simp add: Some calculateNodeHash_hash[OF assms])
  qed simp
qed simp

lemma searchLeafs_spec:
  assumes "store_ok H K st" "length st < fuel"
  shows "set ls \<subseteq> {..<length st} \<Longrightarrow> map (\<lambda>l. nd_C (st ! l)) ls = map Some cs \<Longrightarrow>
    list_all (\<lambda>x. \<not> isl (ct_Equals K x c)) cs \<Longrightarrow>
    searchLeafs H K fuel st c ls = Returned (Inr (list_ex (\<lambda>x. ct_Equals K x c = Inr True) cs))"
proof (induction ls arbitrary: cs)
  case (Cons l ls)
  then obtain x xs where cs: "cs = x # xs" "nd_C (st ! l) = Some x" "map (\<lambda>l. nd_C (st ! l)) ls = map Some xs"
    by (cases cs) auto
  have "node_ok H K st l" using assms(1) Cons.prems(1) by (simp add: store_ok_def)
  then have "climb H K st fuel (nd_Parent (st ! l)) = Returned (Inr True)"
    by (intro climb_true[OF assms(1)]) (use assms(2) in \<open>auto simp: node_ok_def\<close>)
  then show ?case using Cons.IH[of xs] Cons.prems cs by (auto split: sum.splits)
qed simp

section \<open>What the root commits to\<close>

text \<open>Everything that is hashed on the way to the root.\<close>

fun levelIns :: "bytes list \<Rightarrow> bytes set" where
  "levelIns [] = {}"
| "levelIns [h] = {h @ h}"
| "levelIns (h # k # hs) = insert (h @ k) (levelIns hs)"

function joins :: "(bytes \<Rightarrow> bytes) \<Rightarrow> bytes list \<Rightarrow> bytes set" where
  "joins H hs = (if length hs \<le> 2 then {concat hs} else levelIns hs \<union> joins H (levelUp H hs))"
  by auto
termination by (relation "measure (length \<circ> snd)") auto

declare joins.simps [simp del]

definition sized :: "nat \<Rightarrow> bytes list \<Rightarrow> bool" where
  "sized n hs \<longleftrightarrow> list_all (\<lambda>h. length h = n) hs"

lemma levelUp_sized: "(\<And>x. length (H x) = n) \<Longrightarrow> sized n (levelUp H hs)"
  by (induction hs rule: induct_list012) (auto simp: sized_def)

lemma levelUp_inj:
  assumes "sized n hs" "sized n hs'" "length hs = length hs'" "inj_on H (levelIns hs \<union> levelIns hs')"
    "levelUp H hs = levelUp H hs'"
  shows "hs = hs'"
  using assms
proof (induction hs arbitrary: hs' rule: induct_list012)
  case (2 h)
  then obtain h' where h': "hs' = [h']" by (cases hs') auto
  have "h @ h = h' @ h'" by (rule inj_onD[OF 2(4)]) (use 2(5) in \<open>simp_all add: h'\<close>)
  then show ?case using 2(1,2) by (simp add: h' sized_def)
next
  case (3 h k hs)
  then obtain h' k' ks where hs': "hs' = h' # k' # ks" by (cases hs'; cases "tl hs'") auto
  have "h @ k = h' @ k'" by (rule inj_onD[OF 3(6)]) (use 3(7) in \<open>simp_all add: hs'\<close>)
  moreover have "hs = ks"
    by (rule 3(1)) (use 3(3-7) in \<open>auto simp: hs' sized_def intro: inj_on_subset\<close>)
  ultimately show ?case using 3(3,4) by (simp add: hs' sized_def)
qed simp

lemma root_inj:
  assumes "\<And>x. length (H x) = n"
  shows "sized n hs \<Longrightarrow> sized n hs' \<Longrightarrow> length hs = length hs' \<Longrightarrow> inj_on H (joins H hs \<union> joins H hs') \<Longrightarrow>
    root_of H hs = root_of H hs' \<Longrightarrow> hs = hs'"
proof (induction hs arbitrary: hs' rule: length_induct)
  case (1 hs)
  have j: "joins H hs = (if length hs \<le> 2 then {concat hs} else levelIns hs \<union> joins H (levelUp H hs))"
    "joins H hs' = (if length hs' \<le> 2 then {concat hs'} else levelIns hs' \<union> joins H (levelUp H hs'))"
    "root_of H hs = (if length hs \<le> 2 then H (concat hs) else root_of H (levelUp H hs))"
    "root_of H hs' = (if length hs' \<le> 2 then H (concat hs') else root_of H (levelUp H hs'))"
    by (subst joins.simps root_of.simps, rule refl)+
  show ?case
  proof (cases "length hs \<le> 2")
    case True
    have "concat hs = concat hs'" by (rule inj_onD[OF 1(5)]) (use 1(4,6) True in \<open>simp_all add: j\<close>)
    then show ?thesis using 1(2-4) unfolding sized_def list_all_iff by (intro concat_injective) (auto simp: set_zip)
  next
    case False
    have "levelUp H hs = levelUp H hs'"
      by (rule 1(1)[rule_format]) (use 1(4-6) False levelUp_sized[of H n] assms in \<open>auto simp: j intro: inj_on_subset\<close>)
    moreover have "inj_on H (levelIns hs \<union> levelIns hs')" using 1(4,5) False by (auto simp: j intro: inj_on_subset)
    ultimately show ?thesis using 1(2-4) levelUp_inj by blast
  qed
qed

section \<open>A sample interface\<close>

text \<open>Contents that are their own hash, and a hash of one byte.\<close>

definition plain :: "(bytes, unit) Content" where
  "plain = \<lparr>ct_CalculateHash = Inr, ct_Equals = (\<lambda>x y. Inr (x = y))\<rparr>"

definition sum_hash :: "bytes \<Rightarrow> bytes" where
  "sum_hash bs = [sum_list bs]"

lemma plain_simps [simp]: "hashable plain cs" "hash_of plain c = c" "hash_of plain = id" "ct_Equals plain x y = Inr (x = y)"
  by (auto simp: plain_def hashable_def hash_of_def list_all_iff)

lemma pad_set [simp]: "set (pad xs) = set xs"
  by (cases "xs = []") (auto simp: pad_def)

lemma pad_snoc_last: "odd (length xs) \<Longrightarrow> pad (xs @ [last xs]) = pad xs"
  by (simp add: pad_def)

lemma pad_inj: "length xs = length ys \<Longrightarrow> pad xs = pad ys \<longleftrightarrow> xs = ys"
  by (auto simp: pad_def)

lemma sized_pad [simp]: "sized n (pad hs) = sized n hs"
  by (simp add: sized_def list_all_iff)

lemma NewTree_det:
  assumes "hashable K cs" "cs \<noteq> []" "length cs < fuel" "NewTree H K fuel cs = Returned (Inr m)"
  shows "tree_of H K cs m"
  using NewTree_tree[OF assms(1-3), of H] assms(4) by auto

section \<open>Properties\<close>

text \<open>C21. For every non-empty list of contents that can be hashed, \<^verbatim>\<open>NewTree\<close> ends and returns a tree whose root is
  the one the specification computes from the list of hashes, and \<^verbatim>\<open>VerifyTree\<close> confirms it.\<close>

theorem merkle_tree_correct:
  assumes "hashable K cs" "cs \<noteq> []" "length cs < fuel"
  shows "\<exists>m. NewTree H K fuel cs = Returned (Inr m) \<and> MerkleRoot m = root_of H (pad (map (hash_of K) cs)) \<and>
    VerifyTree H K (Suc (length (mt_nodes m))) m = Returned (Inr True)"
proof -
  obtain m where m: "NewTree H K fuel cs = Returned (Inr m)" "tree_of H K cs m"
    using NewTree_tree[OF assms] by blast
  have "verifyNode H K (mt_nodes m) (Suc (length (mt_nodes m))) (mt_Root m) = Returned (Inr (mt_merkleRoot m))"
    using m(2) by (subst verifyNode_hash) (auto simp: tree_of_def)
  then show ?thesis using m
    by (intro exI[of _ m]) (simp add: VerifyTree_def MerkleRoot_def tree_of_def del: verifyNode.simps)
qed

theorem merkle_tree_correct_witness:
  "\<exists>m. NewTree sum_hash plain 4 [[1], [2], [3]] = Returned (Inr m) \<and> MerkleRoot m = [9] \<and>
    VerifyTree sum_hash plain (Suc (length (mt_nodes m))) m = Returned (Inr True)"
  using merkle_tree_correct[of plain "[[1], [2], [3]]" 4 sum_hash] by (simp add: pad_def root_of.simps sum_hash_def)

lemma VerifyContent_member:
  assumes "hashable K cs" "cs \<noteq> []" "length cs < fuel" "NewTree H K fuel cs = Returned (Inr m)"
    and "list_all (\<lambda>x. \<not> isl (ct_Equals K x c)) cs" "length (mt_nodes m) < fuel'"
  shows "VerifyContent H K fuel' c m = Returned (Inr (list_ex (\<lambda>x. ct_Equals K x c = Inr True) cs))"
proof -
  have t: "tree_of H K cs m" by (rule NewTree_det[OF assms(1-4)])
  have eq: "list_all (\<lambda>x. \<not> isl (ct_Equals K x c)) (pad cs)" using assms(5) by (simp add: list_all_iff)
  have "VerifyContent H K fuel' c m = Returned (Inr (list_ex (\<lambda>x. ct_Equals K x c = Inr True) (pad cs)))"
    unfolding VerifyContent_def by (rule searchLeafs_spec[OF _ assms(6) _ _ eq]) (use t in \<open>simp_all add: tree_of_def\<close>)
  then show ?thesis by (simp add: list_ex_iff)
qed

text \<open>\<^verbatim>\<open>VerifyContent\<close> accepts exactly the contents that are equal to one the tree was built from.\<close>

theorem merkle_membership:
  assumes "hashable K cs" "cs \<noteq> []" "length cs < fuel" "NewTree H K fuel cs = Returned (Inr m)"
    and "list_all (\<lambda>x. \<not> isl (ct_Equals K x c)) cs" "length (mt_nodes m) < fuel'"
  shows "VerifyContent H K fuel' c m = Returned (Inr (list_ex (\<lambda>x. ct_Equals K x c = Inr True) cs))"
  by (rule VerifyContent_member[OF assms])

theorem merkle_membership_witness:
  "\<exists>m. NewTree sum_hash plain 4 [[1], [2], [3]] = Returned (Inr m) \<and>
    VerifyContent sum_hash plain (Suc (length (mt_nodes m))) [2] m = Returned (Inr True) \<and>
    VerifyContent sum_hash plain (Suc (length (mt_nodes m))) [4] m = Returned (Inr False)"
proof -
  obtain m where m: "NewTree sum_hash plain 4 [[1], [2], [3]] = Returned (Inr m)"
    using NewTree_tree[of plain "[[1], [2], [3]]" 4 sum_hash] by auto
  show ?thesis using m merkle_membership[OF _ _ _ m] by simp
qed

text \<open>C22. The root commits to the contents: if the hash function has no collision among the inputs the two trees
  feed to it, then two trees over equally many contents have the same root only if all contents have the same hashes.\<close>

theorem merkle_root_binds:
  assumes "hashable K cs" "hashable K cs'" "cs \<noteq> []" "length cs = length cs'" "length cs < fuel"
    and "NewTree H K fuel cs = Returned (Inr m)" "NewTree H K fuel cs' = Returned (Inr m')"
    and "\<And>x. length (H x) = n" "sized n (map (hash_of K) cs)" "sized n (map (hash_of K) cs')"
    and "inj_on H (joins H (pad (map (hash_of K) cs)) \<union> joins H (pad (map (hash_of K) cs')))"
  shows "MerkleRoot m = MerkleRoot m' \<longleftrightarrow> map (hash_of K) cs = map (hash_of K) cs'"
proof -
  have "tree_of H K cs m" "tree_of H K cs' m'" using NewTree_det assms(1-7) by (metis length_0_conv)+
  then have r: "MerkleRoot m = root_of H (pad (map (hash_of K) cs))" "MerkleRoot m' = root_of H (pad (map (hash_of K) cs'))"
    by (simp_all add: tree_of_def MerkleRoot_def)
  have "length (pad (map (hash_of K) cs)) = length (pad (map (hash_of K) cs'))" using assms(4) by (simp add: pad_def)
  then show ?thesis using root_inj[of H n, OF assms(8) _ _ _ assms(11)] assms(4,9,10)
    by (auto simp: r pad_inj simp del: map_eq_conv)
qed

theorem merkle_root_binds_witness:
  "\<exists>m m'. NewTree sum_hash plain 4 [[1], [2]] = Returned (Inr m) \<and> NewTree sum_hash plain 4 [[1], [3]] = Returned (Inr m') \<and>
    MerkleRoot m \<noteq> MerkleRoot m'"
proof -
  obtain m m' where m: "NewTree sum_hash plain 4 [[1], [2]] = Returned (Inr m)" "NewTree sum_hash plain 4 [[1], [3]] = Returned (Inr m')"
    using NewTree_tree[of plain "[[1], [2]]" 4 sum_hash] NewTree_tree[of plain "[[1], [3]]" 4 sum_hash] by auto
  have "MerkleRoot m \<noteq> MerkleRoot m'"
    using merkle_root_binds[OF _ _ _ _ _ m, of 1] by (simp add: sum_hash_def pad_def joins.simps sized_def)
  then show ?thesis using m by blast
qed

text \<open>The root does not tell a list of odd length from the same list with its last content repeated: both trees
  have the same root, although the second holds one content more.\<close>

theorem merkle_root_ambiguous:
  assumes "hashable K cs" "odd (length cs)" "Suc (length cs) < fuel"
  shows "\<exists>m m'. NewTree H K fuel cs = Returned (Inr m) \<and> NewTree H K fuel (cs @ [last cs]) = Returned (Inr m') \<and>
    MerkleRoot m = MerkleRoot m'"
proof -
  have ne: "cs \<noteq> []" using assms(2) by auto
  have "hashable K (cs @ [last cs])" using assms(1) ne by (auto simp: hashable_def list_all_iff)
  then obtain m m' where "NewTree H K fuel cs = Returned (Inr m)" "tree_of H K cs m"
    "NewTree H K fuel (cs @ [last cs]) = Returned (Inr m')" "tree_of H K (cs @ [last cs]) m'"
    using NewTree_tree[of K cs fuel H] NewTree_tree[of K "cs @ [last cs]" fuel H] assms ne by auto
  moreover have "pad (map (hash_of K) (cs @ [last cs])) = pad (map (hash_of K) cs)"
    using pad_snoc_last[of "map (hash_of K) cs"] assms(2) ne by (simp add: last_map)
  ultimately show ?thesis by (intro exI[of _ m] exI[of _ m']) (simp add: tree_of_def MerkleRoot_def)
qed

theorem merkle_root_ambiguous_witness:
  "\<exists>m m'. NewTree sum_hash plain 9 [[1], [2], [3]] = Returned (Inr m) \<and>
    NewTree sum_hash plain 9 [[1], [2], [3], [3]] = Returned (Inr m') \<and> MerkleRoot m = MerkleRoot m'"
  using merkle_root_ambiguous[of plain "[[1], [2], [3]]" 9 sum_hash] by simp

end
