(* ===== verification/Bitutil.thy ===== *)
theory Bitutil
  imports Prelude
begin

text \<open>
  \<^verbatim>\<open>common/bitutil\<close>: bitwise operations on byte slices, one word at a time or one byte at a time
  (\<^verbatim>\<open>bitutil.go\<close>), and the compression of sparse byte slices (\<^verbatim>\<open>compress.go\<close>).

  The fast routines look at the memory of a slice as 64-bit little-endian words.  Go checks an index into
  such a view against the number of bytes of the slice, so a destination that is too short is not caught
  in time: the write goes past its end, here \<open>Overrun\<close>.  The slices do not overlap in the model.
\<close>

unbundle bit_operations_syntax

section \<open>Words in memory\<close>

definition wordSize :: nat where
  "wordSize = 8"

fun load_le :: "bytes \<Rightarrow> 64 word" where
  "load_le [] = 0"
| "load_le (b # bs) = ucast b OR push_bit 8 (load_le bs)"

definition store_le :: "64 word \<Rightarrow> bytes" where
  "store_le w = map (\<lambda>i. ucast (drop_bit (8 * i) w)) [0..<wordSize]"

definition read_word :: "bytes \<Rightarrow> nat \<Rightarrow> 64 word" where
  "read_word m i = load_le (take wordSize (drop (wordSize * i) m))"

definition write_word :: "bytes \<Rightarrow> nat \<Rightarrow> 64 word \<Rightarrow> bytes" where
  "write_word m i w = take (wordSize * i) m @ store_le w @ drop (wordSize * i + wordSize) m"

section \<open>common/bitutil/bitutil.go\<close>

datatype 'a mem_result = Done 'a | IndexPanic | Overrun

text \<open>The destination after the loop over the words, and after the loop over the bytes.\<close>

fun wordLoop :: "(64 word \<Rightarrow> 64 word \<Rightarrow> 64 word) \<Rightarrow> bytes \<Rightarrow> bytes \<Rightarrow> nat list \<Rightarrow> bytes \<Rightarrow> bytes mem_result" where
  "wordLoop f a b [] dst = Done dst"
| "wordLoop f a b (i # is) dst =
     (if \<not> i < length dst then IndexPanic
      else if length dst < wordSize * i + wordSize then Overrun
      else wordLoop f a b is (write_word dst i (f (read_word a i) (read_word b i))))"

fun byteLoop :: "(byte \<Rightarrow> byte \<Rightarrow> byte) \<Rightarrow> bytes \<Rightarrow> bytes \<Rightarrow> nat list \<Rightarrow> bytes \<Rightarrow> bytes mem_result" where
  "byteLoop f a b [] dst = Done dst"
| "byteLoop f a b (i # is) dst =
     (if \<not> i < length dst then IndexPanic else byteLoop f a b is (dst[i := f (a ! i) (b ! i)]))"

definition fastBytes :: "(64 word \<Rightarrow> 64 word \<Rightarrow> 64 word) \<Rightarrow> (byte \<Rightarrow> byte \<Rightarrow> byte) \<Rightarrow> bytes \<Rightarrow> bytes \<Rightarrow> bytes \<Rightarrow>
    (bytes \<times> nat) mem_result" where
  "fastBytes f g dst a b =
     (let n = min (length a) (length b); w = n div wordSize in
      case wordLoop f a b [0..<w] dst of
        Done dst \<Rightarrow>
          (case byteLoop g a b [n - n mod wordSize..<n] dst of
             Done dst \<Rightarrow> Done (dst, n) | IndexPanic \<Rightarrow> IndexPanic | Overrun \<Rightarrow> Overrun)
      | IndexPanic \<Rightarrow> IndexPanic
      | Overrun \<Rightarrow> Overrun)"

definition safeBytes :: "(byte \<Rightarrow> byte \<Rightarrow> byte) \<Rightarrow> bytes \<Rightarrow> bytes \<Rightarrow> bytes \<Rightarrow> (bytes \<times> nat) mem_result" where
  "safeBytes g dst a b =
     (let n = min (length a) (length b) in
      case byteLoop g a b [0..<n] dst of
        Done dst \<Rightarrow> Done (dst, n) | IndexPanic \<Rightarrow> IndexPanic | Overrun \<Rightarrow> Overrun)"

definition fastXORBytes :: "bytes \<Rightarrow> bytes \<Rightarrow> bytes \<Rightarrow> (bytes \<times> nat) mem_result" where
  "fastXORBytes dst a b = fastBytes (XOR) (XOR) dst a b"

definition safeXORBytes :: "bytes \<Rightarrow> bytes \<Rightarrow> bytes \<Rightarrow> (bytes \<times> nat) mem_result" where
  "safeXORBytes dst a b = safeBytes (XOR) dst a b"

definition XORBytes :: "bool \<Rightarrow> bytes \<Rightarrow> bytes \<Rightarrow> bytes \<Rightarrow> (bytes \<times> nat) mem_result" where
  "XORBytes supportsUnaligned dst a b = (if supportsUnaligned then fastXORBytes dst a b else safeXORBytes dst a b)"

definition fastANDBytes :: "bytes \<Rightarrow> bytes \<Rightarrow> bytes \<Rightarrow> (bytes \<times> nat) mem_result" where
  "fastANDBytes dst a b = fastBytes (AND) (AND) dst a b"

definition safeANDBytes :: "bytes \<Rightarrow> bytes \<Rightarrow> bytes \<Rightarrow> (bytes \<times> nat) mem_result" where
  "safeANDBytes dst a b = safeBytes (AND) dst a b"

definition ANDBytes :: "bool \<Rightarrow> bytes \<Rightarrow> bytes \<Rightarrow> bytes \<Rightarrow> (bytes \<times> nat) mem_result" where
  "ANDBytes supportsUnaligned dst a b = (if supportsUnaligned then fastANDBytes dst a b else safeANDBytes dst a b)"

definition fastORBytes :: "bytes \<Rightarrow> bytes \<Rightarrow> bytes \<Rightarrow> (bytes \<times> nat) mem_result" where
  "fastORBytes dst a b = fastBytes (OR) (OR) dst a b"

definition safeORBytes :: "bytes \<Rightarrow> bytes \<Rightarrow> bytes \<Rightarrow> (bytes \<times> nat) mem_result" where
  "safeORBytes dst a b = safeBytes (OR) dst a b"

definition ORBytes :: "bool \<Rightarrow> bytes \<Rightarrow> bytes \<Rightarrow> bytes \<Rightarrow> (bytes \<times> nat) mem_result" where
  "ORBytes supportsUnaligned dst a b = (if supportsUnaligned then fastORBytes dst a b else safeORBytes dst a b)"

definition fastTestBytes :: "bytes \<Rightarrow> bool" where
  "fastTestBytes p =
     (let n = length p; w = n div wordSize in
      if list_ex (\<lambda>i. read_word p i \<noteq> 0) [0..<w] then True
      else list_ex (\<lambda>i. p ! i \<noteq> 0) [n - n mod wordSize..<n])"

definition safeTestBytes :: "bytes \<Rightarrow> bool" where
  "safeTestBytes p = list_ex (\<lambda>i. p ! i \<noteq> 0) [0..<length p]"

definition TestBytes :: "bool \<Rightarrow> bytes \<Rightarrow> bool" where
  "TestBytes supportsUnaligned p = (if supportsUnaligned then fastTestBytes p else safeTestBytes p)"

section \<open>common/bitutil/compress.go\<close>

datatype compressError = errMissingData | errUnreferencedData | errExceededTarget | errZeroContent

text \<open>The loop over the data: the bitset and the non-zero bytes.\<close>

definition markByte :: "nat \<times> byte \<Rightarrow> bytes \<times> bytes \<Rightarrow> bytes \<times> bytes" where
  "markByte = (\<lambda>(i, b) (nonZeroBitset, nonZeroBytes).
     if b \<noteq> 0
     then (nonZeroBitset[i div 8 := nonZeroBitset ! (i div 8) OR push_bit (7 - i mod 8) 1], nonZeroBytes @ [b])
     else (nonZeroBitset, nonZeroBytes))"

definition markBytes :: "bytes \<Rightarrow> bytes \<times> bytes" where
  "markBytes data = fold markByte (zip [0..<length data] data) (replicate ((length data + 7) div 8) 0, [])"

lemma length_markByte: "length (fst (fold markByte xs s)) = length (fst s)"
  by (induction xs arbitrary: s) (auto simp: markByte_def split: prod.splits)

lemma length_bitset: "length (fst (markBytes data)) = (length data + 7) div 8"
  by (simp add: markBytes_def length_markByte)

function bitsetEncodeBytes :: "bytes \<Rightarrow> bytes" where
  "bitsetEncodeBytes data =
     (if length data = 0 then []
      else if length data = 1 then (if data ! 0 = 0 then [] else data)
      else (let (nonZeroBitset, nonZeroBytes) = markBytes data in
            if length nonZeroBytes = 0 then [] else bitsetEncodeBytes nonZeroBitset @ nonZeroBytes))"
  by auto
termination
proof (relation "measure length", goal_cases)
  case (2 data p x y)
  then have "fst (markBytes data) = x" by (metis fst_conv)
  then have "length x = (length data + 7) div 8" using length_bitset[of data] by simp
  moreover have "2 \<le> length data" using 2(1,2) by linarith
  ultimately show ?case by simp
qed simp

declare bitsetEncodeBytes.simps [simp del]

definition CompressBytes :: "bytes \<Rightarrow> bytes" where
  "CompressBytes data =
     (let out = bitsetEncodeBytes data in if length out < length data then out else data)"

text \<open>The loop that puts the non-zero bytes where the bitset says.\<close>

fun spreadBytes :: "bytes \<Rightarrow> bytes \<Rightarrow> nat list \<Rightarrow> bytes \<Rightarrow> nat \<Rightarrow> compressError + bytes \<times> nat" where
  "spreadBytes bitset data [] decomp ptr = Inr (decomp, ptr)"
| "spreadBytes bitset data (i # is) decomp ptr =
     (if bitset ! (i div 8) AND push_bit (7 - i mod 8) 1 \<noteq> 0 then
        (if \<not> ptr < length data then Inl errMissingData
         else if \<not> i < length decomp then Inl errExceededTarget
         else if data ! ptr = 0 then Inl errZeroContent
         else spreadBytes bitset data is (decomp[i := data ! ptr]) (ptr + 1))
      else spreadBytes bitset data is decomp ptr)"

fun bitsetDecodePartialBytes :: "bytes \<Rightarrow> nat \<Rightarrow> compressError + bytes \<times> nat" where
  "bitsetDecodePartialBytes data target =
     (if target = 0 then Inr ([], 0)
      else (let decomp = replicate target 0 in
        if length data = 0 then Inr (decomp, 0)
        else if target = 1 then
          (if data ! 0 \<noteq> 0 then Inr (decomp[0 := data ! 0], 1) else Inr (decomp[0 := data ! 0], 0))
        else (case bitsetDecodePartialBytes data ((target + 7) div 8) of
            Inl e \<Rightarrow> Inl e
          | Inr (nonZeroBitset, ptr) \<Rightarrow>
              spreadBytes nonZeroBitset data [0..<8 * length nonZeroBitset] decomp ptr)))"

declare bitsetDecodePartialBytes.simps [simp del]

definition bitsetDecodeBytes :: "bytes \<Rightarrow> nat \<Rightarrow> compressError + bytes" where
  "bitsetDecodeBytes data target =
     (case bitsetDecodePartialBytes data target of
        Inl e \<Rightarrow> Inl e
      | Inr (out, sz) \<Rightarrow> if sz \<noteq> length data then Inl errUnreferencedData else Inr out)"

definition DecompressBytes :: "bytes \<Rightarrow> nat \<Rightarrow> compressError + bytes" where
  "DecompressBytes data target =
     (if length data > target then Inl errExceededTarget
      else if length data = target then Inr data
      else bitsetDecodeBytes data target)"

section \<open>Words and bytes\<close>

lemma bit_load_le: "bit (load_le bs) n \<longleftrightarrow> n < 64 \<and> n div 8 < length bs \<and> bit (bs ! (n div 8)) (n mod 8)"
proof (induction bs arbitrary: n)
  case (Cons b bs)
  show ?case
  proof (cases "n < 8")
    case True then show ?thesis by (simp add: bit_or_iff bit_push_bit_iff bit_simps)
  next
    case False
    then obtain m where m: "n = m + 8" by (metis add.commute le_add_diff_inverse not_le)
    have "\<not> bit (b :: byte) n" using False bit_imp_le_length[of b n] by auto
    moreover have "(m + 8) div 8 = Suc (m div 8)" "(m + 8) mod 8 = m mod 8" by simp_all
    ultimately show ?thesis by (auto simp: m bit_simps Cons.IH simp del: div_add_self2)
  qed
qed simp

lemma store_le_nth: "i < 8 \<Longrightarrow> store_le w ! i = ucast (drop_bit (8 * i) w)"
  by (simp add: store_le_def wordSize_def)

lemma length_store_le [simp]: "length (store_le w) = wordSize"
  by (simp add: store_le_def)

lemma byte_of_load:
  assumes "length bs = wordSize" "i < 8"
  shows "(ucast (drop_bit (8 * i) (load_le bs)) :: byte) = bs ! i"
proof (rule bit_eqI)
  fix n assume "possible_bit TYPE(byte) n"
  then have n: "n < 8" by simp
  with assms have "8 * i + n < 64" by simp
  with n assms show "bit (ucast (drop_bit (8 * i) (load_le bs)) :: byte) n = bit (bs ! i) n"
    by (simp add: bit_simps bit_load_le wordSize_def)
qed

lemma load_le_zero: "length bs = wordSize \<Longrightarrow> load_le bs = 0 \<longleftrightarrow> (\<forall>b\<in>set bs. b = 0)"
proof
  assume "length bs = wordSize" "load_le bs = 0"
  then show "\<forall>b\<in>set bs. b = 0"
    using byte_of_load[of bs] by (metis (no_types) drop_bit_of_0 in_set_conv_nth ucast_0 wordSize_def)
next
  show "\<forall>b\<in>set bs. b = 0 \<Longrightarrow> load_le bs = 0" by (induction bs) auto
qed

text \<open>
  An operation on words that works byte by byte: this is all the fast routines need of the operation.
\<close>

lemma map2_take_min: "n = min (length a) (length b) \<Longrightarrow> map2 g (take n a) (take n b) = map2 g a b"
  by (simp add: take_zip[symmetric])

locale bytewise =
  fixes f :: "64 word \<Rightarrow> 64 word \<Rightarrow> 64 word" and g :: "byte \<Rightarrow> byte \<Rightarrow> byte"
  assumes bytewise: "ucast (drop_bit n (f x y)) = g (ucast (drop_bit n x)) (ucast (drop_bit n y))"
begin

lemma store_f:
  assumes "length a = wordSize" "length b = wordSize"
  shows "store_le (f (load_le a) (load_le b)) = map2 g a b"
  using assms by (intro nth_equalityI) (simp_all add: store_le_nth bytewise byte_of_load wordSize_def)

lemma write_word_bytes:
  assumes "wordSize * i + wordSize \<le> length a" "wordSize * i + wordSize \<le> length b" "wordSize * i + wordSize \<le> length dst"
    and "n = wordSize * i"
  shows "write_word dst i (f (read_word a i) (read_word b i)) =
    take n dst @ map2 g (take wordSize (drop n a)) (take wordSize (drop n b)) @ drop (n + wordSize) dst"
  using assms by (simp add: write_word_def read_word_def store_f)

lemma wordLoop_bytes:
  assumes "wordSize * w \<le> length a" "wordSize * w \<le> length b" "wordSize * w \<le> length dst"
  shows "i \<le> w \<Longrightarrow> wordLoop f a b [i..<w] (map2 g (take (wordSize * i) a) (take (wordSize * i) b) @ drop (wordSize * i) dst) =
    Done (map2 g (take (wordSize * w) a) (take (wordSize * w) b) @ drop (wordSize * w) dst)"
proof (induction "w - i" arbitrary: i)
  case (Suc k)
  then have i: "i < w" by simp
  let ?n = "wordSize * i" and ?d = "map2 g (take (wordSize * i) a) (take (wordSize * i) b) @ drop (wordSize * i) dst"
  have n: "?n + wordSize = wordSize * Suc i" "wordSize * Suc i \<le> wordSize * w" using i by (simp_all add: wordSize_def)
  then have le: "?n + wordSize \<le> length a" "?n + wordSize \<le> length b" "?n + wordSize \<le> length dst" using assms by simp_all
  have len: "length ?d = length dst" using le by simp
  have "write_word ?d i (f (read_word a i) (read_word b i)) =
      map2 g (take (?n + wordSize) a) (take (?n + wordSize) b) @ drop (?n + wordSize) dst"
    using le by (subst write_word_bytes[OF _ _ _ refl]) (simp_all add: take_add zip_append add.commute[of wordSize "wordSize * i"])
  moreover have "i < length dst" using le(3) by (simp add: wordSize_def)
  ultimately show ?case using Suc.hyps(1)[of "Suc i"] Suc.hyps(2) i le len
    by (simp add: upt_conv_Cons n(1) del: length_append)
qed simp

lemma byteLoop_bytes:
  assumes "n \<le> length a" "n \<le> length b" "n \<le> length dst"
  shows "i \<le> n \<Longrightarrow> byteLoop g a b [i..<n] (map2 g (take i a) (take i b) @ drop i dst) =
    Done (map2 g (take n a) (take n b) @ drop n dst)"
proof (induction "n - i" arbitrary: i)
  case (Suc k)
  then have i: "i < n" by simp
  let ?d = "map2 g (take i a) (take i b) @ drop i dst"
  have "?d[i := g (a ! i) (b ! i)] = map2 g (take (Suc i) a) (take (Suc i) b) @ drop (Suc i) dst"
    using i assms by (simp add: take_Suc_conv_app_nth list_update_append Cons_nth_drop_Suc[symmetric, of i dst])
  moreover have "i < length ?d" using i assms by simp
  ultimately show ?case using Suc.hyps(1)[of "Suc i"] Suc.hyps(2) i
    by (simp add: upt_conv_Cons del: length_append)
qed simp

lemma safe_result:
  assumes "n = min (length a) (length b)" "n \<le> length dst"
  shows "safeBytes g dst a b = Done (map2 g a b @ drop n dst, n)"
proof -
  have "n \<le> length a" "n \<le> length b" using assms(1) by simp_all
  from byteLoop_bytes[OF this assms(2), of 0] show ?thesis
    unfolding safeBytes_def Let_def assms(1)[symmetric] by (simp add: map2_take_min[OF assms(1)])
qed

lemma fast_result:
  assumes "n = min (length a) (length b)" "n \<le> length dst"
  shows "fastBytes f g dst a b = Done (map2 g a b @ drop n dst, n)"
proof -
  have w: "n - n mod wordSize = wordSize * (n div wordSize)" by (simp add: minus_mod_eq_mult_div)
  have n: "n \<le> length a" "n \<le> length b" using assms(1) by simp_all
  have le: "wordSize * (n div wordSize) \<le> n" by simp
  have "wordLoop f a b [0..<n div wordSize] dst = Done (map2 g (take (wordSize * (n div wordSize)) a)
      (take (wordSize * (n div wordSize)) b) @ drop (wordSize * (n div wordSize)) dst)"
    using wordLoop_bytes[OF order_trans[OF le n(1)] order_trans[OF le n(2)] order_trans[OF le assms(2)], of 0] by simp
  then show ?thesis
    unfolding fastBytes_def Let_def assms(1)[symmetric] w
    by (simp add: byteLoop_bytes[OF n assms(2) le] map2_take_min[OF assms(1)])
qed

end

interpretation bxor: bytewise "(XOR)" "(XOR)"
  by unfold_locales (auto intro: bit_eqI simp: bit_simps)

interpretation band: bytewise "(AND)" "(AND)"
  by unfold_locales (auto intro: bit_eqI simp: bit_simps)

interpretation bor: bytewise "(OR)" "(OR)"
  by unfold_locales (auto intro: bit_eqI simp: bit_simps)

lemma safeTestBytes_iff: "safeTestBytes p \<longleftrightarrow> (\<exists>b\<in>set p. b \<noteq> 0)"
  by (force simp: safeTestBytes_def list_ex_iff in_set_conv_nth)

lemma read_word_zero:
  assumes "wordSize * i + wordSize \<le> length p"
  shows "read_word p i = 0 \<longleftrightarrow> (\<forall>j. wordSize * i \<le> j \<and> j < wordSize * i + wordSize \<longrightarrow> p ! j = 0)"
proof -
  have "read_word p i = 0 \<longleftrightarrow> (\<forall>k<wordSize. p ! (wordSize * i + k) = 0)"
    using assms unfolding read_word_def by (subst load_le_zero) (auto simp: all_set_conv_all_nth)
  also have "\<dots> \<longleftrightarrow> (\<forall>j. wordSize * i \<le> j \<and> j < wordSize * i + wordSize \<longrightarrow> p ! j = 0)"
    by (metis add_less_cancel_left le_add1 le_iff_add)
  finally show ?thesis .
qed

lemma fastTestBytes_iff: "fastTestBytes p \<longleftrightarrow> (\<exists>b\<in>set p. b \<noteq> 0)"
proof -
  let ?n = "length p" and ?w = "length p div wordSize"
  have w: "?n - ?n mod wordSize = wordSize * ?w" by (simp add: minus_mod_eq_mult_div)
  have le: "wordSize * i + wordSize \<le> ?n" if "i < ?w" for i
    using that by (simp add: wordSize_def)
  have "(\<exists>i<?w. read_word p i \<noteq> 0) \<longleftrightarrow> (\<exists>j<wordSize * ?w. p ! j \<noteq> 0)"
  proof
    assume "\<exists>i<?w. read_word p i \<noteq> 0"
    then obtain i j where "i < ?w" "j < wordSize * i + wordSize" "p ! j \<noteq> 0" using read_word_zero[OF le] by blast
    moreover from this have "wordSize * Suc i \<le> wordSize * ?w" by (simp only: mult_le_mono2 Suc_leI)
    ultimately show "\<exists>j<wordSize * ?w. p ! j \<noteq> 0" by (intro exI[of _ j]) simp
  next
    assume "\<exists>j<wordSize * ?w. p ! j \<noteq> 0"
    then obtain j where j: "j < wordSize * ?w" "p ! j \<noteq> 0" by blast
    then have i: "j div wordSize < ?w" by (simp add: less_mult_imp_div_less mult.commute)
    have "wordSize * (j div wordSize) \<le> j" "j < wordSize * (j div wordSize) + wordSize"
      by (simp_all add: wordSize_def)
    with j(2) i read_word_zero[OF le[OF i]] show "\<exists>i<?w. read_word p i \<noteq> 0" by blast
  qed
  moreover have "wordSize * ?w \<le> ?n" by simp
  then have "(\<exists>j<?n. p ! j \<noteq> 0) \<longleftrightarrow> (\<exists>j<wordSize * ?w. p ! j \<noteq> 0) \<or> (\<exists>j. wordSize * ?w \<le> j \<and> j < ?n \<and> p ! j \<noteq> 0)"
    by (meson less_le_trans not_le)
  ultimately show ?thesis
    unfolding fastTestBytes_def Let_def w safeTestBytes_iff[symmetric] safeTestBytes_def by (auto simp: list_ex_iff)
qed

section \<open>Compression\<close>

lemma bit_place: "j div 8 = k div 8 \<Longrightarrow> 7 - j mod 8 = 7 - k mod 8 \<Longrightarrow> j = (k :: nat)"
proof -
  assume a: "j div 8 = k div 8" "7 - j mod 8 = 7 - k mod 8"
  have "j mod 8 < 8" "k mod 8 < 8" by simp_all
  with a(2) have "j mod 8 = k mod 8" by linarith
  with a(1) show ?thesis by (metis div_mult_mod_eq)
qed

lemma bit_marked: "bit (2 ^ n :: byte) i \<longleftrightarrow> n < 8 \<and> i = n" "(x :: byte) AND 2 ^ n = 0 \<longleftrightarrow> \<not> bit x n"
  using bit_iff_and_push_bit_not_eq_0[of x n] by (auto simp: bit_exp_iff)

lemma markBytes_prefix:
  assumes "m = (length data + 7) div 8"
  shows "k \<le> length data \<Longrightarrow>
    snd (fold markByte (zip [0..<k] (take k data)) (replicate m 0, [])) = filter (\<lambda>b. b \<noteq> 0) (take k data) \<and>
    (\<forall>j<8 * m. bit (fst (fold markByte (zip [0..<k] (take k data)) (replicate m 0, [])) ! (j div 8)) (7 - j mod 8)
      \<longleftrightarrow> j < k \<and> data ! j \<noteq> 0)"
proof (induction k)
  case (Suc k)
  let ?s = "fold markByte (zip [0..<k] (take k data)) (replicate m 0, [])"
  have step: "fold markByte (zip [0..<Suc k] (take (Suc k) data)) (replicate m 0, []) = markByte (k, data ! k) ?s"
    using Suc.prems by (simp add: take_Suc_conv_app_nth)
  obtain xs nz where s: "?s = (xs, nz)" by fastforce
  have IH: "nz = filter (\<lambda>b. b \<noteq> 0) (take k data)"
    "\<And>j. j < 8 * m \<Longrightarrow> bit (xs ! (j div 8)) (7 - j mod 8) \<longleftrightarrow> j < k \<and> data ! j \<noteq> 0" using Suc by (auto simp: s)
  have len: "length xs = m" using length_markByte[of "zip [0..<k] (take k data)" "(replicate m 0, [])"] by (simp add: s)
  have k: "k div 8 < m" using Suc.prems assms by linarith
  have "bit (xs[k div 8 := xs ! (k div 8) OR push_bit (7 - k mod 8) 1] ! (j div 8)) (7 - j mod 8) \<longleftrightarrow>
      j < Suc k \<and> (j = k \<or> data ! j \<noteq> 0)" if j: "j < 8 * m" for j
  proof -
    have "j div 8 < m" using j by linarith
    then show ?thesis using IH(2)[OF j] k len bit_place[of j k]
      by (auto simp: nth_list_update bit_or_iff bit_marked less_Suc_eq)
  qed
  then show ?case unfolding step s using IH Suc.prems
    by (auto simp: markByte_def take_Suc_conv_app_nth less_Suc_eq)
qed simp

lemma markBytes_spec:
  assumes "markBytes data = (bitset, nz)"
  shows "nz = filter (\<lambda>b. b \<noteq> 0) data" "length bitset = (length data + 7) div 8"
    "\<And>j. j < 8 * length bitset \<Longrightarrow> bit (bitset ! (j div 8)) (7 - j mod 8) \<longleftrightarrow> j < length data \<and> data ! j \<noteq> 0"
  using markBytes_prefix[OF refl, of "length data" data] length_bitset[of data] assms
  by (simp_all add: markBytes_def)

lemma spreadBytes_spec:
  assumes bits: "\<And>j. j < 8 * length bitset \<Longrightarrow> bit (bitset ! (j div 8)) (7 - j mod 8) \<longleftrightarrow> j < length xs \<and> xs ! j \<noteq> 0"
    and len: "length xs \<le> 8 * length bitset"
  shows "k \<le> 8 * length bitset \<Longrightarrow> drop ptr data = filter (\<lambda>b. b \<noteq> 0) (drop k xs) @ rest \<Longrightarrow>
    spreadBytes bitset data [k..<8 * length bitset] (take k xs @ replicate (length xs - k) 0) ptr =
      Inr (xs, ptr + length (filter (\<lambda>b. b \<noteq> 0) (drop k xs)))"
proof (induction "8 * length bitset - k" arbitrary: k ptr)
  case 0
  then show ?case using len by simp
next
  case (Suc d)
  then have k: "k < 8 * length bitset" by simp
  note IH = Suc.hyps(1)[of "Suc k"]
  show ?case
  proof (cases "k < length xs \<and> xs ! k \<noteq> 0")
    case True
    have dr: "drop k xs = xs ! k # drop (Suc k) xs" using True by (simp add: Cons_nth_drop_Suc)
    then have dd: "drop ptr data = xs ! k # filter (\<lambda>b. b \<noteq> 0) (drop (Suc k) xs) @ rest" using Suc.prems(2) True by simp
    then have p: "ptr < length data" "data ! ptr = xs ! k"
      "drop (Suc ptr) data = filter (\<lambda>b. b \<noteq> 0) (drop (Suc k) xs) @ rest"
      by (metis drop_eq_Nil list.distinct(1) not_le, metis dd nth_via_drop, metis dd drop_Suc list.sel(3) tl_drop)
    have "(take k xs @ replicate (length xs - k) 0)[k := xs ! k] = take (Suc k) xs @ replicate (length xs - Suc k) 0"
      using True by (simp add: list_update_append take_Suc_conv_app_nth Suc_diff_Suc[symmetric] del: Suc_diff_Suc)
    then show ?thesis using IH[of "Suc ptr"] Suc.hyps(2) k True p bits[OF k]
      by (simp add: upt_conv_Cons bit_marked dr)
  next
    case False
    have dr: "filter (\<lambda>b. b \<noteq> 0) (drop k xs) = filter (\<lambda>b. b \<noteq> 0) (drop (Suc k) xs)"
      using False by (cases "k < length xs") (simp_all add: Cons_nth_drop_Suc[symmetric])
    have "take k xs @ replicate (length xs - k) 0 = take (Suc k) xs @ replicate (length xs - Suc k) 0"
      using False by (cases "k < length xs") (simp_all add: take_Suc_conv_app_nth Suc_diff_Suc[symmetric] del: Suc_diff_Suc)
    then show ?thesis using IH[of ptr] Suc.hyps(2) Suc.prems(2) k False bits[OF k] dr
      by (simp add: upt_conv_Cons bit_marked)
  qed
qed

lemma bitset_nonzero:
  assumes "markBytes data = (bitset, nz)" "\<exists>b\<in>set data. b \<noteq> 0"
  shows "\<exists>b\<in>set bitset. b \<noteq> 0"
proof -
  obtain j where j: "j < length data" "data ! j \<noteq> 0" using assms(2) by (auto simp: in_set_conv_nth)
  note m = markBytes_spec[OF assms(1)]
  have l: "j div 8 < length bitset" "j < 8 * length bitset" using j(1) m(2) by linarith+
  then have "bit (bitset ! (j div 8)) (7 - j mod 8)" using m(3) j by blast
  then have "bitset ! (j div 8) \<noteq> 0" by auto
  then show ?thesis using l(1) nth_mem by blast
qed

lemma decode_encode:
  "\<exists>b\<in>set data. b \<noteq> 0 \<Longrightarrow>
    bitsetDecodePartialBytes (bitsetEncodeBytes data @ rest) (length data) = Inr (data, length (bitsetEncodeBytes data))"
proof (induction data arbitrary: rest rule: bitsetEncodeBytes.induct)
  case (1 data)
  have ne: "data \<noteq> []" using 1(2) by auto
  show ?case
  proof (cases "length data = 1")
    case True
    then obtain b where b: "data = [b]" by (auto simp: length_Suc_conv)
    with 1(2) show ?thesis by (simp add: bitsetEncodeBytes.simps bitsetDecodePartialBytes.simps)
  next
    case False
    obtain bitset nz where mk: "markBytes data = (bitset, nz)" by fastforce
    note m = markBytes_spec[OF mk]
    have nz: "nz \<noteq> []" using 1(2) m(1) by (auto simp: filter_empty_conv)
    have enc: "bitsetEncodeBytes data = bitsetEncodeBytes bitset @ nz"
      using False ne nz by (subst bitsetEncodeBytes.simps) (simp add: mk)
    have IH: "bitsetDecodePartialBytes (bitsetEncodeBytes bitset @ nz @ rest) ((length data + 7) div 8) =
        Inr (bitset, length (bitsetEncodeBytes bitset))"
      unfolding m(2)[symmetric]
      by (rule 1(1)[OF _ _ mk[symmetric] refl]) (use False ne nz bitset_nonzero[OF mk 1(2)] in simp_all)
    have "spreadBytes bitset (bitsetEncodeBytes bitset @ nz @ rest) [0..<8 * length bitset] (replicate (length data) 0)
        (length (bitsetEncodeBytes bitset)) = Inr (data, length (bitsetEncodeBytes bitset) + length nz)"
      using spreadBytes_spec[OF m(3), of 0 "length (bitsetEncodeBytes bitset)" "bitsetEncodeBytes bitset @ nz @ rest" rest]
      by (simp add: m(1,2))
    then show ?thesis using False ne nz
      by (subst bitsetDecodePartialBytes.simps) (simp add: enc IH)
  qed
qed

lemma encode_zero:
  assumes "\<forall>b\<in>set data. b = 0"
  shows "bitsetEncodeBytes data = []"
proof -
  obtain bitset nz where mk: "markBytes data = (bitset, nz)" by fastforce
  have "nz = []" using markBytes_spec(1)[OF mk] assms by (simp add: filter_empty_conv)
  then show ?thesis using assms by (subst bitsetEncodeBytes.simps) (auto simp: mk length_Suc_conv)
qed

lemma decode_compressed:
  assumes "length (bitsetEncodeBytes data) < length data"
  shows "bitsetDecodeBytes (bitsetEncodeBytes data) (length data) = Inr data"
proof (cases "\<exists>b\<in>set data. b \<noteq> 0")
  case True
  then show ?thesis using decode_encode[OF True, of "[]"] by (simp add: bitsetDecodeBytes_def)
next
  case False
  then have z: "\<forall>b\<in>set data. b = 0" by blast
  then have "replicate (length data) 0 = data" by (metis replicate_length_same)
  then show ?thesis using assms
    by (simp add: bitsetDecodeBytes_def encode_zero[OF z] bitsetDecodePartialBytes.simps[of "[]"])
qed

section \<open>Properties\<close>

text \<open>Whether the architecture supports unaligned access makes no difference: for a destination that has
  room, the word-wise and the byte-wise routines return the same bytes and the same count.\<close>

theorem bitops_fast_is_safe:
  assumes "min (length a) (length b) \<le> length dst"
  shows "XORBytes True dst a b = XORBytes False dst a b \<and> ANDBytes True dst a b = ANDBytes False dst a b \<and>
    ORBytes True dst a b = ORBytes False dst a b \<and> TestBytes True a = TestBytes False a \<and>
    XORBytes False dst a b = Done (map2 (XOR) a b @ drop (min (length a) (length b)) dst, min (length a) (length b))"
  by (simp add: XORBytes_def ANDBytes_def ORBytes_def TestBytes_def fastXORBytes_def safeXORBytes_def fastANDBytes_def
      safeANDBytes_def fastORBytes_def safeORBytes_def bxor.fast_result[OF refl assms] bxor.safe_result[OF refl assms]
      band.fast_result[OF refl assms] band.safe_result[OF refl assms] bor.fast_result[OF refl assms]
      bor.safe_result[OF refl assms] fastTestBytes_iff safeTestBytes_iff)

theorem bitops_fast_is_safe_witness:
  "XORBytes True [0, 0, 0] [1, 2, 3] [1, 0, 1] = Done ([0, 2, 2], 3)"
  using bitops_fast_is_safe[of "[1, 2, 3]" "[1, 0, 1]" "[0, 0, 0]"] by simp

text \<open>Compression loses nothing: what \<^verbatim>\<open>CompressBytes\<close> returns is never longer than its input, and
  \<^verbatim>\<open>DecompressBytes\<close> with the original length returns the input.\<close>

theorem compress_roundtrip:
  "length (CompressBytes data) \<le> length data \<and> DecompressBytes (CompressBytes data) (length data) = Inr data"
  using decode_compressed[of data] by (auto simp: CompressBytes_def DecompressBytes_def Let_def)

text \<open>On a destination that is too short the two variants differ: the byte-wise routine panics at the first
  index outside it, the word-wise one writes past its end, because the index of a word is checked against
  the number of bytes.\<close>

lemma short_destination_overruns:
  "XORBytes False (replicate 8 0) (replicate 16 1) (replicate 16 2) = IndexPanic \<and>
   XORBytes True (replicate 8 0) (replicate 16 1) (replicate 16 2) = Overrun"
  by code_simp

end
