(* ===== verification/MathBig.thy ===== *)
theory MathBig
  imports Hex
begin

text \<open>
  Numbers: \<^verbatim>\<open>common/math/integer.go\<close>, \<^verbatim>\<open>common/math/big.go\<close> and the number codecs of
  \<^verbatim>\<open>common/hexutil/hexutil.go\<close>.  A \<^verbatim>\<open>uint64\<close> is a 64-bit word, a \<^verbatim>\<open>big.Int\<close> an integer;
  \<open>Bits\<close> and \<open>BitLen\<close> are those of its absolute value, as in \<^verbatim>\<open>math/big\<close>.  A function that changes its argument
  in place returns the changed value too.
\<close>

unbundle bit_operations_syntax

type_synonym uint64 = "64 word"

section \<open>The standard library: strconv and math/big\<close>

datatype numError = NumErrSyntax | NumErrRange

text \<open>\<^verbatim>\<open>strconv.ParseUint\<close> stops at the first digit that is not one, or with which the number no longer fits.\<close>

fun parseDigits :: "nat \<Rightarrow> nat \<Rightarrow> string \<Rightarrow> numError + nat" where
  "parseDigits base n [] = Inr n"
| "parseDigits base n (c # cs) =
     (case fromHexChar c of None \<Rightarrow> Inl NumErrSyntax
      | Some d \<Rightarrow> if d \<ge> base then Inl NumErrSyntax
                  else if n * base + d \<ge> 2 ^ 64 then Inl NumErrRange
                  else parseDigits base (n * base + d) cs)"

definition ParseUint :: "string \<Rightarrow> nat \<Rightarrow> numError + uint64" where
  "ParseUint s base = (if s = [] then Inl NumErrSyntax else map_sum id of_nat (parseDigits base 0 s))"

fun digitsValue :: "nat \<Rightarrow> nat \<Rightarrow> string \<Rightarrow> nat option" where
  "digitsValue base n [] = Some n"
| "digitsValue base n (c # cs) =
     (case fromHexChar c of None \<Rightarrow> None
      | Some d \<Rightarrow> if d \<ge> base then None else digitsValue base (n * base + d) cs)"

text \<open>\<^verbatim>\<open>big.Int.SetString\<close>: an optional sign and at least one digit.\<close>

definition SetString :: "string \<Rightarrow> nat \<Rightarrow> int option" where
  "SetString s base =
     (let (neg, ds) = (case s of c # cs \<Rightarrow> if c = CHR ''-'' then (True, cs) else if c = CHR ''+'' then (False, cs) else (False, s)
                       | [] \<Rightarrow> (False, []))
      in if ds = [] then None
         else map_option (\<lambda>n. if neg then - int n else int n) (digitsValue base 0 ds))"

function hexDigits :: "nat \<Rightarrow> string" where
  "hexDigits n = (if n < 16 then [hextable n] else hexDigits (n div 16) @ [hextable (n mod 16)])"
  by auto
termination by (relation "measure id") auto

declare hexDigits.simps [simp del]

function bitsOf :: "nat \<Rightarrow> uint64 list" where
  "bitsOf n = (if n = 0 then [] else of_nat (n mod 2 ^ 64) # bitsOf (n div 2 ^ 64))"
  by auto
termination by (relation "measure id") auto

declare bitsOf.simps [simp del]

definition Bits :: "int \<Rightarrow> uint64 list" where
  "Bits x = bitsOf (nat \<bar>x\<bar>)"

function bitLen :: "nat \<Rightarrow> nat" where
  "bitLen n = (if n = 0 then 0 else Suc (bitLen (n div 2)))"
  by auto
termination by (relation "measure id") auto

declare bitLen.simps [simp del]

definition BitLen :: "int \<Rightarrow> nat" where
  "BitLen x = bitLen (nat \<bar>x\<bar>)"

text \<open>\<^verbatim>\<open>big.Int.Bytes\<close>: the absolute value in big-endian bytes, without leading zeros.\<close>

function bigBytes :: "nat \<Rightarrow> bytes" where
  "bigBytes n = (if n = 0 then [] else bigBytes (n div 256) @ [of_nat (n mod 256)])"
  by auto
termination by (relation "measure id") auto

declare bigBytes.simps [simp del]

section \<open>common/math/integer.go\<close>

definition MaxUint64 :: nat where "MaxUint64 = 2 ^ 64 - 1"
definition MaxInt64 :: int where "MaxInt64 = 2 ^ 63 - 1"
definition MinInt64 :: int where "MinInt64 = - (2 ^ 63)"

definition ParseUint64 :: "string \<Rightarrow> uint64 \<times> bool" where
  "ParseUint64 s =
     (if s = [] then (0, True)
      else (let res = (if 2 \<le> length s \<and> (take 2 s = ''0x'' \<or> take 2 s = ''0X'') then ParseUint (drop 2 s) 16
                       else ParseUint s 10)
            in case res of
                 Inr v \<Rightarrow> (v, True)
               | Inl NumErrRange \<Rightarrow> (of_nat MaxUint64, False)
               | Inl NumErrSyntax \<Rightarrow> (0, False)))"

definition MustParseUint64 :: "string \<Rightarrow> uint64 outcome" where
  "MustParseUint64 s = (case ParseUint64 s of (v, ok) \<Rightarrow> if \<not> ok then Panicked else Returned v)"

text \<open>The destination is left as it was when the text is invalid.\<close>

definition HexOrDecimal64_UnmarshalText :: "string \<Rightarrow> uint64 \<Rightarrow> uint64 \<times> bool" where
  "HexOrDecimal64_UnmarshalText input i = (case ParseUint64 input of (v, ok) \<Rightarrow> if \<not> ok then (i, False) else (v, True))"

definition HexOrDecimal64_MarshalText :: "uint64 \<Rightarrow> string" where
  "HexOrDecimal64_MarshalText i = ''0x'' @ hexDigits (unat i)"

definition SafeSub :: "uint64 \<Rightarrow> uint64 \<Rightarrow> uint64 \<times> bool" where
  "SafeSub x y = (x - y, x < y)"

definition SafeAdd :: "uint64 \<Rightarrow> uint64 \<Rightarrow> uint64 \<times> bool" where
  "SafeAdd x y = (x + y, y > of_nat MaxUint64 - x)"

definition SafeMul :: "uint64 \<Rightarrow> uint64 \<Rightarrow> uint64 \<times> bool" where
  "SafeMul x y = (if x = 0 \<or> y = 0 then (0, False) else (x * y, y > of_nat MaxUint64 div x))"

section \<open>common/math/big.go\<close>

definition BigPow :: "int64 \<Rightarrow> int64 \<Rightarrow> int" where
  "BigPow a b = (if sint b \<le> 0 then 1 else sint a ^ nat (sint b))"

definition tt255 :: int where "tt255 = 2 ^ 255"
definition tt256 :: int where "tt256 = 2 ^ 256"
definition tt256m1 :: int where "tt256m1 = tt256 - 1"
definition tt63 :: int where "tt63 = 2 ^ 63"
definition MaxBig256 :: int where "MaxBig256 = tt256m1"
definition MaxBig63 :: int where "MaxBig63 = tt63 - 1"
definition wordBits :: nat where "wordBits = 64"
definition wordBytes :: nat where "wordBytes = wordBits div 8"

definition ParseBig256 :: "string \<Rightarrow> int option" where
  "ParseBig256 s =
     (if s = [] then Some 0
      else (let bigint = (if 2 \<le> length s \<and> (take 2 s = ''0x'' \<or> take 2 s = ''0X'') then SetString (drop 2 s) 16
                          else SetString s 10)
            in case bigint of None \<Rightarrow> None | Some n \<Rightarrow> if BitLen n > 256 then None else Some n))"

definition MustParseBig256 :: "string \<Rightarrow> int outcome" where
  "MustParseBig256 s = (case ParseBig256 s of None \<Rightarrow> Panicked | Some v \<Rightarrow> Returned v)"

definition HexOrDecimal256_UnmarshalText :: "string \<Rightarrow> int \<Rightarrow> int \<times> bool" where
  "HexOrDecimal256_UnmarshalText input i = (case ParseBig256 input of None \<Rightarrow> (i, False) | Some n \<Rightarrow> (n, True))"

definition HexOrDecimal256_MarshalText :: "int option \<Rightarrow> string" where
  "HexOrDecimal256_MarshalText i = (case i of None \<Rightarrow> ''0x0''
     | Some n \<Rightarrow> (if n < 0 then ''-'' else []) @ ''0x'' @ hexDigits (nat \<bar>n\<bar>))"

definition BigMax :: "int \<Rightarrow> int \<Rightarrow> int" where
  "BigMax x y = (if x < y then y else x)"

definition BigMin :: "int \<Rightarrow> int \<Rightarrow> int" where
  "BigMin x y = (if x > y then y else x)"

text \<open>\<^verbatim>\<open>v.Bit(i)\<close> is bit \<open>i\<close> of the two's complement of \<open>v\<close>.\<close>

fun firstBitLoop :: "int \<Rightarrow> nat list \<Rightarrow> nat option" where
  "firstBitLoop v [] = None"
| "firstBitLoop v (i # is) = (if bit v i then Some i else firstBitLoop v is)"

definition FirstBitSet :: "int \<Rightarrow> nat" where
  "FirstBitSet v = (case firstBitLoop v [0..<BitLen v] of Some i \<Rightarrow> i | None \<Rightarrow> BitLen v)"

text \<open>The loops of \<^verbatim>\<open>ReadBits\<close>: \<open>i\<close> is the position to the left of which the next byte goes.\<close>

fun readWord :: "nat \<Rightarrow> uint64 \<Rightarrow> nat \<Rightarrow> bytes \<Rightarrow> nat \<times> bytes" where
  "readWord 0 d i buf = (i, buf)"
| "readWord (Suc j) d i buf =
     (if i > 0 then readWord j (drop_bit 8 d) (i - 1) (buf[i - 1 := ucast d]) else (i, buf))"

fun readWords :: "uint64 list \<Rightarrow> nat \<Rightarrow> bytes \<Rightarrow> bytes" where
  "readWords [] i buf = buf"
| "readWords (d # ds) i buf = (case readWord wordBytes d i buf of (i, buf) \<Rightarrow> readWords ds i buf)"

definition ReadBits :: "int \<Rightarrow> bytes \<Rightarrow> bytes" where
  "ReadBits bigint buf = readWords (Bits bigint) (length buf) buf"

definition PaddedBigBytes :: "int \<Rightarrow> nat \<Rightarrow> bytes" where
  "PaddedBigBytes bigint n =
     (if BitLen bigint div 8 \<ge> n then bigBytes (nat \<bar>bigint\<bar>) else ReadBits bigint (replicate n 0))"

definition bigEndianByteAt :: "int \<Rightarrow> nat \<Rightarrow> byte" where
  "bigEndianByteAt bigint n =
     (let words = Bits bigint; i = n div wordBytes in
      if i \<ge> length words then 0 else ucast (drop_bit (8 * (n mod wordBytes)) (words ! i)))"

definition Byte :: "int \<Rightarrow> nat \<Rightarrow> nat \<Rightarrow> byte" where
  "Byte bigint padlength n = (if n \<ge> padlength then 0 else bigEndianByteAt bigint (padlength - 1 - n))"

definition U256 :: "int \<Rightarrow> int" where
  "U256 x = x AND tt256m1"

definition S256 :: "int \<Rightarrow> int" where
  "S256 x = (if x < tt255 then x else x - tt256)"

text \<open>
  \<^verbatim>\<open>base.Mul(base, base)\<close> writes to \<^verbatim>\<open>base\<close>, so the model returns the result and what has become of
  the base.
\<close>

fun expWord :: "nat \<Rightarrow> uint64 \<Rightarrow> int \<Rightarrow> int \<Rightarrow> int \<times> int" where
  "expWord 0 word base result = (result, base)"
| "expWord (Suc i) word base result =
     expWord i (drop_bit 1 word) (U256 (base * base)) (if word AND 1 = 1 then U256 (result * base) else result)"

fun expWords :: "uint64 list \<Rightarrow> int \<Rightarrow> int \<Rightarrow> int \<times> int" where
  "expWords [] base result = (result, base)"
| "expWords (word # words) base result =
     (case expWord wordBits word base result of (result, base) \<Rightarrow> expWords words base result)"

definition Exp :: "int \<Rightarrow> int \<Rightarrow> int \<times> int" where
  "Exp base exponent = expWords (Bits exponent) base 1"

section \<open>common/hexutil/hexutil.go: numbers\<close>

definition numError_map :: "numError \<Rightarrow> decError" where
  "numError_map e = (case e of NumErrRange \<Rightarrow> ErrUint64Range | NumErrSyntax \<Rightarrow> ErrSyntax)"

definition checkNumber :: "string \<Rightarrow> decError + string" where
  "checkNumber input =
     (if length input = 0 then Inl ErrEmptyString
      else if \<not> has0xPrefix input then Inl ErrMissingPrefix
      else (let input = drop 2 input in
        if length input = 0 then Inl ErrEmptyNumber
        else if length input > 1 \<and> input ! 0 = CHR ''0'' then Inl ErrLeadingZero
        else Inr input))"

definition DecodeUint64 :: "string \<Rightarrow> decError + uint64" where
  "DecodeUint64 input =
     (case checkNumber input of Inl e \<Rightarrow> Inl e | Inr raw \<Rightarrow> map_sum numError_map id (ParseUint raw 16))"

definition MustDecodeUint64 :: "string \<Rightarrow> uint64 outcome" where
  "MustDecodeUint64 input = (case DecodeUint64 input of Inl _ \<Rightarrow> Panicked | Inr v \<Rightarrow> Returned v)"

definition EncodeUint64 :: "uint64 \<Rightarrow> string" where
  "EncodeUint64 i = ''0x'' @ hexDigits (unat i)"

definition bigWordNibbles :: nat where "bigWordNibbles = 16"

fun nibblesLoop :: "uint64 \<Rightarrow> string \<Rightarrow> uint64 option" where
  "nibblesLoop w [] = Some w"
| "nibblesLoop w (c # cs) =
     (case decodeNibble c of None \<Rightarrow> None | Some nib \<Rightarrow> nibblesLoop (w * 16 + of_nat nib) cs)"

fun wordsLoop :: "nat \<Rightarrow> string \<Rightarrow> nat \<Rightarrow> uint64 list option" where
  "wordsLoop 0 raw stop = Some []"
| "wordsLoop (Suc k) raw stop =
     (let start = stop - bigWordNibbles in
      case nibblesLoop 0 (take (stop - start) (drop start raw)) of None \<Rightarrow> None
      | Some w \<Rightarrow> map_option ((#) w) (wordsLoop k raw start))"

definition SetBits :: "uint64 list \<Rightarrow> int" where
  "SetBits ws = foldr (\<lambda>w n. int (unat w) + 2 ^ 64 * n) ws 0"

definition DecodeBig :: "string \<Rightarrow> decError + int" where
  "DecodeBig input =
     (case checkNumber input of Inl e \<Rightarrow> Inl e
      | Inr raw \<Rightarrow>
         if length raw > 64 then Inl ErrBig256Range
         else (case wordsLoop (length raw div bigWordNibbles + 1) raw (length raw) of
             None \<Rightarrow> Inl ErrSyntax | Some words \<Rightarrow> Inr (SetBits words)))"

definition MustDecodeBig :: "string \<Rightarrow> int outcome" where
  "MustDecodeBig input = (case DecodeBig input of Inl _ \<Rightarrow> Panicked | Inr v \<Rightarrow> Returned v)"

definition EncodeBig :: "int \<Rightarrow> string" where
  "EncodeBig bigint =
     (if BitLen bigint = 0 then ''0x0''
      else (if bigint < 0 then ''-'' else []) @ ''0x'' @ hexDigits (nat \<bar>bigint\<bar>))"

section \<open>common/hexutil/json.go: numbers\<close>

definition isString :: "string \<Rightarrow> bool" where
  "isString input \<longleftrightarrow> 2 \<le> length input \<and> input ! 0 = CHR 0x22 \<and> input ! (length input - 1) = CHR 0x22"

definition unquote :: "string \<Rightarrow> string" where
  "unquote input = take (length input - 2) (drop 1 input)"

text \<open>An empty text is allowed and stands for no digits.\<close>

definition checkNumberText :: "string \<Rightarrow> decError + string" where
  "checkNumberText input =
     (if length input = 0 then Inr []
      else if \<not> has0xPrefix input then Inl ErrMissingPrefix
      else (let input = drop 2 input in
        if length input = 0 then Inl ErrEmptyNumber
        else if length input > 1 \<and> input ! 0 = CHR ''0'' then Inl ErrLeadingZero
        else Inr input))"

definition Big_MarshalText :: "int \<Rightarrow> string" where
  "Big_MarshalText b = EncodeBig b"

definition Big_UnmarshalText :: "string \<Rightarrow> decError + int" where
  "Big_UnmarshalText input =
     (case checkNumberText input of Inl e \<Rightarrow> Inl e
      | Inr raw \<Rightarrow>
         if length raw > 64 then Inl ErrBig256Range
         else (case wordsLoop (length raw div bigWordNibbles + 1) raw (length raw) of
             None \<Rightarrow> Inl ErrSyntax | Some words \<Rightarrow> Inr (SetBits words)))"

definition Big_UnmarshalJSON :: "string \<Rightarrow> decError + int" where
  "Big_UnmarshalJSON input = (if \<not> isString input then Inl ErrNonString else Big_UnmarshalText (unquote input))"

definition Uint64_MarshalText :: "uint64 \<Rightarrow> string" where
  "Uint64_MarshalText b = ''0x'' @ hexDigits (unat b)"

definition Uint64_UnmarshalText :: "string \<Rightarrow> decError + uint64" where
  "Uint64_UnmarshalText input =
     (case checkNumberText input of Inl e \<Rightarrow> Inl e
      | Inr raw \<Rightarrow>
         if length raw > 16 then Inl ErrUint64Range
         else (case nibblesLoop 0 raw of None \<Rightarrow> Inl ErrSyntax | Some dec \<Rightarrow> Inr dec))"

definition Uint64_UnmarshalJSON :: "string \<Rightarrow> decError + uint64" where
  "Uint64_UnmarshalJSON input = (if \<not> isString input then Inl ErrNonString else Uint64_UnmarshalText (unquote input))"

definition Uint_MarshalText :: "uint64 \<Rightarrow> string" where
  "Uint_MarshalText b = Uint64_MarshalText b"

definition Uint_UnmarshalText :: "string \<Rightarrow> decError + uint64" where
  "Uint_UnmarshalText input =
     (case Uint64_UnmarshalText input of
        Inl e \<Rightarrow> if e = ErrUint64Range then Inl ErrUintRange else Inl e
      | Inr u64 \<Rightarrow> if u64 > of_nat MaxUint64 then Inl ErrUintRange else Inr u64)"

definition Uint_UnmarshalJSON :: "string \<Rightarrow> decError + uint64" where
  "Uint_UnmarshalJSON input = (if \<not> isString input then Inl ErrNonString else Uint_UnmarshalText (unquote input))"

section \<open>Hexadecimal digits\<close>

lemma hextable_0: "hextable 0 = CHR ''0''"
  by (simp add: hextable_def char_of_def bit_0)

lemma fromHexChar_hextable: "n < 16 \<Longrightarrow> fromHexChar (hextable n) = Some n" "n < 16 \<Longrightarrow> decodeNibble (hextable n) = Some n"
  by (simp_all add: nibble_roundtrip decodeNibble_fromHexChar)

definition hexVal :: "string \<Rightarrow> nat" where
  "hexVal s = fold (\<lambda>c n. n * 16 + the (fromHexChar c)) s 0"

lemma hexVal_snoc: "hexVal (s @ [c]) = hexVal s * 16 + the (fromHexChar c)"
  by (simp add: hexVal_def)

lemma hexDigits_props:
  "hexDigits n \<noteq> [] \<and> list_all (\<lambda>c. fromHexChar c \<noteq> None) (hexDigits n) \<and> hexVal (hexDigits n) = n \<and>
    (0 < n \<longrightarrow> hd (hexDigits n) \<noteq> CHR ''0'')"
proof (induction n rule: hexDigits.induct)
  case (1 n)
  show ?case
  proof (cases "n < 16")
    case True
    have "hextable n \<noteq> CHR ''0''" if "0 < n"
    proof
      assume "hextable n = CHR ''0''"
      then have "fromHexChar (hextable n) = Some 0" by (simp add: fromHexChar_def)
      with that True show False by (simp add: fromHexChar_hextable)
    qed
    with True show ?thesis by (subst (1 2 3 4) hexDigits.simps) (simp add: fromHexChar_hextable hexVal_def)
  next
    case False
    with 1 show ?thesis
      by (subst (1 2 3 4) hexDigits.simps) (auto simp: hexVal_snoc fromHexChar_hextable hd_append)
  qed
qed

lemma hexVal_less: "list_all (\<lambda>c. fromHexChar c \<noteq> None) s \<Longrightarrow> hexVal s < 16 ^ length s"
proof (induction s rule: rev_induct)
  case (snoc c s)
  then obtain d where d: "fromHexChar c = Some d" by auto
  then have "d < 16" by (auto simp: fromHexChar_def Let_def split: if_splits)
  then show ?case using snoc d by (simp add: hexVal_snoc)
qed (simp add: hexVal_def)

lemma length_hexDigits: "0 < k \<Longrightarrow> n < 16 ^ k \<Longrightarrow> length (hexDigits n) \<le> k"
proof (induction n arbitrary: k rule: hexDigits.induct)
  case (1 n)
  show ?case
  proof (cases "n < 16")
    case False
    then obtain j where j: "k = Suc j" "0 < j" using 1(2,3) by (cases k; cases "k - 1") auto
    with 1(3) have "n div 16 < 16 ^ j" by (simp add: less_mult_imp_div_less mult.commute)
    with 1(1)[OF False j(2)] False j show ?thesis by (subst hexDigits.simps) simp
  qed (use 1(2) in \<open>subst hexDigits.simps, simp\<close>)
qed

lemma hexVal_append: "hexVal (s @ t) = hexVal s * 16 ^ length t + hexVal t"
  by (induction t rule: rev_induct) (simp_all add: hexVal_def algebra_simps)

lemma nibblesLoop_val:
  "list_all (\<lambda>c. fromHexChar c \<noteq> None) s \<Longrightarrow>
    nibblesLoop (of_nat n) s = Some (of_nat (fold (\<lambda>c n. n * 16 + the (fromHexChar c)) s n))"
proof (induction s arbitrary: n)
  case (Cons c s)
  then obtain d where "fromHexChar c = Some d" by auto
  then show ?case using Cons.IH[of "n * 16 + d"] Cons.prems by (simp add: decodeNibble_fromHexChar)
qed simp

lemma nibblesLoop_hexVal: "list_all (\<lambda>c. fromHexChar c \<noteq> None) s \<Longrightarrow> nibblesLoop 0 s = Some (of_nat (hexVal s))"
  using nibblesLoop_val[of s 0] by (simp add: hexVal_def)

lemma unat_hexVal:
  assumes "list_all (\<lambda>c. fromHexChar c \<noteq> None) s" "length s \<le> 16"
  shows "unat (of_nat (hexVal s) :: uint64) = hexVal s"
proof -
  have "hexVal s < 16 ^ length s" by (rule hexVal_less[OF assms(1)])
  also have "(16 :: nat) ^ length s \<le> 16 ^ 16" using assms(2) by (intro power_increasing) simp_all
  finally show ?thesis by (simp add: unat_of_nat)
qed

lemma hexVal_mono: "n \<le> fold (\<lambda>c n. n * 16 + the (fromHexChar c)) s (n :: nat)"
proof (induction s arbitrary: n)
  case (Cons c s)
  have "n \<le> n * 16 + the (fromHexChar c)" by simp
  also have "\<dots> \<le> fold (\<lambda>c n. n * 16 + the (fromHexChar c)) s (n * 16 + the (fromHexChar c))" by (rule Cons)
  finally show ?case by simp
qed simp

lemma parseDigits_val:
  "list_all (\<lambda>c. fromHexChar c \<noteq> None) s \<Longrightarrow> fold (\<lambda>c n. n * 16 + the (fromHexChar c)) s n < 2 ^ 64 \<Longrightarrow>
    parseDigits 16 n s = Inr (fold (\<lambda>c n. n * 16 + the (fromHexChar c)) s n)"
proof (induction s arbitrary: n)
  case (Cons c s)
  then obtain d where d: "fromHexChar c = Some d" by auto
  then have "d < 16" by (auto simp: fromHexChar_def Let_def split: if_splits)
  then show ?case using Cons d hexVal_mono[of "n * 16 + d" s] by simp
qed simp

lemma ParseUint_hexDigits: "ParseUint (hexDigits (unat (i :: uint64))) 16 = Inr i"
proof -
  note h = hexDigits_props[of "unat i"]
  have "unat i < 2 ^ 64" using unsigned_less[of i, where ?'a = nat] by simp
  then have "parseDigits 16 0 (hexDigits (unat i)) = Inr (unat i)"
    using parseDigits_val[of "hexDigits (unat i)" 0] h by (simp add: hexVal_def)
  then show ?thesis using h by (simp add: ParseUint_def)
qed

lemma checkNumber_hexDigits:
  "checkNumber (''0x'' @ hexDigits n) = Inr (hexDigits n)" "checkNumberText (''0x'' @ hexDigits n) = Inr (hexDigits n)"
proof -
  note h = hexDigits_props[of n]
  have "hexDigits n ! 0 \<noteq> CHR ''0''" if "1 < length (hexDigits n)"
    using that h by (cases "n = 0") (auto simp: hexDigits.simps[of 0] hd_conv_nth)
  then show "checkNumber (''0x'' @ hexDigits n) = Inr (hexDigits n)" "checkNumberText (''0x'' @ hexDigits n) = Inr (hexDigits n)"
    using h by (auto simp: checkNumber_def checkNumberText_def has0xPrefix_def Let_def)
qed

lemma SetBits_Cons: "SetBits (w # ws) = uint w + 2 ^ 64 * SetBits ws"
  by (simp add: SetBits_def)

lemma wordsLoop_val:
  assumes "list_all (\<lambda>c. fromHexChar c \<noteq> None) raw"
  shows "stop \<le> length raw \<Longrightarrow> stop \<le> 16 * k \<Longrightarrow>
    \<exists>ws. wordsLoop k raw stop = Some ws \<and> SetBits ws = int (hexVal (take stop raw))"
proof (induction k arbitrary: stop)
  case (Suc k)
  let ?start = "stop - 16" and ?chunk = "take (stop - (stop - 16)) (drop (stop - 16) raw)"
  have all: "list_all (\<lambda>c. fromHexChar c \<noteq> None) ?chunk"
    using assms unfolding list_all_iff by (meson in_set_dropD in_set_takeD)
  have len: "length ?chunk = stop - ?start" using Suc.prems(1) by simp
  obtain ws where ws: "wordsLoop k raw ?start = Some ws" "SetBits ws = int (hexVal (take ?start raw))"
    using Suc.IH[of ?start] Suc.prems by fastforce
  have app: "take stop raw = take ?start raw @ ?chunk"
    using take_add[of ?start "stop - ?start" raw] by simp
  have "hexVal (take ?start raw) * 16 ^ (stop - ?start) = hexVal (take ?start raw) * 2 ^ 64"
    by (cases "stop \<le> 16") (simp_all add: hexVal_def)
  then have "hexVal (take stop raw) = hexVal ?chunk + 2 ^ 64 * hexVal (take ?start raw)"
    unfolding app hexVal_append len by auto
  moreover have "unat (of_nat (hexVal ?chunk) :: uint64) = hexVal ?chunk" by (rule unat_hexVal[OF all]) (simp add: len)
  then have "uint (of_nat (hexVal ?chunk) :: uint64) = int (hexVal ?chunk)" by (metis of_nat_unat)
  moreover have "wordsLoop (Suc k) raw stop = Some (of_nat (hexVal ?chunk) # ws)"
    by (simp add: Let_def bigWordNibbles_def ws(1) nibblesLoop_hexVal[OF all])
  ultimately show ?case using ws(2) by (intro exI[of _ "of_nat (hexVal ?chunk) # ws"]) (simp add: SetBits_Cons)
qed (simp add: SetBits_def hexVal_def)

lemma Decode_hexDigits:
  assumes "n < 2 ^ 256"
  shows "wordsLoop (length (hexDigits n) div bigWordNibbles + 1) (hexDigits n) (length (hexDigits n)) = Some ws \<Longrightarrow> SetBits ws = int n"
    "\<exists>ws. wordsLoop (length (hexDigits n) div bigWordNibbles + 1) (hexDigits n) (length (hexDigits n)) = Some ws"
    "length (hexDigits n) \<le> 64"
proof -
  note h = hexDigits_props[of n]
  have "length (hexDigits n) \<le> 16 * (length (hexDigits n) div bigWordNibbles + 1)" by (simp add: bigWordNibbles_def)
  from wordsLoop_val[of "hexDigits n", OF _ order_refl this]
  show "wordsLoop (length (hexDigits n) div bigWordNibbles + 1) (hexDigits n) (length (hexDigits n)) = Some ws \<Longrightarrow> SetBits ws = int n"
    "\<exists>ws. wordsLoop (length (hexDigits n) div bigWordNibbles + 1) (hexDigits n) (length (hexDigits n)) = Some ws"
    using h by auto
  show "length (hexDigits n) \<le> 64" using length_hexDigits[of 64 n] assms by simp
qed

section \<open>Exponentiation\<close>

lemma U256_mod: "U256 x = x mod 2 ^ 256"
proof -
  have "tt256m1 = mask 256" by (simp add: tt256m1_def tt256_def mask_eq_exp_minus_1)
  then have "U256 x = take_bit 256 x" by (simp only: U256_def take_bit_eq_mask)
  then show ?thesis by (simp only: take_bit_eq_mod)
qed

lemma word_halves: "unat (w :: uint64) = 2 * unat (drop_bit 1 w) + (if w AND 1 = 1 then 1 else 0)"
proof -
  have "unat (drop_bit 1 w) = unat w div 2" by (simp add: drop_bit_eq_div unat_div)
  moreover have "(w AND 1 = 1) = odd (unat w)"
  proof -
    have "odd (unat w) \<longleftrightarrow> bit (unat w) 0" "odd w \<longleftrightarrow> bit w 0" by (simp_all only: bit_0)
    then have "odd (unat w) \<longleftrightarrow> odd w" by (simp add: bit_unsigned_iff del: bit_0)
    then show ?thesis by (simp add: and_one_eq odd_iff_mod_2_eq_one)
  qed
  ultimately show ?thesis by simp
qed

lemma square_step:
  fixes r b M :: int
  shows "(if c then r * b mod M else r) * (b * b mod M) ^ k mod M = r * b ^ (2 * k + (if c then 1 else 0)) mod M"
proof -
  have "(b * b mod M) ^ k mod M = b ^ (2 * k) mod M" by (simp add: power_mod power_mult power2_eq_square)
  then have "x * (b * b mod M) ^ k mod M = x * b ^ (2 * k) mod M" for x by (metis mod_mult_right_eq)
  moreover have "(r * b mod M) * b ^ (2 * k) mod M = r * b ^ (2 * k + 1) mod M"
    by (simp add: mod_mult_left_eq mult.assoc)
  ultimately show ?thesis by simp
qed

lemma mod_mult_power:
  fixes x y M :: int
  shows "(x mod M) * (y mod M) ^ k mod M = x * y ^ k mod M"
  by (metis mod_mult_left_eq mod_mult_right_eq power_mod)

lemma expWord_val:
  assumes "unat w < 2 ^ n" "0 \<le> r" "r < 2 ^ 256"
  shows "fst (expWord n w b r) = r * b ^ unat w mod 2 ^ 256 \<and>
    snd (expWord n w b r) mod 2 ^ 256 = b ^ (2 ^ n) mod 2 ^ 256 \<and>
    (0 < n \<longrightarrow> snd (expWord n w b r) = b ^ (2 ^ n) mod 2 ^ 256)"
  using assms
proof (induction n arbitrary: w b r)
  case (Suc n)
  let ?b = "U256 (b * b)" and ?r = "if w AND 1 = 1 then U256 (r * b) else r" and ?w = "drop_bit 1 w :: uint64"
  have w: "unat w = 2 * unat ?w + (if w AND 1 = 1 then 1 else 0)" by (rule word_halves)
  have IH: "fst (expWord n ?w ?b ?r) = ?r * ?b ^ unat ?w mod 2 ^ 256"
    "snd (expWord n ?w ?b ?r) mod 2 ^ 256 = ?b ^ (2 ^ n) mod 2 ^ 256"
    "0 < n \<Longrightarrow> snd (expWord n ?w ?b ?r) = ?b ^ (2 ^ n) mod 2 ^ 256"
    using Suc.IH[of ?w ?r ?b] Suc.prems w by (auto simp: U256_mod)
  have 1: "fst (expWord (Suc n) w b r) = r * b ^ unat w mod 2 ^ 256"
    using IH(1) square_step[of "w AND 1 = 1" r b "2 ^ 256" "unat ?w"] by (simp only: expWord.simps U256_mod w)
  have 2: "?b ^ (2 ^ n) mod 2 ^ 256 = b ^ (2 ^ Suc n) mod 2 ^ 256"
    using square_step[of False 1 b "2 ^ 256" "2 ^ n"] by (simp only: U256_mod power_Suc if_False mult_1 add_0_right)
  have 3: "snd (expWord (Suc n) w b r) = b ^ (2 ^ Suc n) mod 2 ^ 256"
    using IH(3) 2 by (cases "n = 0") (simp_all add: U256_mod power2_eq_square del: power_Suc)
  show ?case using 1 3 by (simp del: expWord.simps power_Suc)
qed simp

lemma expWord_word:
  assumes "0 \<le> r" "r < 2 ^ 256" "expWord wordBits w b r = (r', b')"
  shows "r' = r * b ^ unat w mod 2 ^ 256" "b' = b ^ (2 ^ wordBits) mod 2 ^ 256"
proof -
  have "unat w < 2 ^ wordBits" using unsigned_less[of w, where ?'a = nat] by (simp add: wordBits_def)
  from expWord_val[OF this assms(1,2), of b] assms(3)
  show "r' = r * b ^ unat w mod 2 ^ 256" "b' = b ^ (2 ^ wordBits) mod 2 ^ 256"
    by (simp_all only: fst_conv snd_conv) (simp add: wordBits_def)
qed

definition bitsVal :: "uint64 list \<Rightarrow> nat" where
  "bitsVal ws = foldr (\<lambda>w n. unat w + 2 ^ wordBits * n) ws 0"

lemma bitsVal_bitsOf: "bitsVal (bitsOf n) = n"
proof (induction n rule: bitsOf.induct)
  case (1 n)
  show ?case
  proof (cases "n = 0")
    case False
    have "unat (of_nat (n mod 2 ^ 64) :: uint64) = n mod 2 ^ 64" by (simp add: unat_of_nat take_bit_eq_mod)
    then show ?thesis using 1[OF False] False
      by (subst bitsOf.simps) (simp add: bitsVal_def wordBits_def div_mult_mod_eq add.commute)
  qed (simp add: bitsOf.simps bitsVal_def)
qed

lemma expWords_val:
  "0 \<le> r \<Longrightarrow> r < 2 ^ 256 \<Longrightarrow> fst (expWords ws b r) = r * b ^ bitsVal ws mod 2 ^ 256"
proof (induction ws arbitrary: b r)
  case (Cons w ws)
  obtain r' b' where e: "expWord wordBits w b r = (r', b')" by fastforce
  note v = expWord_word[OF Cons.prems e]
  have "fst (expWords (w # ws) b r) = r' * b' ^ bitsVal ws mod 2 ^ 256"
    using Cons.IH[of r' b'] v(1) by (simp add: e)
  also have "\<dots> = r * b ^ unat w * (b ^ (2 ^ wordBits)) ^ bitsVal ws mod 2 ^ 256"
    unfolding v by (rule mod_mult_power)
  also have "\<dots> = r * b ^ bitsVal (w # ws) mod 2 ^ 256"
    by (simp only: bitsVal_def foldr.simps o_apply power_add power_mult mult.assoc)
  finally show ?case .
qed (simp add: bitsVal_def)

lemma expWords_even:
  assumes "even b" "ws \<noteq> []" "0 \<le> r" "r < 2 ^ 256"
  shows "snd (expWords ws b r) = 0"
  using assms
proof (induction ws arbitrary: b r)
  case (Cons w ws)
  obtain r' b' where e: "expWord wordBits w b r = (r', b')" by fastforce
  note v = expWord_word[OF Cons.prems(3,4) e]
  have "(2 :: int) ^ 256 dvd b ^ 256" using Cons.prems(1) by (rule dvd_power_same)
  also have "b ^ 256 dvd b ^ (2 ^ wordBits)" by (rule le_imp_power_dvd) (simp add: wordBits_def)
  finally have "b' = 0" using v(2) by (simp only: dvd_imp_mod_0)
  then show ?case using Cons.IH[of b' r'] v(1) by (cases "ws = []") (simp_all add: e)
qed simp

section \<open>Checked arithmetic\<close>

lemma unat_max: "unat (of_nat MaxUint64 :: uint64) = 2 ^ 64 - 1" "unat (x :: uint64) < 2 ^ 64"
  using unsigned_less[of x, where ?'a = nat] by (simp_all add: MaxUint64_def)

lemma SafeAdd_exact:
  "snd (SafeAdd x y) \<longleftrightarrow> 2 ^ 64 \<le> unat x + unat y" "\<not> snd (SafeAdd x y) \<Longrightarrow> unat (fst (SafeAdd x y)) = unat x + unat y"
proof -
  have "x \<le> of_nat MaxUint64" unfolding word_le_nat_alt unat_max(1) using unat_max(2)[of x] by linarith
  then have "unat (of_nat MaxUint64 - x) = 2 ^ 64 - 1 - unat x" by (simp only: unat_sub unat_max(1))
  then show *: "snd (SafeAdd x y) \<longleftrightarrow> 2 ^ 64 \<le> unat x + unat y"
    using unat_max(2)[of x] by (simp only: SafeAdd_def snd_conv word_less_nat_alt) linarith
  show "unat (fst (SafeAdd x y)) = unat x + unat y" if "\<not> snd (SafeAdd x y)"
    using that unfolding * by (simp add: SafeAdd_def unat_word_ariths)
qed

lemma SafeMul_exact:
  "snd (SafeMul x y) \<longleftrightarrow> 2 ^ 64 \<le> unat x * unat y" "\<not> snd (SafeMul x y) \<Longrightarrow> unat (fst (SafeMul x y)) = unat x * unat y"
proof -
  have "of_nat MaxUint64 div x < y \<longleftrightarrow> 2 ^ 64 \<le> unat x * unat y" if "x \<noteq> 0"
  proof -
    have "0 < unat x" using that by (simp add: unat_gt_0)
    then have "(2 ^ 64 - 1) div unat x < unat y \<longleftrightarrow> 2 ^ 64 - 1 < unat y * unat x" by (rule div_less_iff_less_mult)
    then show ?thesis by (simp only: word_less_nat_alt unat_div unat_max(1)) (simp add: mult.commute less_eq_Suc_le)
  qed
  then show *: "snd (SafeMul x y) \<longleftrightarrow> 2 ^ 64 \<le> unat x * unat y" by (auto simp: SafeMul_def)
  show "unat (fst (SafeMul x y)) = unat x * unat y" if "\<not> snd (SafeMul x y)"
    using that unfolding * by (auto simp: SafeMul_def unat_word_ariths)
qed

section \<open>Properties\<close>

text \<open>The overflow flags are right: \<^verbatim>\<open>SafeAdd\<close>, \<^verbatim>\<open>SafeSub\<close> and \<^verbatim>\<open>SafeMul\<close> report an overflow exactly if the true
  result does not fit 64 bits, and without one they return the true result.\<close>

theorem safe_arithmetic:
  "(snd (SafeAdd x y) \<longleftrightarrow> 2 ^ 64 \<le> unat x + unat y) \<and> (\<not> snd (SafeAdd x y) \<longrightarrow> unat (fst (SafeAdd x y)) = unat x + unat y) \<and>
   (snd (SafeSub x y) \<longleftrightarrow> unat x < unat y) \<and> (\<not> snd (SafeSub x y) \<longrightarrow> unat (fst (SafeSub x y)) = unat x - unat y) \<and>
   (snd (SafeMul x y) \<longleftrightarrow> 2 ^ 64 \<le> unat x * unat y) \<and> (\<not> snd (SafeMul x y) \<longrightarrow> unat (fst (SafeMul x y)) = unat x * unat y)"
  using SafeAdd_exact[of x y] SafeMul_exact[of x y] by (simp add: SafeSub_def word_less_nat_alt unat_sub word_le_nat_alt)

theorem safe_arithmetic_witness:
  "snd (SafeAdd (2 ^ 63) (2 ^ 63)) \<and> \<not> snd (SafeMul (2 ^ 32) (2 ^ 31)) \<and> unat (fst (SafeMul (2 ^ 32) (2 ^ 31))) = 2 ^ 63"
  using safe_arithmetic[of "2 ^ 63" "2 ^ 63"] safe_arithmetic[of "2 ^ 32" "2 ^ 31"] by simp

text \<open>Quantities survive the trip through text: every 64-bit number, and every natural number below \<open>2 ^ 256\<close>,
  is decoded from its encoding as the same number, by the functions and by the JSON types.\<close>

theorem quantity_roundtrip:
  assumes "0 \<le> n" "n < 2 ^ 256"
  shows "DecodeUint64 (EncodeUint64 i) = Inr i \<and> Uint64_UnmarshalText (Uint64_MarshalText i) = Inr i \<and>
    ParseUint64 (HexOrDecimal64_MarshalText i) = (i, True) \<and>
    DecodeBig (EncodeBig n) = Inr n \<and> Big_UnmarshalText (Big_MarshalText n) = Inr n"
proof -
  have enc: "EncodeBig n = ''0x'' @ hexDigits (nat n)"
    using assms(1) by (cases "n = 0") (simp_all add: EncodeBig_def BitLen_def bitLen.simps hexDigits.simps[of 0] hextable_0)
  have "nat n < 2 ^ 256" using assms by (simp add: nat_less_iff)
  note d = Decode_hexDigits[OF this]
  have big: "DecodeBig (EncodeBig n) = Inr n" "Big_UnmarshalText (Big_MarshalText n) = Inr n"
    using d assms(1) unfolding DecodeBig_def Big_UnmarshalText_def Big_MarshalText_def enc checkNumber_hexDigits
    by (auto simp: not_less)
  have len: "length (hexDigits (unat i)) \<le> 16" using length_hexDigits[of 16 "unat i"] unat_max(2)[of i] by simp
  have u: "Uint64_UnmarshalText (Uint64_MarshalText i) = Inr i"
    using len hexDigits_props[of "unat i"]
    unfolding Uint64_UnmarshalText_def Uint64_MarshalText_def checkNumber_hexDigits by (simp add: nibblesLoop_hexVal)
  show ?thesis using big u
    unfolding DecodeUint64_def EncodeUint64_def checkNumber_hexDigits ParseUint64_def HexOrDecimal64_MarshalText_def
    by (simp add: ParseUint_hexDigits)
qed

theorem quantity_roundtrip_witness: "DecodeBig (EncodeBig (2 ^ 255)) = Inr (2 ^ 255)"
  using quantity_roundtrip[of "2 ^ 255" 0] by simp

text \<open>\<^verbatim>\<open>Exp\<close> returns the power of the base modulo \<open>2 ^ 256\<close>, but it does change its argument: after the call an
  even base is zero, whatever non-zero exponent was given.\<close>

theorem exp_and_its_base:
  "fst (Exp b e) = b ^ nat \<bar>e\<bar> mod 2 ^ 256 \<and> (even b \<and> e \<noteq> 0 \<longrightarrow> snd (Exp b e) = 0)"
proof -
  have ne: "Bits e \<noteq> []" if "e \<noteq> 0" using that by (simp add: Bits_def bitsOf.simps[of "nat \<bar>e\<bar>"])
  have "fst (Exp b e) = b ^ nat \<bar>e\<bar> mod 2 ^ 256"
    unfolding Exp_def using expWords_val[of 1 "Bits e" b] by (simp only: Bits_def bitsVal_bitsOf) simp
  moreover have "snd (Exp b e) = 0" if "even b" "e \<noteq> 0"
    unfolding Exp_def using expWords_even[OF that(1) ne[OF that(2)], of 1] by simp
  ultimately show ?thesis by blast
qed

theorem exp_and_its_base_witness: "Exp 2 10 = (1024, 0)"
  using exp_and_its_base[of 2 10] by (simp add: prod_eq_iff)

end
