(* ===== verification/Accounts.thy ===== *)
theory Accounts
  imports Prelude
begin

text \<open>
  The account manager of \<^verbatim>\<open>account/manager.go\<close>: a cache of wallets, sorted by URL, that follows the
  arrivals and departures its backends report.  The type of URLs and the methods of a wallet are not
  under \<^verbatim>\<open>src/\<close>: a URL is an element of a linear order (\<^verbatim>\<open>Cmp\<close>), a wallet a record of what its
  methods return.  The event loop is a step relation; the mutex makes every event one step.
\<close>

section \<open>account/accounts.go\<close>

record ('u, 'a) Wallet =
  w_URL :: 'u
  w_Accounts :: "'a list"
  w_Contains :: "'a \<Rightarrow> bool"

datatype WalletEventType = WalletArrived | WalletOpened | WalletDropped

record ('u, 'a) WalletEvent =
  we_Wallet :: "('u, 'a) Wallet"
  we_Kind :: WalletEventType

datatype accountError = ErrUnknownAccount | ErrUnknownWallet | ErrBadURL

section \<open>account/manager.go\<close>

text \<open>\<^verbatim>\<open>sort.Search\<close> of the standard library: a binary search for the first index at which \<open>f\<close> holds.\<close>

function searchLoop :: "(nat \<Rightarrow> bool) \<Rightarrow> nat \<Rightarrow> nat \<Rightarrow> nat" where
  "searchLoop f i j =
     (if i < j then (let h = (i + j) div 2 in if \<not> f h then searchLoop f (h + 1) j else searchLoop f i h) else i)"
  by auto
termination by (relation "measure (\<lambda>(f, i, j). j - i)") auto

declare searchLoop.simps [simp del]

definition sort_Search :: "nat \<Rightarrow> (nat \<Rightarrow> bool) \<Rightarrow> nat" where
  "sort_Search n f = searchLoop f 0 n"

fun merge :: "('u :: linorder, 'a) Wallet list \<Rightarrow> ('u, 'a) Wallet list \<Rightarrow> ('u, 'a) Wallet list" where
  "merge cache [] = cache"
| "merge cache (wallet # wallets) =
     (let n = sort_Search (length cache) (\<lambda>i. w_URL (cache ! i) \<ge> w_URL wallet) in
      if n = length cache then merge (cache @ [wallet]) wallets
      else merge (take n cache @ [wallet] @ drop n cache) wallets)"

fun drop_wallets :: "('u :: linorder, 'a) Wallet list \<Rightarrow> ('u, 'a) Wallet list \<Rightarrow> ('u, 'a) Wallet list" where
  "drop_wallets cache [] = cache"
| "drop_wallets cache (wallet # wallets) =
     (let n = sort_Search (length cache) (\<lambda>i. w_URL (cache ! i) \<ge> w_URL wallet) in
      if n = length cache then drop_wallets cache wallets
      else drop_wallets (take n cache @ drop (n + 1) cache) wallets)"

text \<open>The parts of the manager that change: the cache, and what has been sent to the listeners.\<close>

record ('u, 'a) Manager =
  am_wallets :: "('u, 'a) Wallet list"
  am_sent :: "('u, 'a) WalletEvent list"

definition NewManager :: "('u :: linorder, 'a) Wallet list list \<Rightarrow> ('u, 'a) Manager" where
  "NewManager backends = \<lparr>am_wallets = fold (\<lambda>backend wallets. merge wallets backend) backends [], am_sent = []\<rparr>"

text \<open>One round of the event loop.\<close>

definition handleEvent :: "('u :: linorder, 'a) WalletEvent \<Rightarrow> ('u, 'a) Manager \<Rightarrow> ('u, 'a) Manager" where
  "handleEvent event am =
     (let am = (case we_Kind event of
          WalletArrived \<Rightarrow> am\<lparr>am_wallets := merge (am_wallets am) [we_Wallet event]\<rparr>
        | WalletDropped \<Rightarrow> am\<lparr>am_wallets := drop_wallets (am_wallets am) [we_Wallet event]\<rparr>
        | WalletOpened \<Rightarrow> am)
      in am\<lparr>am_sent := am_sent am @ [event]\<rparr>)"

inductive update :: "('u :: linorder, 'a) Manager \<Rightarrow> ('u, 'a) Manager \<Rightarrow> bool" where
  event: "update am (handleEvent event am)"

definition Wallets :: "('u, 'a) Manager \<Rightarrow> ('u, 'a) Wallet list" where
  "Wallets am = am_wallets am"

fun findURL :: "'u \<Rightarrow> ('u, 'a) Wallet list \<Rightarrow> accountError + ('u, 'a) Wallet" where
  "findURL url [] = Inl ErrUnknownWallet"
| "findURL url (w # ws) = (if w_URL w = url then Inr w else findURL url ws)"

definition Manager_Wallet :: "(string \<Rightarrow> 'u option) \<Rightarrow> string \<Rightarrow> ('u, 'a) Manager \<Rightarrow> accountError + ('u, 'a) Wallet" where
  "Manager_Wallet parseURL url am =
     (case parseURL url of None \<Rightarrow> Inl ErrBadURL | Some parsed \<Rightarrow> findURL parsed (Wallets am))"

fun findAccount :: "'a \<Rightarrow> ('u, 'a) Wallet list \<Rightarrow> accountError + ('u, 'a) Wallet" where
  "findAccount account [] = Inl ErrUnknownAccount"
| "findAccount account (w # ws) = (if w_Contains w account then Inr w else findAccount account ws)"

definition Manager_Find :: "'a \<Rightarrow> ('u, 'a) Manager \<Rightarrow> accountError + ('u, 'a) Wallet" where
  "Manager_Find account am = findAccount account (am_wallets am)"

section \<open>Binary search\<close>

lemma searchLoop_spec:
  assumes mono: "\<And>i j. i \<le> j \<Longrightarrow> j < n \<Longrightarrow> f i \<Longrightarrow> f j"
  shows "i \<le> j \<Longrightarrow> j \<le> n \<Longrightarrow> (\<forall>k<i. \<not> f k) \<Longrightarrow> (j < n \<longrightarrow> f j) \<Longrightarrow>
    searchLoop f i j \<le> n \<and> (\<forall>k < searchLoop f i j. \<not> f k) \<and> (searchLoop f i j < n \<longrightarrow> f (searchLoop f i j))"
proof (induction "j - i" arbitrary: i j rule: less_induct)
  case less
  show ?case
  proof (cases "i < j")
    case True
    let ?h = "(i + j) div 2"
    have h: "i \<le> ?h" "?h < j" using True by auto
    have sl: "searchLoop f i j = (if \<not> f ?h then searchLoop f (?h + 1) j else searchLoop f i ?h)"
      using True by (subst searchLoop.simps) (simp add: Let_def)
    show ?thesis
    proof (cases "f ?h")
      case True
      have "searchLoop f i ?h \<le> n \<and> (\<forall>k < searchLoop f i ?h. \<not> f k) \<and> (searchLoop f i ?h < n \<longrightarrow> f (searchLoop f i ?h))"
        by (rule less(1)) (use True less(3,4) h in simp_all)
      moreover have "searchLoop f i j = searchLoop f i ?h" using sl True by simp
      ultimately show ?thesis by simp
    next
      case False
      then have "\<forall>k<?h + 1. \<not> f k" using mono[of _ ?h] h less(3) by (metis Suc_eq_plus1 less_Suc_eq_le less_le_trans)
      then have "searchLoop f (?h + 1) j \<le> n \<and> (\<forall>k < searchLoop f (?h + 1) j. \<not> f k) \<and>
          (searchLoop f (?h + 1) j < n \<longrightarrow> f (searchLoop f (?h + 1) j))"
        by (intro less(1)) (use less(3,5) h in simp_all)
      moreover have "searchLoop f i j = searchLoop f (?h + 1) j" using sl False by simp
      ultimately show ?thesis by simp
    qed
  next
    case False
    then have "searchLoop f i j = i" "i = j" using less(2) by (auto simp: searchLoop.simps[of f j j])
    then show ?thesis using less(3-5) by auto
  qed
qed

text \<open>In a sorted cache the search finds the end of the wallets with a smaller URL.\<close>

abbreviation by_URL :: "('u :: linorder, 'a) Wallet list \<Rightarrow> bool" where
  "by_URL ws \<equiv> sorted (map w_URL ws)"

lemma search_URL:
  assumes "by_URL ws" "n = sort_Search (length ws) (\<lambda>i. w_URL (ws ! i) \<ge> u)"
  shows "n \<le> length ws" "\<And>x. x \<in> set (take n ws) \<Longrightarrow> w_URL x < u" "\<And>x. x \<in> set (drop n ws) \<Longrightarrow> u \<le> w_URL x"
proof -
  have le: "w_URL (ws ! i) \<le> w_URL (ws ! j)" if "i \<le> j" "j < length ws" for i j
    using sorted_nth_mono[OF assms(1), of i j] that by simp
  have *: "n \<le> length ws \<and> (\<forall>k<n. \<not> w_URL (ws ! k) \<ge> u) \<and> (n < length ws \<longrightarrow> w_URL (ws ! n) \<ge> u)"
    unfolding assms(2) sort_Search_def by (rule searchLoop_spec) (use le in \<open>auto intro: order_trans\<close>)
  then show "n \<le> length ws" by simp
  show "w_URL x < u" if "x \<in> set (take n ws)" for x
    using * that by (auto simp: in_set_conv_nth not_le)
  show "u \<le> w_URL x" if x: "x \<in> set (drop n ws)" for x
  proof -
    obtain k where "k < length ws - n" "x = ws ! (n + k)" using x by (auto simp: in_set_conv_nth)
    then show ?thesis using * le[of n "n + k"] by (auto intro: order_trans)
  qed
qed

lemma sorted_split: "by_URL ws \<Longrightarrow> by_URL (take n ws) \<and> by_URL (drop n ws)"
  by (metis append_take_drop_id map_append sorted_append)

lemma in_set_tl: "x \<in> set (tl xs) \<Longrightarrow> x \<in> set xs"
  by (cases xs) auto

lemma sorted_join:
  assumes "by_URL xs" "by_URL ys" "\<And>x. x \<in> set xs \<Longrightarrow> w_URL x < u" "\<And>y. y \<in> set ys \<Longrightarrow> u \<le> w_URL y"
  shows "by_URL (xs @ ys)" "w_URL w = u \<Longrightarrow> by_URL (xs @ [w] @ ys)"
proof -
  have le: "w_URL x \<le> w_URL y" if "x \<in> set xs" "y \<in> set ys" for x y
    using assms(3)[OF that(1)] assms(4)[OF that(2)] by simp
  have lt: "w_URL x \<le> u" if "x \<in> set xs" for x using assms(3)[OF that] by simp
  show "by_URL (xs @ ys)" "w_URL w = u \<Longrightarrow> by_URL (xs @ [w] @ ys)"
    using assms(1,2,4) le lt by (simp_all add: sorted_append)
qed

lemma merge_one:
  assumes "by_URL ws"
  shows "by_URL (merge ws [w])" "mset (merge ws [w]) = add_mset w (mset ws)"
proof -
  let ?n = "sort_Search (length ws) (\<lambda>i. w_URL (ws ! i) \<ge> w_URL w)"
  note n = search_URL[OF assms refl, where u = "w_URL w"]
  have eq: "merge ws [w] = take ?n ws @ [w] @ drop ?n ws" by (simp add: Let_def)
  show "by_URL (merge ws [w])" unfolding eq
    by (rule sorted_join(2)[OF _ _ n(2,3) refl]) (use sorted_split[OF assms, of ?n] in simp_all)
  show "mset (merge ws [w]) = add_mset w (mset ws)" unfolding eq
    using mset_append[of "take ?n ws" "drop ?n ws"] by simp
qed

lemma merge_Cons: "merge ws (v # vs) = merge (merge ws [v]) vs"
  by (simp add: Let_def)

lemma merge_all:
  "by_URL ws \<Longrightarrow> by_URL (merge ws vs) \<and> mset (merge ws vs) = mset ws + mset vs"
proof (induction vs arbitrary: ws)
  case (Cons v vs)
  show ?case unfolding merge_Cons[of ws v vs]
    using merge_one[OF Cons.prems, of v] Cons.IH[OF merge_one(1)[OF Cons.prems, of v]] by (simp del: merge.simps)
qed simp

lemma drop_one:
  assumes "by_URL ws"
  shows "by_URL (drop_wallets ws [w])"
    "drop_wallets ws [w] = takeWhile (\<lambda>x. w_URL x < w_URL w) ws @ tl (dropWhile (\<lambda>x. w_URL x < w_URL w) ws)"
proof -
  let ?n = "sort_Search (length ws) (\<lambda>i. w_URL (ws ! i) \<ge> w_URL w)"
  note n = search_URL[OF assms refl, where u = "w_URL w"]
  have eq: "drop_wallets ws [w] = take ?n ws @ tl (drop ?n ws)"
    by (simp add: Let_def drop_Suc tl_drop)
  have "takeWhile (\<lambda>x. w_URL x < w_URL w) ws = take ?n ws \<and> dropWhile (\<lambda>x. w_URL x < w_URL w) ws = drop ?n ws"
  proof (rule conjI)
    have "takeWhile (\<lambda>x. w_URL x < w_URL w) (take ?n ws @ drop ?n ws) = take ?n ws @ takeWhile (\<lambda>x. w_URL x < w_URL w) (drop ?n ws)"
      using n(2) by (intro takeWhile_append2)
    also have "takeWhile (\<lambda>x. w_URL x < w_URL w) (drop ?n ws) = []"
      using n(3)[of "hd (drop ?n ws)"] by (cases "drop ?n ws") (simp_all add: not_less)
    finally show "takeWhile (\<lambda>x. w_URL x < w_URL w) ws = take ?n ws" by simp
    have "dropWhile (\<lambda>x. w_URL x < w_URL w) (take ?n ws @ drop ?n ws) = dropWhile (\<lambda>x. w_URL x < w_URL w) (drop ?n ws)"
      using n(2) by (intro dropWhile_append2)
    also have "\<dots> = drop ?n ws" using n(3)[of "hd (drop ?n ws)"] by (cases "drop ?n ws") (simp_all add: not_less)
    finally show "dropWhile (\<lambda>x. w_URL x < w_URL w) ws = drop ?n ws" by simp
  qed
  then show "drop_wallets ws [w] = takeWhile (\<lambda>x. w_URL x < w_URL w) ws @ tl (dropWhile (\<lambda>x. w_URL x < w_URL w) ws)"
    using eq by simp
  have "by_URL (take ?n ws)" "by_URL (tl (drop ?n ws))"
    using sorted_split[OF assms] by (simp_all add: map_tl sorted_tl)
  then show "by_URL (drop_wallets ws [w])" unfolding eq
    by (rule sorted_join(1)[OF _ _ n(2,3)]) (auto dest: in_set_tl)
qed

section \<open>Runs of the event loop\<close>

definition arrived :: "('u, 'a) WalletEvent list \<Rightarrow> ('u, 'a) Wallet list" where
  "arrived es = map we_Wallet (filter (\<lambda>e. we_Kind e = WalletArrived) es)"

lemma handleEvent_sorted: "by_URL (am_wallets am) \<Longrightarrow> by_URL (am_wallets (handleEvent e am))"
  using merge_one[of "am_wallets am" "we_Wallet e"] drop_one[of "am_wallets am" "we_Wallet e"]
  by (cases "we_Kind e") (simp_all add: handleEvent_def Let_def del: merge.simps drop_wallets.simps)

lemma NewManager_sorted: "by_URL (am_wallets (NewManager backends)) \<and> mset (am_wallets (NewManager backends)) = mset (concat backends)"
proof -
  have "by_URL ws \<Longrightarrow> by_URL (fold (\<lambda>b ws. merge ws b) bs ws) \<and>
      mset (fold (\<lambda>b ws. merge ws b) bs ws) = mset ws + mset (concat bs)" for bs and ws :: "('a, 'b) Wallet list"
    by (induction bs arbitrary: ws) (auto simp: merge_all)
  from this[of "[]"] show ?thesis by (simp add: NewManager_def)
qed

lemma drop_present:
  assumes "by_URL ws" "w \<in> set ws" "\<And>x. x \<in> set ws \<Longrightarrow> w_URL x = w_URL w \<Longrightarrow> x = w"
  shows "add_mset w (mset (drop_wallets ws [w])) = mset ws"
proof -
  let ?P = "\<lambda>x. w_URL x < w_URL w"
  have "\<exists>x\<in>set ws. \<not> ?P x" using assms(2) by auto
  then obtain y ys where y: "dropWhile ?P ws = y # ys" by (cases "dropWhile ?P ws") (auto simp: dropWhile_eq_Nil_conv)
  then have split: "ws = takeWhile ?P ws @ y # ys" by (metis takeWhile_dropWhile_id)
  have ge: "\<not> ?P y" using hd_dropWhile[of ?P ws] y by simp
  have "w \<notin> set (takeWhile ?P ws)" using set_takeWhileD[of w ?P ws] by auto
  then have w: "w \<in> set (y # ys)" using assms(2) arg_cong[OF split, of set] by simp
  have "w_URL y \<le> w_URL x" if "x \<in> set (y # ys)" for x
    using assms(1) that by (subst (asm) split) (auto simp: sorted_append)
  from this[OF w] have "w_URL y = w_URL w" using ge by simp
  moreover have "y \<in> set ws" by (subst split) simp
  ultimately have "y = w" using assms(3) by blast
  then show ?thesis unfolding drop_one(2)[OF assms(1)] y by (subst (2) split) simp
qed

lemma reachable_sorted:
  assumes "update\<^sup>*\<^sup>* (NewManager backends) am"
  shows "by_URL (am_wallets am)"
  using assms by (induction rule: rtranclp_induct) (auto simp: NewManager_sorted handleEvent_sorted elim!: update.cases)

section \<open>Properties\<close>

definition url_wallet :: "nat \<Rightarrow> (nat, nat) Wallet" where
  "url_wallet n = \<lparr>w_URL = n, w_Accounts = [n], w_Contains = (\<lambda>a. a = n)\<rparr>"

lemma URL_url_wallet [simp]: "w_URL (url_wallet n) = n"
  by (simp add: url_wallet_def)

text \<open>In every state the event loop reaches, the cache is sorted by URL; an arriving wallet is added, and a
  wallet that departs is removed, without touching any other, provided no other wallet has its URL.\<close>

theorem wallet_cache:
  assumes "update\<^sup>*\<^sup>* (NewManager backends) am" "w \<in> set (am_wallets am)"
    and "\<And>x. x \<in> set (am_wallets am) \<Longrightarrow> w_URL x = w_URL w \<Longrightarrow> x = w"
  shows "sorted (map w_URL (am_wallets am)) \<and>
    mset (am_wallets (handleEvent \<lparr>we_Wallet = v, we_Kind = WalletArrived\<rparr> am)) = add_mset v (mset (am_wallets am)) \<and>
    add_mset w (mset (am_wallets (handleEvent \<lparr>we_Wallet = w, we_Kind = WalletDropped\<rparr> am))) = mset (am_wallets am)"
proof -
  have s: "by_URL (am_wallets am)" by (rule reachable_sorted[OF assms(1)])
  show ?thesis using s merge_one(2)[OF s, of v] drop_present[OF s assms(2,3)]
    by (simp add: handleEvent_def Let_def del: merge.simps drop_wallets.simps)
qed

theorem wallet_cache_witness:
  "add_mset (url_wallet 3) (mset (am_wallets (handleEvent \<lparr>we_Wallet = url_wallet 3, we_Kind = WalletDropped\<rparr>
    (NewManager [[url_wallet 3], [url_wallet 1]])))) = {#url_wallet 1, url_wallet 3#}"
proof -
  have n: "mset (am_wallets (NewManager [[url_wallet 3], [url_wallet 1]])) = {#url_wallet 3, url_wallet 1#}"
    using NewManager_sorted[of "[[url_wallet 3], [url_wallet 1]]"] by simp
  have "set (am_wallets (NewManager [[url_wallet 3], [url_wallet 1]])) = {url_wallet 3, url_wallet 1}"
    using arg_cong[OF n, of set_mset] by simp
  then have m: "url_wallet 3 \<in> set (am_wallets (NewManager [[url_wallet 3], [url_wallet 1]]))"
    "\<And>x. x \<in> set (am_wallets (NewManager [[url_wallet 3], [url_wallet 1]])) \<Longrightarrow> w_URL x = w_URL (url_wallet 3) \<Longrightarrow> x = url_wallet 3"
    by auto
  show ?thesis
    using conjunct2[OF conjunct2[OF wallet_cache[OF rtranclp.rtrancl_refl m, of "url_wallet 3"]]] n by simp
qed

text \<open>Dropping a wallet that is not in the cache removes another one: if every URL of the cache is different and
  some are larger, the wallet with the next larger URL goes.\<close>

theorem drop_removes_next:
  assumes "sorted (map w_URL (xs @ y # ys))" "\<And>x. x \<in> set xs \<Longrightarrow> w_URL x < w_URL w" "w_URL w < w_URL y"
  shows "drop_wallets (xs @ y # ys) [w] = xs @ ys"
proof -
  have "\<not> w_URL y < w_URL w" using assms(3) by simp
  then show ?thesis using drop_one(2)[OF assms(1), of w] assms(2)
    by (simp add: takeWhile_append2 dropWhile_append2 del: drop_wallets.simps)
qed

theorem drop_removes_next_witness: "drop_wallets [url_wallet 1, url_wallet 3] [url_wallet 2] = [url_wallet 1]"
  using drop_removes_next[of "[url_wallet 1]" "url_wallet 3" "[]" "url_wallet 2"] by (simp add: url_wallet_def)

end
