(* ===== verification/Feed.thy ===== *)
theory Feed
  imports Prelude
begin

text \<open>
  The one-to-many event feed of \<^verbatim>\<open>event/feed.go\<close>.  A \<^verbatim>\<open>Send\<close> holds the send lock while it hands its value
  to every subscribed channel; \<^verbatim>\<open>Subscribe\<close> and \<^verbatim>\<open>Unsubscribe\<close> run at the same time, from other
  goroutines.  Each operation is a definition, cut where the code synchronises (a mutex, the lock
  channel, one choice of \<^verbatim>\<open>reflect.Select\<close>); the step relation \<open>feed_step\<close> interleaves them in every order.

  \<^verbatim>\<open>sendCases\<close> has the channel \<^verbatim>\<open>removeSub\<close> at index 0, so a subscriber at index \<open>i\<close> of the model is at index
  \<open>i + 1\<close> of the source.  \<^verbatim>\<open>cases\<close> is always a prefix of \<^verbatim>\<open>sendCases\<close> and shares its array: the model keeps its
  length.  What was delivered is recorded in \<open>fd_out\<close>.
\<close>

section \<open>event/feed.go\<close>

datatype feedError = BadChannel | WrongType

record ('c, 'v) Feed =
  fd_etype :: "nat option"
  fd_inbox :: "'c list"
  fd_sendCases :: "'c list"
  fd_sending :: "('v \<times> nat \<times> nat) option"
  fd_out :: "('c \<times> 'v) list"

definition newFeed :: "('c, 'v) Feed" where
  "newFeed = \<lparr>fd_etype = None, fd_inbox = [], fd_sendCases = [], fd_sending = None, fd_out = []\<rparr>"

text \<open>Element types are numbers; the first type that is seen fixes the type of the feed.\<close>

definition typecheck :: "nat \<Rightarrow> ('c, 'v) Feed \<Rightarrow> bool \<times> ('c, 'v) Feed" where
  "typecheck typ f =
     (case fd_etype f of None \<Rightarrow> (True, f\<lparr>fd_etype := Some typ\<rparr>) | Some etype \<Rightarrow> (etype = typ, f))"

definition Subscribe :: "bool \<Rightarrow> nat \<Rightarrow> 'c \<Rightarrow> ('c, 'v) Feed \<Rightarrow> feedError + ('c, 'v) Feed" where
  "Subscribe isSendChan typ chan f =
     (if \<not> isSendChan then Inl BadChannel
      else (case typecheck typ f of
          (False, f) \<Rightarrow> Inl WrongType
        | (True, f) \<Rightarrow> Inr (f\<lparr>fd_inbox := fd_inbox f @ [chan]\<rparr>)))"

fun find_case :: "'c \<Rightarrow> 'c list \<Rightarrow> nat option" where
  "find_case channel [] = None"
| "find_case channel (c # cs) = (if c = channel then Some 0 else map_option Suc (find_case channel cs))"

definition delete_case :: "nat \<Rightarrow> 'c list \<Rightarrow> 'c list" where
  "delete_case index cs = take index cs @ drop (index + 1) cs"

text \<open>\<^verbatim>\<open>deactivate\<close> on the first \<open>k\<close> cases: swap with the last of them, and one case less.\<close>

definition deactivate :: "nat \<Rightarrow> nat \<Rightarrow> 'c list \<Rightarrow> 'c list" where
  "deactivate index k cs = cs[index := cs ! (k - 1), k - 1 := cs ! index]"

text \<open>\<^verbatim>\<open>Send\<close> up to the loop: take the lock, fetch the inbox.\<close>

definition beginSend :: "nat \<Rightarrow> 'v \<Rightarrow> ('c, 'v) Feed \<Rightarrow> feedError + ('c, 'v) Feed" where
  "beginSend typ value f =
     (let f = f\<lparr>fd_sendCases := fd_sendCases f @ fd_inbox f, fd_inbox := []\<rparr> in
      case typecheck typ f of
        (False, f) \<Rightarrow> Inl WrongType
      | (True, f) \<Rightarrow> Inr (f\<lparr>fd_sending := Some (value, length (fd_sendCases f), 0)\<rparr>))"

text \<open>A successful \<^verbatim>\<open>TrySend\<close>, or a send case chosen by \<^verbatim>\<open>Select\<close>.\<close>

definition sendOne :: "nat \<Rightarrow> ('c, 'v) Feed \<Rightarrow> ('c, 'v) Feed" where
  "sendOne i f =
     (case fd_sending f of None \<Rightarrow> f
      | Some (value, k, nsent) \<Rightarrow>
          f\<lparr>fd_out := fd_out f @ [(fd_sendCases f ! i, value)],
            fd_sendCases := deactivate i k (fd_sendCases f),
            fd_sending := Some (value, k - 1, nsent + 1)\<rparr>)"

text \<open>The receive case of \<^verbatim>\<open>Select\<close>: a subscriber leaves during the send.\<close>

definition removeDuringSend :: "'c \<Rightarrow> ('c, 'v) Feed \<Rightarrow> ('c, 'v) Feed outcome" where
  "removeDuringSend ch f =
     (case fd_sending f of None \<Rightarrow> Returned f
      | Some (value, k, nsent) \<Rightarrow>
         (case find_case ch (fd_sendCases f) of None \<Rightarrow> Panicked
          | Some index \<Rightarrow>
              Returned (f\<lparr>fd_sendCases := delete_case index (fd_sendCases f),
                fd_sending := Some (value, if index < k then k - 1 else k, nsent)\<rparr>)))"

definition endSend :: "('c, 'v) Feed \<Rightarrow> nat \<times> ('c, 'v) Feed" where
  "endSend f = (case fd_sending f of None \<Rightarrow> (0, f) | Some (_, _, nsent) \<Rightarrow> (nsent, f\<lparr>fd_sending := None\<rparr>))"

text \<open>\<^verbatim>\<open>remove\<close> when the channel is still in the inbox, and when no send is in progress.\<close>

definition removeFromInbox :: "'c \<Rightarrow> ('c, 'v) Feed \<Rightarrow> ('c, 'v) Feed option" where
  "removeFromInbox ch f = map_option (\<lambda>index. f\<lparr>fd_inbox := delete_case index (fd_inbox f)\<rparr>) (find_case ch (fd_inbox f))"

definition removeIdle :: "'c \<Rightarrow> ('c, 'v) Feed \<Rightarrow> ('c, 'v) Feed outcome" where
  "removeIdle ch f =
     (case find_case ch (fd_sendCases f) of None \<Rightarrow> Panicked
      | Some index \<Rightarrow> Returned (f\<lparr>fd_sendCases := delete_case index (fd_sendCases f)\<rparr>))"

section \<open>Interleavings\<close>

text \<open>
  The steps of other goroutines, and those of the send in progress.  An \<^verbatim>\<open>Unsubscribe\<close> that did not find its
  channel in the inbox goes on at any later moment, so its second half is a step of its own: by the
  send lock when no send holds it, by \<^verbatim>\<open>removeSub\<close> while a send is in \<^verbatim>\<open>Select\<close>, that is with a case left.
\<close>

inductive feed_step :: "('c, 'v) Feed \<Rightarrow> ('c, 'v) Feed \<Rightarrow> bool" where
  subscribe: "Subscribe True typ chan f = Inr f' \<Longrightarrow> feed_step f f'"
| unsubscribe_inbox: "removeFromInbox ch f = Some f' \<Longrightarrow> feed_step f f'"
| unsubscribe_idle: "fd_sending f = None \<Longrightarrow> removeIdle ch f = Returned f' \<Longrightarrow> feed_step f f'"
| unsubscribe_busy: "fd_sending f = Some (v, Suc k, n) \<Longrightarrow> removeDuringSend ch f = Returned f' \<Longrightarrow>
    feed_step f f'"
| deliver: "fd_sending f = Some (v, k, n) \<Longrightarrow> i < k \<Longrightarrow> feed_step f (sendOne i f)"


definition receivers :: "('c, 'v) Feed \<Rightarrow> ('c, 'v) Feed \<Rightarrow> 'c list" where
  "receivers f f' = map fst (drop (length (fd_out f)) (fd_out f'))"

section \<open>What a send delivers\<close>

lemma find_case_SomeD: "find_case c cs = Some i \<Longrightarrow> i < length cs \<and> cs ! i = c"
  by (induction cs arbitrary: i) (auto split: if_splits)

lemma find_case_None: "find_case c cs = None \<longleftrightarrow> c \<notin> set cs"
  by (induction cs) auto

lemma mset_delete: "i < length cs \<Longrightarrow> add_mset (cs ! i) (mset (delete_case i cs)) = mset cs"
proof -
  assume i: "i < length cs"
  then have "mset cs = mset (take i cs @ cs ! i # drop (Suc i) cs)" by (simp flip: id_take_nth_drop)
  then show ?thesis by (simp add: delete_case_def)
qed

lemma mset_deactivate:
  assumes "i < k" "k \<le> length cs"
  shows "mset (deactivate i k cs) = mset cs"
    "mset (drop (k - 1) (deactivate i k cs)) = add_mset (cs ! i) (mset (drop k cs))"
    "length (deactivate i k cs) = length cs"
proof -
  have l: "k - 1 < length cs" "i < length cs" using assms by simp_all
  show "mset (deactivate i k cs) = mset cs" unfolding deactivate_def by (rule mset_swap[OF l(1,2)])
  have "drop (k - 1) (deactivate i k cs) = cs ! i # drop k cs"
    unfolding deactivate_def using l assms
    by (subst Cons_nth_drop_Suc[symmetric]) (auto simp: nth_list_update drop_update_swap)
  then show "mset (drop (k - 1) (deactivate i k cs)) = add_mset (cs ! i) (mset (drop k cs))" by simp
qed (simp add: deactivate_def)

text \<open>
  During a send of \<open>v\<close> that started in \<open>f0\<close>: the deactivated cases have received the value, every delivery
  is counted, and nobody receives it more often than it is subscribed.
\<close>

definition send_inv :: "('c, 'v) Feed \<Rightarrow> 'v \<Rightarrow> ('c, 'v) Feed \<Rightarrow> bool" where
  "send_inv f0 v f \<longleftrightarrow> (\<exists>k n ds. fd_sending f = Some (v, k, n) \<and> k \<le> length (fd_sendCases f) \<and>
     fd_out f = fd_out f0 @ map (\<lambda>c. (c, v)) ds \<and> n = length ds \<and>
     mset (drop k (fd_sendCases f)) \<subseteq># mset ds \<and>
     mset ds + mset (take k (fd_sendCases f)) \<subseteq># mset (fd_sendCases f0))"

lemma delete_active:
  assumes "i < k" "k \<le> length cs"
  shows "drop (k - 1) (delete_case i cs) = drop k cs"
    "add_mset (cs ! i) (mset (take (k - 1) (delete_case i cs))) = mset (take k cs)" "k - 1 \<le> length (delete_case i cs)"
proof -
  have k: "k - 1 - i = k - Suc i" using assms(1) by simp
  show "drop (k - 1) (delete_case i cs) = drop k cs" using assms by (simp add: delete_case_def)
  have "take (k - 1) (delete_case i cs) = delete_case i (take k cs)"
    using assms by (cases "i = k - 1") (auto simp: delete_case_def min_def drop_take k)
  then show "add_mset (cs ! i) (mset (take (k - 1) (delete_case i cs))) = mset (take k cs)"
    using mset_delete[of i "take k cs"] assms by simp
  show "k - 1 \<le> length (delete_case i cs)" using assms by (simp add: delete_case_def)
qed

lemma delete_inactive:
  assumes "k \<le> i" "i < length cs"
  shows "take k (delete_case i cs) = take k cs" "mset (drop k (delete_case i cs)) \<subseteq># mset (drop k cs)"
    "k \<le> length (delete_case i cs)"
proof -
  show "take k (delete_case i cs) = take k cs" "k \<le> length (delete_case i cs)" using assms by (simp_all add: delete_case_def)
  have "drop k (delete_case i cs) = delete_case (i - k) (drop k cs)"
    using assms by (simp add: delete_case_def drop_take)
  moreover have "mset (delete_case (i - k) (drop k cs)) \<subseteq># mset (drop k cs)"
    using mset_delete[of "i - k" "drop k cs"] assms
    by (metis diff_less_mono length_drop mset_subset_eq_add_mset_cancel mset_subset_eq_add_right add_mset_add_single union_commute)
  ultimately show "mset (drop k (delete_case i cs)) \<subseteq># mset (drop k cs)" by simp
qed

lemma send_inv_start:
  assumes "beginSend typ v f = Inr f0"
  shows "send_inv f0 v f0"
  using assms by (auto simp: beginSend_def Let_def typecheck_def send_inv_def split: option.splits bool.splits if_splits)

lemma send_inv_step:
  assumes "send_inv f0 v f" "feed_step f f'"
  shows "send_inv f0 v f'"
proof -
  obtain k n ds where inv: "fd_sending f = Some (v, k, n)" "k \<le> length (fd_sendCases f)"
    "fd_out f = fd_out f0 @ map (\<lambda>c. (c, v)) ds" "n = length ds" "mset (drop k (fd_sendCases f)) \<subseteq># mset ds"
    "mset ds + mset (take k (fd_sendCases f)) \<subseteq># mset (fd_sendCases f0)"
    using assms(1) by (auto simp: send_inv_def)
  show ?thesis using assms(2)
  proof (cases rule: feed_step.cases)
    case (subscribe et chan)
    then show ?thesis using inv
      by (auto simp: Subscribe_def typecheck_def send_inv_def split: option.splits bool.splits if_splits)
  next
    case (unsubscribe_inbox ch)
    then show ?thesis using inv by (auto simp: removeFromInbox_def send_inv_def)
  next
    case (unsubscribe_idle ch)
    then show ?thesis using inv by simp
  next
    case (unsubscribe_busy v' k' n' ch)
    then obtain i where i: "find_case ch (fd_sendCases f) = Some i"
      "f' = f\<lparr>fd_sendCases := delete_case i (fd_sendCases f), fd_sending := Some (v, if i < k then k - 1 else k, n)\<rparr>"
      using inv(1) by (auto simp: removeDuringSend_def split: option.splits)
    have il: "i < length (fd_sendCases f)" using find_case_SomeD[OF i(1)] by simp
    show ?thesis
    proof (cases "i < k")
      case True
      note d = delete_active[OF True inv(2)]
      have "mset ds + mset (take (k - 1) (delete_case i (fd_sendCases f))) \<subseteq># mset ds + mset (take k (fd_sendCases f))"
        unfolding d(2)[symmetric] by simp
      then have "mset ds + mset (take (k - 1) (delete_case i (fd_sendCases f))) \<subseteq># mset (fd_sendCases f0)"
        using inv(6) by (rule subset_mset.order_trans)
      then show ?thesis using inv d i(2) True
        by (auto simp: send_inv_def intro!: exI[of _ "k - 1"] exI[of _ n] exI[of _ ds])
    next
      case False
      note d = delete_inactive[of k i "fd_sendCases f", OF _ il]
      show ?thesis using inv d False i(2)
        by (auto simp: send_inv_def intro!: exI[of _ k] exI[of _ n] exI[of _ ds] intro: subset_mset.order_trans)
    qed
  next
    case (deliver v' k' n' i)
    then have i: "i < k" "f' = sendOne i f" using inv(1) by auto
    let ?cs = "fd_sendCases f" and ?cs' = "deactivate i k (fd_sendCases f)"
    note d = mset_deactivate[OF i(1) inv(2)]
    have k: "k - 1 \<le> length ?cs'" using d(3) inv(2) by simp
    have parts: "mset ?cs' = mset (take (k - 1) ?cs') + mset (drop (k - 1) ?cs')" "mset ?cs = mset (take k ?cs) + mset (drop k ?cs)"
      by (simp_all flip: mset_append)
    have "add_mset (?cs ! i) (mset (take (k - 1) ?cs')) = mset (take k ?cs)"
      using parts d(1,2) by simp
    then have "add_mset (?cs ! i) (mset ds + mset (take (k - 1) ?cs')) = mset ds + mset (take k ?cs)"
      by (metis union_mset_add_mset_right)
    then have "add_mset (?cs ! i) (mset ds + mset (take (k - 1) ?cs')) \<subseteq># mset (fd_sendCases f0)"
      using inv(6) by (rule ssubst)
    then show ?thesis using inv d(2) k i
      by (auto simp: send_inv_def sendOne_def intro!: exI[of _ "k - 1"] exI[of _ "ds @ [?cs ! i]"])
  qed
qed

lemma send_inv_steps:
  assumes "beginSend typ v f = Inr f0" "feed_step\<^sup>*\<^sup>* f0 f1"
  shows "send_inv f0 v f1"
  using assms(2) by (induction rule: rtranclp_induct) (auto intro: send_inv_start[OF assms(1)] send_inv_step)

section \<open>Properties\<close>

text \<open>C23. Whatever subscriptions and departures happen during a send, when it ends every subscriber that is still
  subscribed has received the value, nobody has received it more often than it was subscribed when the
  send began, and the number returned is the number of deliveries.\<close>

theorem send_delivers_once:
  assumes "beginSend typ v f = Inr f0" "feed_step\<^sup>*\<^sup>* f0 f1" "fd_sending f1 = Some (v, 0, n)"
  shows "mset (fd_sendCases f1) \<subseteq># mset (receivers f0 f1) \<and>
    mset (receivers f0 f1) \<subseteq># mset (fd_sendCases f) + mset (fd_inbox f) \<and>
    fst (endSend f1) = length (receivers f0 f1)"
proof -
  obtain ds where d: "fd_out f1 = fd_out f0 @ map (\<lambda>c. (c, v)) ds" "n = length ds" "mset (fd_sendCases f1) \<subseteq># mset ds"
    "mset ds \<subseteq># mset (fd_sendCases f0)"
    using send_inv_steps[OF assms(1,2)] assms(3) by (auto simp: send_inv_def)
  have "receivers f0 f1 = ds" by (simp add: receivers_def d(1) comp_def)
  moreover have "fd_sendCases f0 = fd_sendCases f @ fd_inbox f"
    using assms(1) by (auto simp: beginSend_def Let_def typecheck_def split: option.splits bool.splits if_splits)
  ultimately show ?thesis using d assms(3) by (simp add: endSend_def)
qed

theorem send_delivers_once_witness:
  "\<exists>f0 f1 :: (nat, nat) Feed.
     beginSend 1 (7::nat) (newFeed\<lparr>fd_etype := Some 1, fd_inbox := [4, 5::nat]\<rparr>) = Inr f0 \<and>
     feed_step\<^sup>*\<^sup>* f0 f1 \<and> fst (endSend f1) = 1 \<and> mset (fd_sendCases f1) \<subseteq># mset (receivers f0 f1) \<and>
     receivers f0 f1 = [4]"
proof -
  let ?f0 = "newFeed\<lparr>fd_etype := Some 1, fd_sendCases := [4, 5], fd_sending := Some (7, 2, 0)\<rparr> :: (nat, nat) Feed"
  let ?f1 = "sendOne 0 ?f0"
  let ?f2 = "?f1\<lparr>fd_sendCases := [4], fd_sending := Some (7, 0, 1)\<rparr>"
  have b: "beginSend 1 (7::nat) (newFeed\<lparr>fd_etype := Some 1, fd_inbox := [4, 5::nat]\<rparr>) = Inr ?f0"
    by (simp add: beginSend_def typecheck_def newFeed_def)
  have s1: "feed_step ?f0 ?f1" by (rule feed_step.deliver[of _ 7 2 0]) (simp_all add: newFeed_def)
  have s2: "feed_step ?f1 ?f2"
    by (rule feed_step.unsubscribe_busy[of _ 7 0 1 5])
      (simp_all add: newFeed_def sendOne_def deactivate_def removeDuringSend_def delete_case_def)
  have s: "feed_step\<^sup>*\<^sup>* ?f0 ?f2" using s1 s2 by (meson rtranclp.rtrancl_refl rtranclp.rtrancl_into_rtrancl)
  have n: "fd_sending ?f2 = Some (7, 0, 1)" by simp
  have "receivers ?f0 ?f2 = [4]" by (simp add: receivers_def newFeed_def sendOne_def)
  then show ?thesis using b s send_delivers_once[OF b s n] by auto
qed

end
