(* ===== verification/Signer.thy ===== *)
theory Signer
  imports CoreTypes Accounts
begin

text \<open>
  Signatures of units: \<^verbatim>\<open>core/signer.go\<close> (\<^verbatim>\<open>VerifyUnit\<close>) and \<^verbatim>\<open>SignMessage\<close> of \<^verbatim>\<open>node/node.go\<close>.
  The elliptic curve is not modelled: recovering a key from a signature, the address of a key, the
  hash and the method \<^verbatim>\<open>SignHashWithPassphrase\<close> of a wallet are arguments.
\<close>

section \<open>core/signer.go\<close>

record 'k crypto =
  SigToPub :: "bytes \<Rightarrow> bytes \<Rightarrow> 'k option"
  PubkeyToAddress :: "'k \<Rightarrow> address"
  Keccak256 :: "bytes \<Rightarrow> bytes"

text \<open>The text that is hashed: a fixed prefix, the length of the data in decimal, the data.\<close>

definition signedText :: "bytes \<Rightarrow> bytes" where
  "signedText data =
     map byte_of_char (char_of (25::nat) # ''Ethereum Signed Message:'' @ [char_of (10::nat)] @ nat_dec (length data)) @ data"

definition signHash :: "'k crypto \<Rightarrow> bytes \<Rightarrow> bytes" where
  "signHash C data = Keccak256 C (signedText data)"

text \<open>The document that is signed: the unit without its authors and its hash.\<close>

definition unsigned_part :: "Unit \<Rightarrow> Unit" where
  "unsigned_part unit = unit\<lparr>u_Authors := [], u_Hash := emptyHash\<rparr>"

definition marshalUnit :: "Unit \<Rightarrow> bytes" where
  "marshalUnit unit = map byte_of_char (json_text (Unit_json unit))"

definition VerifyUnit :: "'k crypto \<Rightarrow> Unit \<Rightarrow> bool outcome" where
  "VerifyUnit C unit =
     (case u_Authors unit of [] \<Rightarrow> Panicked
      | author # _ \<Rightarrow>
          (let originalAddr = au_Address author; copyData = au_Signature author in
           if length copyData \<noteq> 65 then Returned False
           else if copyData ! 64 \<noteq> 27 \<and> copyData ! 64 \<noteq> 28 then Returned False
           else (let copyData = copyData[64 := copyData ! 64 - 27]
                 in case SigToPub C (signHash C (marshalUnit (unsigned_part unit))) copyData of
                      None \<Rightarrow> Returned False
                    | Some pubKey \<Rightarrow> Returned (PubkeyToAddress C pubKey = originalAddr))))"

section \<open>node/node.go: SignMessage\<close>

text \<open>
  \<open>sign w account password hash\<close> is the method \<^verbatim>\<open>SignHashWithPassphrase\<close> of the wallet \<open>w\<close>.  An account is
  its address.  A signature of fewer than 65 bytes makes the write to \<^verbatim>\<open>signature[64]\<close> panic.
\<close>

definition SignMessage ::
    "'k crypto \<Rightarrow> (('u, address) Wallet \<Rightarrow> address \<Rightarrow> string \<Rightarrow> bytes \<Rightarrow> accountError + bytes) \<Rightarrow> ('u, address) Manager \<Rightarrow>
     bytes \<Rightarrow> address \<Rightarrow> string \<Rightarrow> (accountError + bytes) outcome" where
  "SignMessage C sign am dataBytes addr password =
     (case Manager_Find addr am of Inl err \<Rightarrow> Returned (Inl err)
      | Inr wallet \<Rightarrow>
         (case sign wallet addr password (signHash C dataBytes) of Inl err \<Rightarrow> Returned (Inl err)
          | Inr signature \<Rightarrow>
              if length signature \<le> 64 then Panicked
              else Returned (Inr (signature[64 := signature ! 64 + 27]))))"

text \<open>
  What the code relies on: a wallet signs with the key of the account, so that the key recovered from the
  signature has the address of the account, and the last byte is the recovery bit.
\<close>

definition signs_well ::
    "'k crypto \<Rightarrow> (('u, address) Wallet \<Rightarrow> address \<Rightarrow> string \<Rightarrow> bytes \<Rightarrow> accountError + bytes) \<Rightarrow> bool" where
  "signs_well C sign \<longleftrightarrow>
     (\<forall>w a pw h sig. sign w a pw h = Inr sig \<longrightarrow>
        length sig = 65 \<and> (sig ! 64 = 0 \<or> sig ! 64 = 1) \<and> (\<exists>k. SigToPub C h sig = Some k \<and> PubkeyToAddress C k = a))"

section \<open>Properties\<close>

lemma unsigned_part_signed [simp]: "unsigned_part (unit\<lparr>u_Authors := as, u_Hash := h\<rparr>) = unsigned_part unit"
  by (simp add: unsigned_part_def)

lemma SignMessage_cases:
  assumes "SignMessage C sign am dataBytes addr pw = Returned (Inr signature)"
  obtains w sig where "sign w addr pw (signHash C dataBytes) = Inr sig" "signature = sig[64 := sig ! 64 + 27]"
  using assms by (auto simp: SignMessage_def split: sum.splits if_splits)

lemma signature_restored:
  fixes sig :: bytes
  assumes "length sig = 65" "sig ! 64 = 0 \<or> sig ! 64 = 1"
  defines "sig' \<equiv> sig[64 := sig ! 64 + 27]"
  shows "length sig' = 65" "sig' ! 64 = 27 \<or> sig' ! 64 = 28" "sig'[64 := sig' ! 64 - 27] = sig"
  using assms by auto

text \<open>C6. What the node signs, every node accepts: the signature that \<^verbatim>\<open>SignMessage\<close> makes of a unit without authors
  and hash passes \<^verbatim>\<open>VerifyUnit\<close>, whatever hash the unit carries by then; and a unit that passes carries a
  signature from which the key of its first author is recovered, over all its fields but authors and hash.\<close>

theorem signature_roundtrip:
  assumes "signs_well C sign" "SignMessage C sign am (marshalUnit (unsigned_part unit)) addr pw = Returned (Inr signature)"
  shows "VerifyUnit C (unit\<lparr>u_Authors := [NewAuthor addr signature], u_Hash := h\<rparr>) = Returned True \<and>
    (VerifyUnit C forged = Returned True \<longrightarrow>
      (\<exists>a as k. u_Authors forged = a # as \<and> PubkeyToAddress C k = au_Address a \<and>
        SigToPub C (signHash C (marshalUnit (unsigned_part forged))) ((au_Signature a)[64 := au_Signature a ! 64 - 27]) = Some k))"
proof
  obtain w sig where s: "sign w addr pw (signHash C (marshalUnit (unsigned_part unit))) = Inr sig"
    "signature = sig[64 := sig ! 64 + 27]" by (rule SignMessage_cases[OF assms(2)])
  obtain k where k: "length sig = 65" "sig ! 64 = 0 \<or> sig ! 64 = 1"
    "SigToPub C (signHash C (marshalUnit (unsigned_part unit))) sig = Some k" "PubkeyToAddress C k = addr"
    using assms(1) s(1) unfolding signs_well_def by blast
  note r = signature_restored[OF k(1,2), folded s(2)]
  show "VerifyUnit C (unit\<lparr>u_Authors := [NewAuthor addr signature], u_Hash := h\<rparr>) = Returned True"
    using r k by (simp add: VerifyUnit_def NewAuthor_def Let_def)
  show "VerifyUnit C forged = Returned True \<longrightarrow>
      (\<exists>a as k. u_Authors forged = a # as \<and> PubkeyToAddress C k = au_Address a \<and>
        SigToPub C (signHash C (marshalUnit (unsigned_part forged))) ((au_Signature a)[64 := au_Signature a ! 64 - 27]) = Some k)"
    by (auto simp: VerifyUnit_def Let_def split: list.splits if_splits option.splits)
qed

text \<open>A toy scheme for the witness: the key is the address, the signature holds the key.\<close>

definition toy_crypto :: "address crypto" where
  "toy_crypto = \<lparr>SigToPub = (\<lambda>h sig. Some (take AddressLength sig)), PubkeyToAddress = id, Keccak256 = id\<rparr>"

definition toy_sign :: "(nat, address) Wallet \<Rightarrow> address \<Rightarrow> string \<Rightarrow> bytes \<Rightarrow> accountError + bytes" where
  "toy_sign w a pw h = (if length a = AddressLength then Inr (a @ replicate 45 0) else Inl ErrUnknownAccount)"

lemma toy_signs_well: "signs_well toy_crypto toy_sign"
  by (auto simp: signs_well_def toy_sign_def toy_crypto_def AddressLength_def nth_append split: if_splits)

definition toy_manager :: "(nat, address) Manager" where
  "toy_manager = \<lparr>am_wallets = [\<lparr>w_URL = 1, w_Accounts = [emptyAddress], w_Contains = (\<lambda>a. a = emptyAddress)\<rparr>], am_sent = []\<rparr>"

theorem signature_roundtrip_witness:
  "VerifyUnit toy_crypto (NewEmptyUnit\<lparr>u_Authors := [NewAuthor emptyAddress (replicate 64 0 @ [27])], u_Hash := maxHash\<rparr>) = Returned True"
proof -
  have "SignMessage toy_crypto toy_sign toy_manager (marshalUnit (unsigned_part NewEmptyUnit)) emptyAddress ''pw'' =
      Returned (Inr (replicate 64 0 @ [27]))"
    by (simp add: SignMessage_def toy_manager_def Manager_Find_def toy_sign_def emptyAddress_def AddressLength_def
        eval_nat_numeral)
  from signature_roundtrip[OF toy_signs_well this, of maxHash] show ?thesis by blast
qed

end
