(* ===== verification/NodeSync.thy ===== *)
theory NodeSync
  imports GraphInfo Signer MathBig
begin

text \<open>
  Synchronisation of a node, \<^verbatim>\<open>node/node.go\<close>, and the loop that submits new units,
  \<^verbatim>\<open>SubmitTXLoop\<close> of \<^verbatim>\<open>transaction/transaction.go\<close>.

  The event handlers run in their own goroutines and share the state of the node.  Each handler is a
  definition on the record \<open>Node\<close>; a goroutine that a handler starts is an entry of \<open>nd_picks\<close> or
  \<open>nd_fetches\<close>, and the step relation \<open>node_step\<close> lets them make a step in any order.  One round of a loop of
  \<^verbatim>\<open>fetchData\<close> is one step.  \<^verbatim>\<open>ReviewUnit\<close>, \<^verbatim>\<open>HandlerNewUnit\<close> and the protocol manager are not under \<^verbatim>\<open>src/\<close>:
  the first two are arguments, what is handed to the third is recorded in \<open>nd_sent\<close>.
\<close>

section \<open>The state of the node\<close>

datatype State = Running | Stopped | SynchronizingRecving | SynchronizingReponse | PushUnits

text \<open>Where a call of \<^verbatim>\<open>fetchData\<close> is: in its first loop, in its second, or behind both.\<close>

datatype fetchPhase = FetchRecv | FetchWait | FetchEnd

record BroadUnitEntity =
  be_HasPeers :: "string list"
  be_Message :: string

datatype 'p message =
    SyncRep 'p SyncDataEntity
  | NewUnitTo 'p BroadUnitEntity
  | NewUnitToAll string
  | NewUnitExcept "string list" string
  | Synchronise

record ('s, 'p) Node =
  nd_state :: State
  nd_db :: 's
  nd_recvQueue :: "NewUnitEntity Queue"
  nd_waitQueue :: "NewUnitEntity Queue"
  nd_requireSync :: bool
  nd_chSubmitTx :: "NewUnitEntity list"
  nd_txevents :: "NewUnitEntity list"
  nd_picks :: "('p \<times> string) list"
  nd_fetches :: "fetchPhase list"
  nd_sent :: "'p message list"

record ('s, 'k) services =
  sv_env :: "'s env"
  sv_crypto :: "'k crypto"
  ReviewUnit :: "Unit \<Rightarrow> 's \<Rightarrow> bool \<times> 's"
  HandlerNewUnit :: "Unit \<Rightarrow> 's \<Rightarrow> bool \<times> 's"

definition Node_New :: "'s \<Rightarrow> ('s, 'p) Node" where
  "Node_New s = \<lparr>nd_state = Running, nd_db = s, nd_recvQueue = New, nd_waitQueue = New, nd_requireSync = False,
     nd_chSubmitTx = [], nd_txevents = [], nd_picks = [], nd_fetches = [], nd_sent = []\<rparr>"

definition send :: "'p message list \<Rightarrow> ('s, 'p) Node \<Rightarrow> ('s, 'p) Node" where
  "send ms n = n\<lparr>nd_sent := nd_sent n @ ms\<rparr>"

section \<open>New units\<close>

definition RecvUnit :: "NewUnitEntity \<Rightarrow> ('s, 'p) Node \<Rightarrow> ('s, 'p) Node" where
  "RecvUnit entity n = n\<lparr>nd_chSubmitTx := nd_chSubmitTx n @ [entity]\<rparr>"

definition handleNewUnitEvent ::
    "('s, 'k) services \<Rightarrow> string list \<Rightarrow> NewUnitEntity \<Rightarrow> ('s, 'p) Node \<Rightarrow> ('s, 'p) Node" where
  "handleNewUnitEvent S peers entity n =
     (if nd_state n = SynchronizingRecving then n\<lparr>nd_waitQueue := Push entity (nd_waitQueue n)\<rparr>
      else RecvUnit entity
        (if peers = [] then n\<lparr>nd_db := SaveCacheUnitToDb (sv_env S) (nue_NewUnit entity) (nd_db n)\<rparr> else n))"

definition BroadUnitEntity_json :: "BroadUnitEntity \<Rightarrow> json" where
  "BroadUnitEntity_json e = JObj [(''HasPeers'', JArr (map JStr (be_HasPeers e))), (''Message'', JStr (be_Message e))]"

definition handleUnitDoneEvent :: "string list \<Rightarrow> NewUnitEntity \<Rightarrow> ('s, 'p) Node \<Rightarrow> ('s, 'p) Node" where
  "handleUnitDoneEvent peers entity n =
     (let joint = \<lparr>be_HasPeers = peers, be_Message = json_text (Unit_json (nue_NewUnit entity))\<rparr>;
          jointByte = json_text (BroadUnitEntity_json joint)
      in if nue_FromPeerId entity = ''local'' then send [NewUnitToAll jointByte] n
         else send [NewUnitExcept (nue_HasPeerIds entity) jointByte] n)"

text \<open>One round of \<^verbatim>\<open>SubmitTXLoop\<close>; the event it sends is handled by another goroutine.\<close>

definition submitRound :: "('s, 'k) services \<Rightarrow> NewUnitEntity \<Rightarrow> ('s, 'p) Node \<Rightarrow> ('s, 'p) Node outcome" where
  "submitRound S newUnitEntity n =
     (case VerifyUnit (sv_crypto S) (nue_NewUnit newUnitEntity) of
        Panicked \<Rightarrow> Panicked
      | OutOfFuel \<Rightarrow> OutOfFuel
      | Returned False \<Rightarrow> Returned n
      | Returned True \<Rightarrow>
         (case ReviewUnit S (nue_NewUnit newUnitEntity) (nd_db n) of
            (False, s) \<Rightarrow> Returned (n\<lparr>nd_db := s\<rparr>)
          | (True, s) \<Rightarrow>
              Returned (n\<lparr>nd_db := snd (HandlerNewUnit S (nue_NewUnit newUnitEntity) s),
                nd_txevents := nd_txevents n @ [newUnitEntity]\<rparr>)))"

section \<open>Answering a request\<close>

text \<open>\<^verbatim>\<open>strconv.ParseInt(s, 10, 64)\<close> of the standard library.\<close>

definition ParseInt :: "string \<Rightarrow> numError + int64" where
  "ParseInt s =
     (case s of [] \<Rightarrow> Inl NumErrSyntax
      | c # cs \<Rightarrow>
         (let neg = (c = CHR ''-''); digits = (if neg \<or> c = CHR ''+'' then cs else s) in
          case ParseUint digits 10 of Inl err \<Rightarrow> Inl err
          | Inr un \<Rightarrow>
              if \<not> neg \<and> unat un \<ge> 2 ^ 63 then Inl NumErrRange
              else if neg \<and> unat un > 2 ^ 63 then Inl NumErrRange
              else Inr (if neg then - un else un)))"

definition syncEnd :: SyncDataEntity where
  "syncEnd = \<lparr>sde_State = 1, sde_StableUnits = [], sde_UnStableUnits = []\<rparr>"

definition syncBusy :: SyncDataEntity where
  "syncBusy = \<lparr>sde_State = 2, sde_StableUnits = [], sde_UnStableUnits = []\<rparr>"

definition syncUnit :: "Unit \<Rightarrow> SyncDataEntity" where
  "syncUnit unit = \<lparr>sde_State = 0, sde_StableUnits = [unit], sde_UnStableUnits = []\<rparr>"

text \<open>\<open>link i\<close>: the \<open>i\<close>-th message goes through.  The first failure ends the loop, not the answer.\<close>

fun sendUnits :: "(nat \<Rightarrow> bool) \<Rightarrow> 'p \<Rightarrow> nat \<Rightarrow> Unit list \<Rightarrow> 'p message list" where
  "sendUnits link p i [] = []"
| "sendUnits link p i (unit # units) =
     (if link i then SyncRep p (syncUnit unit) # sendUnits link p (i + 1) units else [])"

record view =
  vw_fuel :: nat
  vw_it :: "(hash, Unit) iter"
  vw_tips :: "hash list"
  vw_witnesses :: "address list"
  vw_link :: "nat \<Rightarrow> bool"
  vw_endOk :: bool

definition pickDataFromDag ::
    "('s, 'k) services \<Rightarrow> view \<Rightarrow> 'p \<Rightarrow> string \<Rightarrow> ('s, 'p) Node \<Rightarrow> ('s, 'p) Node outcome" where
  "pickDataFromDag S vw p endmci n =
     (let E = sv_env S; graphInfo = NewGraphInfoGetter E (nd_db n) (vw_tips vw) (vw_witnesses vw) in
      case GetLastStableBallMCI (vw_fuel vw) E (nd_db n) graphInfo of
        OutOfFuel \<Rightarrow> OutOfFuel
      | Panicked \<Rightarrow> Panicked
      | Returned startMci \<Rightarrow>
         (case ParseInt endmci of Inl err \<Rightarrow> Returned n
          | Inr endMci \<Rightarrow>
             (case GetMissingUnits (vw_fuel vw) E (vw_it vw) (nd_db n) graphInfo startMci endMci of
                OutOfFuel \<Rightarrow> OutOfFuel
              | Panicked \<Rightarrow> Panicked
              | Returned (sUnits, uUnits) \<Rightarrow>
                  Returned ((send (sendUnits (vw_link vw) p 0 (sUnits @ uUnits) @
                    (if vw_endOk vw then [SyncRep p syncEnd] else [])) n)\<lparr>nd_state := Running\<rparr>))))"

definition notifyBusy :: "'p \<Rightarrow> ('s, 'p) Node \<Rightarrow> ('s, 'p) Node" where
  "notifyBusy p n = send [SyncRep p syncBusy] n"

definition SyncDataReq :: "'p \<Rightarrow> string \<Rightarrow> ('s, 'p) Node \<Rightarrow> ('s, 'p) Node" where
  "SyncDataReq p endMci n =
     (if nd_state n = SynchronizingReponse then notifyBusy p n
      else n\<lparr>nd_state := SynchronizingReponse, nd_picks := nd_picks n @ [(p, endMci)]\<rparr>)"

text \<open>A new peer gets the unstable units, sorted by level, without the genesis unit.\<close>

definition NewNodeConnect ::
    "('s, 'k) services \<Rightarrow> view \<Rightarrow> string list \<Rightarrow> 'p \<Rightarrow> ('s, 'p) Node \<Rightarrow> ('s, 'p) Node outcome" where
  "NewNodeConnect S vw peers p n =
     (let E = sv_env S; graphInfo = NewGraphInfoGetter E (nd_db n) (vw_tips vw) (vw_witnesses vw) in
      case GetLastStableBallMCI (vw_fuel vw) E (nd_db n) graphInfo of
        OutOfFuel \<Rightarrow> OutOfFuel
      | Panicked \<Rightarrow> Panicked
      | Returned mci \<Rightarrow>
         (case GetMissingUnits (vw_fuel vw) E (vw_it vw) (nd_db n) graphInfo mci mci of
            OutOfFuel \<Rightarrow> OutOfFuel
          | Panicked \<Rightarrow> Panicked
          | Returned (units, uUnits) \<Rightarrow>
              Returned (send (map (\<lambda>unit. NewUnitTo p \<lparr>be_HasPeers = peers, be_Message = json_text (Unit_json unit)\<rparr>)
                (filter (\<lambda>unit. Hash_String (u_Hash unit) \<noteq> GENISIS_UNIT_HASH (cfg E)) (sort_Units (units @ uUnits)))) n)))"

section \<open>Receiving the answer\<close>

definition SyncUnit :: "('s, 'p) Node \<Rightarrow> ('s, 'p) Node" where
  "SyncUnit n = (if nd_state n = Running then send [Synchronise] (n\<lparr>nd_requireSync := False\<rparr>) else n)"

definition syncEntity :: "Unit \<Rightarrow> NewUnitEntity" where
  "syncEntity unit = \<lparr>nue_FromPeerId = [], nue_HasPeerIds = [], nue_NewUnit = unit\<rparr>"

definition unknownUnits :: "'s env \<Rightarrow> 's \<Rightarrow> Unit list \<Rightarrow> Unit list" where
  "unknownUnits E s units = filter (\<lambda>unit. snd (GetUnitByHash E (u_Hash unit) s) \<noteq> None) units"

definition SyncDataRep :: "('s, 'k) services \<Rightarrow> SyncDataEntity \<Rightarrow> ('s, 'p) Node \<Rightarrow> ('s, 'p) Node" where
  "SyncDataRep S syncData n =
     (if sde_State syncData = 2 then n\<lparr>nd_state := Running, nd_requireSync := True\<rparr>
      else n\<lparr>nd_state := SynchronizingRecving,
             nd_recvQueue := fold (\<lambda>unit. Push (syncEntity unit)) (unknownUnits (sv_env S) (nd_db n) (sde_StableUnits syncData)) (nd_recvQueue n),
             nd_fetches := nd_fetches n @ (if sde_State syncData = 1 then [FetchRecv] else [])\<rparr>)"

text \<open>One round of \<^verbatim>\<open>fetchData\<close>: the next phase (\<^const>\<open>None\<close> after the last) and the node.\<close>

definition takeRound ::
    "('s, 'k) services \<Rightarrow> NewUnitEntity \<Rightarrow> ('s, 'p) Node \<Rightarrow> bool \<times> ('s, 'p) Node" where
  "takeRound S entity n =
     (case ReviewUnit S (nue_NewUnit entity) (nd_db n) of
        (False, s) \<Rightarrow> (False, n\<lparr>nd_db := s\<rparr>)
      | (True, s) \<Rightarrow> (case HandlerNewUnit S (nue_NewUnit entity) s of (ok, s) \<Rightarrow> (ok, n\<lparr>nd_db := s\<rparr>)))"

fun fetchRound ::
    "('s, 'k) services \<Rightarrow> string list \<Rightarrow> fetchPhase \<Rightarrow> ('s, 'p) Node \<Rightarrow> (fetchPhase option \<times> ('s, 'p) Node) outcome" where
  "fetchRound S peers FetchRecv n =
     (if Empty (nd_recvQueue n) then Returned (Some FetchWait, n)
      else (case Front (nd_recvQueue n) of None \<Rightarrow> Panicked
        | Some entity \<Rightarrow>
            Returned (Some FetchRecv, snd (takeRound S entity (n\<lparr>nd_recvQueue := snd (Pop (nd_recvQueue n))\<rparr>)))))"
| "fetchRound S peers FetchWait n =
     (if Empty (nd_waitQueue n) then Returned (Some FetchEnd, n)
      else (case Front (nd_waitQueue n) of None \<Rightarrow> Panicked
        | Some entity \<Rightarrow>
           (case takeRound S entity (n\<lparr>nd_waitQueue := snd (Pop (nd_waitQueue n))\<rparr>) of
              (ok, n) \<Rightarrow> Returned (Some FetchWait, if ok then handleUnitDoneEvent peers entity n else n))))"
| "fetchRound S peers FetchEnd n = Returned (None, n\<lparr>nd_state := Running, nd_requireSync := True\<rparr>)"


section \<open>Interleavings\<close>

text \<open>What a step does to the two queues: who is queued, and whose review begins.\<close>

datatype obs = QueuedRecv NewUnitEntity | QueuedWait NewUnitEntity | TakenRecv NewUnitEntity | TakenWait NewUnitEntity

fun taken :: "fetchPhase \<Rightarrow> ('s, 'p) Node \<Rightarrow> obs list" where
  "taken FetchRecv n = (if Empty (nd_recvQueue n) then [] else [TakenRecv (the (Front (nd_recvQueue n)))])"
| "taken FetchWait n = (if Empty (nd_waitQueue n) then [] else [TakenWait (the (Front (nd_waitQueue n)))])"
| "taken FetchEnd n = []"

definition next_phase :: "nat \<Rightarrow> fetchPhase option \<Rightarrow> fetchPhase list \<Rightarrow> fetchPhase list" where
  "next_phase i ph fs = (case ph of Some f \<Rightarrow> fs[i := f] | None \<Rightarrow> take i fs @ drop (Suc i) fs)"

inductive node_step :: "('s, 'k) services \<Rightarrow> ('s, 'p) Node \<Rightarrow> obs list \<Rightarrow> ('s, 'p) Node \<Rightarrow> bool" for S where
  new_unit: "length (nd_chSubmitTx n) < 16 \<Longrightarrow>
    node_step S n (if nd_state n = SynchronizingRecving then [QueuedWait e] else []) (handleNewUnitEvent S peers e n)"
| submit: "nd_chSubmitTx n = e # es \<Longrightarrow> submitRound S e (n\<lparr>nd_chSubmitTx := es\<rparr>) = Returned n' \<Longrightarrow> node_step S n [] n'"
| unit_done: "nd_txevents n = e # es \<Longrightarrow> node_step S n [] (handleUnitDoneEvent peers e (n\<lparr>nd_txevents := es\<rparr>))"
| sync_unit: "node_step S n [] (SyncUnit n)"
| sync_req: "node_step S n [] (SyncDataReq p endMci n)"
| p2p_req: "node_step S n [] (n\<lparr>nd_picks := nd_picks n @ [(p, endMci)]\<rparr>)"
| connect: "NewNodeConnect S vw peers p n = Returned n' \<Longrightarrow> node_step S n [] n'"
| pick: "nd_picks n = ps @ (p, endMci) # qs \<Longrightarrow>
    pickDataFromDag S vw p endMci (n\<lparr>nd_picks := ps @ qs\<rparr>) = Returned n' \<Longrightarrow> node_step S n [] n'"
| sync_rep: "node_step S n
    (if sde_State d = 2 then [] else map (\<lambda>u. QueuedRecv (syncEntity u)) (unknownUnits (sv_env S) (nd_db n) (sde_StableUnits d)))
    (SyncDataRep S d n)"
| fetch: "i < length (nd_fetches n) \<Longrightarrow> fetchRound S peers (nd_fetches n ! i) n = Returned (ph, n') \<Longrightarrow>
    node_step S n (taken (nd_fetches n ! i) n) (n'\<lparr>nd_fetches := next_phase i ph (nd_fetches n)\<rparr>)"

inductive node_run :: "('s, 'k) services \<Rightarrow> ('s, 'p) Node \<Rightarrow> obs list \<Rightarrow> ('s, 'p) Node \<Rightarrow> bool" for S where
  start: "node_run S n [] n"
| step: "node_run S n tr n' \<Longrightarrow> node_step S n' os n'' \<Longrightarrow> node_run S n (tr @ os) n''"

fun queuedRecv :: "obs \<Rightarrow> NewUnitEntity list" where
  "queuedRecv (QueuedRecv e) = [e]" | "queuedRecv _ = []"

fun queuedWait :: "obs \<Rightarrow> NewUnitEntity list" where
  "queuedWait (QueuedWait e) = [e]" | "queuedWait _ = []"

fun takenRecv :: "obs \<Rightarrow> NewUnitEntity list" where
  "takenRecv (TakenRecv e) = [e]" | "takenRecv _ = []"

fun takenWait :: "obs \<Rightarrow> NewUnitEntity list" where
  "takenWait (TakenWait e) = [e]" | "takenWait _ = []"

section \<open>Order of processing\<close>


definition queues_ok :: "('s, 'p) Node \<Rightarrow> bool" where
  "queues_ok n \<longleftrightarrow> q_inv (nd_recvQueue n) \<and> q_inv (nd_waitQueue n)"

lemma send_simps [simp]:
  "nd_state (send ms n) = nd_state n" "nd_recvQueue (send ms n) = nd_recvQueue n" "nd_waitQueue (send ms n) = nd_waitQueue n"
  "nd_db (send ms n) = nd_db n" "nd_picks (send ms n) = nd_picks n" "nd_fetches (send ms n) = nd_fetches n"
  "nd_sent (send ms n) = nd_sent n @ ms" "nd_requireSync (send ms n) = nd_requireSync n"
  by (simp_all add: send_def)

lemma handleUnitDoneEvent_queues [simp]:
  "nd_recvQueue (handleUnitDoneEvent peers e n) = nd_recvQueue n" "nd_waitQueue (handleUnitDoneEvent peers e n) = nd_waitQueue n"
  "nd_state (handleUnitDoneEvent peers e n) = nd_state n" "nd_db (handleUnitDoneEvent peers e n) = nd_db n"
  "nd_requireSync (handleUnitDoneEvent peers e n) = nd_requireSync n" "nd_fetches (handleUnitDoneEvent peers e n) = nd_fetches n"
  by (simp_all add: handleUnitDoneEvent_def Let_def)

lemma takeRound_queues [simp]:
  "nd_recvQueue (snd (takeRound S e n)) = nd_recvQueue n" "nd_waitQueue (snd (takeRound S e n)) = nd_waitQueue n"
  "nd_state (snd (takeRound S e n)) = nd_state n" "nd_fetches (snd (takeRound S e n)) = nd_fetches n"
  by (auto simp: takeRound_def split: prod.splits bool.splits)







lemma obs_of_queued [simp]:
  "concat (map (queuedRecv \<circ> (\<lambda>u. QueuedRecv (f u))) us) = map f us" "concat (map (takenRecv \<circ> (\<lambda>u. QueuedRecv (f u))) us) = []"
  "concat (map (queuedWait \<circ> (\<lambda>u. QueuedRecv (f u))) us) = []" "concat (map (takenWait \<circ> (\<lambda>u. QueuedRecv (f u))) us) = []"
  by (induction us) auto




section \<open>The end of a synchronisation\<close>

text \<open>What a round of \<^verbatim>\<open>fetchData\<close> does to the database.\<close>

definition takeDb :: "('s, 'k) services \<Rightarrow> NewUnitEntity \<Rightarrow> 's \<Rightarrow> 's" where
  "takeDb S e s = (case ReviewUnit S (nue_NewUnit e) s of (ok, s) \<Rightarrow> if ok then snd (HandlerNewUnit S (nue_NewUnit e) s) else s)"

lemma takeRound_db [simp]: "nd_db (snd (takeRound S e n)) = takeDb S e (nd_db n)"
  by (auto simp: takeRound_def takeDb_def split: prod.splits bool.splits)





section \<open>Properties\<close>


text \<open>Services for the witnesses: everything is accepted, nothing is stored.\<close>

definition easy_services :: "(memdb, address) services" where
  "easy_services = \<lparr>sv_env = mem_env, sv_crypto = toy_crypto, ReviewUnit = (\<lambda>u s. (True, s)), HandlerNewUnit = (\<lambda>u s. (True, s))\<rparr>"




lemma busy_requests:
  "nd_state n = SynchronizingReponse \<Longrightarrow>
    fold (\<lambda>(p, e). SyncDataReq p e) reqs n = send (map (\<lambda>(p, e). SyncRep p syncBusy) reqs) n"
  by (induction reqs arbitrary: n) (auto simp: SyncDataReq_def notifyBusy_def send_def)

text \<open>A request whose index is not a number blocks the node for all later requests: the goroutine that answers it
  returns early and leaves the state at \<^verbatim>\<open>SynchronizingReponse\<close>, so that every later request is told the
  node is busy.\<close>

theorem bad_request_blocks:
  assumes "nd_state n \<noteq> SynchronizingReponse" "ParseInt endMci = Inl err"
    and "pickDataFromDag S vw p endMci ((SyncDataReq p endMci n)\<lparr>nd_picks := nd_picks n\<rparr>) = Returned n'"
  shows "nd_state n' = SynchronizingReponse \<and> nd_sent n' = nd_sent n \<and>
    fold (\<lambda>(p, e). SyncDataReq p e) reqs n' = send (map (\<lambda>(p, e). SyncRep p syncBusy) reqs) n'"
proof -
  have "n' = n\<lparr>nd_state := SynchronizingReponse\<rparr>"
    using assms by (auto simp: pickDataFromDag_def SyncDataReq_def Let_def split: outcome.splits)
  then show ?thesis using busy_requests[of n' reqs] by simp
qed

theorem bad_request_blocks_witness:
  "\<exists>n' :: (memdb, nat) Node. pickDataFromDag easy_services
     \<lparr>vw_fuel = 1, vw_it = rev, vw_tips = [sample_hash 1], vw_witnesses = [], vw_link = (\<lambda>i. True), vw_endOk = True\<rparr> 5 ''x''
     ((SyncDataReq 5 ''x'' (Node_New graph_db))\<lparr>nd_picks := []\<rparr>) = Returned n' \<and>
     SyncDataReq 6 ''0'' n' = send [SyncRep 6 syncBusy] n'"
proof -
  let ?vw = "\<lparr>vw_fuel = 1, vw_it = rev, vw_tips = [sample_hash 1], vw_witnesses = [], vw_link = (\<lambda>i. True), vw_endOk = True\<rparr>"
  have e: "ParseInt ''x'' = Inl NumErrSyntax" by code_simp
  have u: "unit_at mem_env graph_db (sample_hash 1) = graph_unit 1" by simp
  have "stableLoop mem_env graph_db (Suc 0) (Push (sample_hash 1) New) NewEmptyUnit = Returned (graph_unit 1)"
    using u by (simp add: que_simps) (simp add: graph_unit_def)
  then have r: "pickDataFromDag easy_services ?vw 5 ''x'' ((SyncDataReq 5 ''x'' (Node_New graph_db))\<lparr>nd_picks := nd_picks (Node_New graph_db)\<rparr>) =
      Returned ((SyncDataReq (5::nat) ''x'' (Node_New graph_db))\<lparr>nd_picks := nd_picks (Node_New graph_db)\<rparr>)"
    using u e by (simp add: pickDataFromDag_def easy_services_def SyncDataReq_def Node_New_def NewGraphInfoGetter_def
        GetBestParentUnit_def GetLastStableBallMCI_def pickParent_def graph_unit_hash Let_def del: stableLoop.simps)
  have n: "nd_state (Node_New graph_db :: (memdb, nat) Node) \<noteq> SynchronizingReponse" "nd_picks (Node_New graph_db :: (memdb, nat) Node) = []"
    by (simp_all add: Node_New_def)
  show ?thesis using r bad_request_blocks[OF n(1) e r, of "[(6, ''0'')]"] by (simp add: n(2))
qed

text \<open>A unit that arrives between the last look at the wait queue and the end of \<^verbatim>\<open>fetchData\<close> is left behind: the node
  is running again, no goroutine is at work, and the unit is still queued.\<close>

theorem late_unit_stranded:
  assumes "nd_state n = SynchronizingRecving" "nd_fetches n = [FetchWait]" "queues_ok n" "q_list (nd_waitQueue n) = []"
    and "length (nd_chSubmitTx n) < 16"
  shows "\<exists>n'. node_run S n [QueuedWait e] n' \<and> nd_state n' = Running \<and> nd_fetches n' = [] \<and> q_list (nd_waitQueue n') = [e]"
proof -
  let ?n1 = "n\<lparr>nd_fetches := [FetchEnd]\<rparr>" and ?n2 = "n\<lparr>nd_fetches := [FetchEnd], nd_waitQueue := Push e (nd_waitQueue n)\<rparr>"
  let ?n3 = "?n2\<lparr>nd_state := Running, nd_requireSync := True, nd_fetches := []\<rparr>"
  have e: "Empty (nd_waitQueue n)" using assms(3,4) by (simp add: queues_ok_def que_simps)
  have "node_step S n [] ?n1"
    using node_step.fetch[of 0 n S peers "Some FetchEnd" n for peers] assms(2) e by (simp add: next_phase_def)
  moreover have "node_step S ?n1 [QueuedWait e] ?n2"
    using node_step.new_unit[of ?n1 S e "[]"] assms(1,5) by (simp add: handleNewUnitEvent_def)
  moreover have "node_step S ?n2 [] ?n3"
    using node_step.fetch[of 0 ?n2 S "[]" None "?n2\<lparr>nd_state := Running, nd_requireSync := True\<rparr>"] by (simp add: next_phase_def)
  ultimately have "node_run S n ((([] @ []) @ [QueuedWait e]) @ []) ?n3"
    by (meson node_run.start node_run.step)
  then show ?thesis using assms(3,4) by (intro exI[of _ ?n3]) (simp add: queues_ok_def que_simps)
qed

theorem late_unit_stranded_witness:
  "\<exists>n' :: (memdb, nat) Node. node_run easy_services ((Node_New RBT.empty)\<lparr>nd_state := SynchronizingRecving, nd_fetches := [FetchWait]\<rparr>)
     [QueuedWait (syncEntity NewEmptyUnit)] n' \<and> nd_state n' = Running \<and> nd_fetches n' = [] \<and>
     q_list (nd_waitQueue n') = [syncEntity NewEmptyUnit]"
  by (rule late_unit_stranded) (simp_all add: Node_New_def queues_ok_def que_simps)



end
