(* ===== verification/NodeApi.thy ===== *)
theory NodeApi
  imports Stable Signer
begin

text \<open>
  What the node offers to its users, \<^verbatim>\<open>node/node.go\<close>: accounts, balances, the payment of a light node and
  the creation of the genesis state; with the functions of \<^verbatim>\<open>transaction/transaction.go\<close> they call.

  \<^verbatim>\<open>config.GenesisUnit\<close> and \<^verbatim>\<open>SaveNewTip\<close> are not under \<^verbatim>\<open>src/\<close> and are arguments.  \<^verbatim>\<open>CreateTx\<close> is not modelled: it
  reads a field \<^verbatim>\<open>Amount\<close> of an output that the type of the sources does not have.
\<close>

section \<open>transaction/transaction.go\<close>

definition ChoiceInputs :: "address \<Rightarrow> UTXO list" where
  "ChoiceInputs from = []"

definition isContantUTXO :: "(bytes \<Rightarrow> hash) \<Rightarrow> UTXO \<Rightarrow> UTXO list \<Rightarrow> bool" where
  "isContantUTXO H target all =
     fold (\<lambda>value result. if UTXO_ToHash H target = UTXO_ToHash H value then True else result) all False"

definition FindUnspentTransactionFromStable :: "'s env \<Rightarrow> address \<Rightarrow> 's \<Rightarrow> UTXO list" where
  "FindUnspentTransactionFromStable E address s = GetUnspentOutput E address s"

definition FindUnspentTransactionFromPendingPool :: "'s env \<Rightarrow> address \<Rightarrow> 's \<Rightarrow> (string, UTXO) gomap" where
  "FindUnspentTransactionFromPendingPool E address s = GetUnspentOutputFromPendingPool E address s"

section \<open>node/errors.go and node/node.go: accounts\<close>

datatype nodeError =
    ErrNodeSender | ErrNodePassWord | ErrNodeAmount | ErrNodeNoAccount | ErrNodeCreateTX | ErrNodeSinged
  | ErrAmountRange | ErrLockAccount | TxErr txError

text \<open>An account is its address.\<close>

definition ListAccounts :: "('u, address) Manager \<Rightarrow> address list" where
  "ListAccounts am = concat (map w_Accounts (Wallets am))"

definition GetWallets :: "('u, address) Manager \<Rightarrow> nat" where
  "GetWallets am = length (Wallets am)"

text \<open>\<^verbatim>\<open>strings.EqualFold\<close>, on strings of ASCII characters.\<close>

definition fold_char :: "char \<Rightarrow> char" where
  "fold_char c = (let n = of_char c :: nat in if 65 \<le> n \<and> n \<le> 90 then char_of (n + 32) else c)"

definition EqualFold :: "string \<Rightarrow> string \<Rightarrow> bool" where
  "EqualFold s t \<longleftrightarrow> map fold_char s = map fold_char t"

fun accountLoop :: "(bytes \<Rightarrow> bytes) \<Rightarrow> string \<Rightarrow> address list \<Rightarrow> nodeError + address" where
  "accountLoop K address [] = Inl ErrLockAccount"
| "accountLoop K address (a # as) =
     (if EqualFold (Address_String K a) address then Inr a else accountLoop K address as)"

definition FindAccountWith :: "(bytes \<Rightarrow> bytes) \<Rightarrow> string \<Rightarrow> ('u, address) Manager \<Rightarrow> nodeError + address" where
  "FindAccountWith K address am =
     (let address = (if take 2 address \<noteq> ''0x'' then ''0x'' @ address else address)
      in accountLoop K address (ListAccounts am))"

section \<open>node/node.go: balances\<close>

record WalletBalance =
  wb_Stable :: int64
  wb_Pending :: "(string, int64) gomap"

definition GetBalance :: "'s env \<Rightarrow> (string, UTXO) iter \<Rightarrow> string \<Rightarrow> 's \<Rightarrow> WalletBalance" where
  "GetBalance E it address s =
     (let addr = HexToAddress address;
          walletBalance = \<lparr>wb_Stable = 0, wb_Pending = []\<rparr>;
          walletBalance = fold (\<lambda>u wb. wb\<lparr>wb_Stable := wb_Stable wb + out_Amount (utxo_Output u)\<rparr>)
            (FindUnspentTransactionFromStable E addr s) walletBalance
      in fold (\<lambda>(_, u) wb. wb\<lparr>wb_Pending := map_put (Hash_String (utxo_UnitHash u)) (out_Amount (utxo_Output u)) (wb_Pending wb)\<rparr>)
           (it (FindUnspentTransactionFromPendingPool E addr s)) walletBalance)"

section \<open>node/node.go: a payment of a light node\<close>

record LightNewUnitEntity =
  lnu_FromAddress :: string
  lnu_ToAddress :: string
  lnu_Amount :: int64

text \<open>The outputs that are needed, what they are worth, and what goes back to the sender.\<close>

fun coverLoop :: "int64 \<Rightarrow> int64 \<Rightarrow> UTXO list \<Rightarrow> UTXO list \<Rightarrow> int64 \<Rightarrow> UTXO list \<times> int64 \<times> int64" where
  "coverLoop totalAmount totalSpend [] toOther curAmount = (toOther, curAmount, 0)"
| "coverLoop totalAmount totalSpend (u # unSpent) toOther curAmount =
     (let curAmount = curAmount + out_Amount (utxo_Output u); toOther = toOther @ [u] in
      if totalSpend <=s curAmount
      then (toOther, curAmount, curAmount - totalAmount - ConstHeaderCommission - ConstPayloadCommission)
      else coverLoop totalAmount totalSpend unSpent toOther curAmount)"

text \<open>The entity that is sent to the best peer, or an error.\<close>

definition NewJointLight ::
    "(bytes \<Rightarrow> bytes) \<Rightarrow> ('u, address) Manager \<Rightarrow> string \<Rightarrow> string \<Rightarrow> string \<Rightarrow> int64 \<Rightarrow> nodeError + LightNewUnitEntity" where
  "NewJointLight K am address password tx amount =
     (if address = [] then Inl ErrNodeSender
      else if password = [] then Inl ErrNodePassWord
      else if length tx = 0 then Inl ErrNodeAmount
      else
       (let totalAmount = 0 + amount in
        case FindAccountWith K address am of Inl _ \<Rightarrow> Inl ErrNodeNoAccount
        | Inr _ \<Rightarrow>
           (let totalSpend = totalAmount + ConstHeaderCommission + ConstPayloadCommission;
                unSpent = ChoiceInputs (HexToAddress address);
                (toOther, curAmount, toMyself) = coverLoop totalAmount totalSpend unSpent [] 0
            in if curAmount <s totalAmount then Inl (TxErr ErrNotEnoughBalance)
               else if curAmount <s totalSpend then Inl (TxErr ErrNotEnoughCommission)
               else Inr \<lparr>lnu_FromAddress = address, lnu_ToAddress = [], lnu_Amount = 0\<rparr>)))"

section \<open>node/node.go: progress and genesis\<close>

definition bar :: "int \<Rightarrow> int \<Rightarrow> string" where
  "bar cnt sz = fold (\<lambda>i str. str @ (if int i < cnt then ''='' else '' '')) [0..<nat sz] []"

text \<open>\<^verbatim>\<open>showProgress\<close>: what is printed, if anything; \<^verbatim>\<open>/\<close> truncates towards zero.\<close>

definition showProgress :: "int64 \<Rightarrow> int64 \<Rightarrow> string option" where
  "showProgress current tot =
     (if tot = 0 then None
      else (let p = sint (current * 100) in
        Some (''['' @ bar (sgn p * sgn (sint tot) * (\<bar>p\<bar> div \<bar>sint tot\<bar>)) 100 @ ''] '' @
          int_dec (sint current) @ ''/'' @ int_dec (sint tot))))"

definition genesisOutput :: "Unit \<Rightarrow> nat \<Rightarrow> UTXO" where
  "genesisOutput genesisUnit i = NewUTXO (u_Hash genesisUnit) 0 (of_nat i) (NewOutput (u_WitnessList genesisUnit ! i) 10000000) []"

definition initGenesis ::
    "'s env \<Rightarrow> Unit \<Rightarrow> (hash \<Rightarrow> ParentMemDB \<times> 's \<Rightarrow> ParentMemDB \<times> 's) \<Rightarrow>
     ParentMemDB \<Rightarrow> WitnessMemDB \<Rightarrow> 's \<Rightarrow> ParentMemDB \<times> WitnessMemDB \<times> 's" where
  "initGenesis E genesisUnit SaveNewTip pdb wdb s =
     (let pdb = InitParentMemDB E s pdb; wdb = InitWitnessMemDB E s wdb in
      case GetUnitByHash E (HexToHash (GENISIS_UNIT_HASH (cfg E))) s of
        (_, None) \<Rightarrow> (pdb, wdb, s)
      | (_, Some _) \<Rightarrow>
          (let s = SaveUnitToDb E genesisUnit s;
               (pdb, s) = SaveNewTip (u_Hash genesisUnit) (pdb, s);
               (wdb, s) = SaveWitnessList E (u_WitnessList genesisUnit) (wdb, s);
               s = fold (\<lambda>i. SaveUnspentOutput E (u_WitnessList genesisUnit ! i) (genesisOutput genesisUnit i))
                     [0..<length (u_WitnessList genesisUnit)] s
           in (pdb, wdb, s)))"

section \<open>Finding an account\<close>

lemma fold_hextable [simp]: "n < 16 \<Longrightarrow> fold_char (hextable n) = hextable n"
  by (auto simp: fold_char_def hextable_def Let_def)

lemma of_char_small: "n < 256 \<Longrightarrow> (of_char (char_of n :: char) :: nat) = n"
  by (simp only: of_char_of) simp

lemma fold_checksum:
  assumes "n < 16"
  shows "fold_char (checksumChar h i (hextable n)) = hextable n"
proof (cases "(of_char (hextable n) :: nat) > 57")
  case True
  then have c: "97 \<le> (of_char (hextable n) :: nat)" "(of_char (hextable n) :: nat) \<le> 102"
    using assms by (auto simp: hextable_def split: if_splits)
  then obtain m where m: "(of_char (hextable n) :: nat) = 97 + m" "m < 6" by (auto simp: le_iff_add)
  then have "(of_char (char_of (65 + m) :: char) :: nat) = 65 + m" by (intro of_char_small) simp
  then have "fold_char (char_of (65 + m)) = char_of (97 + m)" using m(2) by (simp add: fold_char_def Let_def)
  moreover have "char_of (97 + m) = hextable n" by (simp flip: m(1))
  ultimately have "fold_char (char_of ((of_char (hextable n) :: nat) - 32)) = hextable n" by (simp add: m(1))
  then show ?thesis using assms by (simp add: checksumChar_def Let_def)
qed (use assms in \<open>simp add: checksumChar_def Let_def\<close>)

lemma fold_Address_String: "map fold_char (Address_String K a) = ''0x'' @ EncodeToString a"
proof -
  let ?s = "EncodeToString a"
  have "map fold_char (map2 (checksumChar h) [0..<length ?s] ?s) = ?s" for h
  proof (rule nth_equalityI)
    fix i assume "i < length (map fold_char (map2 (checksumChar h) [0..<length ?s] ?s))"
    then have i: "i < length ?s" by simp
    then obtain n where "n < 16" "?s ! i = hextable n" using nibbles_EncodeToString nth_mem by blast
    then show "map fold_char (map2 (checksumChar h) [0..<length ?s] ?s) ! i = ?s ! i" using i by (simp add: fold_checksum)
  qed simp
  then show ?thesis by (simp add: Address_String_def Address_Hex_def Let_def) (simp add: fold_char_def)
qed

lemma fromHexChar_fold: "fromHexChar (fold_char c) = fromHexChar c"
proof (cases "65 \<le> (of_char c :: nat) \<and> (of_char c :: nat) \<le> 90")
  case True
  have "(of_char (fold_char c) :: nat) = of_char c + 32"
  proof -
    have "fold_char c = char_of ((of_char c :: nat) + 32)" using True by (simp add: fold_char_def Let_def)
    moreover have "(of_char (char_of ((of_char c :: nat) + 32) :: char) :: nat) = of_char c + 32"
      using True by (intro of_char_small) linarith
    ultimately show ?thesis by simp
  qed
  then show ?thesis using True by (simp add: fromHexChar_def Let_def)
next
  case False
  then show ?thesis unfolding fold_char_def Let_def by (simp only: if_False)
qed

lemma decode_folded: "map fold_char s = EncodeToString a \<Longrightarrow> DecodeString s = (a, None)"
proof -
  assume "map fold_char s = EncodeToString a"
  then have "map fromHexChar s = map fromHexChar (EncodeToString a)"
    by (metis (mono_tags, lifting) fromHexChar_fold list.map_comp list.map_cong0 comp_apply)
  from DecodeString_cong[OF this] show ?thesis by simp
qed

lemma accountLoop_found: "accountLoop K q as = Inr a \<Longrightarrow> a \<in> set as \<and> map fold_char q = ''0x'' @ EncodeToString a"
  by (induction as) (auto simp: EqualFold_def fold_Address_String split: if_splits)

lemma EncodeToString_inj: "EncodeToString a = EncodeToString b \<Longrightarrow> a = b"
  by (metis DecodeString_EncodeToString prod.inject)

lemma accountLoop_finds: "a \<in> set as \<Longrightarrow> map fold_char q = ''0x'' @ EncodeToString a \<Longrightarrow> accountLoop K q as = Inr a"
  by (induction as) (auto simp: EqualFold_def fold_Address_String dest: EncodeToString_inj)

text \<open>A query with or without the prefix, as the loop sees it.\<close>

lemma take_drop_prefix: "take n q = p \<Longrightarrow> q = p @ drop n q"
  by (drule sym) simp

lemma HexToAddress_found:
  assumes "FindAccountWith K q am = Inr a" "wf_address a"
  shows "HexToAddress q = a"
proof -
  obtain h where h: "h = (if take 2 q \<noteq> ''0x'' then q else drop 2 q)" by blast
  have "(if take 2 q \<noteq> ''0x'' then ''0x'' @ q else q) = ''0x'' @ h"
    unfolding h using take_drop_prefix[of 2 q "''0x''"] by (simp del: append_Cons)
  then have "accountLoop K (''0x'' @ h) (ListAccounts am) = Inr a" using assms(1) by (simp add: FindAccountWith_def Let_def)
  then have f: "map fold_char (''0x'' @ h) = ''0x'' @ EncodeToString a" by (rule conjunct2[OF accountLoop_found])
  then have d: "DecodeString h = (a, None)" by (intro decode_folded) simp
  have "length (map fold_char h) = length (EncodeToString a)" using f by simp
  then have l: "length h = 2 * AddressLength" using assms(2) by (simp add: wf_address_def)
  have "FromHex q = a"
  proof (cases "take 2 q = ''0x''")
    case True
    then have "q = ''0x'' @ h" using h take_drop_prefix[OF True] by simp
    then show ?thesis using l d FromHex_prefixed[of h] by simp
  next
    case False
    then have q: "h = q" using h by simp
    have "take 2 q \<noteq> ''0X''"
    proof
      assume "take 2 q = ''0X''"
      then have "DecodeString q = ([], Some InvalidByteError)"
        by (cases q; cases "tl q") (auto simp: fromHexChar_def Let_def)
      then show False using d q by simp
    qed
    then show ?thesis using False l d by (simp add: FromHex_def q Hex2Bytes_def)
  qed
  then show ?thesis using assms(2) by (simp add: HexToAddress_def BytesToAddress_id wf_address_def)
qed

section \<open>Sums of outputs\<close>

lemma stable_sum:
  "wb_Stable (fold (\<lambda>u wb. wb\<lparr>wb_Stable := wb_Stable wb + out_Amount (utxo_Output u)\<rparr>) us wb) =
     wb_Stable wb + (\<Sum>u\<leftarrow>us. out_Amount (utxo_Output u))"
  by (induction us arbitrary: wb) (simp_all add: add.assoc)

lemma pending_keeps_stable:
  "wb_Stable (fold (\<lambda>(k, u) wb. wb\<lparr>wb_Pending := map_put (Hash_String (utxo_UnitHash u)) (out_Amount (utxo_Output u))
     (wb_Pending wb)\<rparr>) kus wb) = wb_Stable wb"
  by (induction kus arbitrary: wb) auto

lemma GetBalance_stable: "wb_Stable (GetBalance E it q s) = (\<Sum>u\<leftarrow>GetUnspentOutput E (HexToAddress q) s. out_Amount (utxo_Output u))"
  by (simp add: GetBalance_def Let_def pending_keeps_stable stable_sum FindUnspentTransactionFromStable_def)

lemma sum_words: "(\<Sum>u\<leftarrow>us. (f u :: int64)) = word_of_int (\<Sum>u\<leftarrow>us. sint (f u))"
  by (induction us) simp_all

definition share :: "'s env \<Rightarrow> address \<Rightarrow> 's \<Rightarrow> int" where
  "share E a s = set_total {x \<in> held E (stableP E) s. fst x = a}"

lemma share_list:
  assumes "pool_inv E (stableP E) U s" "wf_address a"
  shows "(\<Sum>u\<leftarrow>GetUnspentOutput E a s. utxo_amount u) = share E a s"
proof -
  have "{x \<in> held E (stableP E) s. fst x = a} = Pair a ` set (GetUnspentOutput E a s)"
    by (auto simp: GetUnspentOutput_lists(1)[OF assms])
  then have "share E a s = (\<Sum>u\<in>set (GetUnspentOutput E a s). utxo_amount u)"
    by (simp add: share_def set_total_def sum.reindex inj_on_def)
  then show ?thesis by (simp add: sum_list_distinct_conv_sum_set GetUnspentOutput_lists(2)[OF assms])
qed

lemma balance_word:
  assumes "pool_inv E (stableP E) U s" "wf_address a" "HexToAddress q = a"
  shows "wb_Stable (GetBalance E it q s) = word_of_int (share E a s)"
  using share_list[OF assms(1,2)] by (simp add: GetBalance_stable assms(3) sum_words utxo_amount_def)

section \<open>The genesis state\<close>

lemma pool_frames:
  assumes "env_ok E"
  shows "held E (stableP E) (DB_SaveWitnessList E ws s) = held E (stableP E) s"
    "pool_inv E (stableP E) U (DB_SaveWitnessList E ws s) = pool_inv E (stableP E) U s"
    "held E (stableP E) (DB_SaveParent E h s) = held E (stableP E) s"
    "pool_inv E (stableP E) U (DB_SaveParent E h s) = pool_inv E (stableP E) U s"
    "held E (stableP E) (DB_DelParent E h s) = held E (stableP E) s"
    "pool_inv E (stableP E) U (DB_DelParent E h s) = pool_inv E (stableP E) U s"
proof -
  note ok = env_ok_ldb[OF assms]
  have apart: "apart (stableP E) (ConstDBWitnessListPrefix (cfg E))"
    using prefixes_apart[OF assms, of 4 3] by (simp add: db_prefixes_def)
  have "ldb_Get E k (fold (\<lambda>w. ldb_Put E (witnessKey E w) (Raw w)) ws s) = ldb_Get E k s"
    if "\<not> prefix (ConstDBWitnessListPrefix (cfg E)) k" for k
    using that by (induction ws arbitrary: s) (auto simp: Get_Put[OF ok] witnessKey_def)
  then have w: "\<And>k. \<not> prefix (ConstDBWitnessListPrefix (cfg E)) k \<Longrightarrow> ldb_Get E k (DB_SaveWitnessList E ws s) = ldb_Get E k s"
    by (simp add: DB_SaveWitnessList_def batch_put_all_fold[OF ok])
  show "held E (stableP E) (DB_SaveWitnessList E ws s) = held E (stableP E) s"
    "pool_inv E (stableP E) U (DB_SaveWitnessList E ws s) = pool_inv E (stableP E) U s"
    by (rule pool_frame[OF apart w], assumption)+
  note par = pool_frame[OF tables_apart(8)[OF assms]]
  show "held E (stableP E) (DB_SaveParent E h s) = held E (stableP E) s"
    "pool_inv E (stableP E) U (DB_SaveParent E h s) = pool_inv E (stableP E) U s"
    "held E (stableP E) (DB_DelParent E h s) = held E (stableP E) s"
    "pool_inv E (stableP E) U (DB_DelParent E h s) = pool_inv E (stableP E) U s"
    by (rule par; auto simp: Get_list_ops[OF assms] parentKey_def)+
qed

text \<open>What the creation of the genesis state relies on: recording a tip does not touch the outputs.\<close>

definition keeps_pool :: "'s env \<Rightarrow> (hash \<Rightarrow> ParentMemDB \<times> 's \<Rightarrow> ParentMemDB \<times> 's) \<Rightarrow> bool" where
  "keeps_pool E SaveNewTip \<longleftrightarrow>
     (\<forall>h pdb s U. held E (stableP E) (snd (SaveNewTip h (pdb, s))) = held E (stableP E) s \<and>
       pool_inv E (stableP E) U (snd (SaveNewTip h (pdb, s))) = pool_inv E (stableP E) U s)"

lemma SaveParent_keeps_pool:
  assumes "env_ok E"
  shows "keeps_pool E (SaveParent E)"
proof -
  have "held E (stableP E) (snd (fold (\<lambda>v. DeleteParent E v) vs (pdb, s))) = held E (stableP E) s \<and>
     pool_inv E (stableP E) U (snd (fold (\<lambda>v. DeleteParent E v) vs (pdb, s))) = pool_inv E (stableP E) U s" for vs pdb s U
    by (induction vs arbitrary: pdb s) (simp_all add: DeleteParent_def pool_frames[OF assms])
  then show ?thesis by (simp add: keeps_pool_def SaveParent_def Let_def pool_frames[OF assms])
qed

lemma genesis_outputs_fold:
  "fold (\<lambda>i. SaveUnspentOutput E (u_WitnessList g ! i) (genesisOutput g i)) is s =
     fold (\<lambda>(a, u). SaveUnspentOutput E a u) (map (\<lambda>i. (u_WitnessList g ! i, genesisOutput g i)) is) s"
  by (simp add: fold_map comp_def)

definition genesis_pool :: "Unit \<Rightarrow> (address \<times> UTXO) set" where
  "genesis_pool g = (\<lambda>i. (u_WitnessList g ! i, genesisOutput g i)) ` {..<length (u_WitnessList g)}"

lemma genesis_total:
  assumes "length (u_WitnessList g) < 2 ^ 64"
  shows "set_total (genesis_pool g) = 10000000 * int (length (u_WitnessList g))"
proof -
  have inj: "inj_on (\<lambda>i. (u_WitnessList g ! i, genesisOutput g i)) {..<length (u_WitnessList g)}"
  proof (rule inj_onI)
    fix i j assume ij: "i \<in> {..<length (u_WitnessList g)}" "j \<in> {..<length (u_WitnessList g)}"
      "(u_WitnessList g ! i, genesisOutput g i) = (u_WitnessList g ! j, genesisOutput g j)"
    then have "(of_nat i :: int64) = of_nat j" by (simp add: genesisOutput_def NewUTXO_def)
    then have "unat (of_nat i :: int64) = unat (of_nat j :: int64)" by simp
    then show "i = j" using ij(1,2) assms by (simp add: unat_of_nat)
  qed
  have "utxo_amount (genesisOutput g i) = 10000000" for i
    by (simp add: genesisOutput_def NewUTXO_def NewOutput_def utxo_amount_def)
  then show ?thesis by (simp add: set_total_def genesis_pool_def sum.reindex[OF inj] comp_def)
qed

lemma initGenesis_pool:
  assumes "pool_inv E (stableP E) U s" "keeps_pool E SaveNewTip"
    and "snd (GetUnitByHash E (HexToHash (GENISIS_UNIT_HASH (cfg E))) s) \<noteq> None"
    and g: "list_all wf_address (u_WitnessList g)" "wf_hash (u_Hash g)" "snd ` genesis_pool g \<subseteq> U"
    and r: "initGenesis E g SaveNewTip pdb wdb s = (pdb', wdb', s')"
  shows "pool_inv E (stableP E) U s' \<and> held E (stableP E) s' = held E (stableP E) s \<union> genesis_pool g"
proof -
  have ok: "env_ok E" using assms(1) by (simp add: pool_inv_def)
  obtain s1 where s1: "s' = fold (\<lambda>(a, u). SaveUnspentOutput E a u)
      (map (\<lambda>i. (u_WitnessList g ! i, genesisOutput g i)) [0..<length (u_WitnessList g)]) s1"
    "held E (stableP E) s1 = held E (stableP E) s" "pool_inv E (stableP E) U s1"
  proof -
    obtain pdb1 s0 where t: "SaveNewTip (u_Hash g) (InitParentMemDB E s pdb, SaveUnitToDb E g s) = (pdb1, s0)" by fastforce
    have s0: "held E (stableP E) s0 = held E (stableP E) s" "pool_inv E (stableP E) U s0"
      using assms(1,2) t unfolding keeps_pool_def by (metis snd_conv stable_frame(4,8)[OF ok])+
    have "s' = fold (\<lambda>(a, u). SaveUnspentOutput E a u)
      (map (\<lambda>i. (u_WitnessList g ! i, genesisOutput g i)) [0..<length (u_WitnessList g)]) (DB_SaveWitnessList E (u_WitnessList g) s0)"
      using r assms(3) t by (auto simp: initGenesis_def Let_def SaveWitnessList_def genesis_outputs_fold split: prod.splits option.splits)
    then show thesis by (rule that) (simp_all add: pool_frames[OF ok] s0)
  qed
  let ?xs = "map (\<lambda>i. (u_WitnessList g ! i, genesisOutput g i)) [0..<length (u_WitnessList g)]"
  have xs: "set ?xs = genesis_pool g" by (auto simp: genesis_pool_def)
  have ok': "wf_address a \<and> wf_utxo u \<and> u \<in> U" if "(a, u) \<in> set ?xs" for a u
    using that g unfolding xs by (force simp: genesis_pool_def list_all_length genesisOutput_def NewUTXO_def NewOutput_def
        wf_utxo_def wf_output_def)
  have "pool_inv E (stableP E) U s'" unfolding s1(1) by (rule stable.save_all(1)[OF s1(3) ok'])
  moreover have "held E (stableP E) s' = held E (stableP E) s1 \<union> set ?xs" unfolding s1(1) by (rule stable.save_all(2)[OF s1(3) ok'])
  ultimately show ?thesis unfolding xs s1(2) by blast
qed

section \<open>Properties\<close>

lemma EncodeToString_no_prefix: "take 2 (EncodeToString a) \<noteq> ''0x''"
proof
  assume "take 2 (EncodeToString a) = ''0x''"
  then have "CHR ''x'' \<in> set (EncodeToString a)" by (metis in_set_takeD list.set_intros(1,2))
  then obtain n where "n < 16" "hextable n = CHR ''x''" using nibbles_EncodeToString by metis
  then show False using nibble_roundtrip(1)[of n] by (simp add: fromHexChar_def)
qed

text \<open>An account is found by its address, written with any checksum or in plain lower case without the prefix; and an
  account that is found is one of the node's and the one whose address the query denotes.\<close>

theorem find_account:
  "(a \<in> set (ListAccounts am) \<longrightarrow>
     FindAccountWith K (Address_String K' a) am = Inr a \<and> FindAccountWith K (EncodeToString a) am = Inr a) \<and>
   (FindAccountWith K q am = Inr b \<and> wf_address b \<longrightarrow> b \<in> set (ListAccounts am) \<and> HexToAddress q = b)"
proof (intro conjI impI)
  assume a: "a \<in> set (ListAccounts am)"
  have "take 2 (Address_String K' a) = ''0x''" by (simp add: Address_String_def Address_Hex_def Let_def)
  then show "FindAccountWith K (Address_String K' a) am = Inr a"
    using accountLoop_finds[OF a fold_Address_String] by (simp add: FindAccountWith_def)
  have "map fold_char (EncodeToString a) = EncodeToString a"
    by (rule map_idI) (use nibbles_EncodeToString in fastforce)
  then have "map fold_char (''0x'' @ EncodeToString a) = ''0x'' @ EncodeToString a"
    using fold_Address_String[of K a] by (simp add: fold_char_def)
  then show "FindAccountWith K (EncodeToString a) am = Inr a"
    using accountLoop_finds[OF a] EncodeToString_no_prefix by (simp add: FindAccountWith_def Let_def)
next
  assume "FindAccountWith K q am = Inr b \<and> wf_address b"
  then have b: "FindAccountWith K q am = Inr b" "wf_address b" by simp_all
  show "HexToAddress q = b" by (rule HexToAddress_found[OF b])
  show "b \<in> set (ListAccounts am)" using b(1) by (auto simp: FindAccountWith_def Let_def dest: accountLoop_found)
qed

theorem find_account_witness: "FindAccountWith (\<lambda>bs. bs) (EncodeToString emptyAddress) toy_manager = Inr emptyAddress"
  using find_account[of emptyAddress toy_manager "\<lambda>bs. bs" "\<lambda>bs. bs"] by (simp add: ListAccounts_def Wallets_def toy_manager_def)

text \<open>The stable balance of an address is the worth of the outputs it holds, as long as that fits into 64 bits, and the
  shares of all addresses make up the pool.\<close>

theorem balance_is_share:
  assumes "pool_inv E (stableP E) U s" "wf_address a" "- (2 ^ 63) \<le> share E a s" "share E a s < 2 ^ 63"
  shows "sint (wb_Stable (GetBalance E it (Address_String (keccak E) a) s)) = share E a s \<and>
    pool_total E (stableP E) s = (\<Sum>b\<in>fst ` held E (stableP E) s. share E b s)"
proof
  have "HexToAddress (Address_String (keccak E) a) = a"
    using assms(2) by (simp add: HexToAddress_def Address_String_def BytesToAddress_id wf_address_def)
  from balance_word[OF assms(1,2) this] show "sint (wb_Stable (GetBalance E it (Address_String (keccak E) a) s)) = share E a s"
    using assms(3,4) by (simp add: sint_sbintrunc' signed_take_bit_int_eq_self)
  have fin: "finite (held E (stableP E) s)" by (rule finite_held[OF assms(1)])
  show "pool_total E (stableP E) s = (\<Sum>b\<in>fst ` held E (stableP E) s. share E b s)"
    unfolding pool_total_held[OF assms(1)] share_def set_total_def by (rule sum.image_gen[OF fin])
qed

theorem balance_is_share_witness:
  "sint (wb_Stable (GetBalance mem_env rev (Address_String (keccak mem_env) (sample_address 1)) pay_db)) = 1000000"
proof -
  have "{x \<in> held mem_env (stableP mem_env) pay_db. fst x = sample_address 1} = {(sample_address 1, src_utxo)}"
    by (auto simp: pay_db_pool(2)[simplified])
  then have "share mem_env (sample_address 1) pay_db = 1000000"
    by (simp add: share_def set_total_def utxo_amount_def src_utxo_def NewUTXO_def NewOutput_def)
  then show ?thesis using balance_is_share[OF pay_db_pool(1), of "sample_address 1" rev] by simp
qed

text \<open>C10. The genesis state: on a database without the genesis unit, \<^verbatim>\<open>initGenesis\<close> gives every witness one output of ten
  million and touches no other output, so that the pool grows by ten million for each witness.\<close>

theorem genesis_supply:
  assumes "pool_inv E (stableP E) U s" "keeps_pool E SaveNewTip"
    and "snd (GetUnitByHash E (HexToHash (GENISIS_UNIT_HASH (cfg E))) s) \<noteq> None"
    and "list_all wf_address (u_WitnessList g)" "wf_hash (u_Hash g)" "snd ` genesis_pool g \<subseteq> U"
    and "length (u_WitnessList g) < 2 ^ 64" "held E (stableP E) s \<inter> genesis_pool g = {}"
    and "initGenesis E g SaveNewTip pdb wdb s = (pdb', wdb', s')"
  shows "held E (stableP E) s' = held E (stableP E) s \<union> genesis_pool g \<and>
    pool_total E (stableP E) s' = pool_total E (stableP E) s + 10000000 * int (length (u_WitnessList g))"
proof -
  note r = initGenesis_pool[OF assms(1-6,9)]
  have fin: "finite (held E (stableP E) s)" "finite (genesis_pool g)"
    using finite_held[OF assms(1)] by (simp_all add: genesis_pool_def)
  have "pool_total E (stableP E) s' = set_total (held E (stableP E) s \<union> genesis_pool g)"
    using pool_total_held[OF conjunct1[OF r]] r by (simp add: set_total_def)
  also have "\<dots> = pool_total E (stableP E) s + set_total (genesis_pool g)"
    unfolding set_total_def pool_total_held[OF assms(1)] by (rule sum.union_disjoint[OF fin assms(8)])
  finally show ?thesis using r genesis_total[OF assms(7)] by simp
qed

definition small_genesis :: Unit where
  "small_genesis = (sample_unit 8 [])\<lparr>u_WitnessList := [sample_address 1]\<rparr>"

theorem genesis_supply_witness:
  "pool_total mem_env (stableP mem_env)
     (snd (snd (initGenesis mem_env small_genesis (SaveParent mem_env) NewParentMemDB NewWitnessMemDB RBT.empty))) = 10000000"
proof -
  obtain pdb wdb s where r: "initGenesis mem_env small_genesis (SaveParent mem_env) NewParentMemDB NewWitnessMemDB RBT.empty = (pdb, wdb, s)"
    by (metis prod_cases3)
  have p: "genesis_pool small_genesis = {(sample_address 1, genesisOutput small_genesis 0)}"
    by (auto simp: genesis_pool_def small_genesis_def)
  have c: "pool_inv mem_env (stableP mem_env) (snd ` genesis_pool small_genesis) RBT.empty"
    by (rule pool_inv_empty) (simp add: p collision_free_def)
  have "pool_total mem_env (stableP mem_env) s = pool_total mem_env (stableP mem_env) RBT.empty + 10000000 * int (length (u_WitnessList small_genesis))"
    by (rule conjunct2[OF genesis_supply[OF c SaveParent_keeps_pool[OF mem_env_ok] _ _ _ _ _ _ r]])
      (simp_all add: small_genesis_def held_def GetUnitByHash_def LDB_Get_def)
  moreover have "pool_total mem_env (stableP mem_env) RBT.empty = 0"
    using pool_total_held[OF c] by (simp add: held_def)
  ultimately show ?thesis using r by (simp add: small_genesis_def)
qed

text \<open>A light node never gets a payment through: \<^verbatim>\<open>ChoiceInputs\<close> returns no outputs, so the balance is never enough.\<close>

theorem light_payment_refused:
  assumes "0 \<le> sint amount" "sint amount < 2 ^ 63 - 200"
  shows "\<exists>e. NewJointLight K am address password tx amount = Inl e"
proof -
  have "sint (amount + 200) = sint amount + 200"
    using assms by (simp add: sint_word_ariths signed_take_bit_int_eq_self)
  then have "(0 :: int64) <s amount + 200" using assms by (simp add: word_sless_alt)
  then show ?thesis
    by (auto simp: NewJointLight_def ChoiceInputs_def ConstHeaderCommission_def ConstPayloadCommission_def add.assoc Let_def split: sum.splits)
qed

end
