(* ===== verification/MainRoot.thy ===== *)
theory MainRoot
  imports GraphInfo Merkle
begin

text \<open>
  The Merkle tree over the stable units, \<^verbatim>\<open>GetMainChainMerkleRoot\<close> and \<^verbatim>\<open>IsUnitInMerkleTree\<close> of
  \<^verbatim>\<open>transaction/auth.go\<close>: the search of \<open>GraphInfo\<close> feeds the tree of \<open>Merkle\<close>, with units as contents.
  \<^verbatim>\<open>log.Fatal\<close> ends the process.  The search, the construction of the tree and the check each have
  their own fuel \<open>f\<close>, \<open>g\<close>, \<open>c\<close>: the tree is as large as what the search finds.
\<close>

section \<open>transaction/auth.go\<close>

definition unitContent :: "(bytes \<Rightarrow> hash) \<Rightarrow> (Unit, unit) Content" where
  "unitContent H = \<lparr>ct_CalculateHash = (\<lambda>u. Inr (CalculateHash H u)), ct_Equals = (\<lambda>u v. Inr (Unit_Equals u v))\<rparr>"

datatype 'a ending = Value 'a | Fatal

definition stableUnitList ::
    "nat \<Rightarrow> 's env \<Rightarrow> (hash, Unit) iter \<Rightarrow> hash list \<Rightarrow> address list \<Rightarrow> 's \<Rightarrow> Unit list outcome" where
  "stableUnitList fuel E it ts ws s =
     (let graphInfo = NewGraphInfoGetter E s ts ws in
      case GetLastStableBallMCI fuel E s graphInfo of
        OutOfFuel \<Rightarrow> OutOfFuel
      | Panicked \<Rightarrow> Panicked
      | Returned startMci \<Rightarrow> map_outcome_of fst (GetMissingUnits fuel E it s graphInfo startMci 0))"

definition treeOf :: "(bytes \<Rightarrow> bytes) \<Rightarrow> nat \<Rightarrow> nat \<Rightarrow> 's env \<Rightarrow> (hash, Unit) iter \<Rightarrow> hash list \<Rightarrow> address list \<Rightarrow> 's \<Rightarrow>
    Unit MerkleTree ending outcome" where
  "treeOf H f g E it ts ws s =
     (case stableUnitList f E it ts ws s of
        OutOfFuel \<Rightarrow> OutOfFuel
      | Panicked \<Rightarrow> Panicked
      | Returned list \<Rightarrow>
          map_outcome_of (\<lambda>r. case r of Inl err \<Rightarrow> Fatal | Inr t \<Rightarrow> Value t) (NewTree H (unitContent (sum256 E)) g list))"

definition GetMainChainMerkleRoot ::
    "(bytes \<Rightarrow> bytes) \<Rightarrow> nat \<Rightarrow> nat \<Rightarrow> 's env \<Rightarrow> (hash, Unit) iter \<Rightarrow> hash list \<Rightarrow> address list \<Rightarrow> 's \<Rightarrow> bytes ending outcome" where
  "GetMainChainMerkleRoot H f g E it ts ws s =
     map_outcome_of (\<lambda>r. case r of Fatal \<Rightarrow> Fatal | Value t \<Rightarrow> Value (MerkleRoot t)) (treeOf H f g E it ts ws s)"


section \<open>The units in the tree\<close>

lemma gig_tips [simp]: "gig_parentList (NewGraphInfoGetter E s ts ws) = ts"
  by (simp add: NewGraphInfoGetter_def GetBestParentUnit_def Let_def)







section \<open>Properties\<close>



end
