(* ===== verification/MainChain.thy ===== *)
theory MainChain
  imports GraphInfo
begin

text \<open>
  \<^verbatim>\<open>dag/main_chain.go\<close>, the walk to the last stable unit, and \<^verbatim>\<open>dag/witness_replace.go\<close>, the count of the units that
  witnesses and candidates published between two votes.  The comparison of sibling chains and the
  extension of the stable part call methods that the sources do not define and are not modelled.
\<close>

section \<open>dag/main_chain.go\<close>

record MainChainUpdater =
  mcu_unitHash :: hash
  mcu_parentList :: "hash list"
  mcu_stableHash :: hash
  mcu_stableLevel :: int64
  mcu_subHash :: hash

text \<open>The recursion of \<^verbatim>\<open>GetStableHash\<close>, with fuel: it does not return if no unit on the way is stable.\<close>

fun GetStableHash :: "nat \<Rightarrow> 's env \<Rightarrow> 's \<Rightarrow> hash \<Rightarrow> MainChainUpdater \<Rightarrow> MainChainUpdater outcome" where
  "GetStableHash 0 E s preUnitHash mcu = OutOfFuel"
| "GetStableHash (Suc fuel) E s preUnitHash mcu =
     (let unit = unit_at E s preUnitHash in
      if u_IsStable unit \<and> u_IsOnMainChain unit
      then Returned (mcu\<lparr>mcu_stableHash := u_Hash unit, mcu_stableLevel := u_Level unit, mcu_subHash := preUnitHash\<rparr>)
      else GetStableHash fuel E s (u_BestParentUnit unit) mcu)"

definition GetLastStableUnit :: "'s env \<Rightarrow> 's \<Rightarrow> MainChainUpdater \<Rightarrow> Unit" where
  "GetLastStableUnit E s mcu =
     (case GetUnitByHash E (mcu_stableHash mcu) s of (unit, None) \<Rightarrow> unit | (_, Some err) \<Rightarrow> NewEmptyUnit)"

section \<open>dag/witness_replace.go\<close>

record WitnessReplacer =
  wr_StartTime :: int64
  wr_EndTime :: int64
  wr_round :: int64
  wr_voteResult :: address
  wr_replaceWitness :: address
  wr_parentList :: "hash list"

definition NewWitnessReplacer ::
    "'s env \<Rightarrow> (hash, unit) iter \<Rightarrow> int64 \<Rightarrow> int64 \<Rightarrow> address \<Rightarrow> address \<Rightarrow> ParentMemDB \<Rightarrow> WitnessMemDB \<Rightarrow> 's \<Rightarrow>
     WitnessReplacer \<times> ParentMemDB" where
  "NewWitnessReplacer E it timeStamp round voteResult replaceWitness pdb wdb s =
     (let startTime = vr_EndTime (GetVoteResultByRound E (GetVoteRound wdb) (wdb, s));
          (parentList, pdb) = GetParentsAsHash E it s pdb
      in (\<lparr>wr_StartTime = startTime, wr_EndTime = timeStamp, wr_round = round, wr_voteResult = voteResult,
            wr_replaceWitness = replaceWitness, wr_parentList = parentList\<rparr>, pdb))"

definition inWindow :: "'s env \<Rightarrow> 's \<Rightarrow> WitnessReplacer \<Rightarrow> hash \<Rightarrow> bool" where
  "inWindow E s wr h = (let t = u_TimeStamp (unit_at E s h) in t <=s wr_EndTime wr \<and> wr_StartTime wr <=s t)"

definition pushWindow :: "'s env \<Rightarrow> 's \<Rightarrow> WitnessReplacer \<Rightarrow> hash list \<Rightarrow> hash Queue \<Rightarrow> hash Queue" where
  "pushWindow E s wr hs que = fold (\<lambda>h que. if inWindow E s wr h then Push h que else que) hs que"

definition getCount :: "(address, int64) gomap \<Rightarrow> address \<Rightarrow> int64" where
  "getCount mp a = (case map_of mp a of None \<Rightarrow> 0 | Some n \<Rightarrow> n)"

text \<open>The loop of both functions; \<open>counted\<close> tells whose units are counted.  The queue is never popped.\<close>

fun countLoop :: "(address \<Rightarrow> bool) \<Rightarrow> 's env \<Rightarrow> 's \<Rightarrow> WitnessReplacer \<Rightarrow> nat \<Rightarrow> hash Queue \<Rightarrow> (address, int64) gomap \<Rightarrow>
    (address, int64) gomap outcome" where
  "countLoop counted E s wr 0 que mp = OutOfFuel"
| "countLoop counted E s wr (Suc fuel) que mp =
     (if Empty que then Returned mp
      else (case Front que of None \<Rightarrow> Panicked
        | Some h \<Rightarrow>
           (case u_Authors (unit_at E s h) of [] \<Rightarrow> Panicked
            | author # _ \<Rightarrow>
               (let a = au_Address author;
                    mp = (if counted a then map_put a (getCount mp a + 1) mp else mp)
                in countLoop counted E s wr fuel (pushWindow E s wr (u_ParentList (unit_at E s h)) que) mp))))"

definition GetReplacedWitness :: "nat \<Rightarrow> 's env \<Rightarrow> 's \<Rightarrow> address list \<Rightarrow> WitnessReplacer \<Rightarrow> (address \<times> int64) outcome" where
  "GetReplacedWitness fuel E s witnessList wr =
     (let witnessSet = AddressSet_ListInsert witnessList NewAddressSet in
      map_outcome_of (\<lambda>mp. fold (\<lambda>witness (minWitness, minTimes).
            if getCount mp witness <s minTimes then (witness, getCount mp witness) else (minWitness, minTimes)) witnessList (emptyAddress, 0))
        (countLoop (\<lambda>a. AddressSet_Exists a witnessSet) E s wr fuel (pushWindow E s wr (wr_parentList wr) New) []))"

definition GetCampaignList ::
    "nat \<Rightarrow> 's env \<Rightarrow> (address, int64) iter \<Rightarrow> 's \<Rightarrow> address list \<Rightarrow> int64 \<Rightarrow> WitnessReplacer \<Rightarrow> address list outcome" where
  "GetCampaignList fuel E it s witnessList minTimes wr =
     (let witnessSet = AddressSet_ListInsert witnessList NewAddressSet in
      map_outcome_of (\<lambda>mp. map fst (filter (\<lambda>(key, val). minTimes <s val) (it mp)))
        (countLoop (\<lambda>a. \<not> AddressSet_Exists a witnessSet) E s wr fuel (pushWindow E s wr (wr_parentList wr) New) []))"

definition SaveVoteResult :: "'s env \<Rightarrow> WitnessReplacer \<Rightarrow> WitnessMemDB \<times> 's \<Rightarrow> WitnessMemDB \<times> 's" where
  "SaveVoteResult E wr ws =
     (let result = NewVoteResult (wr_StartTime wr) (wr_EndTime wr) (wr_voteResult wr) (wr_replaceWitness wr) (wr_round wr);
          ws = SaveVoteRound E (wr_round wr) ws
      in SaveVoteResultByRound E (wr_round wr) result ws)"

section \<open>The walk\<close>

lemma GetStableHash_walk:
  "GetStableHash fuel E s h mcu = (case first_such (\<lambda>n. is_stable_ball (anc E s h n)) fuel of
     None \<Rightarrow> OutOfFuel
   | Some n \<Rightarrow> Returned (mcu\<lparr>mcu_stableHash := u_Hash (anc E s h n), mcu_stableLevel := u_Level (anc E s h n),
        mcu_subHash := (best_parent_of E s ^^ n) h\<rparr>))"
proof (induction fuel arbitrary: h)
  case (Suc fuel)
  show ?case using Suc[of "u_BestParentUnit (unit_at E s h)"]
    by (auto simp: Let_def first_such_Suc anc_0 anc_Suc is_stable_ball_def funpow_swap1 best_parent_of_def split: option.splits)
qed simp


section \<open>The count never ends\<close>

lemma pushWindow_queue:
  assumes "q_inv q"
  shows "q_inv (pushWindow E s wr hs q)" "q_list (pushWindow E s wr hs q) = q_list q @ filter (inWindow E s wr) hs"
proof -
  have "q_inv (pushWindow E s wr hs q) \<and> q_list (pushWindow E s wr hs q) = q_list q @ filter (inWindow E s wr) hs"
    using assms unfolding pushWindow_def by (induction hs arbitrary: q) (auto simp: que_simps)
  then show "q_inv (pushWindow E s wr hs q)" "q_list (pushWindow E s wr hs q) = q_list q @ filter (inWindow E s wr) hs" by simp_all
qed

lemma countLoop_diverges:
  assumes "q_inv q" "q_list q = h # hs" "u_Authors (unit_at E s h) \<noteq> []"
  shows "countLoop counted E s wr fuel q mp = OutOfFuel"
  using assms
proof (induction fuel arbitrary: q hs mp)
  case (Suc fuel)
  have q: "\<not> Empty q" "Front q = Some h" using Suc.prems(1,2) by (simp_all add: que_simps)
  have "countLoop counted E s wr fuel (pushWindow E s wr hs' q) mp' = OutOfFuel" for hs' mp'
    by (rule Suc.IH[OF pushWindow_queue(1)[OF Suc.prems(1)] _ Suc.prems(3)]) (simp add: pushWindow_queue(2)[OF Suc.prems(1)] Suc.prems(2))
  then show ?case using Suc.prems(3) q by (simp add: Let_def split: list.splits)
qed simp

section \<open>Properties\<close>

text \<open>The walk of the main chain updater and the one of the graph information agree: both end exactly if a unit on the
  chain of best parents is stable and on the main chain, and find the same unit; \<^verbatim>\<open>GetLastStableUnit\<close> then reads it
  back.\<close>

theorem stable_walks_agree:
  "map_outcome_of mcu_stableHash (GetStableHash fuel E s (gig_bestParent gig) mcu) = GetLastStableBall fuel E s gig \<and>
   (GetStableHash fuel E s h mcu = Returned mcu' \<and> u_Hash (unit_at E s (mcu_subHash mcu')) = mcu_subHash mcu' \<longrightarrow>
      is_stable_ball (unit_at E s (mcu_stableHash mcu')) \<and> mcu_stableHash mcu' = mcu_subHash mcu')"
proof
  show "map_outcome_of mcu_stableHash (GetStableHash fuel E s (gig_bestParent gig) mcu) = GetLastStableBall fuel E s gig"
    by (simp add: GetStableHash_walk GetLastStableBall_def stableLoop_first[OF start_queue] split: option.splits)
  have "is_stable_ball (unit_at E s (mcu_subHash mcu')) \<and> mcu_stableHash mcu' = u_Hash (unit_at E s (mcu_subHash mcu'))"
    if r: "GetStableHash fuel E s h mcu = Returned mcu'"
  proof -
    obtain n where n: "first_such (\<lambda>n. is_stable_ball (anc E s h n)) fuel = Some n"
      "mcu_stableHash mcu' = u_Hash (anc E s h n)" "mcu_subHash mcu' = (best_parent_of E s ^^ n) h"
      using r by (auto simp: GetStableHash_walk split: option.splits)
    have "is_stable_ball (anc E s h n)"
      using n(1) by (auto simp: first_such_def split: if_splits intro: LeastI)
    then show ?thesis using n(2,3) by (simp add: anc_def)
  qed
  then show "GetStableHash fuel E s h mcu = Returned mcu' \<and> u_Hash (unit_at E s (mcu_subHash mcu')) = mcu_subHash mcu' \<longrightarrow>
      is_stable_ball (unit_at E s (mcu_stableHash mcu')) \<and> mcu_stableHash mcu' = mcu_subHash mcu'" by auto
qed

definition zeroUpdater :: MainChainUpdater where
  "zeroUpdater = \<lparr>mcu_unitHash = emptyHash, mcu_parentList = [], mcu_stableHash = emptyHash, mcu_stableLevel = 0, mcu_subHash = emptyHash\<rparr>"

theorem stable_walks_agree_witness:
  "\<exists>mcu. GetStableHash 5 mem_env graph_db (sample_hash 3) zeroUpdater = Returned mcu \<and> mcu_stableHash mcu = sample_hash 1"
proof -
  have "GetStableHash 5 mem_env graph_db (sample_hash 3) zeroUpdater =
      Returned (zeroUpdater\<lparr>mcu_stableHash := sample_hash 1, mcu_subHash := sample_hash 1\<rparr>)"
    by (simp add: eval_nat_numeral Let_def) (simp add: graph_unit_def sample_unit_def NewEmptyUnit_def zeroUpdater_def)
  then show ?thesis
    using stable_walks_agree[of 5 mem_env graph_db graph_gig zeroUpdater "sample_hash 3"
        "zeroUpdater\<lparr>mcu_stableHash := sample_hash 1, mcu_subHash := sample_hash 1\<rparr>"] by simp
qed

text \<open>The count of units between two votes ends only if there is nothing to count: with no tip in the time window the
  result is the zero address, which is no witness, and an empty list of candidates; with one (whose first
  has an author) both functions run forever, because the queue is never popped.\<close>

theorem vote_count_diverges:
  assumes "iter_ok it"
  shows "(filter (inWindow E s wr) (wr_parentList wr) = [] \<longrightarrow>
      GetReplacedWitness (Suc fuel) E s ws wr = Returned (emptyAddress, 0) \<and> GetCampaignList (Suc fuel) E it s ws k wr = Returned []) \<and>
    (filter (inWindow E s wr) (wr_parentList wr) = h # hs \<and> u_Authors (unit_at E s h) \<noteq> [] \<longrightarrow>
      GetReplacedWitness fuel E s ws wr = OutOfFuel \<and> GetCampaignList fuel E it s ws k wr = OutOfFuel)"
proof (intro conjI[of "_ \<longrightarrow> _"] impI)
  let ?q = "pushWindow E s wr (wr_parentList wr) New"
  note q = pushWindow_queue[of New E s wr "wr_parentList wr", OF que.invar_empty]
  have it: "it [] = []" using assms unfolding iter_ok_def by (metis mset.simps(1) mset_zero_iff)
  assume "filter (inWindow E s wr) (wr_parentList wr) = []"
  then have "Empty ?q" using q by (simp add: que_simps)
  moreover have "fold (\<lambda>witness (minWitness, minTimes). if getCount [] witness <s minTimes then (witness, getCount [] witness)
      else (minWitness, minTimes)) ws (emptyAddress, 0) = (emptyAddress, 0)"
    by (induction ws) (simp_all add: getCount_def)
  ultimately show "GetReplacedWitness (Suc fuel) E s ws wr = Returned (emptyAddress, 0) \<and> GetCampaignList (Suc fuel) E it s ws k wr = Returned []"
    by (simp add: GetReplacedWitness_def GetCampaignList_def Let_def it)
next
  note q = pushWindow_queue[of New E s wr "wr_parentList wr", OF que.invar_empty]
  assume *: "filter (inWindow E s wr) (wr_parentList wr) = h # hs \<and> u_Authors (unit_at E s h) \<noteq> []"
  then have "countLoop counted E s wr fuel (pushWindow E s wr (wr_parentList wr) New) mp = OutOfFuel" for counted mp
    by (intro countLoop_diverges[OF q(1), of h hs]) (simp_all add: q(2) que_simps)
  then show "GetReplacedWitness fuel E s ws wr = OutOfFuel \<and> GetCampaignList fuel E it s ws k wr = OutOfFuel"
    by (simp add: GetReplacedWitness_def GetCampaignList_def Let_def)
qed

theorem vote_count_diverges_witness:
  "GetReplacedWitness 7 mem_env graph_db [] \<lparr>wr_StartTime = 0, wr_EndTime = 0, wr_round = 1, wr_voteResult = emptyAddress,
     wr_replaceWitness = emptyAddress, wr_parentList = [sample_hash 3]\<rparr> = OutOfFuel"
proof -
  let ?wr = "\<lparr>wr_StartTime = 0, wr_EndTime = 0, wr_round = 1, wr_voteResult = emptyAddress,
     wr_replaceWitness = emptyAddress, wr_parentList = [sample_hash 3]\<rparr>"
  have "filter (inWindow mem_env graph_db ?wr) (wr_parentList ?wr) = [sample_hash 3]"
    by (simp add: inWindow_def) (simp add: graph_unit_def sample_unit_def NewEmptyUnit_def)
  then show ?thesis using vote_count_diverges[OF iter_ok_rev, of mem_env graph_db ?wr 7 "[]" 0 "sample_hash 3" "[]"]
    by (simp add: graph_unit_def sample_unit_def)
qed

end
