(* ===== verification/NetUtil.thy ===== *)
theory NetUtil
  imports GraphOps
begin

text \<open>
  \<^verbatim>\<open>p2p/netutil/net.go\<close>: classes of IP addresses, prefixes of addresses, and a set that holds a limited number of
  addresses per network.  An address is its bytes, four or sixteen of them.  The methods of the type
  \<^verbatim>\<open>net.IP\<close> are those of the standard library; a network is its first address and the length of its mask.
\<close>

unbundle bit_operations_syntax

section \<open>net.IP of the standard library\<close>

type_synonym IP = bytes

definition v4InV6Prefix :: bytes where
  "v4InV6Prefix = replicate 10 0 @ [255, 255]"

definition To4 :: "IP \<Rightarrow> IP option" where
  "To4 ip = (if length ip = 4 then Some ip
     else if length ip = 16 \<and> take 12 ip = v4InV6Prefix then Some (drop 12 ip) else None)"

definition To16 :: "IP \<Rightarrow> IP" where
  "To16 ip = (if length ip = 4 then v4InV6Prefix @ ip else if length ip = 16 then ip else [])"

definition IP_Equal :: "IP \<Rightarrow> IP \<Rightarrow> bool" where
  "IP_Equal ip x =
     (if length ip = length x then ip = x
      else if length ip = 4 \<and> length x = 16 then take 12 x = v4InV6Prefix \<and> ip = drop 12 x
      else if length ip = 16 \<and> length x = 4 then take 12 ip = v4InV6Prefix \<and> drop 12 ip = x
      else False)"

definition IPv6zero :: IP where "IPv6zero = replicate 16 0"
definition IPv6loopback :: IP where "IPv6loopback = replicate 15 0 @ [1]"
definition IPv4zero :: IP where "IPv4zero = v4InV6Prefix @ [0, 0, 0, 0]"

definition IsUnspecified :: "IP \<Rightarrow> bool" where
  "IsUnspecified ip \<longleftrightarrow> IP_Equal ip IPv4zero \<or> IP_Equal ip IPv6zero"

definition IsLoopback :: "IP \<Rightarrow> bool" where
  "IsLoopback ip = (case To4 ip of Some ip4 \<Rightarrow> ip4 ! 0 = 127 | None \<Rightarrow> IP_Equal ip IPv6loopback)"

definition IsMulticast :: "IP \<Rightarrow> bool" where
  "IsMulticast ip = (case To4 ip of Some ip4 \<Rightarrow> ip4 ! 0 AND 0xf0 = 0xe0 | None \<Rightarrow> length ip = 16 \<and> ip ! 0 = 0xff)"

record IPNet =
  net_IP :: IP
  net_ones :: nat

text \<open>Byte \<open>i\<close> of a mask of \<open>ones\<close> bits.\<close>

definition maskByte :: "nat \<Rightarrow> nat \<Rightarrow> byte" where
  "maskByte ones i = (if 8 * (i + 1) \<le> ones then 255 else if ones \<le> 8 * i then 0 else NOT (drop_bit (ones - 8 * i) 255))"

definition IPNet_Contains :: "IPNet \<Rightarrow> IP \<Rightarrow> bool" where
  "IPNet_Contains n ip =
     (let ip = (case To4 ip of Some x \<Rightarrow> x | None \<Rightarrow> ip) in
      length ip = length (net_IP n) \<and>
      list_all (\<lambda>i. net_IP n ! i AND maskByte (net_ones n) i = ip ! i AND maskByte (net_ones n) i) [0..<length ip])"

section \<open>p2p/netutil/net.go: classes of addresses\<close>

type_synonym Netlist = "IPNet list"

definition net4 :: "byte \<Rightarrow> byte \<Rightarrow> byte \<Rightarrow> byte \<Rightarrow> nat \<Rightarrow> IPNet" where
  "net4 a b c d ones = \<lparr>net_IP = [a, b, c, d], net_ones = ones\<rparr>"

definition net6 :: "bytes \<Rightarrow> nat \<Rightarrow> IPNet" where
  "net6 p ones = \<lparr>net_IP = p @ replicate (16 - length p) 0, net_ones = ones\<rparr>"

definition lan4 :: Netlist where
  "lan4 = [net4 0 0 0 0 8, net4 10 0 0 0 8, net4 172 16 0 0 12, net4 192 168 0 0 16]"

definition lan6 :: Netlist where
  "lan6 = [net6 [0xfe, 0x80] 10, net6 [0xfc, 0] 7]"

definition special4 :: Netlist where
  "special4 = [net4 192 0 0 0 29, net4 192 0 0 9 32, net4 192 0 0 170 32, net4 192 0 0 171 32, net4 192 0 2 0 24,
     net4 192 31 196 0 24, net4 192 52 193 0 24, net4 192 88 99 0 24, net4 192 175 48 0 24, net4 198 18 0 0 15,
     net4 198 51 100 0 24, net4 203 0 113 0 24, net4 255 255 255 255 32]"

definition special6 :: Netlist where
  "special6 = [net6 [1, 0] 64, net6 [0x20, 1] 32, net6 ([0x20, 1, 0, 1] @ replicate 11 0 @ [1]) 128, net6 [0x20, 1, 0, 2] 48,
     net6 [0x20, 1, 0, 3] 32, net6 [0x20, 1, 0, 4, 1, 0x12] 48, net6 [0x20, 1, 0, 5] 32, net6 [0x20, 1, 0, 0x10] 28,
     net6 [0x20, 1, 0, 0x20] 28, net6 [0x20, 1, 0x0d, 0xb8] 32, net6 [0x20, 2] 16]"

definition Netlist_Contains :: "Netlist option \<Rightarrow> IP \<Rightarrow> bool" where
  "Netlist_Contains l ip = (case l of None \<Rightarrow> False | Some nets \<Rightarrow> list_ex (\<lambda>net. IPNet_Contains net ip) nets)"

definition IsLAN :: "IP \<Rightarrow> bool" where
  "IsLAN ip = (if IsLoopback ip then True
     else (case To4 ip of Some v4 \<Rightarrow> Netlist_Contains (Some lan4) v4 | None \<Rightarrow> Netlist_Contains (Some lan6) ip))"

definition IsSpecialNetwork :: "IP \<Rightarrow> bool" where
  "IsSpecialNetwork ip = (if IsMulticast ip then True
     else (case To4 ip of Some v4 \<Rightarrow> Netlist_Contains (Some special4) v4 | None \<Rightarrow> Netlist_Contains (Some special6) ip))"

datatype relayError = errInvalid | errUnspecified | errSpecial | errLoopback | errLAN

definition CheckRelayIP :: "IP \<Rightarrow> IP \<Rightarrow> relayError option" where
  "CheckRelayIP sender addr =
     (if length addr \<noteq> 4 \<and> length addr \<noteq> 16 then Some errInvalid
      else if IsUnspecified addr then Some errUnspecified
      else if IsSpecialNetwork addr then Some errSpecial
      else if IsLoopback addr \<and> \<not> IsLoopback sender then Some errLoopback
      else if IsLAN addr \<and> \<not> IsLAN sender then Some errLAN
      else None)"

section \<open>p2p/netutil/net.go: prefixes\<close>

definition prefixMask :: "nat \<Rightarrow> byte" where
  "prefixMask bits = NOT (drop_bit (bits mod 8) 0xFF)"

definition sameNet :: "nat \<Rightarrow> IP \<Rightarrow> IP \<Rightarrow> bool" where
  "sameNet bits ip other =
     (let nb = bits div 8; mask = prefixMask bits in
      if mask \<noteq> 0 \<and> nb < length ip \<and> ip ! nb AND mask \<noteq> other ! nb AND mask then False
      else nb \<le> length ip \<and> take nb ip = take nb other)"

definition SameNet :: "nat \<Rightarrow> IP \<Rightarrow> IP \<Rightarrow> bool" where
  "SameNet bits ip other =
     (case (To4 ip, To4 other) of
        (Some ip4, Some other4) \<Rightarrow> sameNet bits ip4 other4
      | (None, None) \<Rightarrow> sameNet bits (To16 ip) (To16 other)
      | _ \<Rightarrow> False)"

section \<open>p2p/netutil/net.go: DistinctNetSet\<close>

record DistinctNetSet =
  ds_Subnet :: nat
  ds_Limit :: nat
  ds_members :: "(bytes, nat) gomap"

definition NewDistinctNetSet :: "nat \<Rightarrow> nat \<Rightarrow> DistinctNetSet" where
  "NewDistinctNetSet subnet limit = \<lparr>ds_Subnet = subnet, ds_Limit = limit, ds_members = []\<rparr>"

definition netKey :: "nat \<Rightarrow> IP \<Rightarrow> bytes" where
  "netKey subnet ip =
     (let (tag, ip) = (case To4 ip of Some ip4 \<Rightarrow> (byte_of_char (CHR ''4''), ip4) | None \<Rightarrow> (byte_of_char (CHR ''6''), ip));
          bits = (if subnet > length ip * 8 then length ip * 8 else subnet);
          nb = bits div 8; mask = prefixMask bits;
          buf = tag # take nb ip
      in if nb < length ip \<and> mask \<noteq> 0 then buf @ [ip ! nb AND mask] else buf)"

definition DistinctNetSet_Add :: "IP \<Rightarrow> DistinctNetSet \<Rightarrow> bool \<times> DistinctNetSet" where
  "DistinctNetSet_Add ip s =
     (let key = netKey (ds_Subnet s) ip; n = (case map_of (ds_members s) key of None \<Rightarrow> 0 | Some n \<Rightarrow> n) in
      if n < ds_Limit s then (True, s\<lparr>ds_members := map_put key (n + 1) (ds_members s)\<rparr>) else (False, s))"

definition DistinctNetSet_Remove :: "IP \<Rightarrow> DistinctNetSet \<Rightarrow> DistinctNetSet" where
  "DistinctNetSet_Remove ip s =
     (let key = netKey (ds_Subnet s) ip in
      case map_of (ds_members s) key of None \<Rightarrow> s
      | Some n \<Rightarrow> if n = 1 then s\<lparr>ds_members := map_del key (ds_members s)\<rparr>
          else s\<lparr>ds_members := map_put key (n - 1) (ds_members s)\<rparr>)"

definition DistinctNetSet_Contains :: "IP \<Rightarrow> DistinctNetSet \<Rightarrow> bool" where
  "DistinctNetSet_Contains ip s \<longleftrightarrow> map_of (ds_members s) (netKey (ds_Subnet s) ip) \<noteq> None"

definition DistinctNetSet_Len :: "DistinctNetSet \<Rightarrow> nat" where
  "DistinctNetSet_Len s = fold (\<lambda>(_, i) n. n + i) (ds_members s) 0"

section \<open>Prefixes of bits\<close>

definition bits_of :: "bytes \<Rightarrow> bool list" where
  "bits_of bs = concat (map (\<lambda>b. map (\<lambda>i. bit b (7 - i)) [0..<8]) bs)"

lemma bits_of_simps [simp]: "bits_of [] = []" "bits_of (b # bs) = map (\<lambda>i. bit b (7 - i)) [0..<8] @ bits_of bs"
  by (simp_all add: bits_of_def)

lemma length_bits_of [simp]: "length (bits_of bs) = 8 * length bs"
  by (induction bs) auto

lemma byte_bits_eq: "map (\<lambda>i. bit (a :: byte) (7 - i)) [0..<8] = map (\<lambda>i. bit b (7 - i)) [0..<8] \<longleftrightarrow> a = b"
proof
  assume "map (\<lambda>i. bit a (7 - i)) [0..<8] = map (\<lambda>i. bit b (7 - i)) [0..<8]"
  then have e: "\<forall>i<8. bit a (7 - i) = bit b (7 - i)" by (simp add: map_eq_conv)
  have "bit a i = bit b i" if "i < 8" for i
  proof -
    have "7 - i < 8" "7 - (7 - i) = i" using that by linarith+
    then show ?thesis using e by metis
  qed
  then show "a = b" by (intro bit_word_eqI) simp
qed simp

lemma bit_all_ones: "bit (0xFF :: byte) j \<longleftrightarrow> j < 8"
proof -
  have "(0xFF :: byte) = - 1" by simp
  then show ?thesis by (simp only: bit_minus_1_iff possible_bit_word) simp
qed

lemma bit_prefixMask:
  assumes "i < 8"
  shows "bit (prefixMask bits) i \<longleftrightarrow> 8 \<le> i + bits mod 8"
proof -
  have "bit (prefixMask bits) i \<longleftrightarrow> \<not> bit (drop_bit (bits mod 8) (0xFF :: byte)) i"
    using assms by (simp only: prefixMask_def bit_not_iff possible_bit_word) simp
  also have "\<dots> \<longleftrightarrow> \<not> bits mod 8 + i < 8" by (simp only: bit_drop_bit_eq comp_apply bit_all_ones)
  finally show ?thesis by linarith
qed

lemma masked_eq:
  fixes a b :: byte
  shows "a AND prefixMask bits = b AND prefixMask bits \<longleftrightarrow> (\<forall>i<bits mod 8. bit a (7 - i) = bit b (7 - i))"
  (is "?l \<longleftrightarrow> ?r")
proof
  assume ?l
  show ?r
  proof (intro allI impI)
    fix i assume i: "i < bits mod 8"
    then have "bit (prefixMask bits) (7 - i)" using mod_less_divisor[of 8 bits] by (subst bit_prefixMask) linarith+
    then show "bit a (7 - i) = bit b (7 - i)" using arg_cong[OF \<open>?l\<close>, of "\<lambda>x. bit x (7 - i)"] by (simp add: bit_and_iff)
  qed
next
  assume r: ?r
  show ?l
  proof (rule bit_word_eqI)
    fix j assume "j < LENGTH(8)"
    then have j: "j < 8" by simp
    show "bit (a AND prefixMask bits) j = bit (b AND prefixMask bits) j"
    proof (cases "8 \<le> j + bits mod 8")
      case True
      then have "7 - j < bits mod 8" using j by linarith
      then have "bit a (7 - (7 - j)) = bit b (7 - (7 - j))" using r by blast
      moreover have "7 - (7 - j) = j" using j by linarith
      ultimately show ?thesis by (simp add: bit_and_iff)
    qed (use j in \<open>simp add: bit_and_iff bit_prefixMask\<close>)
  qed
qed

lemma sameNet_short:
  assumes "bits < 8"
  shows "sameNet bits (a # ip) (b # other) \<longleftrightarrow> (\<forall>i<bits. bit a (7 - i) = bit b (7 - i))"
proof -
  have "prefixMask bits = 0 \<Longrightarrow> a AND prefixMask bits = b AND prefixMask bits" by simp
  then show ?thesis using assms masked_eq[of a bits b] by (auto simp: sameNet_def Let_def)
qed

lemma sameNet_long: "8 \<le> bits \<Longrightarrow> sameNet bits (a # ip) (b # other) \<longleftrightarrow> a = b \<and> sameNet (bits - 8) ip other"
  by (auto simp: sameNet_def Let_def prefixMask_def le_div_geq le_mod_geq)

lemma sameNet_bits:
  assumes "length ip = length other" "bits \<le> 8 * length ip"
  shows "sameNet bits ip other \<longleftrightarrow> take bits (bits_of ip) = take bits (bits_of other)"
  using assms
proof (induction ip other arbitrary: bits rule: list_induct2)
  case Nil
  then show ?case by (simp add: sameNet_def)
next
  case (Cons a ip b other)
  show ?case
  proof (cases "bits < 8")
    case True
    have "take bits [0..<8] = [0..<bits]" using True by simp
    then show ?thesis using True by (auto simp: sameNet_short take_map)
  next
    case False
    then have "sameNet bits (a # ip) (b # other) \<longleftrightarrow> a = b \<and> take (bits - 8) (bits_of ip) = take (bits - 8) (bits_of other)"
      using Cons.IH[of "bits - 8"] Cons.prems by (simp add: sameNet_long)
    then show ?thesis using False byte_bits_eq[of a b] by (simp add: take_map)
  qed
qed

section \<open>Sets with a limit per key\<close>

text \<open>
  What a client of \<open>DistinctNetSet\<close> relies on: it is a multiset of keys in which no key occurs more than \<open>limit\<close>
  times; an addition succeeds exactly if there is room.
\<close>

locale limited_set =
  fixes add :: "'i \<Rightarrow> 's \<Rightarrow> bool \<times> 's"
    and remove :: "'i \<Rightarrow> 's \<Rightarrow> 's"
    and key :: "'i \<Rightarrow> 'k"
    and limit :: nat
    and content :: "'s \<Rightarrow> 'k multiset"
    and invar :: "'s \<Rightarrow> bool"
  assumes add_ok: "invar s \<Longrightarrow> fst (add i s) \<longleftrightarrow> count (content s) (key i) < limit"
    and add_content: "invar s \<Longrightarrow> content (snd (add i s)) =
          (if count (content s) (key i) < limit then add_mset (key i) (content s) else content s)"
    and remove_content: "invar s \<Longrightarrow> content (remove i s) = content s - {#key i#}"
    and invar_add: "invar s \<Longrightarrow> invar (snd (add i s))"
    and invar_remove: "invar s \<Longrightarrow> invar (remove i s)"
    and within: "invar s \<Longrightarrow> count (content s) k \<le> limit"
begin

text \<open>A multiset of items whose keys are all recorded respects the limit.\<close>

lemma items_within:
  assumes "invar s" "image_mset key M \<subseteq># content s"
  shows "size (filter_mset (\<lambda>i. key i = k) M) \<le> limit"
proof -
  have "size (filter_mset (\<lambda>i. key i = k) M) = count (image_mset key M) k"
    by (induction M) auto
  also have "\<dots> \<le> count (content s) k" using assms(2) by (simp add: subseteq_mset_def)
  also have "\<dots> \<le> limit" by (rule within[OF assms(1)])
  finally show ?thesis .
qed

lemma added_is_recorded:
  assumes "invar s" "image_mset key M \<subseteq># content s" "fst (add i s)"
  shows "image_mset key (add_mset i M) \<subseteq># content (snd (add i s))"
  using assms by (simp add: add_content add_ok)

lemma removed_is_recorded:
  assumes "invar s" "image_mset key (add_mset i M) \<subseteq># content s"
  shows "image_mset key M \<subseteq># content (remove i s)"
  using assms by (simp add: remove_content insert_subset_eq_iff)

end

section \<open>DistinctNetSet is such a set\<close>

definition ds_content :: "DistinctNetSet \<Rightarrow> bytes multiset" where
  "ds_content s = (\<Sum>(k, n)\<leftarrow>ds_members s. replicate_mset n k)"

definition ds_inv :: "nat \<Rightarrow> nat \<Rightarrow> DistinctNetSet \<Rightarrow> bool" where
  "ds_inv subnet limit s \<longleftrightarrow> ds_Subnet s = subnet \<and> ds_Limit s = limit \<and> wf_map (ds_members s) \<and>
     (\<forall>(k, n)\<in>set (ds_members s). 0 < n \<and> n \<le> limit)"

definition lookup :: "(bytes, nat) gomap \<Rightarrow> bytes \<Rightarrow> nat" where
  "lookup m k = (case map_of m k of None \<Rightarrow> 0 | Some n \<Rightarrow> n)"

lemma count_members: "wf_map m \<Longrightarrow> count (\<Sum>(k, n)\<leftarrow>m. replicate_mset n k) k = lookup m k"
proof (induction m)
  case (Cons x m)
  obtain k' n where x: "x = (k', n)" by (cases x)
  have "map_of m k' = None" using Cons.prems x by (auto simp: map_of_eq_None_iff)
  then show ?case using Cons x by (auto simp: lookup_def)
qed (simp add: lookup_def)

lemma count_content: "ds_inv sn l s \<Longrightarrow> count (ds_content s) k = lookup (ds_members s) k"
  by (simp add: ds_content_def ds_inv_def count_members)

lemma lookup_simps: "lookup (map_put k n m) k' = (if k' = k then n else lookup m k')" "lookup (map_del k m) k' = (if k' = k then 0 else lookup m k')"
  by (simp_all add: lookup_def map_of_put map_of_del)

lemma set_put: "x \<in> set (map_put k n m) \<Longrightarrow> x = (k, n) \<or> x \<in> set m"
  by (induction m) (auto split: if_splits)

lemma ds_inv_put: "ds_inv sn l s \<Longrightarrow> 0 < n \<Longrightarrow> n \<le> l \<Longrightarrow> ds_inv sn l (s\<lparr>ds_members := map_put k n (ds_members s)\<rparr>)"
  by (auto simp: ds_inv_def distinct_update dest!: set_put)

lemma ds_inv_del: "ds_inv sn l s \<Longrightarrow> ds_inv sn l (s\<lparr>ds_members := map_del k (ds_members s)\<rparr>)"
  by (simp add: ds_inv_def distinct_delete) (auto simp: AList.delete_eq)

lemma ds_inv_lookup: "ds_inv sn l s \<Longrightarrow> map_of (ds_members s) k = Some n \<Longrightarrow> 0 < n \<and> n \<le> l"
  by (auto simp: ds_inv_def dest!: map_of_SomeD)

lemma add_content_eq:
  assumes "ds_inv sn l s"
  shows "ds_content (snd (DistinctNetSet_Add ip s)) =
    (if count (ds_content s) (netKey sn ip) < l then add_mset (netKey sn ip) (ds_content s) else ds_content s)"
    and "ds_inv sn l (snd (DistinctNetSet_Add ip s))"
    and "fst (DistinctNetSet_Add ip s) \<longleftrightarrow> count (ds_content s) (netKey sn ip) < l"
proof -
  let ?k = "netKey sn ip"
  let ?s = "s\<lparr>ds_members := map_put ?k (lookup (ds_members s) ?k + 1) (ds_members s)\<rparr>"
  have c: "count (ds_content s) ?k = lookup (ds_members s) ?k" by (rule count_content[OF assms])
  have a: "DistinctNetSet_Add ip s = (if lookup (ds_members s) ?k < l then (True, ?s) else (False, s))"
    using assms by (simp add: DistinctNetSet_Add_def ds_inv_def lookup_def Let_def)
  have i: "ds_inv sn l ?s" if "lookup (ds_members s) ?k < l" using that by (intro ds_inv_put[OF assms]) simp_all
  then show "ds_inv sn l (snd (DistinctNetSet_Add ip s))" using assms a by simp
  show "fst (DistinctNetSet_Add ip s) \<longleftrightarrow> count (ds_content s) ?k < l" using a c by simp
  have "ds_content ?s = add_mset ?k (ds_content s)" if "lookup (ds_members s) ?k < l"
    by (rule multiset_eqI, subst count_content[OF i[OF that]]) (simp add: count_content[OF assms] lookup_simps)
  then show "ds_content (snd (DistinctNetSet_Add ip s)) =
    (if count (ds_content s) ?k < l then add_mset ?k (ds_content s) else ds_content s)" using a c by simp
qed

lemma remove_content_eq:
  assumes "ds_inv sn l s"
  shows "ds_content (DistinctNetSet_Remove ip s) = ds_content s - {#netKey sn ip#}"
    and "ds_inv sn l (DistinctNetSet_Remove ip s)"
proof -
  let ?k = "netKey sn ip"
  let ?s = "DistinctNetSet_Remove ip s"
  have sn: "ds_Subnet s = sn" using assms by (simp add: ds_inv_def)
  show i: "ds_inv sn l ?s"
  proof (cases "map_of (ds_members s) ?k")
    case (Some n)
    then show ?thesis using ds_inv_lookup[OF assms Some]
      by (auto simp: DistinctNetSet_Remove_def sn Let_def intro!: ds_inv_put[OF assms] ds_inv_del[OF assms])
  qed (simp add: DistinctNetSet_Remove_def sn assms)
  have "lookup (ds_members ?s) k = lookup (ds_members s) k - (if k = ?k then 1 else 0)" for k
    by (cases "map_of (ds_members s) ?k") (simp_all add: DistinctNetSet_Remove_def sn Let_def lookup_simps, simp_all add: lookup_def)
  then show "ds_content ?s = ds_content s - {#?k#}"
    by (intro multiset_eqI) (simp add: count_content[OF i] count_content[OF assms])
qed

lemma content_within: "ds_inv sn l s \<Longrightarrow> count (ds_content s) k \<le> l"
  using ds_inv_lookup[of sn l s k] by (auto simp: count_content lookup_def split: option.splits)

interpretation nets: limited_set DistinctNetSet_Add DistinctNetSet_Remove "netKey subnet" limit ds_content "ds_inv subnet limit"
  for subnet limit
  by unfold_locales (simp_all add: add_content_eq remove_content_eq content_within)

lemma Len_content: "DistinctNetSet_Len s = size (ds_content s)"
proof -
  have "fold (\<lambda>(_, i) n. n + i) m a = a + size (\<Sum>(k, n)\<leftarrow>m. replicate_mset n k)" for m :: "(bytes, nat) gomap" and a
    by (induction m arbitrary: a) auto
  then show ?thesis by (simp add: DistinctNetSet_Len_def ds_content_def)
qed

lemma Contains_content:
  assumes "ds_inv sn l s"
  shows "DistinctNetSet_Contains ip s \<longleftrightarrow> netKey sn ip \<in># ds_content s"
proof -
  have "ds_Subnet s = sn" using assms by (simp add: ds_inv_def)
  then have "DistinctNetSet_Contains ip s \<longleftrightarrow> 0 < lookup (ds_members s) (netKey sn ip)"
    using ds_inv_lookup[OF assms, of "netKey sn ip"] by (auto simp: DistinctNetSet_Contains_def lookup_def split: option.splits)
  also have "\<dots> \<longleftrightarrow> netKey sn ip \<in># ds_content s" unfolding count_content[OF assms, symmetric] by simp
  finally show ?thesis .
qed

section \<open>Keys and prefixes\<close>

definition keyBytes :: "nat \<Rightarrow> IP \<Rightarrow> bytes" where
  "keyBytes bits ip = take (bits div 8) ip @ (if bits div 8 < length ip \<and> prefixMask bits \<noteq> 0 then [ip ! (bits div 8) AND prefixMask bits] else [])"

lemma netKey_alt: "netKey sn ip =
    (case To4 ip of Some ip4 \<Rightarrow> byte_of_char (CHR ''4'') # keyBytes (min sn (8 * length ip4)) ip4
     | None \<Rightarrow> byte_of_char (CHR ''6'') # keyBytes (min sn (8 * length ip)) ip)"
  by (auto simp: netKey_def keyBytes_def Let_def min_def mult.commute split: option.splits)

lemma keyBytes_eq:
  assumes "length ip = length other" "bits \<le> 8 * length ip"
  shows "keyBytes bits ip = keyBytes bits other \<longleftrightarrow> sameNet bits ip other"
  using assms by (auto simp: keyBytes_def sameNet_def Let_def)

abbreviation valid_ip :: "IP \<Rightarrow> bool" where
  "valid_ip ip \<equiv> length ip = 4 \<or> length ip = 16"

lemma length_To4: "To4 ip = Some ip4 \<Longrightarrow> length ip4 = 4"
  by (auto simp: To4_def split: if_splits)

lemma To4_None: "valid_ip ip \<Longrightarrow> To4 ip = None \<Longrightarrow> length ip = 16 \<and> To16 ip = ip"
  by (auto simp: To4_def To16_def split: if_splits)

text \<open>The bits of an address in its short form.\<close>

definition addrBits :: "IP \<Rightarrow> bool list" where
  "addrBits ip = bits_of (case To4 ip of Some ip4 \<Rightarrow> ip4 | None \<Rightarrow> ip)"

lemma SameNet_cases:
  assumes "valid_ip ip" "valid_ip other"
  obtains (v4) ip4 other4 where "To4 ip = Some ip4" "To4 other = Some other4" "length ip4 = 4" "length other4 = 4"
    | (v6) "To4 ip = None" "To4 other = None" "length ip = 16" "length other = 16" "To16 ip = ip" "To16 other = other"
    | (mixed) "(To4 ip = None) \<noteq> (To4 other = None)"
  using To4_None[OF assms(1)] To4_None[OF assms(2)] length_To4[of ip] length_To4[of other]
  by (cases "To4 ip"; cases "To4 other") auto

lemma SameNet_bits:
  assumes "valid_ip ip" "valid_ip other" "bits \<le> 32"
  shows "SameNet bits ip other \<longleftrightarrow> (To4 ip = None) = (To4 other = None) \<and> take bits (addrBits ip) = take bits (addrBits other)"
  using assms(1,2)
proof (cases rule: SameNet_cases)
  case v4
  then show ?thesis using assms(3) by (simp add: SameNet_def addrBits_def sameNet_bits)
next
  case v6
  then show ?thesis using assms(3) by (simp add: SameNet_def addrBits_def sameNet_bits)
next
  case mixed
  then show ?thesis by (auto simp: SameNet_def split: option.splits)
qed

lemma netKey_SameNet:
  assumes "valid_ip ip" "valid_ip other" "bits \<le> 32"
  shows "netKey bits ip = netKey bits other \<longleftrightarrow> SameNet bits ip other"
  using assms(1,2)
proof (cases rule: SameNet_cases)
  case v4
  then show ?thesis using assms(3) by (simp add: SameNet_def netKey_alt keyBytes_eq min_absorb1)
next
  case v6
  then show ?thesis using assms(3) by (simp add: SameNet_def netKey_alt keyBytes_eq min_absorb1)
next
  case mixed
  have "byte_of_char (CHR ''4'') \<noteq> byte_of_char (CHR ''6'')" by (simp add: byte_of_char_def)
  then show ?thesis using mixed by (auto simp: SameNet_def netKey_alt split: option.splits)
qed

section \<open>Runs of a DistinctNetSet\<close>

datatype netop = AddIP IP | RemoveIP IP

fun netop_ip :: "netop \<Rightarrow> IP" where
  "netop_ip (AddIP ip) = ip"
| "netop_ip (RemoveIP ip) = ip"

fun net_run :: "netop list \<Rightarrow> DistinctNetSet \<Rightarrow> bool list \<times> DistinctNetSet" where
  "net_run [] s = ([], s)"
| "net_run (AddIP ip # ops) s = (let (r, s) = DistinctNetSet_Add ip s; (rs, s) = net_run ops s in (r # rs, s))"
| "net_run (RemoveIP ip # ops) s = net_run ops (DistinctNetSet_Remove ip s)"

text \<open>The same on a list of the addresses held; the run is undefined if an address is removed that is not held.\<close>

fun held_run :: "nat \<Rightarrow> nat \<Rightarrow> netop list \<Rightarrow> IP list \<Rightarrow> (bool list \<times> IP list) option" where
  "held_run sn l [] held = Some ([], held)"
| "held_run sn l (AddIP ip # ops) held =
     (let r = length (filter (SameNet sn ip) held) < l in
      map_option (\<lambda>(rs, held). (r # rs, held)) (held_run sn l ops (if r then ip # held else held)))"
| "held_run sn l (RemoveIP ip # ops) held = (if ip \<in> set held then held_run sn l ops (remove1 ip held) else None)"

definition holds :: "nat \<Rightarrow> nat \<Rightarrow> IP list \<Rightarrow> DistinctNetSet \<Rightarrow> bool" where
  "holds sn l held s \<longleftrightarrow> ds_inv sn l s \<and> ds_content s = image_mset (netKey sn) (mset held) \<and> list_all valid_ip held"

lemma count_held:
  assumes "holds sn l held s" "sn \<le> 32" "valid_ip ip"
  shows "count (ds_content s) (netKey sn ip) = length (filter (SameNet sn ip) held)"
proof -
  have "list_all valid_ip hs \<Longrightarrow> count (image_mset (netKey sn) (mset hs)) (netKey sn ip) = length (filter (SameNet sn ip) hs)" for hs
    using assms(2,3) by (induction hs) (auto simp: netKey_SameNet[symmetric])
  then show ?thesis using assms(1) by (simp add: holds_def)
qed

lemma holds_add:
  assumes h: "holds sn l held s" and sn: "sn \<le> 32" and ip: "valid_ip ip"
  defines "r \<equiv> length (filter (SameNet sn ip) held) < l"
  shows "fst (DistinctNetSet_Add ip s) = r" "holds sn l (if r then ip # held else held) (snd (DistinctNetSet_Add ip s))"
proof -
  note c = count_held[OF h sn ip]
  have inv: "ds_inv sn l s" using h by (simp add: holds_def)
  show "fst (DistinctNetSet_Add ip s) = r" by (simp add: nets.add_ok[OF inv] c r_def)
  show "holds sn l (if r then ip # held else held) (snd (DistinctNetSet_Add ip s))"
    using h ip nets.add_content[OF inv, of ip] nets.invar_add[OF inv, of ip] unfolding c r_def by (simp add: holds_def)
qed

lemma holds_remove:
  assumes "holds sn l held s" "ip \<in> set held"
  shows "holds sn l (remove1 ip held) (DistinctNetSet_Remove ip s)"
  using assms nets.remove_content[of sn l s ip] nets.invar_remove[of sn l s ip] set_remove1_subset[of ip held]
  by (auto simp: holds_def list_all_iff image_mset_Diff)

lemma held_run_sim:
  assumes "holds sn l held s" "sn \<le> 32" "\<forall>x\<in>set ops. valid_ip (netop_ip x)" "held_run sn l ops held = Some (rs, held')"
  shows "\<exists>s'. net_run ops s = (rs, s') \<and> holds sn l held' s'"
  using assms
proof (induction ops arbitrary: s held rs)
  case (Cons x ops)
  show ?case
  proof (cases x)
    case (AddIP ip)
    let ?r = "length (filter (SameNet sn ip) held) < l"
    obtain rs' where rs: "rs = ?r # rs'" "held_run sn l ops (if ?r then ip # held else held) = Some (rs', held')"
      using Cons.prems(4) AddIP by (auto simp: Let_def)
    note a = holds_add[OF Cons.prems(1,2), of ip]
    obtain s' where "net_run ops (snd (DistinctNetSet_Add ip s)) = (rs', s')" "holds sn l held' s'"
      using Cons.IH[OF a(2) Cons.prems(2) _ rs(2)] Cons.prems(3) AddIP by auto
    then show ?thesis using a(1) Cons.prems(3) AddIP rs(1) by (auto simp: split_beta)
  next
    case (RemoveIP ip)
    then have r: "ip \<in> set held" "held_run sn l ops (remove1 ip held) = Some (rs, held')"
      using Cons.prems(4) by (auto split: if_splits)
    show ?thesis using Cons.IH[OF holds_remove[OF Cons.prems(1) r(1)] Cons.prems(2) _ r(2)] Cons.prems(3) RemoveIP by simp
  qed
qed simp

lemma holds_new: "holds sn l [] (NewDistinctNetSet sn l)"
  by (simp add: holds_def ds_inv_def ds_content_def NewDistinctNetSet_def)

section \<open>Property\<close>

text \<open>C27. \<^verbatim>\<open>DistinctNetSet\<close> implements a bag of addresses with a limit per network: as long as a client removes only
  addresses it holds, every \<^verbatim>\<open>Add\<close> answers whether fewer than \<open>limit\<close> of the addresses held share the first
  \<open>subnet\<close> bits with the new one; \<^verbatim>\<open>Len\<close> is the number of addresses held, \<^verbatim>\<open>Contains\<close> tells whether one of the same
  network is held, and never are more than \<open>limit\<close> held of one network.\<close>

theorem net_set_limits:
  assumes "subnet \<le> 32" "\<forall>x\<in>set ops. valid_ip (netop_ip x)" "held_run subnet limit ops [] = Some (rs, held)" "valid_ip ip"
  shows "\<exists>s. net_run ops (NewDistinctNetSet subnet limit) = (rs, s) \<and> DistinctNetSet_Len s = length held \<and>
    (DistinctNetSet_Contains ip s \<longleftrightarrow> list_ex (SameNet subnet ip) held) \<and> length (filter (SameNet subnet ip) held) \<le> limit"
proof -
  obtain s where s: "net_run ops (NewDistinctNetSet subnet limit) = (rs, s)" "holds subnet limit held s"
    using held_run_sim[OF holds_new assms(1-3)] by blast
  note c = count_held[OF s(2) assms(1,4)]
  have inv: "ds_inv subnet limit s" and cont: "ds_content s = image_mset (netKey subnet) (mset held)"
    using s(2) by (simp_all add: holds_def)
  have "DistinctNetSet_Contains ip s \<longleftrightarrow> filter (SameNet subnet ip) held \<noteq> []"
    using c by (metis Contains_content[OF inv] count_eq_zero_iff length_0_conv)
  then have "DistinctNetSet_Contains ip s \<longleftrightarrow> list_ex (SameNet subnet ip) held" by (auto simp: filter_empty_conv list_ex_iff)
  moreover have "length (filter (SameNet subnet ip) held) \<le> limit" using nets.within[OF inv, of "netKey subnet ip"] c by simp
  ultimately show ?thesis using s(1) cont by (auto simp: Len_content)
qed

theorem net_set_limits_witness:
  "\<exists>s. net_run [AddIP [1, 2, 3, 4], AddIP [1, 2, 3, 200], AddIP [1, 2, 3, 5], RemoveIP [1, 2, 3, 4], AddIP [1, 2, 3, 5]] (NewDistinctNetSet 24 2) =
     ([True, True, False, True], s) \<and> DistinctNetSet_Len s = 2"
  using net_set_limits[of 24 "[AddIP [1, 2, 3, 4], AddIP [1, 2, 3, 200], AddIP [1, 2, 3, 5], RemoveIP [1, 2, 3, 4], AddIP [1, 2, 3, 5]]"
      2 "[True, True, False, True]" "[[1, 2, 3, 5], [1, 2, 3, 200]]" "[1, 2, 3, 9]"]
  by (simp add: SameNet_def sameNet_def To4_def prefixMask_def) (auto simp: numeral_2_eq_2)

end
