(* ===== verification/Discover.thy ===== *)
theory Discover
  imports NetUtil Accounts
begin

text \<open>
  \<^verbatim>\<open>p2p/discover/table.go\<close> and the distances of \<^verbatim>\<open>p2p/discover/node.go\<close>: the Kademlia table of known nodes.  The
  buckets of a table are a list; an operation on a bucket gets its index.  Every operation that holds
  the mutex is one step.  The clock and the draws of the random generator are arguments, \<open>keccak\<close> stands for
  \<^verbatim>\<open>crypto.Keccak256Hash\<close>.  A time is the number of nanoseconds since the zero time.
\<close>

section \<open>p2p/discover/node.go: nodes and distances\<close>

type_synonym NodeID = bytes

record Node =
  n_IP :: IP
  n_UDP :: "16 word"
  n_TCP :: "16 word"
  n_ID :: NodeID
  n_sha :: hash
  n_addedAt :: int

definition NewNode :: "(bytes \<Rightarrow> hash) \<Rightarrow> NodeID \<Rightarrow> IP \<Rightarrow> 16 word \<Rightarrow> 16 word \<Rightarrow> Node" where
  "NewNode keccak i ip udpPort tcpPort =
     \<lparr>n_IP = (case To4 ip of Some ipv4 \<Rightarrow> ipv4 | None \<Rightarrow> ip), n_UDP = udpPort, n_TCP = tcpPort, n_ID = i, n_sha = keccak i, n_addedAt = 0\<rparr>"

definition Incomplete :: "Node \<Rightarrow> bool" where
  "Incomplete n \<longleftrightarrow> n_IP n = []"

datatype completeError = incompleteNode | missingUDP | missingTCP | invalidIP | badPubkey

text \<open>\<open>onCurve\<close>: whether an identifier is a point of the curve.\<close>

definition validateComplete :: "(NodeID \<Rightarrow> bool) \<Rightarrow> Node \<Rightarrow> completeError option" where
  "validateComplete onCurve n =
     (if Incomplete n then Some incompleteNode
      else if n_UDP n = 0 then Some missingUDP
      else if n_TCP n = 0 then Some missingTCP
      else if IsMulticast (n_IP n) \<or> IsUnspecified (n_IP n) then Some invalidIP
      else if \<not> onCurve (n_ID n) then Some badPubkey
      else None)"

fun distcmp :: "hash \<Rightarrow> hash \<Rightarrow> hash \<Rightarrow> int" where
  "distcmp (t # target) (a # as) (b # bs) =
     (let da = a XOR t; db = b XOR t in if da > db then 1 else if da < db then - 1 else distcmp target as bs)"
| "distcmp _ _ _ = 0"

definition lzcount :: "nat list" where
  "lzcount = [8, 7] @ replicate 2 6 @ replicate 4 5 @ replicate 8 4 @ replicate 16 3 @ replicate 32 2 @ replicate 64 1 @ replicate 128 0"

fun lzLoop :: "hash \<Rightarrow> hash \<Rightarrow> nat" where
  "lzLoop (a # as) (b # bs) = (let x = a XOR b in if x = 0 then 8 + lzLoop as bs else lzcount ! unat x)"
| "lzLoop _ _ = 0"

definition logdist :: "hash \<Rightarrow> hash \<Rightarrow> nat" where
  "logdist a b = length a * 8 - lzLoop a b"

section \<open>p2p/discover/table.go: buckets\<close>

definition alpha :: nat where "alpha = 3"
definition bucketSize :: nat where "bucketSize = 16"
definition maxReplacements :: nat where "maxReplacements = 10"
definition hashBits :: nat where "hashBits = HashLength * 8"
definition nBuckets :: nat where "nBuckets = hashBits div 15"
definition bucketMinDistance :: nat where "bucketMinDistance = hashBits - nBuckets"
definition bucketIPLimit :: nat where "bucketIPLimit = 2"
definition bucketSubnet :: nat where "bucketSubnet = 24"
definition tableIPLimit :: nat where "tableIPLimit = 10"
definition tableSubnet :: nat where "tableSubnet = 24"
definition seedMinTableTime :: int where "seedMinTableTime = 5 * 60 * 10 ^ 9"
definition maxFindnodeFailures :: nat where "maxFindnodeFailures = 5"

record bucket =
  b_entries :: "Node list"
  b_replacements :: "Node list"
  b_ips :: DistinctNetSet

record Table =
  tab_buckets :: "bucket list"
  tab_nursery :: "Node list"
  tab_ips :: DistinctNetSet
  tab_self :: Node
  tab_initDone :: bool

definition setFallbackNodes :: "(bytes \<Rightarrow> hash) \<Rightarrow> (NodeID \<Rightarrow> bool) \<Rightarrow> Node list \<Rightarrow> Table \<Rightarrow> completeError + Table" where
  "setFallbackNodes keccak onCurve nodes tab =
     (case List.find (\<lambda>n. validateComplete onCurve n \<noteq> None) nodes of
        Some n \<Rightarrow> Inl (the (validateComplete onCurve n))
      | None \<Rightarrow> Inr (tab\<lparr>tab_nursery := map (\<lambda>n. n\<lparr>n_sha := keccak (n_ID n)\<rparr>) nodes\<rparr>))"

definition newBucket :: bucket where
  "newBucket = \<lparr>b_entries = [], b_replacements = [], b_ips = NewDistinctNetSet bucketSubnet bucketIPLimit\<rparr>"

definition emptyTable :: "Node \<Rightarrow> Table" where
  "emptyTable self = \<lparr>tab_buckets = replicate nBuckets newBucket, tab_nursery = [],
     tab_ips = NewDistinctNetSet tableSubnet tableIPLimit, tab_self = self, tab_initDone = False\<rparr>"

text \<open>The operations on the list of a bucket.\<close>

fun pushNode :: "Node list \<Rightarrow> Node \<Rightarrow> nat \<Rightarrow> Node list \<times> Node option" where
  "pushNode list n m = (if length list < m then (n # list, None) else (n # butlast list, Some (last list)))"

fun deleteNode :: "Node list \<Rightarrow> Node \<Rightarrow> Node list" where
  "deleteNode [] n = []"
| "deleteNode (e # list) n = (if n_ID e = n_ID n then list else e # deleteNode list n)"

definition bump :: "Node \<Rightarrow> bucket \<Rightarrow> bool \<times> bucket" where
  "bump n b =
     (if list_ex (\<lambda>e. n_ID e = n_ID n) (b_entries b) then (True, b\<lparr>b_entries := n # deleteNode (b_entries b) n\<rparr>) else (False, b))"

definition bucketIndex :: "Table \<Rightarrow> hash \<Rightarrow> nat" where
  "bucketIndex tab sha =
     (let d = logdist (n_sha (tab_self tab)) sha in if d \<le> bucketMinDistance then 0 else d - bucketMinDistance - 1)"

abbreviation tab_bucket :: "Table \<Rightarrow> nat \<Rightarrow> bucket" where
  "tab_bucket tab i \<equiv> tab_buckets tab ! i"

abbreviation set_bucket :: "nat \<Rightarrow> bucket \<Rightarrow> Table \<Rightarrow> Table" where
  "set_bucket i b tab \<equiv> tab\<lparr>tab_buckets := (tab_buckets tab)[i := b]\<rparr>"

definition addIP :: "nat \<Rightarrow> IP \<Rightarrow> Table \<Rightarrow> bool \<times> Table" where
  "addIP i ip tab =
     (if IsLAN ip then (True, tab)
      else (let (ok, ips) = DistinctNetSet_Add ip (tab_ips tab); tab = tab\<lparr>tab_ips := ips\<rparr> in
        if \<not> ok then (False, tab)
        else (let b = tab_bucket tab i; (ok, ips) = DistinctNetSet_Add ip (b_ips b); tab = set_bucket i (b\<lparr>b_ips := ips\<rparr>) tab in
          if \<not> ok then (False, tab\<lparr>tab_ips := DistinctNetSet_Remove ip (tab_ips tab)\<rparr>) else (True, tab))))"

definition removeIP :: "nat \<Rightarrow> IP \<Rightarrow> Table \<Rightarrow> Table" where
  "removeIP i ip tab =
     (if IsLAN ip then tab
      else (let tab = tab\<lparr>tab_ips := DistinctNetSet_Remove ip (tab_ips tab)\<rparr>; b = tab_bucket tab i in
        set_bucket i (b\<lparr>b_ips := DistinctNetSet_Remove ip (b_ips b)\<rparr>) tab))"

definition addReplacement :: "nat \<Rightarrow> Node \<Rightarrow> Table \<Rightarrow> Table" where
  "addReplacement i n tab =
     (if list_ex (\<lambda>e. n_ID e = n_ID n) (b_replacements (tab_bucket tab i)) then tab
      else (let (ok, tab) = addIP i (n_IP n) tab in
        if \<not> ok then tab
        else (let b = tab_bucket tab i; (list, removed) = pushNode (b_replacements b) n maxReplacements;
                  tab = set_bucket i (b\<lparr>b_replacements := list\<rparr>) tab
              in case removed of None \<Rightarrow> tab | Some r \<Rightarrow> removeIP i (n_IP r) tab)))"

definition deleteInBucket :: "nat \<Rightarrow> Node \<Rightarrow> Table \<Rightarrow> Table" where
  "deleteInBucket i n tab =
     (let b = tab_bucket tab i in removeIP i (n_IP n) (set_bucket i (b\<lparr>b_entries := deleteNode (b_entries b) n\<rparr>) tab))"

definition replace :: "nat \<Rightarrow> nat \<Rightarrow> Node \<Rightarrow> Table \<Rightarrow> Node option \<times> Table" where
  "replace rnd i lst tab =
     (let b = tab_bucket tab i in
      if b_entries b = [] \<or> n_ID (last (b_entries b)) \<noteq> n_ID lst then (None, tab)
      else if b_replacements b = [] then (None, deleteInBucket i lst tab)
      else (let r = b_replacements b ! (rnd mod length (b_replacements b));
                tab = set_bucket i (b\<lparr>b_replacements := deleteNode (b_replacements b) r, b_entries := butlast (b_entries b) @ [r]\<rparr>) tab
            in (Some r, removeIP i (n_IP lst) tab)))"

definition bumpOrAdd :: "int \<Rightarrow> nat \<Rightarrow> Node \<Rightarrow> Table \<Rightarrow> bool \<times> Table" where
  "bumpOrAdd now i n tab =
     (case bump n (tab_bucket tab i) of
        (True, b) \<Rightarrow> (True, set_bucket i b tab)
      | (False, _) \<Rightarrow>
          (if length (b_entries (tab_bucket tab i)) \<ge> bucketSize then (False, tab)
           else (let (ok, tab) = addIP i (n_IP n) tab in
             if \<not> ok then (False, tab)
             else (let b = tab_bucket tab i in
               (True, set_bucket i (b\<lparr>b_entries := fst (pushNode (b_entries b) (n\<lparr>n_addedAt := now\<rparr>) bucketSize),
                                      b_replacements := deleteNode (b_replacements b) n\<rparr>) tab)))))"

section \<open>p2p/discover/table.go: the table\<close>

definition Table_add :: "int \<Rightarrow> Node \<Rightarrow> Table \<Rightarrow> Table" where
  "Table_add now n tab =
     (let i = bucketIndex tab (n_sha n); (ok, tab) = bumpOrAdd now i n tab in if \<not> ok then addReplacement i n tab else tab)"

definition addThroughPing :: "int \<Rightarrow> Node \<Rightarrow> Table \<Rightarrow> Table" where
  "addThroughPing now n tab = (if \<not> tab_initDone tab then tab else Table_add now n tab)"

definition stuffOne :: "int \<Rightarrow> Node \<Rightarrow> Table \<Rightarrow> Table" where
  "stuffOne now n tab =
     (if n_ID n = n_ID (tab_self tab) then tab
      else (let i = bucketIndex tab (n_sha n) in
        if length (b_entries (tab_bucket tab i)) < bucketSize then snd (bumpOrAdd now i n tab) else tab))"

definition stuff :: "int \<Rightarrow> Node list \<Rightarrow> Table \<Rightarrow> Table" where
  "stuff now nodes tab = fold (stuffOne now) nodes tab"

definition Table_delete :: "Node \<Rightarrow> Table \<Rightarrow> Table" where
  "Table_delete node tab = deleteInBucket (bucketIndex tab (n_sha node)) node tab"

definition loadSeedNodes :: "int \<Rightarrow> Node list \<Rightarrow> Table \<Rightarrow> Table" where
  "loadSeedNodes now seeds tab = fold (Table_add now) (seeds @ tab_nursery tab) tab"

text \<open>\<^verbatim>\<open>doRevalidate\<close> after the ping: \<open>alive\<close> tells whether the node answered.\<close>

definition doRevalidate :: "nat \<Rightarrow> bool \<Rightarrow> nat \<Rightarrow> Node \<Rightarrow> Table \<Rightarrow> Table" where
  "doRevalidate rnd alive bi lst tab =
     (if alive then set_bucket bi (snd (bump lst (tab_bucket tab bi))) tab else snd (replace rnd bi lst tab))"

text \<open>\<open>perm\<close>: the random order in which the buckets are visited.\<close>

fun nodeToRevalidate :: "nat list \<Rightarrow> Table \<Rightarrow> (Node \<times> nat) option" where
  "nodeToRevalidate [] tab = None"
| "nodeToRevalidate (bi # perm) tab =
     (let b = tab_bucket tab bi in
      if 0 < length (b_entries b) then Some (last (b_entries b), bi) else nodeToRevalidate perm tab)"

definition copyLiveNodes :: "int \<Rightarrow> Table \<Rightarrow> Node list" where
  "copyLiveNodes now tab = filter (\<lambda>n. now - n_addedAt n \<ge> seedMinTableTime) (concat (map b_entries (tab_buckets tab)))"

record nodesByDistance =
  nd_entries :: "Node list"
  nd_target :: hash

definition nd_push :: "Node \<Rightarrow> nat \<Rightarrow> nodesByDistance \<Rightarrow> nodesByDistance" where
  "nd_push n maxElems h =
     (let es = nd_entries h; ix = sort_Search (length es) (\<lambda>i. distcmp (nd_target h) (n_sha (es ! i)) (n_sha n) > 0);
          es = (if length es < maxElems then es @ [n] else es)
      in if ix = length es then h\<lparr>nd_entries := es\<rparr>
         else h\<lparr>nd_entries := take ix es @ [n] @ butlast (drop ix es)\<rparr>)"

definition closest :: "hash \<Rightarrow> nat \<Rightarrow> Table \<Rightarrow> nodesByDistance" where
  "closest target nresults tab =
     fold (\<lambda>b h. fold (\<lambda>n h. nd_push n nresults h) (b_entries b) h) (tab_buckets tab) \<lparr>nd_entries = [], nd_target = target\<rparr>"

definition Table_len :: "Table \<Rightarrow> nat" where
  "Table_len tab = fold (\<lambda>b n. n + length (b_entries b)) (tab_buckets tab) 0"

text \<open>\<^verbatim>\<open>newTable\<close>: \<open>seeds\<close> are the nodes that the database of nodes knows.\<close>

definition newTable ::
    "(bytes \<Rightarrow> hash) \<Rightarrow> (NodeID \<Rightarrow> bool) \<Rightarrow> int \<Rightarrow> Node list \<Rightarrow> NodeID \<Rightarrow> IP \<Rightarrow> 16 word \<Rightarrow> Node list \<Rightarrow> completeError + Table" where
  "newTable keccak onCurve now seeds ourID ip port bootnodes =
     (case setFallbackNodes keccak onCurve bootnodes (emptyTable (NewNode keccak ourID ip port port)) of
        Inl err \<Rightarrow> Inl err | Inr tab \<Rightarrow> Inr (loadSeedNodes now seeds tab))"

text \<open>\<^verbatim>\<open>ReadRandomNodes\<close>: \<open>rnd i\<close> is the draw for position \<open>i\<close>.  The result is what is written to the start of the
  buffer, of \<open>size\<close> slots, and the value returned.\<close>

fun shuffleBuckets :: "(nat \<Rightarrow> nat) \<Rightarrow> nat \<Rightarrow> 'a list \<Rightarrow> 'a list" where
  "shuffleBuckets rnd 0 bs = bs"
| "shuffleBuckets rnd (Suc i) bs =
     (let j = rnd (Suc i) mod length bs in shuffleBuckets rnd i (bs[Suc i := bs ! j, j := bs ! Suc i]))"

fun readLoop :: "nat \<Rightarrow> nat \<Rightarrow> nat \<Rightarrow> 'a list list \<Rightarrow> 'a list \<Rightarrow> 'a list \<times> nat" where
  "readLoop 0 i j bs buf = (buf, i + 1)"
| "readLoop (Suc room) i j bs buf =
     (let b = bs ! j; buf = buf @ [hd b];
          bs = (if length b = 1 then take j bs @ drop (j + 1) bs else bs[j := tl b])
      in if length bs = 0 then (buf, i + 1) else readLoop room (i + 1) ((j + 1) mod length bs) bs buf)"

definition ReadRandomNodes :: "(nat \<Rightarrow> nat) \<Rightarrow> nat \<Rightarrow> Table \<Rightarrow> Node list \<times> nat" where
  "ReadRandomNodes rnd bufsize tab =
     (if \<not> tab_initDone tab then ([], 0)
      else (let buckets = filter (\<lambda>es. 0 < length es) (map b_entries (tab_buckets tab)) in
        if length buckets = 0 then ([], 0)
        else readLoop bufsize 0 0 (shuffleBuckets rnd (length buckets - 1) buckets) []))"

section \<open>p2p/discover/table.go: lookup\<close>

text \<open>One query: what \<^verbatim>\<open>findnode\<close> does to the table and to the number of failures of the node once the answer is there.\<close>

definition findnode :: "int \<Rightarrow> Node \<Rightarrow> bool \<Rightarrow> Node list \<Rightarrow> nat \<times> Table \<Rightarrow> nat \<times> Table" where
  "findnode now n err r =
     (\<lambda>(fails, tab).
        let (fails, tab) =
              (if err \<or> length r = 0
               then (fails + 1, if fails + 1 \<ge> maxFindnodeFailures then Table_delete n tab else tab)
               else if fails > 0 then (fails - 1, tab) else (fails, tab))
        in (fails, fold (Table_add now) r tab))"

text \<open>A lookup depends on the answers only through what they contain, so it is a function of the sequence in which
  they arrive.\<close>

record lookupState =
  lk_asked :: "NodeID list"
  lk_seen :: "NodeID list"
  lk_pending :: nat
  lk_result :: nodesByDistance
  lk_queried :: "Node list"

fun askLoop :: "Node list \<Rightarrow> lookupState \<Rightarrow> lookupState" where
  "askLoop [] st = st"
| "askLoop (n # es) st =
     (if lk_pending st < alpha
      then askLoop es
        (if n_ID n \<notin> set (lk_asked st)
         then st\<lparr>lk_asked := n_ID n # lk_asked st, lk_pending := lk_pending st + 1, lk_queried := lk_queried st @ [n]\<rparr> else st)
      else st)"

fun mergeReply :: "Node option list \<Rightarrow> lookupState \<Rightarrow> lookupState" where
  "mergeReply [] st = st"
| "mergeReply (None # r) st = mergeReply r st"
| "mergeReply (Some n # r) st =
     (if n_ID n \<notin> set (lk_seen st)
      then mergeReply r (st\<lparr>lk_seen := n_ID n # lk_seen st, lk_result := nd_push n bucketSize (lk_result st)\<rparr>)
      else mergeReply r st)"

fun lookupLoop :: "Node option list list \<Rightarrow> lookupState \<Rightarrow> lookupState option" where
  "lookupLoop replies st =
     (let st = askLoop (nd_entries (lk_result st)) st in
      if lk_pending st = 0 then Some st
      else (case replies of [] \<Rightarrow> None
        | r # rs \<Rightarrow> lookupLoop rs ((mergeReply r st)\<lparr>lk_pending := lk_pending st - 1\<rparr>)))"

declare lookupLoop.simps [simp del]

definition startLookup :: "hash \<Rightarrow> Table \<Rightarrow> lookupState" where
  "startLookup target tab = \<lparr>lk_asked = [n_ID (tab_self tab)], lk_seen = [], lk_pending = 0,
     lk_result = closest target bucketSize tab, lk_queried = []\<rparr>"

text \<open>\<open>refreshed\<close> is the table after the refresh that is waited for if nothing was found at first.\<close>

definition lookup_nodes ::
    "(bytes \<Rightarrow> hash) \<Rightarrow> NodeID \<Rightarrow> bool \<Rightarrow> Table \<Rightarrow> Table \<Rightarrow> Node option list list \<Rightarrow> Node list option" where
  "lookup_nodes keccak targetID refreshIfEmpty tab refreshed replies =
     (let target = keccak targetID;
          tab = (if nd_entries (closest target bucketSize tab) = [] \<and> refreshIfEmpty then refreshed else tab)
      in map_option (\<lambda>st. nd_entries (lk_result st)) (lookupLoop replies (startLookup target tab)))"

definition Resolve :: "(bytes \<Rightarrow> hash) \<Rightarrow> NodeID \<Rightarrow> Table \<Rightarrow> Table \<Rightarrow> Node option list list \<Rightarrow> Node option option" where
  "Resolve keccak targetID tab refreshed replies =
     (case nd_entries (closest (keccak targetID) 1 tab) of
        n # _ \<Rightarrow> if n_ID n = targetID then Some (Some n)
                 else map_option (List.find (\<lambda>n. n_ID n = targetID)) (lookup_nodes keccak targetID True tab refreshed replies)
      | [] \<Rightarrow> map_option (List.find (\<lambda>n. n_ID n = targetID)) (lookup_nodes keccak targetID True tab refreshed replies))"

section \<open>Distances\<close>

definition be_nat :: "bytes \<Rightarrow> nat" where
  "be_nat bs = fold (\<lambda>b n. 256 * n + unat b) bs 0"

definition xorDist :: "hash \<Rightarrow> hash \<Rightarrow> nat" where
  "xorDist a b = be_nat (map2 (XOR) a b)"

lemma be_nat_fold: "fold (\<lambda>b n. 256 * n + unat b) (bs :: bytes) k = k * 256 ^ length bs + be_nat bs"
proof (induction bs arbitrary: k)
  case (Cons b bs)
  show ?case using Cons[of "256 * k + unat b"] Cons[of "unat b"] by (simp add: be_nat_def algebra_simps)
qed (simp add: be_nat_def)

lemma be_nat_simps [simp]: "be_nat [] = 0" "be_nat (b # bs) = unat b * 256 ^ length bs + be_nat bs"
  using be_nat_fold[of bs "unat b"] by (simp_all add: be_nat_def)

lemma be_nat_less: "be_nat bs < 256 ^ length bs"
proof (induction bs)
  case (Cons b bs)
  have "unat b < 256" using unsigned_less[of b] by simp
  then have "unat b * 256 ^ length bs + 256 ^ length bs \<le> 256 * 256 ^ length bs"
    by (metis Suc_leI add.commute mult_Suc mult_le_mono1)
  then have "unat b * 256 ^ length bs + be_nat bs < 256 * 256 ^ length bs" using Cons by linarith
  then show ?case by simp
qed simp

lemma digits_less:
  fixes x y k l B :: nat
  assumes "k < B" "l < B"
  shows "x < y \<Longrightarrow> x * B + k < y * B + l" "x * B + k = y * B + l \<longleftrightarrow> x = y \<and> k = l"
proof -
  have lt: "x * B + k < y * B + l" if "x < y" "k < B" "l < B" for x y k l :: nat
  proof -
    have "x * B + B \<le> y * B" using that(1) by (metis Suc_leI add.commute mult_Suc mult_le_mono1)
    then show ?thesis using that(2) by linarith
  qed
  show "x < y \<Longrightarrow> x * B + k < y * B + l" by (rule lt[OF _ assms])
  show "x * B + k = y * B + l \<longleftrightarrow> x = y \<and> k = l"
    using lt[of x y k l] lt[of y x l k] assms by (metis add_left_cancel less_irrefl linorder_neqE_nat)
qed

lemma distcmp_spec:
  "length t = length a \<Longrightarrow> length t = length b \<Longrightarrow>
   distcmp t a b = (if xorDist a t > xorDist b t then 1 else if xorDist a t < xorDist b t then - 1 else 0)"
proof (induction t a b rule: distcmp.induct)
  case (1 t target a as b bs)
  have l: "length (map2 (XOR) as target) = length target" "length (map2 (XOR) bs target) = length target" using 1 by simp_all
  have less: "be_nat (map2 (XOR) as target) < 256 ^ length target" "be_nat (map2 (XOR) bs target) < 256 ^ length target"
    using be_nat_less[of "map2 (XOR) as target"] be_nat_less[of "map2 (XOR) bs target"] l by simp_all
  note d = digits_less[OF less] digits_less[OF less(2,1)]
  have IH: "\<not> a XOR t > b XOR t \<Longrightarrow> \<not> a XOR t < b XOR t \<Longrightarrow> distcmp target as bs =
      (if xorDist as target > xorDist bs target then 1 else if xorDist as target < xorDist bs target then - 1 else 0)"
    using 1(1)[OF refl refl] 1(2,3) by simp
  consider "a XOR t > b XOR t" | "a XOR t < b XOR t" | "a XOR t = b XOR t" by force
  then show ?case
  proof cases
    case 3
    then show ?thesis using IH 1(2,3) by (simp add: xorDist_def)
  qed (use 1(2,3) d l in \<open>auto simp: xorDist_def word_less_nat_alt not_less_iff_gr_or_eq\<close>)
qed (auto simp: xorDist_def)

lemma nth_segment: "length xs \<le> n \<Longrightarrow> n < length xs + m \<Longrightarrow> (xs @ replicate m v @ ys) ! n = v"
  by (simp add: nth_append less_diff_conv2)

lemma lzcount_nth:
  "lzcount ! 1 = 7" "2 \<le> n \<Longrightarrow> n < 4 \<Longrightarrow> lzcount ! n = 6" "4 \<le> n \<Longrightarrow> n < 8 \<Longrightarrow> lzcount ! n = 5"
  "8 \<le> n \<Longrightarrow> n < 16 \<Longrightarrow> lzcount ! n = 4" "16 \<le> n \<Longrightarrow> n < 32 \<Longrightarrow> lzcount ! n = 3" "32 \<le> n \<Longrightarrow> n < 64 \<Longrightarrow> lzcount ! n = 2"
  "64 \<le> n \<Longrightarrow> n < 128 \<Longrightarrow> lzcount ! n = 1" "128 \<le> n \<Longrightarrow> n < 256 \<Longrightarrow> lzcount ! n = 0"
  using nth_segment[of "[8, 7 :: nat]" n 2] nth_segment[of "[8, 7 :: nat] @ replicate 2 6" n 4]
    nth_segment[of "[8, 7 :: nat] @ replicate 2 6 @ replicate 4 5" n 8]
    nth_segment[of "[8, 7 :: nat] @ replicate 2 6 @ replicate 4 5 @ replicate 8 4" n 16]
    nth_segment[of "[8, 7 :: nat] @ replicate 2 6 @ replicate 4 5 @ replicate 8 4 @ replicate 16 3" n 32]
    nth_segment[of "[8, 7 :: nat] @ replicate 2 6 @ replicate 4 5 @ replicate 8 4 @ replicate 16 3 @ replicate 32 2" n 64]
    nth_segment[of "[8, 7 :: nat] @ replicate 2 6 @ replicate 4 5 @ replicate 8 4 @ replicate 16 3 @ replicate 32 2 @ replicate 64 1" n 128 0 "[]"]
  unfolding lzcount_def by simp_all

lemma lzcount_bounds:
  assumes "0 < n" "n < 256"
  shows "lzcount ! n < 8 \<and> 2 ^ (7 - lzcount ! n) \<le> n \<and> n < 2 ^ (8 - lzcount ! n)"
proof -
  consider "n = 1" | "2 \<le> n" "n < 4" | "4 \<le> n" "n < 8" | "8 \<le> n" "n < 16" | "16 \<le> n" "n < 32" | "32 \<le> n" "n < 64"
    | "64 \<le> n" "n < 128" | "128 \<le> n"
    using assms(1) by linarith
  then show ?thesis using assms(2) by cases (simp_all add: lzcount_nth[simplified])
qed

lemma lzLoop_spec:
  "length a = length b \<Longrightarrow> (xorDist a b = 0 \<longrightarrow> lzLoop a b = 8 * length a) \<and>
   (xorDist a b \<noteq> 0 \<longrightarrow> lzLoop a b < 8 * length a \<and>
      2 ^ (8 * length a - lzLoop a b - 1) \<le> xorDist a b \<and> xorDist a b < 2 ^ (8 * length a - lzLoop a b))"
proof (induction a b rule: lzLoop.induct)
  case (1 a as b bs)
  let ?x = "a XOR b" and ?l = "length as"
  have le: "xorDist as bs < 256 ^ ?l" using be_nat_less[of "map2 (XOR) as bs"] 1(2) by (simp add: xorDist_def)
  have xd: "xorDist (a # as) (b # bs) = unat ?x * 256 ^ ?l + xorDist as bs" using 1(2) by (simp add: xorDist_def)
  show ?case
  proof (cases "?x = 0")
    case True
    then show ?thesis using 1(1)[OF refl True] 1(2) xd by auto
  next
    case False
    then have x: "0 < unat ?x" "unat ?x < 256" using unsigned_less[of ?x] by (simp_all add: unat_gt_0)
    let ?k = "lzcount ! unat ?x"
    have k: "?k < 8" "2 ^ (7 - ?k) \<le> unat ?x" "unat ?x < 2 ^ (8 - ?k)" using lzcount_bounds[OF x] by simp_all
    have p: "(256 :: nat) ^ ?l = 2 ^ (8 * ?l)" by (simp add: power_mult)
    have "2 ^ (7 - ?k) * 256 ^ ?l \<le> unat ?x * 256 ^ ?l" using k(2) by simp
    then have lo: "2 ^ (8 * Suc ?l - ?k - 1) \<le> xorDist (a # as) (b # bs)"
      using k(1) xd unfolding p by (simp flip: power_add add: algebra_simps)
    have "(unat ?x + 1) * 256 ^ ?l \<le> 2 ^ (8 - ?k) * 256 ^ ?l" using k(3) by (intro mult_le_mono1) simp
    then have "xorDist (a # as) (b # bs) < 2 ^ (8 - ?k) * 256 ^ ?l" using le xd by simp
    then have hi: "xorDist (a # as) (b # bs) < 2 ^ (8 * Suc ?l - ?k)"
      using k(1) unfolding p by (simp flip: power_add add: algebra_simps)
    have "0 < xorDist (a # as) (b # bs)" using lo by (meson less_le_trans zero_less_numeral zero_less_power)
    then show ?thesis using lo hi False k(1) by simp
  qed
qed (auto simp: xorDist_def)

lemma logdist_spec:
  assumes "length a = length b"
  shows "logdist a b \<le> 8 * length a" "logdist a b = 0 \<longleftrightarrow> xorDist a b = 0"
    "xorDist a b \<noteq> 0 \<Longrightarrow> 2 ^ (logdist a b - 1) \<le> xorDist a b \<and> xorDist a b < 2 ^ logdist a b"
  using lzLoop_spec[OF assms] by (auto simp: logdist_def mult.commute)

lemma xorDist_less: "length a = length b \<Longrightarrow> xorDist a b < 256 ^ length a"
  using be_nat_less[of "map2 (XOR) a b"] by (simp add: xorDist_def)

lemma bucketIndex_less:
  assumes "length (n_sha (tab_self tab)) = 32" "length sha = 32"
  shows "bucketIndex tab sha < nBuckets"
proof -
  have "logdist (n_sha (tab_self tab)) sha \<le> 256" using logdist_spec(1)[of "n_sha (tab_self tab)" sha] assms by simp
  then show ?thesis
    unfolding bucketIndex_def Let_def bucketMinDistance_def nBuckets_def hashBits_def HashLength_def by simp linarith
qed

section \<open>The nodes closest to a target\<close>

text \<open>Insertion behind the elements with the same key.\<close>

fun ins_after :: "('a \<Rightarrow> nat) \<Rightarrow> 'a \<Rightarrow> 'a list \<Rightarrow> 'a list" where
  "ins_after f n [] = [n]"
| "ins_after f n (y # ys) = (if f y \<le> f n then y # ins_after f n ys else n # y # ys)"

lemma ins_after_alt: "ins_after f n ys = takeWhile (\<lambda>y. f y \<le> f n) ys @ n # dropWhile (\<lambda>y. f y \<le> f n) ys"
  by (induction ys) auto

lemma take_ins_after: "take m (ins_after f n (take m ys)) = take m (ins_after f n ys)"
proof (induction ys arbitrary: m)
  case (Cons y ys)
  show ?case using Cons by (cases m) (auto simp: take_Cons' min_def)
qed simp

lemma mset_ins_after: "mset (ins_after f n ys) = add_mset n (mset ys)"
  by (induction ys) auto

lemma sorted_ins_after: "sorted (map f ys) \<Longrightarrow> sorted (map f (ins_after f n ys))"
proof (induction ys)
  case (Cons y ys)
  have "set (ins_after f n ys) = insert n (set ys)" by (metis mset_ins_after set_mset_add_mset_insert set_mset_mset)
  then show ?case using Cons by auto
qed simp

lemma filter_ins_after:
  "sorted (map f ys) \<Longrightarrow> filter (\<lambda>y. f y = k) (ins_after f n ys) = filter (\<lambda>y. f y = k) (ys @ [n])"
proof (induction ys)
  case (Cons y ys)
  have "filter (\<lambda>z. f z = f n) ys = []" if "\<not> f y \<le> f n" using that Cons.prems by (auto simp: filter_empty_conv)
  then show ?case using Cons by auto
qed simp

lemma sort_snoc: "sort_key f (xs @ [n]) = ins_after f n (sort_key f xs)"
proof (rule properties_for_sort_key)
  fix k
  have e: "(\<lambda>x. f k = f x) = (\<lambda>x. f x = f k)" by auto
  show "filter (\<lambda>x. f k = f x) (ins_after f n (sort_key f xs)) = filter (\<lambda>x. f k = f x) (xs @ [n])"
    using sort_key_stable[of f "f k" xs] unfolding e by (simp add: filter_ins_after)
qed (simp_all add: mset_ins_after sorted_ins_after)

abbreviation wf_node :: "Node \<Rightarrow> bool" where
  "wf_node n \<equiv> length (n_sha n) = 32"

abbreviation dist :: "hash \<Rightarrow> Node \<Rightarrow> nat" where
  "dist target n \<equiv> xorDist (n_sha n) target"

lemma push_position:
  assumes "length target = 32" "list_all wf_node es" "wf_node n" "sorted (map (dist target) es)"
  defines "ix \<equiv> sort_Search (length es) (\<lambda>i. distcmp target (n_sha (es ! i)) (n_sha n) > 0)"
  shows "ix \<le> length es \<and> ins_after (dist target) n es = take ix es @ n # drop ix es"
proof -
  let ?P = "\<lambda>y. dist target y \<le> dist target n"
  have cmp: "distcmp target (n_sha (es ! i)) (n_sha n) > 0 \<longleftrightarrow> \<not> ?P (es ! i)" if "i < length es" for i
    using assms(1-3) that by (auto simp: distcmp_spec list_all_length)
  have "ix \<le> length es \<and> (\<forall>k<ix. \<not> distcmp target (n_sha (es ! k)) (n_sha n) > 0) \<and>
      (ix < length es \<longrightarrow> distcmp target (n_sha (es ! ix)) (n_sha n) > 0)"
    unfolding ix_def sort_Search_def
  proof (rule searchLoop_spec)
    fix i j assume "i \<le> j" "j < length es" "0 < distcmp target (n_sha (es ! i)) (n_sha n)"
    then show "0 < distcmp target (n_sha (es ! j)) (n_sha n)"
      using sorted_nth_mono[OF assms(4), of i j] by (simp add: cmp)
  qed simp_all
  then have ix: "ix \<le> length es" "\<And>k. k < ix \<Longrightarrow> ?P (es ! k)" "ix < length es \<Longrightarrow> \<not> ?P (es ! ix)" using cmp by auto
  have "takeWhile ?P es = take ix es" by (rule takeWhile_eq_take_P_nth) (use ix in auto)
  then have "dropWhile ?P es = drop ix es" by (metis append_eq_conv_conj append_take_drop_id ix(1) length_take min.absorb2 takeWhile_dropWhile_id)
  then show ?thesis using ix(1) \<open>takeWhile ?P es = take ix es\<close> by (simp add: ins_after_alt)
qed

lemma push_spec:
  assumes "length (nd_target h) = 32" "list_all wf_node (nd_entries h)" "wf_node n"
    "sorted (map (dist (nd_target h)) (nd_entries h))" "length (nd_entries h) \<le> m"
  shows "nd_push n m h = h\<lparr>nd_entries := take m (ins_after (dist (nd_target h)) n (nd_entries h))\<rparr>"
proof -
  let ?es = "nd_entries h"
  let ?ix = "sort_Search (length ?es) (\<lambda>i. distcmp (nd_target h) (n_sha (?es ! i)) (n_sha n) > 0)"
  have p: "?ix \<le> length ?es" "ins_after (dist (nd_target h)) n ?es = take ?ix ?es @ n # drop ?ix ?es"
    using push_position[OF assms(1-4)] by simp_all
  show ?thesis
  proof (cases "length ?es < m")
    case True
    then show ?thesis using p by (simp add: nd_push_def Let_def)
  next
    case False
    then have m: "m = length ?es" using assms(5) by simp
    show ?thesis
    proof (cases "?ix = length ?es")
      case True
      then show ?thesis using p(2) m by (simp add: nd_push_def Let_def)
    next
      case f: False
      then have "take (m - ?ix) (n # drop ?ix ?es) = n # butlast (drop ?ix ?es)"
        using p(1) f m by (cases "m - ?ix") (simp_all add: butlast_conv_take)
      then show ?thesis using p False f m by (simp add: nd_push_def Let_def)
    qed
  qed
qed

text \<open>Pushing nodes one by one keeps the closest of them.\<close>

lemma push_sorted:
  assumes "length target = 32" "list_all wf_node xs" "wf_node n"
  shows "nd_push n m \<lparr>nd_entries = take m (sort_key (dist target) xs), nd_target = target\<rparr> =
    \<lparr>nd_entries = take m (sort_key (dist target) (xs @ [n])), nd_target = target\<rparr>"
proof -
  let ?h = "\<lparr>nd_entries = take m (sort_key (dist target) xs), nd_target = target\<rparr>"
  have "sorted (take m (map (dist target) (sort_key (dist target) xs)))" by (intro sorted_wrt_take) simp
  moreover have "set (take m (sort_key (dist target) xs)) \<subseteq> set xs" using set_take_subset[of m "sort_key (dist target) xs"] by simp
  ultimately have "nd_push n m ?h = ?h\<lparr>nd_entries := take m (ins_after (dist target) n (nd_entries ?h))\<rparr>"
    using assms push_spec[of ?h n m] by (simp add: take_map list_all_iff subset_iff)
  then show ?thesis by (simp add: sort_snoc take_ins_after)
qed

lemma fold_push:
  assumes "length target = 32" "list_all wf_node xs" "list_all wf_node ys"
  shows "fold (\<lambda>n. nd_push n m) ys \<lparr>nd_entries = take m (sort_key (dist target) xs), nd_target = target\<rparr> =
    \<lparr>nd_entries = take m (sort_key (dist target) (xs @ ys)), nd_target = target\<rparr>"
  using assms(2,3)
proof (induction ys arbitrary: xs)
  case (Cons y ys)
  then show ?case using Cons.IH[of "xs @ [y]"] by (simp add: push_sorted[OF assms(1)])
qed simp

abbreviation tab_nodes :: "Table \<Rightarrow> Node list" where
  "tab_nodes tab \<equiv> concat (map b_entries (tab_buckets tab))"

lemma closest_eq:
  assumes "length target = 32" "list_all wf_node (tab_nodes tab)"
  shows "closest target m tab = \<lparr>nd_entries = take m (sort_key (dist target) (tab_nodes tab)), nd_target = target\<rparr>"
proof -
  have "fold (\<lambda>b h. fold (\<lambda>n h. nd_push n m h) (b_entries b) h) bs h = fold (\<lambda>n. nd_push n m) (concat (map b_entries bs)) h" for bs h
    by (induction bs arbitrary: h) simp_all
  then have "closest target m tab = fold (\<lambda>n. nd_push n m) (tab_nodes tab) \<lparr>nd_entries = [], nd_target = target\<rparr>"
    unfolding closest_def by (rule trans[rotated]) simp
  then show ?thesis using fold_push[OF assms(1), of "[]" "tab_nodes tab" m] assms(2) by simp
qed

end
