(* ===== verification/TableInv.thy ===== *)
theory TableInv
  imports Discover
begin

text \<open>
  What the operations of the node table keep (\<^verbatim>\<open>p2p/discover/table.go\<close>): the sizes of the buckets, that every node is in
  the bucket of its distance and only once, and the limits on addresses of one network.
\<close>

section \<open>Runs of the table\<close>

datatype tabop =
    OpAdd int Node
  | OpPing int Node
  | OpStuff int "Node list"
  | OpDelete Node
  | OpFindnode int Node bool "Node list" nat
  | OpRevalidate nat bool nat Node
  | OpInitDone

fun tab_step :: "tabop \<Rightarrow> Table \<Rightarrow> Table" where
  "tab_step (OpAdd now n) tab = Table_add now n tab"
| "tab_step (OpPing now n) tab = addThroughPing now n tab"
| "tab_step (OpStuff now ns) tab = stuff now ns tab"
| "tab_step (OpDelete n) tab = Table_delete n tab"
| "tab_step (OpFindnode now n err r fails) tab = snd (findnode now n err r (fails, tab))"
| "tab_step (OpRevalidate rnd alive bi n) tab = doRevalidate rnd alive bi n tab"
| "tab_step OpInitDone tab = tab\<lparr>tab_initDone := True\<rparr>"

fun op_nodes :: "tabop \<Rightarrow> Node list" where
  "op_nodes (OpAdd now n) = [n]"
| "op_nodes (OpPing now n) = [n]"
| "op_nodes (OpStuff now ns) = ns"
| "op_nodes (OpDelete n) = [n]"
| "op_nodes (OpFindnode now n err r fails) = n # r"
| "op_nodes (OpRevalidate rnd alive bi n) = [n]"
| "op_nodes OpInitDone = []"

section \<open>The lists of a bucket\<close>

lemma deleteNode_filter: "distinct (map n_ID es) \<Longrightarrow> deleteNode es n = filter (\<lambda>e. n_ID e \<noteq> n_ID n) es"
proof (induction es)
  case (Cons e es)
  have "filter (\<lambda>e. n_ID e \<noteq> n_ID n) es = es" if "n_ID n \<notin> n_ID ` set es" using that by (metis (mono_tags, lifting) filter_True imageI)
  then show ?case using Cons by auto
qed simp

lemma deleteNode_absent: "n_ID n \<notin> n_ID ` set es \<Longrightarrow> deleteNode es n = es"
  by (induction es) auto

lemma mset_deleteNode: "r \<in> set es \<Longrightarrow> distinct (map n_ID es) \<Longrightarrow> mset es = add_mset r (mset (deleteNode es r))"
  by (induction es) (auto simp: deleteNode_absent)

lemma length_deleteNode: "n_ID n \<in> n_ID ` set es \<Longrightarrow> Suc (length (deleteNode es n)) = length es"
  by (induction es) auto

lemma length_deleteNode_le: "length (deleteNode es n) \<le> length es"
  by (induction es) auto

lemma list_ex_ID: "list_ex (\<lambda>e. n_ID e = n_ID n) es \<longleftrightarrow> n_ID n \<in> n_ID ` set es"
  by (force simp: list_ex_iff)

section \<open>The invariant\<close>

text \<open>\<open>selfIndex\<close> is the index of the bucket for a node, as a function of the own node.\<close>

definition selfIndex :: "Node \<Rightarrow> hash \<Rightarrow> nat" where
  "selfIndex self sha = (let d = logdist (n_sha self) sha in if d \<le> bucketMinDistance then 0 else d - bucketMinDistance - 1)"

lemma bucketIndex_self: "bucketIndex tab sha = selfIndex (tab_self tab) sha"
  by (simp add: bucketIndex_def selfIndex_def)

definition placed :: "(bytes \<Rightarrow> hash) \<Rightarrow> Node \<Rightarrow> nat \<Rightarrow> Node \<Rightarrow> bool" where
  "placed keccak self i n \<longleftrightarrow> n_sha n = keccak (n_ID n) \<and> selfIndex self (n_sha n) = i"

lemma placed_addedAt [simp]: "placed keccak self i (n\<lparr>n_addedAt := t\<rparr>) = placed keccak self i n"
  by (simp add: placed_def)

lemma placed_ID: "placed keccak self i e \<Longrightarrow> n_ID e = n_ID n \<Longrightarrow> n_sha n = keccak (n_ID n) \<Longrightarrow> placed keccak self i n"
  by (auto simp: placed_def)

definition pair_ok :: "(bytes \<Rightarrow> hash) \<Rightarrow> Node \<Rightarrow> nat \<Rightarrow> Node list \<times> Node list \<Rightarrow> bool" where
  "pair_ok keccak self i = (\<lambda>(es, rs). length es \<le> bucketSize \<and> length rs \<le> maxReplacements \<and> distinct (map n_ID (es @ rs)) \<and>
     (\<forall>n\<in>set es. placed keccak self i n) \<and> (\<forall>n\<in>set rs. placed keccak self i n))"

definition tab_lists :: "Table \<Rightarrow> (Node list \<times> Node list) list" where
  "tab_lists tab = map (\<lambda>b. (b_entries b, b_replacements b)) (tab_buckets tab)"

definition lists_ok :: "(bytes \<Rightarrow> hash) \<Rightarrow> Node \<Rightarrow> (Node list \<times> Node list) list \<Rightarrow> bool" where
  "lists_ok keccak self ls \<longleftrightarrow> length ls = nBuckets \<and> wf_node self \<and> (\<forall>i<nBuckets. pair_ok keccak self i (ls ! i))"

abbreviation tab_ok :: "(bytes \<Rightarrow> hash) \<Rightarrow> Table \<Rightarrow> bool" where
  "tab_ok keccak tab \<equiv> lists_ok keccak (tab_self tab) (tab_lists tab)"

abbreviation node_ok :: "(bytes \<Rightarrow> hash) \<Rightarrow> Node \<Rightarrow> bool" where
  "node_ok keccak n \<equiv> n_sha n = keccak (n_ID n)"

lemma tab_lists_set: "tab_lists (set_bucket i b tab) = (tab_lists tab)[i := (b_entries b, b_replacements b)]"
  by (simp add: tab_lists_def map_update)

lemma tab_lists_nth: "tab_ok keccak tab \<Longrightarrow> i < nBuckets \<Longrightarrow> tab_lists tab ! i = (b_entries (tab_bucket tab i), b_replacements (tab_bucket tab i))"
  by (simp add: tab_lists_def lists_ok_def)

lemma lists_ok_upd: "lists_ok keccak self ls \<Longrightarrow> pair_ok keccak self i p \<Longrightarrow> lists_ok keccak self (ls[i := p])"
  by (cases "i < length ls") (auto simp: lists_ok_def nth_list_update)

lemma tab_ok_bucket: "tab_ok keccak tab \<Longrightarrow> i < nBuckets \<Longrightarrow>
    pair_ok keccak (tab_self tab) i (b_entries (tab_bucket tab i), b_replacements (tab_bucket tab i))"
  using tab_lists_nth[of keccak tab i] by (metis lists_ok_def)

text \<open>The address sets do not influence the lists.\<close>

lemma same_lists:
  "map (\<lambda>b. (b_entries b, b_replacements b)) (bs[i := (bs ! i)\<lparr>b_ips := x\<rparr>]) = map (\<lambda>b. (b_entries b, b_replacements b)) bs"
  by (cases "i < length bs") (auto simp: nth_list_update intro!: nth_equalityI)

lemma addIP_lists: "tab_lists (snd (addIP i ip tab)) = tab_lists tab" "tab_self (snd (addIP i ip tab)) = tab_self tab"
  by (auto simp: addIP_def Let_def split_beta tab_lists_def same_lists)

lemma removeIP_lists: "tab_lists (removeIP i ip tab) = tab_lists tab" "tab_self (removeIP i ip tab) = tab_self tab"
  by (auto simp: removeIP_def Let_def tab_lists_def same_lists)

lemmas ip_lists = addIP_lists removeIP_lists

lemma ip_bucket:
  assumes "tab_ok keccak tab" "i < nBuckets"
  shows "b_entries (tab_bucket (snd (addIP i ip tab)) i) = b_entries (tab_bucket tab i)"
    "b_replacements (tab_bucket (snd (addIP i ip tab)) i) = b_replacements (tab_bucket tab i)"
  using tab_lists_nth[OF assms] tab_lists_nth[of keccak "snd (addIP i ip tab)" i] assms by (simp_all add: ip_lists)

section \<open>What the operations do to the two lists\<close>

lemma pair_bump:
  assumes "pair_ok keccak self i (es, rs)" "n_ID n \<in> n_ID ` set es" "node_ok keccak n"
  shows "pair_ok keccak self i (n # deleteNode es n, rs)"
proof -
  obtain e where e: "e \<in> set es" "n_ID e = n_ID n" using assms(2) by force
  then have "placed keccak self i n" using assms(1,3) by (auto simp: pair_ok_def intro: placed_ID)
  then show ?thesis using assms(1,2) length_deleteNode[OF assms(2)] by (auto simp: pair_ok_def deleteNode_filter distinct_map_filter)
qed

lemma pair_push:
  assumes "pair_ok keccak self i (es, rs)" "n_ID n \<notin> n_ID ` set es" "placed keccak self i n" "length es < bucketSize"
  shows "pair_ok keccak self i (n\<lparr>n_addedAt := now\<rparr> # es, deleteNode rs n)"
proof -
  have "length (deleteNode rs n) \<le> maxReplacements" using assms(1) length_deleteNode_le[of rs n] by (simp add: pair_ok_def)
  then show ?thesis using assms by (auto simp: pair_ok_def deleteNode_filter distinct_map_filter)
qed

lemma pair_replacement:
  assumes "pair_ok keccak self i (es, rs)" "n_ID n \<notin> n_ID ` set es" "n_ID n \<notin> n_ID ` set rs" "placed keccak self i n"
  shows "pair_ok keccak self i (es, fst (pushNode rs n maxReplacements))"
  using assms by (cases rs rule: rev_cases) (auto simp: pair_ok_def maxReplacements_def)

lemma pair_delete:
  assumes "pair_ok keccak self i (es, rs)"
  shows "pair_ok keccak self i (deleteNode es n, rs)"
proof -
  have "length (deleteNode es n) \<le> bucketSize" using assms length_deleteNode_le[of es n] by (simp add: pair_ok_def)
  then show ?thesis using assms by (auto simp: pair_ok_def deleteNode_filter distinct_map_filter)
qed

lemma pair_replace:
  assumes "pair_ok keccak self i (es, rs)" "es \<noteq> []" "r \<in> set rs"
  shows "pair_ok keccak self i (butlast es @ [r], deleteNode rs r)"
proof -
  obtain bs l where es: "es = bs @ [l]" using assms(2) by (cases es rule: rev_cases) auto
  have "length (deleteNode rs r) \<le> maxReplacements" using assms(1) length_deleteNode_le[of rs r] by (simp add: pair_ok_def)
  moreover have "n_ID r \<notin> n_ID ` set es" using assms(1,3) by (auto simp: pair_ok_def)
  ultimately show ?thesis using assms(1,3) by (auto simp: pair_ok_def es deleteNode_filter distinct_map_filter)
qed

section \<open>The operations keep the invariant\<close>

lemma tab_ok_set:
  "lists_ok keccak self (tab_lists tab) \<Longrightarrow> pair_ok keccak self i (b_entries b, b_replacements b) \<Longrightarrow>
   lists_ok keccak self (tab_lists (set_bucket i b tab))"
  by (simp add: tab_lists_set lists_ok_upd)

lemma tab_ok_ip: "tab_ok keccak tab \<Longrightarrow> tab_ok keccak (snd (addIP i ip tab))" "tab_ok keccak tab \<Longrightarrow> tab_ok keccak (removeIP i ip tab)"
  by (simp_all add: ip_lists)

lemma bumpOrAdd_cases:
  assumes "tab_ok keccak tab" "i < nBuckets"
  defines "es \<equiv> b_entries (tab_bucket tab i)" and "rs \<equiv> b_replacements (tab_bucket tab i)"
  obtains (bump) "n_ID n \<in> n_ID ` set es"
      "bumpOrAdd now i n tab = (True, set_bucket i ((tab_bucket tab i)\<lparr>b_entries := n # deleteNode es n\<rparr>) tab)"
    | (full) "n_ID n \<notin> n_ID ` set es" "length es \<ge> bucketSize" "bumpOrAdd now i n tab = (False, tab)"
    | (limit) "n_ID n \<notin> n_ID ` set es" "\<not> fst (addIP i (n_IP n) tab)" "bumpOrAdd now i n tab = (False, snd (addIP i (n_IP n) tab))"
    | (added) tab' where "n_ID n \<notin> n_ID ` set es" "length es < bucketSize" "addIP i (n_IP n) tab = (True, tab')"
      "bumpOrAdd now i n tab = (True, set_bucket i ((tab_bucket tab' i)\<lparr>b_entries := n\<lparr>n_addedAt := now\<rparr> # es,
          b_replacements := deleteNode rs n\<rparr>) tab')"
proof -
  note b = ip_bucket[OF assms(1,2), of "n_IP n"]
  obtain ok tab' where a: "addIP i (n_IP n) tab = (ok, tab')" by fastforce
  consider "n_ID n \<in> n_ID ` set es" | "n_ID n \<notin> n_ID ` set es" "length es \<ge> bucketSize"
    | "n_ID n \<notin> n_ID ` set es" "length es < bucketSize" "\<not> ok" | "n_ID n \<notin> n_ID ` set es" "length es < bucketSize" ok
    by (meson not_le)
  then show thesis
  proof cases
    case 1
    then show thesis by (intro bump) (simp_all add: bumpOrAdd_def bump_def list_ex_ID es_def)
  next
    case 2
    then show thesis by (intro full) (simp_all add: bumpOrAdd_def bump_def list_ex_ID es_def)
  next
    case 3
    then show thesis by (intro limit) (simp_all add: bumpOrAdd_def bump_def list_ex_ID es_def a)
  next
    case 4
    then show thesis using a b by (intro added[of tab']) (simp_all add: bumpOrAdd_def bump_def list_ex_ID es_def rs_def)
  qed
qed

lemma tab_ok_bumpOrAdd:
  assumes "tab_ok keccak tab" "i < nBuckets" "placed keccak (tab_self tab) i n"
  shows "tab_ok keccak (snd (bumpOrAdd now i n tab))" "tab_self (snd (bumpOrAdd now i n tab)) = tab_self tab"
    "\<not> fst (bumpOrAdd now i n tab) \<Longrightarrow> n_ID n \<notin> n_ID ` set (b_entries (tab_bucket (snd (bumpOrAdd now i n tab)) i))"
proof -
  note p = tab_ok_bucket[OF assms(1,2)]
  have n: "node_ok keccak n" using assms(3) by (simp add: placed_def)
  have "tab_ok keccak (snd (bumpOrAdd now i n tab)) \<and> tab_self (snd (bumpOrAdd now i n tab)) = tab_self tab \<and>
    (\<not> fst (bumpOrAdd now i n tab) \<longrightarrow> n_ID n \<notin> n_ID ` set (b_entries (tab_bucket (snd (bumpOrAdd now i n tab)) i)))"
    using assms(1,2)
  proof (cases rule: bumpOrAdd_cases[where n = n and now = now])
    case bump
    then show ?thesis using pair_bump[OF p _ n] assms(1) by (simp add: tab_ok_set)
  next
    case (added tab')
    have t: "tab_ok keccak tab'" "tab_self tab' = tab_self tab"
      using tab_ok_ip(1)[OF assms(1), of i "n_IP n"] addIP_lists(2)[of i "n_IP n" tab] added(3) by simp_all
    show ?thesis using pair_push[OF p added(1) assms(3) added(2), of now] t by (simp add: added(4) tab_ok_set)
  qed (use assms(1,2) in \<open>simp_all add: ip_lists ip_bucket\<close>)
  then show "tab_ok keccak (snd (bumpOrAdd now i n tab))" "tab_self (snd (bumpOrAdd now i n tab)) = tab_self tab"
    "\<not> fst (bumpOrAdd now i n tab) \<Longrightarrow> n_ID n \<notin> n_ID ` set (b_entries (tab_bucket (snd (bumpOrAdd now i n tab)) i))" by auto
qed

lemma addReplacement_cases:
  assumes "tab_ok keccak tab" "i < nBuckets"
  defines "rs \<equiv> b_replacements (tab_bucket tab i)"
  obtains (present) "addReplacement i n tab = tab"
    | (limit) "n_ID n \<notin> n_ID ` set rs" "\<not> fst (addIP i (n_IP n) tab)" "addReplacement i n tab = snd (addIP i (n_IP n) tab)"
    | (pushed) tab' where "n_ID n \<notin> n_ID ` set rs" "addIP i (n_IP n) tab = (True, tab')" "length rs < maxReplacements"
        "addReplacement i n tab = set_bucket i ((tab_bucket tab' i)\<lparr>b_replacements := n # rs\<rparr>) tab'"
    | (rotated) tab' where "n_ID n \<notin> n_ID ` set rs" "addIP i (n_IP n) tab = (True, tab')" "length rs \<ge> maxReplacements"
        "addReplacement i n tab = removeIP i (n_IP (last rs)) (set_bucket i ((tab_bucket tab' i)\<lparr>b_replacements := n # butlast rs\<rparr>) tab')"
proof -
  note b = ip_bucket[OF assms(1,2), of "n_IP n"]
  obtain ok tab' where a: "addIP i (n_IP n) tab = (ok, tab')" by fastforce
  consider "n_ID n \<in> n_ID ` set rs" | "n_ID n \<notin> n_ID ` set rs" "\<not> ok"
    | "n_ID n \<notin> n_ID ` set rs" ok "length rs < maxReplacements" | "n_ID n \<notin> n_ID ` set rs" ok "length rs \<ge> maxReplacements"
    by (meson not_le)
  then show thesis
  proof cases
    case 1
    then show thesis by (intro present) (simp add: addReplacement_def list_ex_ID rs_def)
  next
    case 2
    then show thesis by (intro limit) (simp_all add: addReplacement_def list_ex_ID rs_def a)
  next
    case 3
    then show thesis using a b by (intro pushed[of tab']) (simp_all add: addReplacement_def list_ex_ID rs_def)
  next
    case 4
    then show thesis using a b by (intro rotated[of tab']) (simp_all add: addReplacement_def list_ex_ID rs_def)
  qed
qed

lemma tab_ok_addReplacement:
  assumes "tab_ok keccak tab" "i < nBuckets" "placed keccak (tab_self tab) i n" "n_ID n \<notin> n_ID ` set (b_entries (tab_bucket tab i))"
  shows "tab_ok keccak (addReplacement i n tab) \<and> tab_self (addReplacement i n tab) = tab_self tab"
  using assms(1,2)
proof (cases rule: addReplacement_cases[where n = n])
  case (pushed tab')
  have t: "tab_ok keccak tab'" "tab_self tab' = tab_self tab" "b_entries (tab_bucket tab' i) = b_entries (tab_bucket tab i)"
    using tab_ok_ip(1)[OF assms(1), of i "n_IP n"] addIP_lists(2)[of i "n_IP n" tab] ip_bucket[OF assms(1,2), of "n_IP n"] pushed(2) by simp_all
  show ?thesis using pair_replacement[OF tab_ok_bucket[OF assms(1,2)] assms(4) pushed(1) assms(3)] t pushed(3)
    by (simp add: pushed(4) tab_ok_set)
next
  case (rotated tab')
  have t: "tab_ok keccak tab'" "tab_self tab' = tab_self tab" "b_entries (tab_bucket tab' i) = b_entries (tab_bucket tab i)"
    using tab_ok_ip(1)[OF assms(1), of i "n_IP n"] addIP_lists(2)[of i "n_IP n" tab] ip_bucket[OF assms(1,2), of "n_IP n"] rotated(2) by simp_all
  show ?thesis using pair_replacement[OF tab_ok_bucket[OF assms(1,2)] assms(4) rotated(1) assms(3)] t rotated(3)
    by (simp add: rotated(4) tab_ok_set ip_lists)
qed (use assms in \<open>simp_all add: ip_lists\<close>)

lemma tab_ok_deleteInBucket:
  assumes "tab_ok keccak tab" "i < nBuckets"
  shows "tab_ok keccak (deleteInBucket i n tab)" "tab_self (deleteInBucket i n tab) = tab_self tab"
  using tab_ok_set[OF assms(1)] pair_delete[OF tab_ok_bucket[OF assms]]
  by (simp_all add: deleteInBucket_def Let_def ip_lists)

lemma tab_ok_replace:
  assumes "tab_ok keccak tab" "i < nBuckets"
  shows "tab_ok keccak (snd (replace rnd i n tab)) \<and> tab_self (snd (replace rnd i n tab)) = tab_self tab"
proof -
  let ?b = "tab_bucket tab i"
  let ?r = "b_replacements ?b ! (rnd mod length (b_replacements ?b))"
  have "pair_ok keccak (tab_self tab) i (butlast (b_entries ?b) @ [?r], deleteNode (b_replacements ?b) ?r)"
    if "b_entries ?b \<noteq> []" "b_replacements ?b \<noteq> []"
    by (rule pair_replace[OF tab_ok_bucket[OF assms] that(1)]) (simp add: that(2))
  then show ?thesis
    using assms tab_ok_deleteInBucket[OF assms, of n] tab_ok_set[OF assms(1)] by (simp add: replace_def Let_def ip_lists)
qed

lemma tab_ok_add:
  assumes "tab_ok keccak tab" "\<forall>x. length (keccak x) = 32" "node_ok keccak n"
  shows "tab_ok keccak (Table_add now n tab) \<and> tab_self (Table_add now n tab) = tab_self tab"
proof -
  let ?i = "bucketIndex tab (n_sha n)"
  have i: "?i < nBuckets" using assms by (intro bucketIndex_less) (simp_all add: lists_ok_def)
  have p: "placed keccak (tab_self tab) ?i n" using assms(3) by (simp add: placed_def bucketIndex_self)
  note b = tab_ok_bumpOrAdd[OF assms(1) i p, of now]
  have "tab_ok keccak (addReplacement ?i n (snd (bumpOrAdd now ?i n tab))) \<and>
      tab_self (addReplacement ?i n (snd (bumpOrAdd now ?i n tab))) = tab_self tab" if "\<not> fst (bumpOrAdd now ?i n tab)"
    using tab_ok_addReplacement[OF b(1) i, of n] b(2,3) that p by auto
  then show ?thesis using b(1,2) by (auto simp: Table_add_def Let_def split_beta)
qed

lemma fold_keeps: "P s \<Longrightarrow> (\<And>x s. x \<in> set xs \<Longrightarrow> P s \<Longrightarrow> P (f x s)) \<Longrightarrow> P (fold f xs s)"
  by (induction xs arbitrary: s) auto

definition op_ok :: "(bytes \<Rightarrow> hash) \<Rightarrow> Table \<Rightarrow> tabop \<Rightarrow> bool" where
  "op_ok keccak tab x \<longleftrightarrow> list_all (node_ok keccak) (op_nodes x) \<and>
     (case x of OpRevalidate rnd alive bi n \<Rightarrow> bi = bucketIndex tab (n_sha n) | _ \<Rightarrow> True)"

lemma tab_ok_delete:
  assumes "tab_ok keccak tab" "\<forall>x. length (keccak x) = 32" "node_ok keccak n"
  shows "tab_ok keccak (Table_delete n tab) \<and> tab_self (Table_delete n tab) = tab_self tab"
proof -
  have "bucketIndex tab (n_sha n) < nBuckets" using assms by (intro bucketIndex_less) (simp_all add: lists_ok_def)
  then show ?thesis using tab_ok_deleteInBucket[OF assms(1), of "bucketIndex tab (n_sha n)" n] assms(1) by (simp add: Table_delete_def)
qed

lemma tab_ok_stuffOne:
  assumes "tab_ok keccak tab" "\<forall>x. length (keccak x) = 32" "node_ok keccak n"
  shows "tab_ok keccak (stuffOne now n tab) \<and> tab_self (stuffOne now n tab) = tab_self tab"
proof -
  have i: "bucketIndex tab (n_sha n) < nBuckets" using assms by (intro bucketIndex_less) (simp_all add: lists_ok_def)
  have "placed keccak (tab_self tab) (bucketIndex tab (n_sha n)) n" using assms(3) by (simp add: placed_def bucketIndex_self)
  then show ?thesis using assms(1) tab_ok_bumpOrAdd(1,2)[OF assms(1) i, of n now] by (auto simp: stuffOne_def Let_def)
qed

lemma findnode_tab: "snd (findnode now n err r (fails, tab)) =
    fold (Table_add now) r (if (err \<or> r = []) \<and> fails + 1 \<ge> maxFindnodeFailures then Table_delete n tab else tab)"
  by (simp add: findnode_def Let_def)

lemma tab_ok_step:
  assumes ok: "tab_ok keccak tab" and k: "\<forall>x. length (keccak x) = 32" and "op_ok keccak tab x"
  shows "tab_ok keccak (tab_step x tab) \<and> tab_self (tab_step x tab) = tab_self tab"
proof (cases x)
  case (OpStuff now ns)
  let ?P = "\<lambda>t. tab_ok keccak t \<and> tab_self t = tab_self tab"
  have "?P (fold (stuffOne now) ns tab)"
    by (rule fold_keeps[of ?P]) (use ok tab_ok_stuffOne[OF _ k] assms(3) OpStuff in \<open>auto simp: op_ok_def list_all_iff\<close>)
  then show ?thesis using OpStuff by (auto simp: stuff_def)
next
  case (OpFindnode now n err r fails)
  let ?P = "\<lambda>t. tab_ok keccak t \<and> tab_self t = tab_self tab"
  have n: "node_ok keccak n" and r: "\<And>m. m \<in> set r \<Longrightarrow> node_ok keccak m" using assms(3) OpFindnode by (auto simp: op_ok_def list_all_iff)
  have d: "?P (Table_delete n tab)" by (rule tab_ok_delete[OF ok k n])
  have f: "?P (fold (Table_add now) r t)" if "?P t" for t
    by (rule fold_keeps[of ?P]) (use that tab_ok_add[OF _ k r] in auto)
  have "?P (if (err \<or> r = []) \<and> fails + 1 \<ge> maxFindnodeFailures then Table_delete n tab else tab)"
    by (cases "(err \<or> r = []) \<and> fails + 1 \<ge> maxFindnodeFailures") (use d ok in auto)
  then have "?P (snd (findnode now n err r (fails, tab)))" unfolding findnode_tab by (rule f)
  then show ?thesis unfolding OpFindnode tab_step.simps .
next
  case (OpRevalidate rnd alive bi n)
  then have n: "node_ok keccak n" and bi: "bi = bucketIndex tab (n_sha n)" using assms(3) by (simp_all add: op_ok_def)
  have i: "bi < nBuckets" unfolding bi using ok n k by (intro bucketIndex_less) (simp_all add: lists_ok_def)
  have "pair_ok keccak (tab_self tab) bi (b_entries (snd (bump n (tab_bucket tab bi))), b_replacements (snd (bump n (tab_bucket tab bi))))"
    using tab_ok_bucket[OF ok i] pair_bump[OF tab_ok_bucket[OF ok i] _ n] by (simp add: bump_def list_ex_ID)
  then show ?thesis using OpRevalidate tab_ok_set[OF ok] tab_ok_replace[OF ok i, of rnd n] by (cases alive) (auto simp: doRevalidate_def)
next
  case (OpAdd now n)
  then show ?thesis using assms(3) tab_ok_add[OF ok k, of n now] by (auto simp: op_ok_def)
next
  case (OpPing now n)
  then show ?thesis using assms(3) ok tab_ok_add[OF ok k, of n now] by (cases "tab_initDone tab") (auto simp: op_ok_def addThroughPing_def)
next
  case (OpDelete n)
  then show ?thesis using assms(3) tab_ok_delete[OF ok k, of n] by (auto simp: op_ok_def)
qed (use ok in \<open>simp add: tab_lists_def\<close>)

lemma tab_ok_empty: "wf_node self \<Longrightarrow> tab_ok keccak (emptyTable self)"
  by (simp add: lists_ok_def tab_lists_def emptyTable_def newBucket_def pair_ok_def)

fun tab_run :: "tabop list \<Rightarrow> Table \<Rightarrow> Table" where
  "tab_run [] tab = tab"
| "tab_run (x # xs) tab = tab_run xs (tab_step x tab)"

text \<open>Which runs are considered: the hash of every node is the one of its identifier, and a node that is revalidated
  was taken from the bucket it belongs to.  Neither depends on the state of the table.\<close>

definition ops_ok :: "(bytes \<Rightarrow> hash) \<Rightarrow> Table \<Rightarrow> tabop list \<Rightarrow> bool" where
  "ops_ok keccak tab xs \<longleftrightarrow> list_all (op_ok keccak tab) xs"

lemma op_ok_self: "tab_self tab' = tab_self tab \<Longrightarrow> op_ok keccak tab' x = op_ok keccak tab x"
  by (simp add: op_ok_def bucketIndex_self split: tabop.splits)

lemma tab_ok_run:
  assumes "tab_ok keccak tab" "\<forall>x. length (keccak x) = 32" "ops_ok keccak tab xs"
  shows "tab_ok keccak (tab_run xs tab) \<and> tab_self (tab_run xs tab) = tab_self tab"
  using assms(1,3)
proof (induction xs arbitrary: tab)
  case (Cons x xs)
  have s: "tab_ok keccak (tab_step x tab)" "tab_self (tab_step x tab) = tab_self tab"
    using tab_ok_step[OF Cons.prems(1) assms(2), of x] Cons.prems(2) by (auto simp: ops_ok_def)
  then have "ops_ok keccak (tab_step x tab) xs" using Cons.prems(2) op_ok_self[OF s(2)] by (auto simp: ops_ok_def list_all_iff)
  then show ?case using Cons.IH[OF s(1)] s(2) by auto
qed simp

section \<open>Properties of runs\<close>

abbreviation all_nodes :: "Table \<Rightarrow> Node list" where
  "all_nodes tab \<equiv> concat (map (\<lambda>b. b_entries b @ b_replacements b) (tab_buckets tab))"

lemma distinct_by_index:
  assumes "\<And>i. i < length ls \<Longrightarrow> distinct (map f (ls ! i)) \<and> (\<forall>x\<in>set (ls ! i). g (f x) = i)"
  shows "distinct (map f (concat ls))"
  using assms
proof (induction ls rule: rev_induct)
  case (snoc l ls)
  have "distinct (map f (ls ! i)) \<and> (\<forall>x\<in>set (ls ! i). g (f x) = i)" if "i < length ls" for i
    using snoc.prems[of i] that by (simp add: nth_append)
  then have IH: "distinct (map f (concat ls))" "\<And>i x. i < length ls \<Longrightarrow> x \<in> set (ls ! i) \<Longrightarrow> g (f x) = i" using snoc.IH by auto
  have "g (f x) < length ls" if "x \<in> set (concat ls)" for x
    using that IH(2) by (auto simp: in_set_conv_nth[of _ ls])
  moreover have "distinct (map f l)" "\<And>x. x \<in> set l \<Longrightarrow> g (f x) = length ls" using snoc.prems[of "length ls"] by auto
  ultimately show ?case using IH(1) by (auto simp: distinct_append) (metis less_irrefl)
qed simp

lemma pair_placed: "pair_ok keccak self i (es, rs) \<Longrightarrow> n \<in> set (es @ rs) \<Longrightarrow> selfIndex self (keccak (n_ID n)) = i \<and> n_sha n = keccak (n_ID n)"
  by (auto simp: pair_ok_def placed_def)

lemma all_nodes_distinct:
  assumes "tab_ok keccak tab"
  shows "distinct (map n_ID (all_nodes tab))"
proof (rule distinct_by_index[where g = "\<lambda>i. selfIndex (tab_self tab) (keccak i)"])
  fix i assume "i < length (map (\<lambda>b. b_entries b @ b_replacements b) (tab_buckets tab))"
  then have l: "i < length (tab_buckets tab)" and i: "i < nBuckets" using assms by (simp_all add: lists_ok_def tab_lists_def)
  note p = tab_ok_bucket[OF assms i]
  have "distinct (map n_ID (b_entries (tab_bucket tab i) @ b_replacements (tab_bucket tab i)))" using p by (simp add: pair_ok_def)
  then show "distinct (map n_ID (map (\<lambda>b. b_entries b @ b_replacements b) (tab_buckets tab) ! i)) \<and>
      (\<forall>x\<in>set (map (\<lambda>b. b_entries b @ b_replacements b) (tab_buckets tab) ! i). selfIndex (tab_self tab) (keccak (n_ID x)) = i)"
    unfolding nth_map[OF l] using pair_placed[OF p] by blast
qed

text \<open>C24. The table of nodes is well formed after any sequence of additions, pings, queries, deletions and
  revalidations: it has its 17 buckets, none with more than 16 entries or 10 replacements; every node is in the
  bucket of its distance to the own node; and no identifier occurs twice in the table.\<close>

theorem table_invariant:
  assumes "\<forall>x. length (keccak x) = 32" "wf_node self" "ops_ok keccak (emptyTable self) xs"
  shows "let tab = tab_run xs (emptyTable self) in
    length (tab_buckets tab) = nBuckets \<and> distinct (map n_ID (all_nodes tab)) \<and>
    (\<forall>i<nBuckets. length (b_entries (tab_bucket tab i)) \<le> bucketSize \<and> length (b_replacements (tab_bucket tab i)) \<le> maxReplacements \<and>
       (\<forall>n\<in>set (b_entries (tab_bucket tab i) @ b_replacements (tab_bucket tab i)). bucketIndex tab (n_sha n) = i))"
proof -
  let ?tab = "tab_run xs (emptyTable self)"
  have ok: "tab_ok keccak ?tab" using tab_ok_run[OF tab_ok_empty[OF assms(2)] assms(1,3)] by blast
  have "length (tab_buckets ?tab) = nBuckets" using ok by (simp add: lists_ok_def tab_lists_def)
  moreover have "length (b_entries (tab_bucket ?tab i)) \<le> bucketSize \<and> length (b_replacements (tab_bucket ?tab i)) \<le> maxReplacements \<and>
      (\<forall>n\<in>set (b_entries (tab_bucket ?tab i) @ b_replacements (tab_bucket ?tab i)). bucketIndex ?tab (n_sha n) = i)" if "i < nBuckets" for i
    using tab_ok_bucket[OF ok that] pair_placed[OF tab_ok_bucket[OF ok that]] by (simp add: bucketIndex_self) (simp add: pair_ok_def)
  ultimately show ?thesis using all_nodes_distinct[OF ok] unfolding Let_def by blast
qed

definition toyKeccak :: "bytes \<Rightarrow> hash" where
  "toyKeccak x = (case x of [] \<Rightarrow> replicate 32 0 | b # _ \<Rightarrow> b # replicate 31 0)"

definition toyNode :: "byte \<Rightarrow> byte \<Rightarrow> Node" where
  "toyNode i d = NewNode toyKeccak [i] [8, 8, 8, d] 30303 30303"

lemma length_toyKeccak: "\<forall>x. length (toyKeccak x) = 32"
  by (simp add: toyKeccak_def split: list.splits)

theorem table_invariant_witness:
  "distinct (map n_ID (all_nodes (tab_run [OpAdd 1 (toyNode 200 1), OpAdd 2 (toyNode 200 1), OpDelete (toyNode 7 2)] (emptyTable (toyNode 0 0)))))"
  using table_invariant[OF length_toyKeccak, of "toyNode 0 0" "[OpAdd 1 (toyNode 200 1), OpAdd 2 (toyNode 200 1), OpDelete (toyNode 7 2)]"]
  by (simp add: ops_ok_def op_ok_def toyNode_def NewNode_def Let_def toyKeccak_def)

end
