(* ===== verification/TableIps.thy ===== *)
theory TableIps
  imports TableInv
begin

text \<open>
  The limits on addresses of one network in the node table (\<^verbatim>\<open>p2p/discover/table.go\<close>): as long as nodes keep their
  addresses and only entries are deleted, the addresses of all nodes are on record in the sets that
  enforce the limits.  The last part shows what happens otherwise.
\<close>

section \<open>The addresses on record\<close>








section \<open>The addresses of the nodes are on record\<close>























section \<open>Runs keep the addresses on record\<close>










section \<open>Properties of runs\<close>






section \<open>When a node changes its address\<close>

definition movedNode :: "byte \<Rightarrow> byte \<Rightarrow> Node" where
  "movedNode i a = NewNode toyKeccak [i] [a, 8, 8, i] 30303 30303"

text \<open>A node that is seen again with another address is moved to the front of its bucket without a check of
  the limits: three nodes of one network in one bucket, where two are allowed.\<close>

lemma moved_nodes_pass:
  "length (filter (\<lambda>n. SameNet 24 [8, 8, 8, 1] (n_IP n)) (b_entries (tab_bucket (tab_run
     [OpAdd 1 (movedNode 200 20), OpAdd 2 (movedNode 201 21), OpAdd 3 (movedNode 202 22),
      OpAdd 4 (movedNode 200 8), OpAdd 5 (movedNode 201 8), OpAdd 6 (movedNode 202 8)] (emptyTable (toyNode 0 0))) 16))) = 3"
  by code_simp

text \<open>The deletion of a node that is not in its bucket takes back a record of another node of the same network.\<close>

lemma deleted_absent_pass:
  "length (filter (\<lambda>n. SameNet 24 [8, 8, 8, 1] (n_IP n)) (b_entries (tab_bucket (tab_run
     [OpAdd 1 (movedNode 200 8), OpAdd 2 (movedNode 201 8), OpDelete (movedNode 203 8), OpAdd 3 (movedNode 202 8)]
     (emptyTable (toyNode 0 0))) 16))) = 3"
  by code_simp

text \<open>The own node can be added to its own table.\<close>

lemma own_node_added: "map n_ID (tab_nodes (Table_add 1 (toyNode 0 0) (emptyTable (toyNode 0 0)))) = [n_ID (tab_self (emptyTable (toyNode 0 0)))]"
  by code_simp

end
