(* ===== verification/Keccak.thy ===== *)
theory Keccak
  imports Prelude
begin

text \<open>
  \<^verbatim>\<open>crypto/sha3/keccakf.go\<close>: the permutation Keccak-f[1600], worked in place and unrolled to four rounds per turn of the
  loop, and its equivalence with the round as the standard defines it.
\<close>

unbundle bit_operations_syntax

section \<open>keccakF1600\<close>

type_synonym lane = "64 word"
type_synonym lanes = "lane list"

text \<open>\<^verbatim>\<open>t<<k | t>>(64-k)\<close> and \<^verbatim>\<open>x &^ y\<close>.\<close>

definition rotl :: "nat \<Rightarrow> lane \<Rightarrow> lane" where
  "rotl k t = (push_bit k t OR drop_bit (64 - k) t)"

definition andnot :: "lane \<Rightarrow> lane \<Rightarrow> lane" where
  "andnot x y = (x AND NOT y)"

definition rc :: lanes where
  "rc = [0x0000000000000001, 0x0000000000008082, 0x800000000000808A, 0x8000000080008000, 0x000000000000808B, 0x0000000080000001,
     0x8000000080008081, 0x8000000000008009, 0x000000000000008A, 0x0000000000000088, 0x0000000080008009, 0x000000008000000A,
     0x000000008000808B, 0x800000000000008B, 0x8000000000008089, 0x8000000000008003, 0x8000000000008002, 0x8000000000000080,
     0x000000000000800A, 0x800000008000000A, 0x8000000080008081, 0x8000000000008080, 0x0000000080000001, 0x8000000080008008]"

type_synonym five = "lane \<times> lane \<times> lane \<times> lane \<times> lane"
type_synonym places = "nat \<times> nat \<times> nat \<times> nat \<times> nat"

definition columns :: "lanes \<Rightarrow> five" where
  "columns a =
     (let bc0 = a ! 0 XOR a ! 5 XOR a ! 10 XOR a ! 15 XOR a ! 20;
          bc1 = a ! 1 XOR a ! 6 XOR a ! 11 XOR a ! 16 XOR a ! 21;
          bc2 = a ! 2 XOR a ! 7 XOR a ! 12 XOR a ! 17 XOR a ! 22;
          bc3 = a ! 3 XOR a ! 8 XOR a ! 13 XOR a ! 18 XOR a ! 23;
          bc4 = a ! 4 XOR a ! 9 XOR a ! 14 XOR a ! 19 XOR a ! 24
      in (bc4 XOR rotl 1 bc1, bc0 XOR rotl 1 bc2, bc1 XOR rotl 1 bc3, bc2 XOR rotl 1 bc4, bc3 XOR rotl 1 bc0))"

text \<open>The five blocks of a round.  They are the same in every round up to the places they work on.\<close>

definition store5 :: "places \<Rightarrow> five \<Rightarrow> lane \<Rightarrow> lanes \<Rightarrow> lanes" where
  "store5 = (\<lambda>(p0, p1, p2, p3, p4) (bc0, bc1, bc2, bc3, bc4) k a.
     a[p0 := bc0 XOR andnot bc2 bc1 XOR k, p1 := bc1 XOR andnot bc3 bc2, p2 := bc2 XOR andnot bc4 bc3,
       p3 := bc3 XOR andnot bc0 bc4, p4 := bc4 XOR andnot bc1 bc0])"

definition block1 :: "places \<Rightarrow> five \<Rightarrow> lane \<Rightarrow> lanes \<Rightarrow> lanes" where
  "block1 = (\<lambda>(p0, p1, p2, p3, p4) (d0, d1, d2, d3, d4) k a.
     (let bc0 = a ! p0 XOR d0; bc1 = rotl 44 (a ! p1 XOR d1); bc2 = rotl 43 (a ! p2 XOR d2);
          bc3 = rotl 21 (a ! p3 XOR d3); bc4 = rotl 14 (a ! p4 XOR d4)
      in store5 (p0, p1, p2, p3, p4) (bc0, bc1, bc2, bc3, bc4) k a))"

definition block2 :: "places \<Rightarrow> five \<Rightarrow> lanes \<Rightarrow> lanes" where
  "block2 = (\<lambda>(p0, p1, p2, p3, p4) (d0, d1, d2, d3, d4) a.
     (let bc2 = rotl 3 (a ! p0 XOR d0); bc3 = rotl 45 (a ! p1 XOR d1); bc4 = rotl 61 (a ! p2 XOR d2);
          bc0 = rotl 28 (a ! p3 XOR d3); bc1 = rotl 20 (a ! p4 XOR d4)
      in store5 (p0, p1, p2, p3, p4) (bc0, bc1, bc2, bc3, bc4) 0 a))"

definition block3 :: "places \<Rightarrow> five \<Rightarrow> lanes \<Rightarrow> lanes" where
  "block3 = (\<lambda>(p0, p1, p2, p3, p4) (d0, d1, d2, d3, d4) a.
     (let bc4 = rotl 18 (a ! p0 XOR d0); bc0 = rotl 1 (a ! p1 XOR d1); bc1 = rotl 6 (a ! p2 XOR d2);
          bc2 = rotl 25 (a ! p3 XOR d3); bc3 = rotl 8 (a ! p4 XOR d4)
      in store5 (p0, p1, p2, p3, p4) (bc0, bc1, bc2, bc3, bc4) 0 a))"

definition block4 :: "places \<Rightarrow> five \<Rightarrow> lanes \<Rightarrow> lanes" where
  "block4 = (\<lambda>(p0, p1, p2, p3, p4) (d0, d1, d2, d3, d4) a.
     (let bc1 = rotl 36 (a ! p0 XOR d0); bc2 = rotl 10 (a ! p1 XOR d1); bc3 = rotl 15 (a ! p2 XOR d2);
          bc4 = rotl 56 (a ! p3 XOR d3); bc0 = rotl 27 (a ! p4 XOR d4)
      in store5 (p0, p1, p2, p3, p4) (bc0, bc1, bc2, bc3, bc4) 0 a))"

definition block5 :: "places \<Rightarrow> five \<Rightarrow> lanes \<Rightarrow> lanes" where
  "block5 = (\<lambda>(p0, p1, p2, p3, p4) (d0, d1, d2, d3, d4) a.
     (let bc3 = rotl 41 (a ! p0 XOR d0); bc4 = rotl 2 (a ! p1 XOR d1); bc0 = rotl 62 (a ! p2 XOR d2);
          bc1 = rotl 55 (a ! p3 XOR d3); bc2 = rotl 39 (a ! p4 XOR d4)
      in store5 (p0, p1, p2, p3, p4) (bc0, bc1, bc2, bc3, bc4) 0 a))"

definition round1 :: "lane \<Rightarrow> lanes \<Rightarrow> lanes" where
  "round1 k a = (let d = columns a; a = block1 (0, 6, 12, 18, 24) d k a; a = block2 (10, 16, 22, 3, 9) d a;
     a = block3 (20, 1, 7, 13, 19) d a; a = block4 (5, 11, 17, 23, 4) d a in block5 (15, 21, 2, 8, 14) d a)"

definition round2 :: "lane \<Rightarrow> lanes \<Rightarrow> lanes" where
  "round2 k a = (let d = columns a; a = block1 (0, 16, 7, 23, 14) d k a; a = block2 (20, 11, 2, 18, 9) d a;
     a = block3 (15, 6, 22, 13, 4) d a; a = block4 (10, 1, 17, 8, 24) d a in block5 (5, 21, 12, 3, 19) d a)"

definition round3 :: "lane \<Rightarrow> lanes \<Rightarrow> lanes" where
  "round3 k a = (let d = columns a; a = block1 (0, 11, 22, 8, 19) d k a; a = block2 (15, 1, 12, 23, 9) d a;
     a = block3 (5, 16, 2, 13, 24) d a; a = block4 (20, 6, 17, 3, 14) d a in block5 (10, 21, 7, 18, 4) d a)"

definition round4 :: "lane \<Rightarrow> lanes \<Rightarrow> lanes" where
  "round4 k a = (let d = columns a; a = block1 (0, 1, 2, 3, 4) d k a; a = block2 (5, 6, 7, 8, 9) d a;
     a = block3 (10, 11, 12, 13, 14) d a; a = block4 (15, 16, 17, 18, 19) d a in block5 (20, 21, 22, 23, 24) d a)"

text \<open>The loop \<^verbatim>\<open>for i := 0; i < 24; i += 4\<close>.\<close>

definition fourRounds :: "nat \<Rightarrow> lanes \<Rightarrow> lanes" where
  "fourRounds i a = round4 (rc ! (i + 3)) (round3 (rc ! (i + 2)) (round2 (rc ! (i + 1)) (round1 (rc ! i) a)))"

definition keccakF1600 :: "lanes \<Rightarrow> lanes" where
  "keccakF1600 a = fold fourRounds [0, 4, 8, 12, 16, 20] a"

section \<open>The permutation of the standard\<close>

text \<open>Lane \<open>(x, y)\<close> is number \<open>x + 5 y\<close>.  The five steps of a round (FIPS 202, section 3.2).\<close>

definition at :: "lanes \<Rightarrow> nat \<Rightarrow> nat \<Rightarrow> lane" where
  "at a x y = a ! (x mod 5 + 5 * (y mod 5))"

definition tabulate :: "(nat \<Rightarrow> nat \<Rightarrow> lane) \<Rightarrow> lanes" where
  "tabulate f = map (\<lambda>i. f (i mod 5) (i div 5)) [0..<25]"

definition column :: "lanes \<Rightarrow> nat \<Rightarrow> lane" where
  "column a x = at a x 0 XOR at a x 1 XOR at a x 2 XOR at a x 3 XOR at a x 4"

definition theta :: "lanes \<Rightarrow> lanes" where
  "theta a = tabulate (\<lambda>x y. at a x y XOR (column a (x + 4) XOR rotl 1 (column a (x + 1))))"

definition rho_offset :: "nat list" where
  "rho_offset = [0, 1, 62, 28, 27, 36, 44, 6, 55, 20, 3, 10, 43, 25, 39, 41, 45, 15, 21, 8, 18, 2, 61, 56, 14]"

definition rho :: "lanes \<Rightarrow> lanes" where
  "rho a = tabulate (\<lambda>x y. rotl (rho_offset ! (x + 5 * y)) (at a x y))"

definition pi :: "lanes \<Rightarrow> lanes" where
  "pi a = tabulate (\<lambda>x y. at a (x + 3 * y) x)"

definition chi :: "lanes \<Rightarrow> lanes" where
  "chi a = tabulate (\<lambda>x y. at a x y XOR (NOT (at a (x + 1) y) AND at a (x + 2) y))"

definition iota :: "lane \<Rightarrow> lanes \<Rightarrow> lanes" where
  "iota k a = a[0 := a ! 0 XOR k]"

definition keccak_round :: "lane \<Rightarrow> lanes \<Rightarrow> lanes" where
  "keccak_round k a = iota k (chi (pi (rho (theta a))))"

definition keccak_f :: "lanes \<Rightarrow> lanes" where
  "keccak_f a = fold keccak_round rc a"

section \<open>Where the lanes are between the rounds\<close>

text \<open>The code leaves lane number \<open>i\<close> of the state at the place \<open>loc ! i\<close> after the first, second and third round of a turn;
  after the fourth every lane is back in its place.\<close>

definition gather :: "nat list \<Rightarrow> lanes \<Rightarrow> lanes" where
  "gather loc a = map (\<lambda>p. a ! p) loc"

definition loc1 :: "nat list" where
  "loc1 = [0, 6, 12, 18, 24, 10, 16, 22, 3, 9, 20, 1, 7, 13, 19, 5, 11, 17, 23, 4, 15, 21, 2, 8, 14]"

definition loc2 :: "nat list" where
  "loc2 = [0, 16, 7, 23, 14, 20, 11, 2, 18, 9, 15, 6, 22, 13, 4, 10, 1, 17, 8, 24, 5, 21, 12, 3, 19]"

definition loc3 :: "nat list" where
  "loc3 = [0, 11, 22, 8, 19, 15, 1, 12, 23, 9, 5, 16, 2, 13, 24, 20, 6, 17, 3, 14, 10, 21, 7, 18, 4]"

lemma upt_25: "[0..<25] = [0, 1, 2, 3, 4, 5, 6, 7, 8, 9, 10, 11, 12, 13, 14, 15, 16, 17, 18, 19, 20, 21, 22, 23, 24]"
  by (simp add: upt_rec)

lemma rotl_0: "rotl 0 x = x"
  by (simp add: rotl_def)

lemmas code_round_defs = Let_def block1_def block2_def block3_def block4_def block5_def store5_def columns_def andnot_def gather_def
lemmas std_round_defs = keccak_round_def theta_def rho_def pi_def chi_def iota_def tabulate_def upt_25 at_def rho_offset_def column_def rotl_0

lemma round1_lanes: "gather loc1 (round1 k [a0, a1, a2, a3, a4, a5, a6, a7, a8, a9, a10, a11, a12, a13, a14, a15, a16, a17, a18, a19, a20, a21, a22, a23, a24]) = keccak_round k [a0, a1, a2, a3, a4, a5, a6, a7, a8, a9, a10, a11, a12, a13, a14, a15, a16, a17, a18, a19, a20, a21, a22, a23, a24]"
  by (simp add: round1_def code_round_defs std_round_defs loc1_def ac_simps)

lemma round2_lanes: "gather loc2 (round2 k [a0, a1, a2, a3, a4, a5, a6, a7, a8, a9, a10, a11, a12, a13, a14, a15, a16, a17, a18, a19, a20, a21, a22, a23, a24]) = keccak_round k (gather loc1 [a0, a1, a2, a3, a4, a5, a6, a7, a8, a9, a10, a11, a12, a13, a14, a15, a16, a17, a18, a19, a20, a21, a22, a23, a24])"
  by (simp add: round2_def code_round_defs std_round_defs loc1_def loc2_def ac_simps)

lemma round3_lanes: "gather loc3 (round3 k [a0, a1, a2, a3, a4, a5, a6, a7, a8, a9, a10, a11, a12, a13, a14, a15, a16, a17, a18, a19, a20, a21, a22, a23, a24]) = keccak_round k (gather loc2 [a0, a1, a2, a3, a4, a5, a6, a7, a8, a9, a10, a11, a12, a13, a14, a15, a16, a17, a18, a19, a20, a21, a22, a23, a24])"
  by (simp add: round3_def code_round_defs std_round_defs loc2_def loc3_def ac_simps)

lemma round4_lanes: "round4 k [a0, a1, a2, a3, a4, a5, a6, a7, a8, a9, a10, a11, a12, a13, a14, a15, a16, a17, a18, a19, a20, a21, a22, a23, a24] = keccak_round k (gather loc3 [a0, a1, a2, a3, a4, a5, a6, a7, a8, a9, a10, a11, a12, a13, a14, a15, a16, a17, a18, a19, a20, a21, a22, a23, a24])"
  by (simp add: round4_def code_round_defs std_round_defs loc3_def ac_simps)

lemma lanes_25:
  assumes "length a = 25"
  obtains a0 a1 a2 a3 a4 a5 a6 a7 a8 a9 a10 a11 a12 a13 a14 a15 a16 a17 a18 a19 a20 a21 a22 a23 a24
  where "a = [a0, a1, a2, a3, a4, a5, a6, a7, a8, a9, a10, a11, a12, a13, a14, a15, a16, a17, a18, a19, a20, a21, a22, a23, a24]"
  using assms by (auto simp: length_Suc_conv eval_nat_numeral)

lemma round_lanes:
  assumes "length a = 25"
  shows "gather loc1 (round1 k a) = keccak_round k a" "gather loc2 (round2 k a) = keccak_round k (gather loc1 a)"
    "gather loc3 (round3 k a) = keccak_round k (gather loc2 a)" "round4 k a = keccak_round k (gather loc3 a)"
  by (rule lanes_25[OF assms], simp only: round1_lanes round2_lanes round3_lanes round4_lanes)+

lemma length_rounds [simp]:
  "length (round1 k a) = length a" "length (round2 k a) = length a" "length (round3 k a) = length a" "length (round4 k a) = length a"
  by (simp_all add: round1_def round2_def round3_def round4_def code_round_defs)

lemma length_keccak_round [simp]: "length (keccak_round k a) = 25"
  by (simp add: keccak_round_def iota_def chi_def tabulate_def)

lemma fourRounds_eq:
  "length a = 25 \<Longrightarrow> fourRounds i a = fold keccak_round [rc ! i, rc ! (i + 1), rc ! (i + 2), rc ! (i + 3)] a"
  by (simp add: fourRounds_def round_lanes)

lemma keccakF1600_eq: "length a = 25 \<Longrightarrow> keccakF1600 a = keccak_f a"
  by (simp add: keccakF1600_def keccak_f_def fourRounds_eq rc_def)

lemma length_keccak_f [simp]: "length a = 25 \<Longrightarrow> length (keccak_f a) = 25"
  by (simp add: keccak_f_def rc_def)

end
