(* ===== verification/Sha3.thy ===== *)
theory Sha3
  imports Keccak
begin

text \<open>
  \<^verbatim>\<open>crypto/sha3\<close>: the sponge (\<^verbatim>\<open>sha3.go\<close>), the hash functions made from it (\<^verbatim>\<open>hashes.go\<close>, \<^verbatim>\<open>shake.go\<close>), the two ways to exchange bytes
  with the state (\<^verbatim>\<open>xor_generic.go\<close>, \<^verbatim>\<open>xor_unaligned.go\<close>), and the Keccak functions of \<^verbatim>\<open>crypto/crypto.go\<close>.  The buffer is a
  slice of the array \<^verbatim>\<open>storage\<close> and is kept as offset and length, because \<^verbatim>\<open>clone\<close> uses its capacity.  The
  functions are those of the builds without assembly; a loop that does not end is \<^const>\<open>OutOfFuel\<close>.
\<close>

unbundle bit_operations_syntax

section \<open>encoding/binary\<close>

definition leUint64 :: "bytes \<Rightarrow> lane" where
  "leUint64 bs = foldr (\<lambda>b v. ucast b OR push_bit 8 v) bs 0"

definition putUint64 :: "lane \<Rightarrow> bytes" where
  "putUint64 v = map (\<lambda>i. ucast (drop_bit (8 * i) v)) [0..<8]"

section \<open>xor_generic.go and xor_unaligned.go\<close>

definition xorLane :: "bytes \<Rightarrow> nat \<Rightarrow> lanes \<Rightarrow> lanes" where
  "xorLane buf i a = a[i := a ! i XOR leUint64 (take 8 (drop (8 * i) buf))]"

definition xorInGeneric :: "bytes \<Rightarrow> lanes \<Rightarrow> lanes" where
  "xorInGeneric buf a = fold (xorLane buf) [0..<length buf div 8] a"

definition copyOutGeneric :: "lanes \<Rightarrow> bytes \<Rightarrow> bytes" where
  "copyOutGeneric a b = concat (map (\<lambda>i. putUint64 (a ! i)) [0..<length b div 8]) @ drop (8 * (length b div 8)) b"

definition xorInUnaligned :: "bytes \<Rightarrow> lanes \<Rightarrow> lanes" where
  "xorInUnaligned buf a =
     (let n = length buf;
          a = (if n \<ge> 72 then fold (xorLane buf) [0, 1, 2, 3, 4, 5, 6, 7, 8] a else a);
          a = (if n \<ge> 104 then fold (xorLane buf) [9, 10, 11, 12] a else a);
          a = (if n \<ge> 136 then fold (xorLane buf) [13, 14, 15, 16] a else a);
          a = (if n \<ge> 144 then fold (xorLane buf) [17] a else a)
      in if n \<ge> 168 then fold (xorLane buf) [18, 19, 20] a else a)"

definition copyOutUnaligned :: "lanes \<Rightarrow> bytes \<Rightarrow> bytes" where
  "copyOutUnaligned a buf = (let ab = concat (map putUint64 (take 21 a)); n = min (length buf) 168 in take n ab @ drop n buf)"

section \<open>sha3.go\<close>

datatype spongeDirection = spongeAbsorbing | spongeSqueezing

definition maxRate :: nat where "maxRate = 168"

record sponge =
  sp_a :: lanes
  sp_storage :: bytes
  sp_off :: nat
  sp_len :: nat
  sp_rate :: nat
  sp_dsbyte :: byte
  sp_outputLen :: nat
  sp_state :: spongeDirection

definition newSponge :: "nat \<Rightarrow> nat \<Rightarrow> byte \<Rightarrow> sponge" where
  "newSponge rate outputLen dsbyte = \<lparr>sp_a = replicate 25 0, sp_storage = replicate maxRate 0, sp_off = 0, sp_len = 0,
     sp_rate = rate, sp_dsbyte = dsbyte, sp_outputLen = outputLen, sp_state = spongeAbsorbing\<rparr>"

definition sp_buf :: "sponge \<Rightarrow> bytes" where
  "sp_buf d = take (sp_len d) (drop (sp_off d) (sp_storage d))"

definition Reset :: "sponge \<Rightarrow> sponge" where
  "Reset d = d\<lparr>sp_a := replicate 25 0, sp_state := spongeAbsorbing, sp_off := 0, sp_len := 0\<rparr>"

text \<open>The capacity of the buffer reaches to the end of \<^verbatim>\<open>storage\<close>.\<close>

definition clone :: "sponge \<Rightarrow> sponge outcome" where
  "clone d =
     (case sp_state d of
        spongeAbsorbing \<Rightarrow> Returned (d\<lparr>sp_off := 0\<rparr>)
      | spongeSqueezing \<Rightarrow>
          (let cap = maxRate - sp_off d in
           if cap > sp_rate d then Panicked
           else Returned (d\<lparr>sp_off := sp_rate d - cap, sp_len := sp_rate d - (sp_rate d - cap)\<rparr>)))"

definition copyToStorage :: "sponge \<Rightarrow> sponge" where
  "copyToStorage d = d\<lparr>sp_off := 0, sp_len := sp_rate d,
     sp_storage := copyOutGeneric (sp_a d) (take (sp_rate d) (sp_storage d)) @ drop (sp_rate d) (sp_storage d)\<rparr>"

definition permute :: "sponge \<Rightarrow> sponge" where
  "permute d =
     (case sp_state d of
        spongeAbsorbing \<Rightarrow> d\<lparr>sp_a := keccakF1600 (xorInGeneric (sp_buf d) (sp_a d)), sp_off := 0, sp_len := 0\<rparr>
      | spongeSqueezing \<Rightarrow> copyToStorage (d\<lparr>sp_a := keccakF1600 (sp_a d)\<rparr>))"

definition padAndPermute :: "byte \<Rightarrow> sponge \<Rightarrow> sponge" where
  "padAndPermute dsbyte d =
     (let zerosStart = sp_len d + 1;
          storage = (sp_storage d)[sp_off d + sp_len d := dsbyte];
          storage = take zerosStart storage @ replicate (sp_rate d - zerosStart) 0 @ drop (max zerosStart (sp_rate d)) storage;
          storage = storage[sp_rate d - 1 := storage ! (sp_rate d - 1) XOR 0x80];
          d = permute (d\<lparr>sp_storage := storage, sp_off := 0, sp_len := sp_rate d\<rparr>)
      in copyToStorage (d\<lparr>sp_state := spongeSqueezing\<rparr>))"

partial_function (option) writeLoop :: "bytes \<Rightarrow> sponge \<Rightarrow> sponge option" where
  "writeLoop p d =
     (if length p = 0 then Some d
      else if sp_len d = 0 \<and> length p \<ge> sp_rate d
      then writeLoop (drop (sp_rate d) p) (d\<lparr>sp_a := keccakF1600 (xorInGeneric (take (sp_rate d) p) (sp_a d))\<rparr>)
      else (let todo = min (sp_rate d - sp_len d) (length p);
                end = sp_off d + sp_len d;
                d = d\<lparr>sp_storage := take end (sp_storage d) @ take todo p @ drop (end + todo) (sp_storage d), sp_len := sp_len d + todo\<rparr>;
                d = (if sp_len d = sp_rate d then permute d else d)
            in writeLoop (drop todo p) d))"

declare writeLoop.simps [code]

definition Write :: "bytes \<Rightarrow> sponge \<Rightarrow> sponge outcome" where
  "Write p d =
     (if sp_state d \<noteq> spongeAbsorbing then Panicked
      else (case writeLoop p d of None \<Rightarrow> OutOfFuel | Some d \<Rightarrow> Returned d))"

partial_function (option) squeezeLoop :: "nat \<Rightarrow> bytes \<Rightarrow> sponge \<Rightarrow> (bytes \<times> sponge) option" where
  "squeezeLoop left out d =
     (if left = 0 then Some (out, d)
      else (let n = min left (sp_len d);
                out = out @ take n (sp_buf d);
                d = d\<lparr>sp_off := sp_off d + n, sp_len := sp_len d - n\<rparr>;
                d = (if sp_len d = 0 then permute d else d)
            in squeezeLoop (left - n) out d))"

declare squeezeLoop.simps [code]

definition Read :: "nat \<Rightarrow> sponge \<Rightarrow> (bytes \<times> sponge) outcome" where
  "Read n d =
     (let d = (if sp_state d = spongeAbsorbing then padAndPermute (sp_dsbyte d) d else d)
      in case squeezeLoop n [] d of None \<Rightarrow> OutOfFuel | Some r \<Rightarrow> Returned r)"

definition Sum :: "bytes \<Rightarrow> sponge \<Rightarrow> bytes outcome" where
  "Sum pre d =
     (case clone d of
        Returned dup \<Rightarrow> (case Read (sp_outputLen dup) dup of Returned (h, _) \<Rightarrow> Returned (pre @ h) | Panicked \<Rightarrow> Panicked | OutOfFuel \<Rightarrow> OutOfFuel)
      | Panicked \<Rightarrow> Panicked | OutOfFuel \<Rightarrow> OutOfFuel)"

section \<open>hashes.go, shake.go and crypto/crypto.go\<close>

definition NewKeccak256 :: sponge where "NewKeccak256 = newSponge 136 32 0x01"
definition NewKeccak512 :: sponge where "NewKeccak512 = newSponge 72 64 0x01"
definition New224 :: sponge where "New224 = newSponge 144 28 0x06"
definition New256 :: sponge where "New256 = newSponge 136 32 0x06"
definition New384 :: sponge where "New384 = newSponge 104 48 0x06"
definition New512 :: sponge where "New512 = newSponge 72 64 0x06"
definition NewShake128 :: sponge where "NewShake128 = newSponge 168 0 0x1f"
definition NewShake256 :: sponge where "NewShake256 = newSponge 136 0 0x1f"

fun writeAll :: "bytes list \<Rightarrow> sponge \<Rightarrow> sponge outcome" where
  "writeAll [] d = Returned d"
| "writeAll (b # data) d = (case Write b d of Returned d \<Rightarrow> writeAll data d | r \<Rightarrow> r)"

definition digest :: "sponge \<Rightarrow> bytes list \<Rightarrow> bytes outcome" where
  "digest d data = (case writeAll data d of Returned d \<Rightarrow> Sum [] d | Panicked \<Rightarrow> Panicked | OutOfFuel \<Rightarrow> OutOfFuel)"

definition Sum224 :: "bytes \<Rightarrow> bytes outcome" where "Sum224 data = digest New224 [data]"
definition Sum256 :: "bytes \<Rightarrow> bytes outcome" where "Sum256 data = digest New256 [data]"
definition Sum384 :: "bytes \<Rightarrow> bytes outcome" where "Sum384 data = digest New384 [data]"
definition Sum512 :: "bytes \<Rightarrow> bytes outcome" where "Sum512 data = digest New512 [data]"

definition Keccak256 :: "bytes list \<Rightarrow> bytes outcome" where "Keccak256 data = digest NewKeccak256 data"
definition Keccak256Hash :: "bytes list \<Rightarrow> bytes outcome" where "Keccak256Hash data = digest NewKeccak256 data"
definition Keccak512 :: "bytes list \<Rightarrow> bytes outcome" where "Keccak512 data = digest NewKeccak512 data"

definition shakeSum :: "sponge \<Rightarrow> nat \<Rightarrow> bytes \<Rightarrow> bytes outcome" where
  "shakeSum d n data =
     (case Write data d of
        Returned d \<Rightarrow> (case Read n d of Returned (h, _) \<Rightarrow> Returned h | Panicked \<Rightarrow> Panicked | OutOfFuel \<Rightarrow> OutOfFuel)
      | Panicked \<Rightarrow> Panicked | OutOfFuel \<Rightarrow> OutOfFuel)"

definition ShakeSum128 :: "nat \<Rightarrow> bytes \<Rightarrow> bytes outcome" where "ShakeSum128 = shakeSum NewShake128"
definition ShakeSum256 :: "nat \<Rightarrow> bytes \<Rightarrow> bytes outcome" where "ShakeSum256 = shakeSum NewShake256"

section \<open>The sponge of the standard\<close>

text \<open>A block is mixed into the state, the permutation is applied; output bytes are read from the state, which is permuted
  after every \<open>r\<close> of them.\<close>

definition mix :: "bytes \<Rightarrow> lanes \<Rightarrow> lanes" where
  "mix blk a = map2 (XOR) a (map (\<lambda>i. leUint64 (take 8 (drop (8 * i) blk))) [0..<25])"

function absorb :: "nat \<Rightarrow> bytes \<Rightarrow> lanes \<Rightarrow> lanes \<times> bytes" where
  "absorb r m a = (if 0 < r \<and> r \<le> length m then absorb r (drop r m) (keccak_f (mix (take r m) a)) else (a, m))"
  by auto
termination by (relation "measure (\<lambda>(r, m, a). length m)") auto

declare absorb.simps [simp del]

definition pad :: "nat \<Rightarrow> byte \<Rightarrow> nat \<Rightarrow> bytes" where
  "pad r ds n = (let z = r - n mod r in (ds # replicate (z - 1) 0)[z - 1 := (ds # replicate (z - 1) 0) ! (z - 1) XOR 0x80])"

definition state_bytes :: "lanes \<Rightarrow> bytes" where
  "state_bytes a = concat (map putUint64 a)"

definition out_byte :: "nat \<Rightarrow> lanes \<Rightarrow> nat \<Rightarrow> byte" where
  "out_byte r a k = state_bytes ((keccak_f ^^ (k div r)) a) ! (k mod r)"

definition sponge_hash :: "nat \<Rightarrow> byte \<Rightarrow> nat \<Rightarrow> bytes \<Rightarrow> bytes" where
  "sponge_hash r ds n m = map (out_byte r (fst (absorb r (m @ pad r ds (length m)) (replicate 25 0)))) [0..<n]"

section \<open>Mixing in and copying out\<close>

definition rate_ok :: "nat \<Rightarrow> bool" where
  "rate_ok r \<longleftrightarrow> r = 72 \<or> r = 104 \<or> r = 136 \<or> r = 144 \<or> r = 168"

lemma rate_okD: "rate_ok r \<Longrightarrow> 0 < r" "rate_ok r \<Longrightarrow> r \<le> 168" "rate_ok r \<Longrightarrow> r mod 8 = 0"
  by (auto simp: rate_ok_def)

lemma length_mix [simp]: "length a = 25 \<Longrightarrow> length (mix blk a) = 25"
  by (simp add: mix_def)

lemma fold_xorLane: "n \<le> length a \<Longrightarrow> fold (xorLane buf) [0..<n] a =
    map (\<lambda>i. if i < n then a ! i XOR leUint64 (take 8 (drop (8 * i) buf)) else a ! i) [0..<length a]"
proof (induction n)
  case 0
  then show ?case by (simp add: map_nth)
next
  case (Suc n)
  then show ?case by (auto simp: xorLane_def nth_list_update less_Suc_eq intro!: nth_equalityI)
qed

lemma xorInGeneric_mix:
  assumes "length a = 25" "length buf \<le> 200" "length buf mod 8 = 0"
  shows "xorInGeneric buf a = mix buf a"
proof -
  have n: "length buf div 8 \<le> length a" using assms by (auto simp: mod_eq_0_iff_dvd)
  have "leUint64 (take 8 (drop (8 * i) buf)) = 0" if "\<not> i < length buf div 8" for i
  proof -
    have "length buf \<le> 8 * i" using that assms(3) by (auto simp: mod_eq_0_iff_dvd not_less elim!: dvdE)
    then show ?thesis by (simp add: leUint64_def)
  qed
  then show ?thesis unfolding xorInGeneric_def fold_xorLane[OF n] mix_def using assms(1) by (auto intro!: nth_equalityI)
qed

lemma length_putUint64 [simp]: "length (putUint64 v) = 8"
  by (simp add: putUint64_def)

lemma take_state_bytes: "take (8 * n) (state_bytes a) = state_bytes (take n a)"
proof (induction a arbitrary: n)
  case (Cons v a)
  then show ?case by (cases n) (simp_all add: state_bytes_def)
qed (simp add: state_bytes_def)

lemma length_state_bytes [simp]: "length (state_bytes a) = 8 * length a"
  by (induction a) (simp_all add: state_bytes_def)

lemma copyOutGeneric_bytes:
  assumes "length a = 25" "length b \<le> 200" "length b mod 8 = 0"
  shows "copyOutGeneric a b = take (length b) (state_bytes a)"
proof -
  obtain n where n: "length b = 8 * n" using assms(3) by (auto simp: mod_eq_0_iff_dvd elim!: dvdE)
  have "map (\<lambda>i. putUint64 (a ! i)) [0..<n] = map putUint64 (take n a)" using assms(1,2) n by (auto intro!: nth_equalityI)
  then show ?thesis by (simp add: copyOutGeneric_def n take_state_bytes) (simp add: state_bytes_def)
qed

lemma upt_numerals: "[0..<9] = [0, 1, 2, 3, 4, 5, 6, 7, 8]" "[0..<13] = [0, 1, 2, 3, 4, 5, 6, 7, 8, 9, 10, 11, 12]"
  "[0..<17] = [0, 1, 2, 3, 4, 5, 6, 7, 8, 9, 10, 11, 12, 13, 14, 15, 16]"
  "[0..<18] = [0, 1, 2, 3, 4, 5, 6, 7, 8, 9, 10, 11, 12, 13, 14, 15, 16, 17]"
  "[0..<21] = [0, 1, 2, 3, 4, 5, 6, 7, 8, 9, 10, 11, 12, 13, 14, 15, 16, 17, 18, 19, 20]"
  by (simp_all add: upt_rec)

text \<open>The accesses to memory by whole words do the same, for the block sizes that occur.\<close>

lemma xorIn_unaligned: "rate_ok (length buf) \<Longrightarrow> xorInUnaligned buf a = xorInGeneric buf a"
  unfolding rate_ok_def by (elim disjE) (simp_all add: xorInUnaligned_def xorInGeneric_def upt_numerals)

lemma copyOut_unaligned:
  assumes "length a = 25" "rate_ok (length b)"
  shows "copyOutUnaligned a b = copyOutGeneric a b"
proof -
  have "length b \<le> 168" "length b mod 8 = 0" using rate_okD[OF assms(2)] by simp_all
  then show ?thesis
    using copyOutGeneric_bytes[OF assms(1), of b] take_state_bytes[of 21 a, symmetric]
    by (simp add: copyOutUnaligned_def Let_def state_bytes_def[symmetric] min_absorb1)
qed

section \<open>Absorbing\<close>

definition absorbing :: "nat \<Rightarrow> byte \<Rightarrow> nat \<Rightarrow> sponge \<Rightarrow> bool" where
  "absorbing r ds n d \<longleftrightarrow> rate_ok r \<and> sp_rate d = r \<and> sp_dsbyte d = ds \<and> sp_outputLen d = n \<and> sp_state d = spongeAbsorbing \<and>
     sp_off d = 0 \<and> sp_len d < r \<and> length (sp_storage d) = 168 \<and> length (sp_a d) = 25"

lemma absorb_short: "length m < r \<Longrightarrow> absorb r m a = (a, m)"
  by (simp add: absorb.simps[of r m a])

lemma absorb_block: "0 < r \<Longrightarrow> length b = r \<Longrightarrow> absorb r (b @ m) a = absorb r m (keccak_f (mix b a))"
  by (simp add: absorb.simps[of r "b @ m" a])

lemma absorb_append: "0 < r \<Longrightarrow> absorb r (m @ p) a = (case absorb r m a of (a', m') \<Rightarrow> absorb r (m' @ p) a')"
proof (induction r m a rule: absorb.induct)
  case (1 r m a)
  show ?case
  proof (cases "r \<le> length m")
    case True
    have "absorb r (m @ p) a = absorb r (drop r m @ p) (keccak_f (mix (take r m) a))"
      using absorb_block[of r "take r m" "drop r m @ p" a, OF 1(2)] True unfolding append_assoc[symmetric] append_take_drop_id by simp
    then show ?thesis using 1 True by (simp add: absorb.simps[of r m a])
  qed (simp add: absorb_short)
qed

lemma sp_buf_absorbing: "absorbing r ds n d \<Longrightarrow> sp_buf d = take (sp_len d) (sp_storage d)"
  by (simp add: sp_buf_def absorbing_def)

lemma writeLoop_Nil: "writeLoop [] d = Some d"
  by (subst writeLoop.simps) simp

lemma writeLoop_absorbs:
  assumes "absorbing r ds n d"
  shows "\<exists>d'. writeLoop p d = Some d' \<and> absorbing r ds n d' \<and> absorb r (sp_buf d @ p) (sp_a d) = (sp_a d', sp_buf d')"
  using assms
proof (induction "length p" arbitrary: p d rule: less_induct)
  case less
  have r: "0 < r" "r \<le> 168" "r mod 8 = 0" and d: "sp_rate d = r" "sp_off d = 0" "sp_len d < r" "length (sp_storage d) = 168" "length (sp_a d) = 25"
    using less.prems rate_okD[of r] by (simp_all add: absorbing_def)
  note buf = sp_buf_absorbing[OF less.prems]
  have lb: "length (sp_buf d) = sp_len d" using d r by (simp add: buf)
  consider "p = []" | "p \<noteq> []" "sp_len d = 0" "r \<le> length p" | "p \<noteq> []" "sp_len d \<noteq> 0 \<or> length p < r" by linarith
  then show ?case
  proof cases
    case 1
    have "absorb r (sp_buf d) (sp_a d) = (sp_a d, sp_buf d)" using d(3) lb by (intro absorb_short) simp
    then show ?thesis using less.prems unfolding 1 writeLoop_Nil append_Nil2 by (intro exI[of _ d]) (simp only: simp_thms)
  next
    case 2
    let ?d = "d\<lparr>sp_a := keccakF1600 (xorInGeneric (take r p) (sp_a d))\<rparr>"
    have a: "sp_a ?d = keccak_f (mix (take r p) (sp_a d))" using 2(3) r d(5) by (simp add: xorInGeneric_mix keccakF1600_eq)
    have ok: "absorbing r ds n ?d" using less.prems a d(5) by (simp add: absorbing_def)
    have "sp_buf d = []" "sp_buf ?d = []" using 2(2) by (simp_all add: sp_buf_def)
    moreover have "absorb r p (sp_a d) = absorb r (drop r p) (sp_a ?d)" using 2(3) r(1) by (subst absorb.simps) (simp add: a)
    moreover have "writeLoop p d = writeLoop (drop r p) ?d" using 2 d(1) by (subst writeLoop.simps) simp
    moreover have "length (drop r p) < length p" using 2 r(1) by simp
    ultimately show ?thesis using less.hyps[OF _ ok, of "drop r p"] by (simp only: append_Nil)
  next
    case 3
    define t where "t = min (r - sp_len d) (length p)"
    define d1 where "d1 = d\<lparr>sp_storage := take (sp_len d) (sp_storage d) @ take t p @ drop (sp_len d + t) (sp_storage d), sp_len := sp_len d + t\<rparr>"
    define d2 where "d2 = (if sp_len d1 = r then permute d1 else d1)"
    have c: "\<not> length p = 0" "\<not> (sp_len d = 0 \<and> r \<le> length p)" using 3 by auto
    have sr: "sp_rate (d\<lparr>sp_storage := x, sp_len := y\<rparr>) = r" for x y using d(1) by simp
    have step: "writeLoop p d = writeLoop (drop t p) d2"
      by (subst writeLoop.simps) (simp only: c if_False Let_def t_def d1_def d2_def d(1,2) add_0 sr)
    have t: "0 < t" "length (drop t p) < length p" "t \<le> length p" "sp_len d + t \<le> r" using 3(1) d(3) by (simp_all add: t_def)
    have b1: "sp_buf d1 = sp_buf d @ take t p" "length (sp_storage d1) = 168" "sp_len d1 = sp_len d + t" "sp_a d1 = sp_a d"
      using d r t by (simp_all add: sp_buf_def d1_def)
    have d1: "sp_rate d1 = r" "sp_dsbyte d1 = ds" "sp_outputLen d1 = n" "sp_state d1 = spongeAbsorbing" "sp_off d1 = 0" "rate_ok r"
      using less.prems by (simp_all add: d1_def absorbing_def)
    have "absorbing r ds n d2 \<and> absorb r (sp_buf d2 @ drop t p) (sp_a d2) = absorb r (sp_buf d @ p) (sp_a d)"
    proof (cases "sp_len d1 = r")
      case True
      have l: "length (sp_buf d1) = r" using b1 lb True t by simp
      have p2: "sp_a d2 = keccak_f (mix (sp_buf d1) (sp_a d))" "sp_len d2 = 0" "sp_off d2 = 0" "sp_state d2 = spongeAbsorbing"
        "sp_rate d2 = r" "sp_dsbyte d2 = ds" "sp_outputLen d2 = n" "sp_storage d2 = sp_storage d1"
        using True l r d(5) b1 d1 by (simp_all add: d2_def permute_def xorInGeneric_mix keccakF1600_eq)
      have "sp_buf d2 = []" using p2(2) by (simp add: sp_buf_def)
      moreover have "absorb r (sp_buf d @ p) (sp_a d) = absorb r (drop t p) (keccak_f (mix (sp_buf d1) (sp_a d)))"
        using absorb_block[OF r(1) l, of "drop t p" "sp_a d"] unfolding b1(1) append_assoc append_take_drop_id .
      ultimately show ?thesis using p2 d(5) r(1) d1(6) b1(2) by (simp add: absorbing_def)
    next
      case False
      then have "sp_len d1 < r" using b1(3) t(4) by simp
      moreover have "sp_buf d1 @ drop t p = sp_buf d @ p" unfolding b1(1) by simp
      ultimately show ?thesis using False d1 b1 d(5) by (simp add: absorbing_def d2_def)
    qed
    then show ?thesis using less.hyps[OF t(2), of d2] unfolding step by (simp only: simp_thms)
  qed
qed

lemma Write_absorbs:
  assumes "absorbing r ds n d"
  obtains d' where "Write p d = Returned d'" "absorbing r ds n d'" "absorb r (sp_buf d @ p) (sp_a d) = (sp_a d', sp_buf d')"
proof -
  obtain d' where "writeLoop p d = Some d'" "absorbing r ds n d'" "absorb r (sp_buf d @ p) (sp_a d) = (sp_a d', sp_buf d')"
    using writeLoop_absorbs[OF assms] by blast
  then show thesis using assms by (intro that) (simp_all add: Write_def absorbing_def)
qed

lemma writeAll_absorbs:
  assumes "absorbing r ds n d"
  shows "\<exists>d'. writeAll data d = Returned d' \<and> absorbing r ds n d' \<and> absorb r (sp_buf d @ concat data) (sp_a d) = (sp_a d', sp_buf d')"
  using assms
proof (induction data arbitrary: d)
  case Nil
  have "length (sp_buf d) < r" using Nil by (auto simp: sp_buf_def absorbing_def)
  then have "absorb r (sp_buf d) (sp_a d) = (sp_a d, sp_buf d)" by (rule absorb_short)
  then show ?case using Nil by (intro exI[of _ d]) simp
next
  case (Cons b data)
  obtain d1 where d1: "Write b d = Returned d1" "absorbing r ds n d1" "absorb r (sp_buf d @ b) (sp_a d) = (sp_a d1, sp_buf d1)"
    using Write_absorbs[OF Cons.prems] .
  have "0 < r" using Cons.prems rate_okD(1) by (simp add: absorbing_def)
  then have "absorb r (sp_buf d @ b @ concat data) (sp_a d) = absorb r (sp_buf d1 @ concat data) (sp_a d1)"
    using absorb_append[of r "sp_buf d @ b" "concat data" "sp_a d"] d1(3) by simp
  then show ?case using Cons.IH[OF d1(2)] d1(1) by simp
qed

section \<open>Squeezing\<close>

definition squeezing :: "nat \<Rightarrow> byte \<Rightarrow> nat \<Rightarrow> lanes \<Rightarrow> sponge \<Rightarrow> bool" where
  "squeezing r ds n a d \<longleftrightarrow> rate_ok r \<and> sp_rate d = r \<and> sp_dsbyte d = ds \<and> sp_outputLen d = n \<and> sp_state d = spongeSqueezing \<and>
     sp_a d = a \<and> length a = 25 \<and> sp_off d + sp_len d = r \<and> 0 < sp_len d \<and> length (sp_storage d) = 168 \<and>
     take r (sp_storage d) = take r (state_bytes a)"

lemma squeezing_copy:
  assumes "rate_ok r" "sp_rate d = r" "sp_dsbyte d = ds" "sp_outputLen d = n" "sp_state d = spongeSqueezing" "sp_a d = a"
    "length a = 25" "length (sp_storage d) = 168"
  shows "squeezing r ds n a (copyToStorage d)" "sp_off (copyToStorage d) = 0"
proof -
  have "copyOutGeneric a (take r (sp_storage d)) = take r (state_bytes a)"
    using assms(7,8) rate_okD[OF assms(1)] by (subst copyOutGeneric_bytes) simp_all
  then show "squeezing r ds n a (copyToStorage d)" using assms rate_okD[OF assms(1)] by (simp add: squeezing_def copyToStorage_def)
  show "sp_off (copyToStorage d) = 0" by (simp add: copyToStorage_def)
qed

lemma out_byte_first: "k < r \<Longrightarrow> out_byte r a k = state_bytes a ! k"
  by (simp add: out_byte_def)

lemma out_byte_next: "0 < r \<Longrightarrow> out_byte r (keccak_f a) k = out_byte r a (r + k)"
  by (simp add: out_byte_def funpow_swap1 le_div_geq)

lemma squeezeLoop_0: "squeezeLoop 0 out d = Some (out, d)"
  by (subst squeezeLoop.simps) simp

text \<open>Reading delivers the bytes of the output from the current offset on and moves on by their number.\<close>

lemma squeezeLoop_reads:
  assumes "squeezing r ds n a d"
  shows "\<exists>d' a'. squeezeLoop k out d = Some (out @ map (out_byte r a) [sp_off d..<sp_off d + k], d') \<and> squeezing r ds n a' d' \<and>
    sp_off d' = (sp_off d + k) mod r \<and> a' = (keccak_f ^^ ((sp_off d + k) div r)) a"
  using assms
proof (induction k arbitrary: out d a rule: less_induct)
  case (less k)
  have r: "rate_ok r" "0 < r" "r \<le> 168" and d: "sp_rate d = r" "sp_off d + sp_len d = r" "0 < sp_len d" "sp_a d = a" "length a = 25"
      "length (sp_storage d) = 168" "take r (sp_storage d) = take r (state_bytes a)" "sp_state d = spongeSqueezing" "sp_dsbyte d = ds" "sp_outputLen d = n"
    using less.prems rate_okD[of r] by (simp_all add: squeezing_def)
  show ?case
  proof (cases "k = 0")
    case True
    then show ?thesis using less.prems d by (simp add: squeezeLoop_0)
  next
    case False
    let ?n = "min k (sp_len d)"
    let ?d1 = "d\<lparr>sp_off := sp_off d + ?n, sp_len := sp_len d - ?n\<rparr>"
    let ?d2 = "if sp_len ?d1 = 0 then permute ?d1 else ?d1"
    have buf: "take ?n (sp_buf d) = map (out_byte r a) [sp_off d..<sp_off d + ?n]"
    proof (rule nth_equalityI)
      show "length (take ?n (sp_buf d)) = length (map (out_byte r a) [sp_off d..<sp_off d + ?n])" using d r by (simp add: sp_buf_def)
      fix i assume i: "i < length (take ?n (sp_buf d))"
      then have "sp_off d + i < r" using d by (simp add: sp_buf_def)
      then have "sp_storage d ! (sp_off d + i) = state_bytes a ! (sp_off d + i)" using d(7) by (metis nth_take)
      then show "take ?n (sp_buf d) ! i = map (out_byte r a) [sp_off d..<sp_off d + ?n] ! i"
        using i \<open>sp_off d + i < r\<close> d(6) r by (simp add: sp_buf_def out_byte_first)
    qed
    have step: "squeezeLoop k out d = squeezeLoop (k - ?n) (out @ map (out_byte r a) [sp_off d..<sp_off d + ?n]) ?d2"
      using False by (subst squeezeLoop.simps) (simp add: Let_def buf)
    have n: "0 < ?n" "k - ?n < k" using False d(3) by simp_all
    show ?thesis
    proof (cases "sp_len d \<le> k")
      case True
      then have e: "?n = sp_len d" by simp
      have c: "?d2 = copyToStorage (?d1\<lparr>sp_a := keccak_f a\<rparr>)"
        using e d by (simp add: permute_def keccakF1600_eq)
      have "squeezing r ds n (keccak_f a) ?d2" unfolding c by (rule squeezing_copy(1)) (use d r in simp_all)
      moreover have "sp_off ?d2 = 0" unfolding c by (simp add: copyToStorage_def)
      ultimately obtain d' where d': "squeezeLoop (k - ?n) (out @ map (out_byte r a) [sp_off d..<sp_off d + ?n]) ?d2 =
          Some ((out @ map (out_byte r a) [sp_off d..<sp_off d + ?n]) @ map (out_byte r (keccak_f a)) [0..<k - ?n], d')"
          "squeezing r ds n ((keccak_f ^^ ((k - ?n) div r)) (keccak_f a)) d'" "sp_off d' = (k - ?n) mod r"
        using less.IH[OF n(2), of "keccak_f a" ?d2 "out @ map (out_byte r a) [sp_off d..<sp_off d + ?n]"] by auto
      have o: "sp_off d + k = r + (k - ?n)" using e d(2) True by linarith
      have "map (out_byte r (keccak_f a)) [0..<k - ?n] = map (out_byte r a) [sp_off d + ?n..<sp_off d + k]"
        using e d(2) o by (intro nth_equalityI) (auto simp: out_byte_next[OF r(2)])
      then have m: "(out @ map (out_byte r a) [sp_off d..<sp_off d + ?n]) @ map (out_byte r (keccak_f a)) [0..<k - ?n] =
          out @ map (out_byte r a) [sp_off d..<sp_off d + k]"
        using upt_add_eq_append[of "sp_off d" "sp_off d + ?n" "k - ?n"] o e d(2) by (simp only: append_assoc flip: map_append)
      have "(keccak_f ^^ ((k - ?n) div r)) (keccak_f a) = (keccak_f ^^ ((sp_off d + k) div r)) a"
        using r(2) by (simp only: o div_add_self1 funpow_swap1 funpow.simps(2) comp_apply add.commute[of _ 1] Suc_eq_plus1_left[symmetric])
      moreover have "(sp_off d + k) mod r = (k - ?n) mod r" unfolding o by (rule mod_add_self1)
      ultimately show ?thesis using d'(2,3) unfolding step d'(1) m by auto
    next
      case f: False
      let ?d' = "d\<lparr>sp_off := sp_off d + k, sp_len := sp_len d - k\<rparr>"
      have "?n = k" "?d2 = ?d'" using f by simp_all
      then have "squeezeLoop k out d = Some (out @ map (out_byte r a) [sp_off d..<sp_off d + k], ?d')" using step by (simp add: squeezeLoop_0)
      moreover have "squeezing r ds n a ?d'" using less.prems f by (simp add: squeezing_def)
      moreover have "sp_off d + k < r" using f d(2) by linarith
      ultimately show ?thesis by simp
    qed
  qed
qed

lemma pad_block:
  assumes "length b < r"
  shows "b @ pad r ds (length b) = (b @ ds # replicate (r - length b - 1) 0)[r - 1 := (b @ ds # replicate (r - length b - 1) 0) ! (r - 1) XOR 0x80]"
proof -
  define z where "z = ds # replicate (r - length b - 1) 0"
  have "\<not> r - 1 < length b" "r - 1 - length b = r - length b - 1" using assms by linarith+
  then have "(b @ z)[r - 1 := (b @ z) ! (r - 1) XOR 0x80] = b @ z[r - length b - 1 := z ! (r - length b - 1) XOR 0x80]"
    by (simp only: list_update_append nth_append if_False)
  moreover have "pad r ds (length b) = z[r - length b - 1 := z ! (r - length b - 1) XOR 0x80]"
    using assms unfolding pad_def Let_def z_def by (simp only: mod_less)
  ultimately show ?thesis unfolding z_def by (simp only:)
qed

lemma length_padding: "n < r \<Longrightarrow> length (pad r ds n) = r - n"
  unfolding pad_def Let_def length_list_update by simp

lemma padAndPermute_squeezing:
  assumes "absorbing r ds n d"
  shows "squeezing r ds n (keccak_f (mix (sp_buf d @ pad r ds (sp_len d)) (sp_a d))) (padAndPermute ds d)" "sp_off (padAndPermute ds d) = 0"
proof -
  have r: "0 < r" "r \<le> 168" "r mod 8 = 0" "rate_ok r" and d: "sp_rate d = r" "sp_off d = 0" "sp_len d < r" "length (sp_storage d) = 168" "length (sp_a d) = 25"
      "sp_state d = spongeAbsorbing" "sp_dsbyte d = ds" "sp_outputLen d = n"
    using assms rate_okD[of r] by (simp_all add: absorbing_def)
  let ?b = "sp_buf d"
  have lb: "length ?b = sp_len d" and b: "?b = take (sp_len d) (sp_storage d)" using d r by (simp_all add: sp_buf_def)
  let ?x = "?b @ ds # replicate (r - sp_len d - 1) 0"
  let ?rest = "drop r (sp_storage d)"
  have "take (sp_len d + 1) ((sp_storage d)[sp_len d := ds]) = ?b @ [ds]"
    using d r b by (simp add: take_Suc_conv_app_nth)
  moreover have "drop (max (sp_len d + 1) r) ((sp_storage d)[sp_len d := ds]) = ?rest"
    using d(3) by (simp add: max_def)
  moreover have "(?x @ ?rest)[r - 1 := (?x @ ?rest) ! (r - 1) XOR 0x80] = (?b @ pad r ds (sp_len d)) @ ?rest"
  proof -
    have "r - 1 < length ?x" using lb d(3) by simp
    then show ?thesis using pad_block[of ?b r ds] d(3) unfolding lb by (simp only: list_update_append1 nth_append if_True)
  qed
  ultimately have p: "padAndPermute ds d =
      copyToStorage ((permute (d\<lparr>sp_storage := (?b @ pad r ds (sp_len d)) @ ?rest, sp_off := 0, sp_len := r\<rparr>))\<lparr>sp_state := spongeSqueezing\<rparr>)"
    unfolding padAndPermute_def Let_def d(1,2) add_0 by simp
  let ?d = "d\<lparr>sp_storage := (?b @ pad r ds (sp_len d)) @ ?rest, sp_off := 0, sp_len := r\<rparr>"
  have l: "length (?b @ pad r ds (sp_len d)) = r" using lb d(3) by (simp add: length_padding)
  then have "sp_buf ?d = ?b @ pad r ds (sp_len d)" by (subst sp_buf_def) (simp del: append_assoc)
  then have a: "sp_a (permute ?d) = keccak_f (mix (?b @ pad r ds (sp_len d)) (sp_a d))"
    using l r d(5,6) by (simp add: permute_def xorInGeneric_mix keccakF1600_eq)
  show "squeezing r ds n (keccak_f (mix (?b @ pad r ds (sp_len d)) (sp_a d))) (padAndPermute ds d)"
    unfolding p by (rule squeezing_copy(1)) (use a d r l in \<open>simp_all add: permute_def\<close>)
  show "sp_off (padAndPermute ds d) = 0" unfolding p by (simp add: copyToStorage_def)
qed

lemma absorb_rest: "0 < r \<Longrightarrow> absorb r m a = (a', m') \<Longrightarrow> length m' = length m mod r"
proof (induction r m a rule: absorb.induct)
  case (1 r m a)
  show ?case
  proof (cases "r \<le> length m")
    case True
    then show ?thesis using 1 by (simp add: absorb.simps[of r m a] le_mod_geq)
  next
    case False
    then show ?thesis using 1(3) by (simp add: absorb_short)
  qed
qed

lemma absorb_padded:
  assumes "0 < r" "absorb r m a = (a', m')"
  shows "fst (absorb r (m @ pad r ds (length m)) a) = keccak_f (mix (m' @ pad r ds (length m')) a')"
proof -
  have m': "length m' = length m mod r" by (rule absorb_rest[OF assms])
  then have p: "pad r ds (length m) = pad r ds (length m')" by (simp add: pad_def)
  have "length (m' @ pad r ds (length m')) = r" using m' assms(1) by (simp add: length_padding)
  then have "absorb r (m' @ pad r ds (length m')) a' = (keccak_f (mix (m' @ pad r ds (length m')) a'), [])"
    using absorb_block[of r "m' @ pad r ds (length m')" "[]" a'] absorb_short[of "[]" r] assms(1) by simp
  then show ?thesis using absorb_append[OF assms(1), of m "pad r ds (length m')" a] assms(2) by (simp add: p)
qed

lemma Read_hash:
  assumes "absorbing r ds n d" "absorb r m (replicate 25 0) = (sp_a d, sp_buf d)"
  shows "\<exists>d'. Read k d = Returned (sponge_hash r ds k m, d') \<and> sp_off d' = k mod r \<and> sp_rate d' = r \<and> sp_state d' = spongeSqueezing"
proof -
  have r: "0 < r" "rate_ok r" and st: "sp_state d = spongeAbsorbing" "sp_dsbyte d = ds" "sp_len d = length (sp_buf d)"
    using assms(1) rate_okD[of r] by (auto simp: absorbing_def sp_buf_def)
  let ?a = "keccak_f (mix (sp_buf d @ pad r ds (sp_len d)) (sp_a d))"
  have a: "?a = fst (absorb r (m @ pad r ds (length m)) (replicate 25 0))"
    using absorb_padded[OF r(1) assms(2), of ds] st(3) by simp
  note p = padAndPermute_squeezing[OF assms(1)]
  obtain d' a' where d': "squeezeLoop k [] (padAndPermute ds d) = Some (map (out_byte r ?a) [0..<k], d')" "squeezing r ds n a' d'" "sp_off d' = k mod r"
    using squeezeLoop_reads[OF p(1), of k "[]"] p(2) by auto
  then show ?thesis using st(1,2) unfolding Read_def sponge_hash_def a[symmetric] by (simp add: squeezing_def)
qed

lemma absorbing_new: "rate_ok r \<Longrightarrow> absorbing r ds n (newSponge r n ds)" "sp_buf (newSponge r n ds) = []" "sp_a (newSponge r n ds) = replicate 25 0"
  using rate_okD(1)[of r] by (simp_all add: absorbing_def newSponge_def maxRate_def sp_buf_def)

lemma digest_hash:
  assumes "rate_ok r"
  shows "digest (newSponge r n ds) data = Returned (sponge_hash r ds n (concat data))"
proof -
  obtain d where d: "writeAll data (newSponge r n ds) = Returned d" "absorbing r ds n d" "absorb r (concat data) (replicate 25 0) = (sp_a d, sp_buf d)"
    using writeAll_absorbs[OF absorbing_new(1)[OF assms, of ds n], of data] by (auto simp: absorbing_new)
  have c: "clone d = Returned d" "sp_outputLen d = n" using d(2) by (simp_all add: clone_def absorbing_def)
  show ?thesis using Read_hash[OF d(2,3), of n] by (auto simp: digest_def Sum_def d(1) c)
qed

section \<open>Properties\<close>

text \<open>The unrolled, in-place permutation of the code is Keccak-f[1600] of the standard: 24 rounds of theta, rho, pi, chi
  and iota.\<close>

theorem keccak_permutation:
  assumes "length a = 25"
  shows "keccakF1600 a = fold (\<lambda>k a. iota k (chi (pi (rho (theta a))))) rc a"
  using keccakF1600_eq[OF assms] by (simp add: keccak_f_def keccak_round_def[abs_def])

theorem keccak_permutation_witness: "keccakF1600 (replicate 25 0) = fold (\<lambda>k a. iota k (chi (pi (rho (theta a))))) rc (replicate 25 0)"
  using keccak_permutation[of "replicate 25 0"] by simp

text \<open>C37. Every hash function of the package returns, and returns the sponge of the standard over its input: however the
  input is cut into pieces, padded with the domain bits, absorbed block by block and squeezed.  In particular the
  digest has the length it should have.\<close>

theorem hashes_are_sponges:
  "Keccak256 data = Returned (sponge_hash 136 0x01 32 (concat data)) \<and> Keccak512 data = Returned (sponge_hash 72 0x01 64 (concat data)) \<and>
   Sum224 m = Returned (sponge_hash 144 0x06 28 m) \<and> Sum256 m = Returned (sponge_hash 136 0x06 32 m) \<and>
   Sum384 m = Returned (sponge_hash 104 0x06 48 m) \<and> Sum512 m = Returned (sponge_hash 72 0x06 64 m) \<and>
   ShakeSum128 n m = Returned (sponge_hash 168 0x1f n m) \<and> ShakeSum256 n m = Returned (sponge_hash 136 0x1f n m)"
proof -
  have shake: "shakeSum (newSponge r 0 ds) n m = Returned (sponge_hash r ds n m)" if rr: "rate_ok r" for r ds
  proof -
    obtain d where d: "Write m (newSponge r 0 ds) = Returned d" "absorbing r ds 0 d" "absorb r (sp_buf (newSponge r 0 ds) @ m) (sp_a (newSponge r 0 ds)) = (sp_a d, sp_buf d)"
      using Write_absorbs[OF absorbing_new(1)[OF rr, of ds 0], where p = m] .
    then show ?thesis using Read_hash[OF d(2), of m n] by (auto simp: shakeSum_def absorbing_new)
  qed
  show ?thesis
    by (simp add: Keccak256_def Keccak512_def Sum224_def Sum256_def Sum384_def Sum512_def ShakeSum128_def ShakeSum256_def
        NewKeccak256_def NewKeccak512_def New224_def New256_def New384_def New512_def NewShake128_def NewShake256_def digest_hash shake rate_ok_def)
qed

lemma length_sponge_hash [simp]: "length (sponge_hash r ds n m) = n"
  by (simp add: sponge_hash_def)

text \<open>A copy of a sponge that is being read is wrong unless its block size is the size of the buffer: after \<open>n\<close>
  bytes have been read, \<^verbatim>\<open>Clone\<close> panics if the offset \<open>n mod r\<close> is less than \<open>168 - r\<close>, and otherwise returns a copy
  whose offset is too small by \<open>168 - r\<close>, so that it repeats output.  For SHAKE256 these are 32 bytes.\<close>

theorem clone_while_reading:
  assumes "rate_ok r" "Write m (newSponge r k ds) = Returned d" "Read n d = Returned (h, d')"
  shows "if n mod r < 168 - r then clone d' = Panicked
    else (\<exists>c. clone d' = Returned c \<and> sp_off c = n mod r - (168 - r) \<and> sp_a c = sp_a d' \<and> sp_storage c = sp_storage d')"
proof -
  obtain d1 where d1: "Write m (newSponge r k ds) = Returned d1" "absorbing r ds k d1" "absorb r (sp_buf (newSponge r k ds) @ m) (sp_a (newSponge r k ds)) = (sp_a d1, sp_buf d1)"
    using Write_absorbs[OF absorbing_new(1)[OF assms(1), of ds k], where p = m] .
  then have "sp_off d' = n mod r" "sp_rate d' = r" "sp_state d' = spongeSqueezing"
    using Read_hash[OF d1(2), of m n] assms(2,3) by (auto simp: absorbing_new)
  moreover have "n mod r < r" "r \<le> 168" using rate_okD[OF assms(1)] by simp_all
  ultimately show ?thesis by (auto simp: clone_def maxRate_def Let_def)
qed

theorem clone_while_reading_witness:
  "\<exists>d h d'. Write [1, 2, 3] (newSponge 136 0 0x1f) = Returned d \<and> Read 5 d = Returned (h, d') \<and> clone d' = Panicked"
proof -
  have r: "rate_ok 136" by (simp add: rate_ok_def)
  obtain d where d: "Write [1, 2, 3] (newSponge 136 0 0x1f) = Returned d" "absorbing 136 0x1f 0 d"
      "absorb 136 (sp_buf (newSponge 136 0 0x1f) @ [1, 2, 3]) (sp_a (newSponge 136 0 0x1f)) = (sp_a d, sp_buf d)"
    using Write_absorbs[OF absorbing_new(1)[OF r, of "0x1f" 0], where p = "[1, 2, 3]"] .
  obtain h d' where "Read 5 d = Returned (h, d')" using Read_hash[OF d(2), of "[1, 2, 3]" 5] d(3) by (auto simp: absorbing_new)
  then show ?thesis using d(1) clone_while_reading[OF r d(1), of 5 h d'] by auto
qed

end
