(* ===== verification/TableLookup.thy ===== *)
theory TableLookup
  imports TableInv
begin

text \<open>
  The queries to the node table (\<^verbatim>\<open>p2p/discover/table.go\<close>): the closest nodes, random nodes, and the lookup, which
  asks nodes closer and closer to a target.
\<close>

section \<open>Random nodes\<close>

lemma mset_swap_list: "i < length ls \<Longrightarrow> j < length ls \<Longrightarrow> mset (ls[i := ls ! j, j := ls ! i]) = mset ls"
  using mset_swap[of i ls j] by (metis list_update_swap list_update_id)

lemma mset_shuffle: "k < length bs \<Longrightarrow> mset (shuffleBuckets rnd k bs) = mset bs"
proof (induction k arbitrary: bs)
  case (Suc k)
  let ?j = "rnd (Suc k) mod length bs"
  have "?j < length bs" using Suc.prems by (intro mod_less_divisor) linarith
  then have "mset (bs[Suc k := bs ! ?j, ?j := bs ! Suc k]) = mset bs" using Suc.prems by (intro mset_swap_list)
  then show ?case using Suc.IH[of "bs[Suc k := bs ! ?j, ?j := bs ! Suc k]"] Suc.prems by (simp add: Let_def)
qed simp

lemma mset_concat_eq: "mset xs = mset ys \<Longrightarrow> mset (concat xs) = mset (concat ys)"
  by (simp add: mset_concat flip: sum_mset_sum_list)

lemma readLoop_spec:
  assumes "j < length bs" "\<forall>b\<in>set bs. b \<noteq> []"
  shows "\<exists>out. readLoop room i j bs buf = (buf @ out, i + min (room + 1) (length (concat bs))) \<and>
    length out = min room (length (concat bs)) \<and> mset out \<subseteq># mset (concat bs)"
  using assms
proof (induction room arbitrary: i j bs buf)
  case 0
  obtain b bs' where "bs = b # bs'" "b \<noteq> []" using 0 by (cases bs) auto
  then obtain k where k: "length (concat bs) = Suc k" by (cases b) auto
  show ?case unfolding k by simp
next
  case (Suc room)
  let ?b = "bs ! j"
  define bs' where "bs' = (if length ?b = 1 then take j bs @ drop (j + 1) bs else bs[j := tl ?b])"
  have b: "?b \<noteq> []" "?b = hd ?b # tl ?b" using Suc.prems by (simp_all add: nth_mem)
  have split: "bs = take j bs @ ?b # drop (j + 1) bs" using Suc.prems(1) by (simp add: Cons_nth_drop_Suc)
  have m: "mset (concat bs) = add_mset (hd ?b) (mset (concat bs'))"
  proof (cases "length ?b = 1")
    case True
    then obtain x where "?b = [x]" using b(1) by (cases ?b) auto
    then show ?thesis using True arg_cong[OF split, of "\<lambda>bs. mset (concat bs)"] by (simp add: bs'_def)
  next
    case False
    have "bs' = take j bs @ tl ?b # drop (j + 1) bs" using False Suc.prems(1) by (simp add: bs'_def upd_conv_take_nth_drop)
    moreover obtain x xs where "?b = x # xs" using b(1) by (cases ?b) auto
    ultimately show ?thesis using arg_cong[OF split, of "\<lambda>bs. mset (concat bs)"] by simp
  qed
  then have len: "length (concat bs) = Suc (length (concat bs'))" by (metis size_add_mset size_mset)
  have tl: "tl ?b \<noteq> []" if "length ?b \<noteq> 1" using b(1) that by (cases ?b) auto
  have ne: "\<forall>b\<in>set bs'. b \<noteq> []"
  proof (cases "length ?b = 1")
    case True
    then have "set bs' \<subseteq> set bs" using set_take_subset[of j bs] set_drop_subset[of "j + 1" bs] by (simp add: bs'_def)
    then show ?thesis using Suc.prems(2) by blast
  next
    case False
    then have "set bs' \<subseteq> insert (tl ?b) (set bs)" using set_update_subset_insert[of bs j "tl ?b"] by (simp add: bs'_def)
    then show ?thesis using Suc.prems(2) tl[OF False] by (auto simp del: length_greater_0_conv)
  qed
  have step: "readLoop (Suc room) i j bs buf =
      (if bs' = [] then (buf @ [hd ?b], i + 1) else readLoop room (i + 1) ((j + 1) mod length bs') bs' (buf @ [hd ?b]))"
    by (simp only: readLoop.simps Let_def bs'_def length_0_conv)
  show ?case
  proof (cases "bs' = []")
    case True
    then have "mset (concat bs) = {#hd ?b#}" "length (concat bs) = 1" using m len by simp_all
    then show ?thesis using True unfolding step by (intro exI[of _ "[hd ?b]"]) simp
  next
    case False
    have "\<exists>out. readLoop room (i + 1) ((j + 1) mod length bs') bs' (buf @ [hd ?b]) =
        ((buf @ [hd ?b]) @ out, i + 1 + min (room + 1) (length (concat bs'))) \<and>
        length out = min room (length (concat bs')) \<and> mset out \<subseteq># mset (concat bs')"
      by (rule Suc.IH) (use False ne in auto)
    then obtain out where o: "readLoop room (i + 1) ((j + 1) mod length bs') bs' (buf @ [hd ?b]) =
        ((buf @ [hd ?b]) @ out, i + 1 + min (room + 1) (length (concat bs')))"
        "length out = min room (length (concat bs'))" "mset out \<subseteq># mset (concat bs')" by blast
    show ?thesis
    proof (intro exI[of _ "hd ?b # out"] conjI)
      show "readLoop (Suc room) i j bs buf = (buf @ hd ?b # out, i + min (Suc room + 1) (length (concat bs)))"
        using o(1) False len unfolding step by simp
    qed (use o m len in simp_all)
  qed
qed

lemma Table_len_nodes: "Table_len tab = length (tab_nodes tab)"
proof -
  have "fold (\<lambda>b n. n + length (b_entries b)) bs k = k + length (concat (map b_entries bs))" for bs k
    by (induction bs arbitrary: k) simp_all
  from this[of "tab_buckets tab" 0] show ?thesis unfolding Table_len_def by simp
qed

lemma concat_nonempty: "concat (filter (\<lambda>es. 0 < length es) xs) = concat xs"
  by (induction xs) auto

text \<open>\<^verbatim>\<open>ReadRandomNodes\<close> writes different nodes of the table, as many as there are or as fit into the buffer; but the
  number it returns is one more than the size of the buffer if not all nodes fit.\<close>

theorem random_nodes:
  assumes "tab_initDone tab"
  shows "let (buf, n) = ReadRandomNodes rnd bufsize tab in
    mset buf \<subseteq># mset (tab_nodes tab) \<and> length buf = min bufsize (Table_len tab) \<and> n = min (bufsize + 1) (Table_len tab)"
proof -
  let ?bs = "filter (\<lambda>es. 0 < length es) (map b_entries (tab_buckets tab))"
  have c: "concat ?bs = tab_nodes tab" by (rule concat_nonempty)
  show ?thesis
  proof (cases "?bs = []")
    case True
    then have "tab_nodes tab = []" using c by simp
    then have "Table_len tab = 0" by (simp only: Table_len_nodes list.size)
    then show ?thesis using True assms by (simp add: ReadRandomNodes_def)
  next
    case False
    define ss where "ss = shuffleBuckets rnd (length ?bs - 1) ?bs"
    have m: "mset ss = mset ?bs" unfolding ss_def by (rule mset_shuffle) (use False in \<open>cases ?bs; simp\<close>)
    have "mset (concat ss) = mset (tab_nodes tab)" using mset_concat_eq[OF m] c by simp
    moreover from this have "length (concat ss) = Table_len tab" unfolding Table_len_nodes by (rule mset_eq_length)
    moreover have "set ss = set ?bs" by (rule mset_eq_setD[OF m])
    then have "\<forall>b\<in>set ss. b \<noteq> []" "0 < length ss" using False by (auto simp: length_greater_0_conv simp flip: set_empty)
    moreover have "ReadRandomNodes rnd bufsize tab = readLoop bufsize 0 0 ss []"
      using assms False by (simp add: ReadRandomNodes_def ss_def Let_def)
    ultimately show ?thesis using readLoop_spec[of 0 ss bufsize 0 "[]"] by auto
  qed
qed

theorem random_nodes_witness:
  "snd (ReadRandomNodes (\<lambda>i. i) 1 (tab_run [OpInitDone, OpAdd 1 (toyNode 200 1), OpAdd 2 (toyNode 100 2)] (emptyTable (toyNode 0 0)))) = 2"
proof -
  let ?tab = "tab_run [OpInitDone, OpAdd 1 (toyNode 200 1), OpAdd 2 (toyNode 100 2)] (emptyTable (toyNode 0 0))"
  have "tab_initDone ?tab" "Table_len ?tab = 2" by code_simp+
  then show ?thesis using random_nodes[of ?tab "\<lambda>i. i" 1] by (simp add: split_beta)
qed

section \<open>Distances of buckets\<close>

text \<open>The bucket of a node exists, and the buckets are ranges of distances: bucket 0 holds the nodes at a
  distance below \<open>2 ^ 240\<close>, bucket \<open>k\<close> those from \<open>2 ^ (239 + k)\<close> on and below \<open>2 ^ (240 + k)\<close>, where
  the distance is the exclusive or of the hashes as a number.\<close>

theorem bucket_of_distance:
  assumes "wf_node (tab_self tab)" "length sha = 32"
  shows "bucketIndex tab sha < nBuckets \<and>
    (if bucketIndex tab sha = 0 then xorDist (n_sha (tab_self tab)) sha < 2 ^ 240
     else 2 ^ (239 + bucketIndex tab sha) \<le> xorDist (n_sha (tab_self tab)) sha \<and>
          xorDist (n_sha (tab_self tab)) sha < 2 ^ (240 + bucketIndex tab sha))"
proof -
  let ?D = "xorDist (n_sha (tab_self tab)) sha" and ?d = "logdist (n_sha (tab_self tab)) sha"
  have len: "length (n_sha (tab_self tab)) = length sha" using assms by simp
  have c: "bucketMinDistance = 239" by (simp add: bucketMinDistance_def nBuckets_def hashBits_def HashLength_def)
  note l = logdist_spec[OF len]
  have up: "?D < 2 ^ ?d" using l(2,3) by (cases "?D = 0") simp_all
  have "(if bucketIndex tab sha = 0 then ?D < 2 ^ 240
     else 2 ^ (239 + bucketIndex tab sha) \<le> ?D \<and> ?D < 2 ^ (240 + bucketIndex tab sha))"
  proof (cases "?d \<le> 240")
    case True
    then have "bucketIndex tab sha = 0" by (simp add: bucketIndex_def c Let_def)
    moreover have "(2 :: nat) ^ ?d \<le> 2 ^ 240" using True by (intro power_increasing) simp_all
    ultimately show ?thesis using up by (simp only: refl if_True)
  next
    case False
    then have i: "bucketIndex tab sha = ?d - 240" "bucketIndex tab sha \<noteq> 0" by (simp_all add: bucketIndex_def c Let_def)
    have "?D \<noteq> 0" using False l(2) by (metis le0)
    then have lo: "2 ^ (?d - 1) \<le> ?D" using l(3) by simp
    have "239 + bucketIndex tab sha = ?d - 1" "240 + bucketIndex tab sha = ?d" using False i(1) by linarith+
    then show ?thesis using i(2) up lo by simp
  qed
  then show ?thesis using bucketIndex_less[OF assms] by blast
qed

theorem bucket_of_distance_witness: "bucketIndex (emptyTable (toyNode 0 0)) (toyKeccak [200]) < nBuckets"
  using bucket_of_distance[of "emptyTable (toyNode 0 0)" "toyKeccak [200]"] by (simp add: emptyTable_def toyNode_def NewNode_def length_toyKeccak[rule_format])

section \<open>Lookup\<close>















section \<open>Properties of the queries\<close>

text \<open>\<^verbatim>\<open>closest\<close> returns the nodes of the table sorted by their distance to the target, as many as asked for; nodes
  at the same distance stay in the order of the table.\<close>

theorem closest_nodes:
  assumes "length target = 32" "list_all wf_node (tab_nodes tab)"
  shows "nd_entries (closest target nresults tab) = take nresults (sort_key (\<lambda>n. xorDist (n_sha n) target) (tab_nodes tab))"
  by (simp add: closest_eq[OF assms])

theorem closest_nodes_witness:
  "length (nd_entries (closest (toyKeccak [101]) 2 (tab_run [OpAdd 1 (toyNode 200 1), OpAdd 2 (toyNode 100 2), OpAdd 3 (toyNode 7 3)]
     (emptyTable (toyNode 0 0))))) = 2"
proof -
  let ?tab = "tab_run [OpAdd 1 (toyNode 200 1), OpAdd 2 (toyNode 100 2), OpAdd 3 (toyNode 7 3)] (emptyTable (toyNode 0 0))"
  have "list_all wf_node (tab_nodes ?tab)" "length (toyKeccak [101]) = 32" "length (tab_nodes ?tab) = 3" by code_simp+
  then show ?thesis using closest_nodes[of "toyKeccak [101]" ?tab 2] by (simp only: length_take length_sort)
qed



text \<open>The nodes of the table are not marked as seen, so a node that is in the table and in an answer is listed twice.\<close>

lemma lookup_lists_twice:
  "map_option (map n_ID) (lookup_nodes toyKeccak [101] True (Table_add 1 (toyNode 200 1) (emptyTable (toyNode 0 0))) (emptyTable (toyNode 0 0))
     [[Some (toyNode 200 1)]]) = Some [[200], [200]]"
  by code_simp

end
