(* ===== verification/GoHeap.thy ===== *)
theory GoHeap
  imports Prelude
begin

text \<open>
  The part of \<^verbatim>\<open>container/heap\<close> that \<^verbatim>\<open>p2p/dial.go\<close> uses.  A heap is a list, the children of place \<open>i\<close> are at \<open>2 i + 1\<close> and
  \<open>2 i + 2\<close>; \<^verbatim>\<open>Less\<close> compares keys.  The lemmas show that the operations keep the order and change the
  multiset of elements as they should.
\<close>

section \<open>Operations\<close>

definition Swap :: "nat \<Rightarrow> nat \<Rightarrow> 'a list \<Rightarrow> 'a list" where
  "Swap i j h = h[i := h ! j, j := h ! i]"

abbreviation parent :: "nat \<Rightarrow> nat" where
  "parent j \<equiv> (j - 1) div 2"

function up :: "('a \<Rightarrow> int) \<Rightarrow> nat \<Rightarrow> 'a list \<Rightarrow> 'a list" where
  "up key j h = (let i = parent j in if i = j \<or> \<not> key (h ! j) < key (h ! i) then h else up key i (Swap i j h))"
  by auto
termination by (relation "measure (\<lambda>(key, j, h). j)") auto

definition lesserChild :: "('a \<Rightarrow> int) \<Rightarrow> nat \<Rightarrow> nat \<Rightarrow> 'a list \<Rightarrow> nat" where
  "lesserChild key i n h = (let j1 = 2 * i + 1 in if j1 + 1 < n \<and> key (h ! (j1 + 1)) < key (h ! j1) then j1 + 1 else j1)"

function down :: "('a \<Rightarrow> int) \<Rightarrow> nat \<Rightarrow> nat \<Rightarrow> 'a list \<Rightarrow> 'a list \<times> nat" where
  "down key i n h =
     (if 2 * i + 1 \<ge> n then (h, i)
      else (let j = lesserChild key i n h in if \<not> key (h ! j) < key (h ! i) then (h, i) else down key j n (Swap i j h)))"
  by auto
termination by (relation "measure (\<lambda>(key, i, n, h). n - i)") (auto simp: lesserChild_def Let_def split: if_splits)

declare up.simps [simp del] down.simps [simp del]

definition heap_Push :: "('a \<Rightarrow> int) \<Rightarrow> 'a \<Rightarrow> 'a list \<Rightarrow> 'a list" where
  "heap_Push key x h = up key (length h) (h @ [x])"

definition heap_Pop :: "('a \<Rightarrow> int) \<Rightarrow> 'a list \<Rightarrow> 'a \<times> 'a list" where
  "heap_Pop key h = (let n = length h - 1; h = fst (down key 0 n (Swap 0 n h)) in (last h, butlast h))"

definition heap_Remove :: "('a \<Rightarrow> int) \<Rightarrow> nat \<Rightarrow> 'a list \<Rightarrow> 'a list" where
  "heap_Remove key i h =
     (let n = length h - 1;
          h = (if n = i then h
               else (let (h, i') = down key i n (Swap i n h) in if i' > i then h else up key i h))
      in butlast h)"

section \<open>One element out of place\<close>

definition ordered_at :: "('a \<Rightarrow> int) \<Rightarrow> 'a list \<Rightarrow> nat \<Rightarrow> bool" where
  "ordered_at key h k \<longleftrightarrow> key (h ! parent k) \<le> key (h ! k)"

definition is_heap :: "('a \<Rightarrow> int) \<Rightarrow> nat \<Rightarrow> 'a list \<Rightarrow> bool" where
  "is_heap key n h \<longleftrightarrow> (\<forall>k<n. ordered_at key h k)"

text \<open>Only the element at place \<open>i\<close> may be out of order, and its neighbours are in order without it.\<close>

definition bridged :: "('a \<Rightarrow> int) \<Rightarrow> nat \<Rightarrow> nat \<Rightarrow> 'a list \<Rightarrow> bool" where
  "bridged key i n h \<longleftrightarrow> (\<forall>k<n. k \<noteq> 0 \<and> parent k = i \<and> i \<noteq> 0 \<longrightarrow> key (h ! parent i) \<le> key (h ! k))"

definition rises :: "('a \<Rightarrow> int) \<Rightarrow> nat \<Rightarrow> nat \<Rightarrow> 'a list \<Rightarrow> bool" where
  "rises key i n h \<longleftrightarrow> (\<forall>k<n. k \<noteq> i \<longrightarrow> ordered_at key h k) \<and> bridged key i n h"

definition sinks :: "('a \<Rightarrow> int) \<Rightarrow> nat \<Rightarrow> nat \<Rightarrow> 'a list \<Rightarrow> bool" where
  "sinks key i n h \<longleftrightarrow> (\<forall>k<n. k \<noteq> i \<and> (k = 0 \<or> parent k \<noteq> i) \<longrightarrow> ordered_at key h k) \<and> bridged key i n h"

lemma parent_less: "k \<noteq> 0 \<Longrightarrow> parent k < k" and parent_bound: "k < n \<Longrightarrow> parent k < n"
  by (auto simp: div_less_iff_less_mult)

lemma Swap_nth: "i < length h \<Longrightarrow> j < length h \<Longrightarrow> k < length h \<Longrightarrow>
    Swap i j h ! k = (if k = j then h ! i else if k = i then h ! j else h ! k)"
  by (simp add: Swap_def nth_list_update)

lemma length_Swap [simp]: "length (Swap i j h) = length h"
  by (simp add: Swap_def)

lemma mset_Swap [simp]: "i < length h \<Longrightarrow> j < length h \<Longrightarrow> mset (Swap i j h) = mset h"
  by (simp add: Swap_def mset_swap)

lemma length_up [simp]: "length (up key j h) = length h"
  by (induction key j h rule: up.induct) (subst up.simps, simp add: Let_def)

lemma mset_up: "j < length h \<Longrightarrow> mset (up key j h) = mset h"
proof (induction key j h rule: up.induct)
  case (1 key j h)
  then show ?case by (subst up.simps) (simp add: Let_def)
qed

lemma up_beyond: "j < n \<Longrightarrow> n \<le> k \<Longrightarrow> k < length h \<Longrightarrow> up key j h ! k = h ! k"
proof (induction key j h rule: up.induct)
  case (1 key j h)
  then show ?case by (subst up.simps) (auto simp: Let_def Swap_nth)
qed

lemma up_heap:
  assumes "rises key j n h" "j < n" "n \<le> length h"
  shows "is_heap key n (up key j h)"
  using assms
proof (induction key j h rule: up.induct)
  case (1 key j h)
  let ?i = "parent j"
  show ?case
  proof (cases "?i = j \<or> \<not> key (h ! j) < key (h ! ?i)")
    case True
    then have "ordered_at key h j" unfolding ordered_at_def by (metis order_refl not_less)
    then show ?thesis using 1(2) True by (subst up.simps) (auto simp: Let_def is_heap_def rises_def)
  next
    case False
    then have ij: "?i < j" "j \<noteq> 0" by (auto simp: neq0_conv)
    let ?h = "Swap ?i j h"
    have nth: "?h ! k = (if k = j then h ! ?i else if k = ?i then h ! j else h ! k)" if "k < n" for k
      using that 1(3,4) ij by (intro Swap_nth) auto
    have o: "key (h ! parent k) \<le> key (h ! k)" if "k < n" "k \<noteq> j" for k using 1(2) that by (auto simp: rises_def ordered_at_def)
    have b: "key (h ! ?i) \<le> key (h ! k)" if "k < n" "k \<noteq> 0" "parent k = j" for k
      using 1(2) that ij(2) by (auto simp: rises_def bridged_def)
    have "ordered_at key ?h k" if k: "k < n" "k \<noteq> ?i" for k
    proof -
      have pk: "parent k < n" using k 1(3) by auto
      consider "k = j" | "k \<noteq> j" "parent k = j" "k \<noteq> 0" | "k \<noteq> j" "parent k = ?i" | "k \<noteq> j" "parent k \<noteq> j \<or> k = 0" "parent k \<noteq> ?i" by blast
      then show ?thesis
      proof cases
        case 1
        then show ?thesis using nth[OF k(1)] nth[OF pk] ij False by (simp add: ordered_at_def)
      next
        case 2
        then show ?thesis using nth[OF k(1)] nth[OF pk] k b[OF k(1)] by (simp add: ordered_at_def)
      next
        case 3
        then show ?thesis using nth[OF k(1)] nth[OF pk] k ij False o[OF k(1) 3(1)] by (simp add: ordered_at_def)
      next
        case 4
        then show ?thesis using nth[OF k(1)] nth[OF pk] k ij o[OF k(1) 4(1)] by (auto simp: ordered_at_def)
      qed
    qed
    moreover have "bridged key ?i n ?h"
    proof -
      have "key (?h ! parent ?i) \<le> key (?h ! k)" if k: "k < n" "k \<noteq> 0" "parent k = ?i" "?i \<noteq> 0" for k
      proof -
        have p: "parent ?i < ?i" "parent ?i < n" "?i < n" using parent_less[OF k(4)] ij 1(3) by auto
        have "key (h ! parent ?i) \<le> key (h ! ?i)" using o[of ?i] p ij by simp
        moreover have "?h ! parent ?i = h ! parent ?i" using nth[OF p(2)] p(1) ij(1) by (metis less_not_refl order_less_trans)
        moreover have "k \<noteq> ?i" using k(3) p(1) by (metis less_not_refl)
        then have "?h ! k = (if k = j then h ! ?i else h ! k)" using nth[OF k(1)] by (simp only: if_False)
        moreover have "k \<noteq> j \<Longrightarrow> key (h ! ?i) \<le> key (h ! k)" using o[of k] k(1,3) by metis
        ultimately show ?thesis by (cases "k = j") simp_all
      qed
      then show ?thesis by (simp add: bridged_def)
    qed
    ultimately have "rises key ?i n ?h" by (auto simp: rises_def)
    then show ?thesis using 1(1)[OF refl False] ij 1(3,4) False by (subst up.simps) (simp add: Let_def)
  qed
qed

lemma down_cases:
  obtains (stop) "down key i n h = (h, i)" "n \<le> 2 * i + 1 \<or> \<not> key (h ! lesserChild key i n h) < key (h ! i)"
  | (sink) j where "j = lesserChild key i n h" "down key i n h = down key j n (Swap i j h)" "j < n" "j \<noteq> 0" "parent j = i" "i < j"
      "key (h ! j) < key (h ! i)"
proof (cases "n \<le> 2 * i + 1 \<or> \<not> key (h ! lesserChild key i n h) < key (h ! i)")
  case True
  then show thesis by (intro stop) (subst down.simps, auto)
next
  case False
  then have "lesserChild key i n h < n" "lesserChild key i n h \<noteq> 0" "parent (lesserChild key i n h) = i" "i < lesserChild key i n h"
    by (auto simp: lesserChild_def Let_def)
  then show thesis using False by (intro sink[OF refl]) (subst down.simps, auto simp: Let_def)
qed

lemma lesserChild_least:
  assumes "k < n" "k \<noteq> 0" "parent k = i"
  shows "key (h ! lesserChild key i n h) \<le> key (h ! k)" "\<not> n \<le> 2 * i + 1"
proof -
  have "k = 2 * i + 1 \<or> k = 2 * i + 2" using assms(2,3) by presburger
  then show "key (h ! lesserChild key i n h) \<le> key (h ! k)" "\<not> n \<le> 2 * i + 1" using assms(1) by (auto simp: lesserChild_def Let_def)
qed

lemma down_basic:
  "i < n \<Longrightarrow> n \<le> length h \<Longrightarrow> mset (fst (down key i n h)) = mset h \<and> i \<le> snd (down key i n h) \<and> snd (down key i n h) < n \<and>
    (\<forall>k. n \<le> k \<longrightarrow> fst (down key i n h) ! k = h ! k)"
proof (induction "n - i" arbitrary: i h rule: less_induct)
  case less
  show ?case
  proof (cases rule: down_cases[of key i n h])
    case (sink j)
    have "mset (fst (down key j n (Swap i j h))) = mset h \<and> j \<le> snd (down key j n (Swap i j h)) \<and> snd (down key j n (Swap i j h)) < n \<and>
      (\<forall>k. n \<le> k \<longrightarrow> fst (down key j n (Swap i j h)) ! k = Swap i j h ! k)"
      using less(1)[of j "Swap i j h"] sink less.prems by simp
    moreover have "Swap i j h ! k = h ! k" if "n \<le> k" for k using that sink(3,6) by (simp add: Swap_def)
    ultimately show ?thesis using sink(2,6) by simp
  qed (use less.prems in simp)
qed

lemma length_down: "i < n \<Longrightarrow> n \<le> length h \<Longrightarrow> length (fst (down key i n h)) = length h"
  using down_basic[of i n h key] by (metis size_mset)

lemma sinks_stop:
  assumes "sinks key i n h" "\<And>k. k < n \<Longrightarrow> k \<noteq> 0 \<Longrightarrow> parent k = i \<Longrightarrow> key (h ! i) \<le> key (h ! k)"
  shows "rises key i n h"
  using assms by (auto simp: sinks_def rises_def ordered_at_def)

lemma sinks_step:
  assumes s: "sinks key i n h" and j: "j < n" "j \<noteq> 0" "parent j = i" and n: "n \<le> length h"
    and less: "key (h ! j) < key (h ! i)" and least: "\<And>k. k < n \<Longrightarrow> k \<noteq> 0 \<Longrightarrow> parent k = i \<Longrightarrow> key (h ! j) \<le> key (h ! k)"
  shows "sinks key j n (Swap i j h)" "ordered_at key (Swap i j h) j"
proof -
  have ij: "i < j" using j(2,3) by auto
  let ?h = "Swap i j h"
  have nth: "?h ! k = (if k = j then h ! i else if k = i then h ! j else h ! k)" if "k < n" for k
    using that j(1) ij n by (intro Swap_nth) auto
  have o: "key (h ! parent k) \<le> key (h ! k)" if "k < n" "k \<noteq> i" "k = 0 \<or> parent k \<noteq> i" for k
    using s that by (auto simp: sinks_def ordered_at_def)
  have b: "key (h ! parent i) \<le> key (h ! k)" if "k < n" "k \<noteq> 0" "parent k = i" "i \<noteq> 0" for k
    using s that by (auto simp: sinks_def bridged_def)
  show "ordered_at key ?h j" using nth[OF j(1)] nth[of i] ij j less by (simp add: ordered_at_def)
  have "ordered_at key ?h k" if k: "k < n" "k \<noteq> j" "k = 0 \<or> parent k \<noteq> j" for k
  proof -
    have pk: "parent k < n" using k(1) by auto
    consider "k = 0" | "k \<noteq> 0" "k = i" | "k \<noteq> 0" "k \<noteq> i" "parent k = i" | "k \<noteq> 0" "k \<noteq> i" "parent k \<noteq> i" by blast
    then show ?thesis
    proof cases
      case 2
      then have "parent k \<noteq> i" "parent k \<noteq> j" using ij by auto
      then show ?thesis using 2 nth[OF k(1)] nth[OF pk] b[OF j] ij k(2) by (simp add: ordered_at_def)
    next
      case 3
      then show ?thesis using nth[OF k(1)] nth[OF pk] least[OF k(1)] k ij by (simp add: ordered_at_def)
    next
      case 4
      then show ?thesis using nth[OF k(1)] nth[OF pk] o[OF k(1)] k by (simp add: ordered_at_def)
    qed (simp add: ordered_at_def)
  qed
  moreover have "bridged key j n ?h"
  proof -
    have "key (?h ! parent j) \<le> key (?h ! k)" if k: "k < n" "k \<noteq> 0" "parent k = j" for k
    proof -
      have "k \<noteq> j" "k \<noteq> i" "parent k \<noteq> i" using k ij by auto
      then show ?thesis using nth[OF k(1)] nth[of i] j o[OF k(1)] k ij by simp
    qed
    then show ?thesis by (simp add: bridged_def)
  qed
  ultimately show "sinks key j n ?h" by (simp add: sinks_def)
qed

lemma down_heap:
  assumes "sinks key i n h" "i < n" "n \<le> length h"
  shows "is_heap key n (fst (down key i n h)) \<or> (rises key i n (fst (down key i n h)) \<and> down key i n h = (h, i))"
  using assms
proof (induction "n - i" arbitrary: i h rule: less_induct)
  case less
  show ?case
  proof (cases rule: down_cases[of key i n h])
    case stop
    have "key (h ! i) \<le> key (h ! k)" if "k < n" "k \<noteq> 0" "parent k = i" for k
      using lesserChild_least(1)[OF that, of key h] lesserChild_least(2)[OF that] stop(2) by linarith
    then show ?thesis using sinks_stop[OF less.prems(1)] stop(1) by simp
  next
    case (sink j)
    note st = sinks_step[OF less.prems(1) sink(3-5) less.prems(3) sink(7) lesserChild_least(1)[of _ n i key h, folded sink(1)]]
    have "is_heap key n (Swap i j h)" if "rises key j n (Swap i j h)"
      using that st(2) unfolding rises_def is_heap_def by blast
    then show ?thesis using less(1)[OF _ st(1)] sink(2,3,6) less.prems(3) by fastforce
  qed
qed

section \<open>The operations on a heap\<close>

lemma is_heap_empty [simp]: "is_heap key 0 h"
  by (simp add: is_heap_def)

lemma heap_root: "is_heap key n h \<Longrightarrow> k < n \<Longrightarrow> key (h ! 0) \<le> key (h ! k)"
proof (induction k rule: less_induct)
  case (less k)
  show ?case
  proof (cases "k = 0")
    case False
    then have "parent k < k" by auto
    then have "key (h ! 0) \<le> key (h ! parent k)" using less by auto
    also have "\<dots> \<le> key (h ! k)" using less(2,3) by (auto simp: is_heap_def ordered_at_def)
    finally show ?thesis .
  qed simp
qed

lemma is_heap_cong: "(\<And>k. k < n \<Longrightarrow> h ! k = h' ! k) \<Longrightarrow> is_heap key n h = is_heap key n h'"
  by (simp add: is_heap_def ordered_at_def parent_bound)

lemma heap_rises:
  assumes "is_heap key n h" "i < n"
  shows "rises key i n h"
proof -
  have "key (h ! parent i) \<le> key (h ! i)" using assms by (auto simp: is_heap_def ordered_at_def)
  then have "bridged key i n h" using assms(1) unfolding bridged_def is_heap_def ordered_at_def by (metis order_trans)
  then show ?thesis using assms(1) by (simp add: is_heap_def rises_def)
qed

lemma is_heap_butlast: "is_heap key (length h - 1) (butlast h) = is_heap key (length h - 1) h"
  by (rule is_heap_cong) (simp add: nth_butlast)

lemma heap_Push_spec:
  assumes "is_heap key (length h) h"
  shows "is_heap key (length (heap_Push key x h)) (heap_Push key x h)" "mset (heap_Push key x h) = add_mset x (mset h)"
proof -
  have "is_heap key (length h) (h @ [x])" using assms is_heap_cong[of "length h" h "h @ [x]" key] by (simp add: nth_append)
  moreover have "bridged key (length h) (Suc (length h)) (h @ [x])" unfolding bridged_def
  proof (intro allI impI)
    fix k assume "k < Suc (length h)" "k \<noteq> 0 \<and> parent k = length h \<and> length h \<noteq> 0"
    then show "key ((h @ [x]) ! parent (length h)) \<le> key ((h @ [x]) ! k)" by auto
  qed
  ultimately have "rises key (length h) (Suc (length h)) (h @ [x])"
    unfolding rises_def is_heap_def by (auto simp: less_Suc_eq)
  then show "is_heap key (length (heap_Push key x h)) (heap_Push key x h)" by (simp add: heap_Push_def up_heap)
  show "mset (heap_Push key x h) = add_mset x (mset h)" by (simp add: heap_Push_def mset_up)
qed

text \<open>Place \<open>i\<close> takes the last element.\<close>

lemma Swap_sinks:
  assumes "is_heap key (length h) h" "i < length h - 1"
  shows "sinks key i (length h - 1) (Swap i (length h - 1) h)"
proof -
  let ?n = "length h - 1"
  have nth: "Swap i ?n h ! k = (if k = i then h ! ?n else h ! k)" if "k < ?n" for k
    using that assms(2) Swap_nth[of i h ?n k] by auto
  have o: "key (h ! parent k) \<le> key (h ! k)" if "k < ?n" for k using assms(1) that by (auto simp: is_heap_def ordered_at_def)
  have "ordered_at key (Swap i ?n h) k" if k: "k < ?n" "k \<noteq> i" "k = 0 \<or> parent k \<noteq> i" for k
    using nth[OF k(1)] nth[of "parent k"] o[OF k(1)] k by (auto simp: ordered_at_def)
  moreover have "key (Swap i ?n h ! parent i) \<le> key (Swap i ?n h ! k)" if k: "k < ?n" "k \<noteq> 0" "parent k = i" "i \<noteq> 0" for k
  proof -
    have p: "parent i < i" "k \<noteq> i" "parent i < ?n" using k assms(2) by auto
    then show ?thesis using nth[OF k(1)] nth[OF p(3)] o[OF k(1)] o[OF assms(2)] k by simp
  qed
  ultimately show ?thesis by (auto simp: sinks_def bridged_def)
qed

lemma mset_butlast: "h \<noteq> [] \<Longrightarrow> add_mset (last h) (mset (butlast h)) = mset h"
  by (metis append_butlast_last_id mset_append mset.simps add_mset_add_single)

lemma heap_Pop_spec:
  assumes "is_heap key (length h) h" "h \<noteq> []"
  shows "fst (heap_Pop key h) = h ! 0" "is_heap key (length (snd (heap_Pop key h))) (snd (heap_Pop key h))"
    "add_mset (h ! 0) (mset (snd (heap_Pop key h))) = mset h"
proof -
  let ?n = "length h - 1"
  let ?h = "fst (down key 0 ?n (Swap 0 ?n h))"
  have d: "length ?h = length h \<and> mset ?h = mset h \<and> ?h ! ?n = h ! 0 \<and> is_heap key ?n ?h"
  proof (cases "?n = 0")
    case True
    then show ?thesis using assms(2) by (auto simp: Swap_def down.simps length_Suc_conv)
  next
    case False
    then have n: "0 < ?n" "?n \<le> length (Swap 0 ?n h)" by auto
    have s: "Swap 0 ?n h ! ?n = h ! 0" using assms(2) by (simp add: Swap_nth)
    have "is_heap key ?n ?h"
      using down_heap[OF Swap_sinks[OF assms(1) n(1)] n(1,2)] unfolding rises_def is_heap_def ordered_at_def by fastforce
    then show ?thesis using down_basic[OF n, of key] length_down[OF n, of key] s assms(2) by simp
  qed
  have ne: "?h \<noteq> []" using d assms(2) by auto
  have l: "last ?h = h ! 0" using d ne by (simp add: last_conv_nth)
  show "fst (heap_Pop key h) = h ! 0" using l by (simp add: heap_Pop_def Let_def)
  show "is_heap key (length (snd (heap_Pop key h))) (snd (heap_Pop key h))"
    using d is_heap_butlast[of key ?h] by (simp add: heap_Pop_def Let_def)
  show "add_mset (h ! 0) (mset (snd (heap_Pop key h))) = mset h" using mset_butlast[OF ne] l d by (simp add: heap_Pop_def Let_def)
qed

lemma heap_Remove_spec:
  assumes "is_heap key (length h) h" "i < length h"
  shows "is_heap key (length (heap_Remove key i h)) (heap_Remove key i h)" "add_mset (h ! i) (mset (heap_Remove key i h)) = mset h"
proof -
  let ?n = "length h - 1"
  obtain g where g: "heap_Remove key i h = butlast g" "length g = length h" "mset g = mset h" "g ! ?n = h ! i" "is_heap key ?n g"
  proof (cases "?n = i")
    case True
    have "is_heap key ?n h" using assms(1) by (auto simp: is_heap_def)
    then show thesis using True by (intro that[of h]) (simp_all add: heap_Remove_def)
  next
    case False
    then have n: "i < ?n" "?n \<le> length (Swap i ?n h)" using assms(2) by auto
    have s: "Swap i ?n h ! ?n = h ! i" using assms(2) by (simp add: Swap_nth)
    let ?d = "down key i ?n (Swap i ?n h)"
    have b: "length (fst ?d) = length h" "mset (fst ?d) = mset h" "fst ?d ! ?n = h ! i" "i \<le> snd ?d"
      using down_basic[OF n, of key] length_down[OF n, of key] s assms(2) by auto
    have u: "length (up key i (fst ?d)) = length h" "mset (up key i (fst ?d)) = mset h" "up key i (fst ?d) ! ?n = h ! i"
      using b n assms(2) up_beyond[OF n(1), of ?n "fst ?d" key] by (simp_all add: mset_up)
    note dh = down_heap[OF Swap_sinks[OF assms(1) n(1)] n]
    show thesis
    proof (cases "i < snd ?d")
      case True
      then have "is_heap key ?n (fst ?d)" using dh by auto
      then show thesis using True b False by (intro that[of "fst ?d"]) (auto simp: heap_Remove_def Let_def case_prod_beta)
    next
      case f: False
      have "rises key i ?n (fst ?d)" using dh heap_rises[OF _ n(1)] by blast
      then have "is_heap key ?n (up key i (fst ?d))" using n b by (intro up_heap) auto
      then show thesis using f u False by (intro that[of "up key i (fst ?d)"]) (auto simp: heap_Remove_def Let_def case_prod_beta)
    qed
  qed
  have ne: "g \<noteq> []" using g(2) assms(2) by auto
  show "is_heap key (length (heap_Remove key i h)) (heap_Remove key i h)" using g is_heap_butlast[of key g] by simp
  have "last g = h ! i" using g(2,4) ne by (simp add: last_conv_nth)
  then show "add_mset (h ! i) (mset (heap_Remove key i h)) = mset h" using mset_butlast[OF ne] g by simp
qed

end
