(* ===== verification/Peer.thy ===== *)
theory Peer
  imports GraphOps Discover "HOL-Library.Product_Lexorder"
begin

text \<open>
  \<^verbatim>\<open>p2p/peer.go\<close>, \<^verbatim>\<open>p2p/protocol.go\<close> and \<^verbatim>\<open>p2p/peer_error.go\<close>: which protocols a peer runs, how message codes are shared
  between them, how messages are handled and how a connection ends.  A message is its code and its payload; what
  the select statements receive, and in which order, is an argument.
\<close>

unbundle bit_operations_syntax

section \<open>Connections and protocols\<close>

type_synonym connFlag = "64 word"

definition dynDialedConn :: connFlag where "dynDialedConn = 1"
definition staticDialedConn :: connFlag where "staticDialedConn = 2"
definition inboundConn :: connFlag where "inboundConn = 4"
definition trustedConn :: connFlag where "trustedConn = 8"

record Cap =
  cap_Name :: string
  cap_Version :: "64 word"

record conn =
  c_flags :: connFlag
  c_id :: NodeID
  c_caps :: "Cap list"
  c_name :: string

definition conn_is :: "conn \<Rightarrow> connFlag \<Rightarrow> bool" where
  "conn_is c f \<longleftrightarrow> c_flags c AND f \<noteq> 0"

definition connFlag_String :: "connFlag \<Rightarrow> string" where
  "connFlag_String f =
     (let s = (if f AND trustedConn \<noteq> 0 then ''-trusted'' else '''') @ (if f AND dynDialedConn \<noteq> 0 then ''-dyndial'' else '''') @
        (if f AND staticDialedConn \<noteq> 0 then ''-staticdial'' else '''') @ (if f AND inboundConn \<noteq> 0 then ''-inbound'' else '''')
      in if s \<noteq> '''' then drop 1 s else s)"

text \<open>The functions of a protocol (\<^verbatim>\<open>Run\<close>, \<^verbatim>\<open>NodeInfo\<close>, \<^verbatim>\<open>PeerInfo\<close>) belong to its users.\<close>

record Protocol =
  p_Name :: string
  p_Version :: "64 word"
  p_Length :: "64 word"

definition Protocol_cap :: "Protocol \<Rightarrow> Cap" where
  "Protocol_cap p = \<lparr>cap_Name = p_Name p, cap_Version = p_Version p\<rparr>"

definition baseProtocolLength :: "64 word" where "baseProtocolLength = 16"

record protoRW =
  rw_proto :: Protocol
  rw_offset :: "64 word"

record Peer =
  p_rw :: conn
  p_running :: "(string, protoRW) gomap"

definition Peer_ID :: "Peer \<Rightarrow> NodeID" where "Peer_ID p = c_id (p_rw p)"

definition Inbound :: "Peer \<Rightarrow> bool" where
  "Inbound p \<longleftrightarrow> c_flags (p_rw p) AND inboundConn \<noteq> 0"

definition matches :: "Cap \<Rightarrow> Protocol \<Rightarrow> bool" where
  "matches cap proto \<longleftrightarrow> p_Name proto = cap_Name cap \<and> p_Version proto = cap_Version cap"

definition countMatchingProtocols :: "Protocol list \<Rightarrow> Cap list \<Rightarrow> nat" where
  "countMatchingProtocols protocols caps = fold (\<lambda>cap n. fold (\<lambda>proto n. if matches cap proto then n + 1 else n) protocols n) caps 0"

definition capKey :: "Cap \<Rightarrow> string \<times> 64 word" where
  "capKey cap = (cap_Name cap, cap_Version cap)"

definition matchCap :: "Protocol list \<Rightarrow> Cap \<Rightarrow> 64 word \<times> (string, protoRW) gomap \<Rightarrow> 64 word \<times> (string, protoRW) gomap" where
  "matchCap protocols cap = (\<lambda>(offset, result).
     (case List.find (matches cap) protocols of
        None \<Rightarrow> (offset, result)
      | Some proto \<Rightarrow>
          (let offset = (case map_of result (cap_Name cap) of Some old \<Rightarrow> offset - p_Length (rw_proto old) | None \<Rightarrow> offset)
           in (offset + p_Length proto, map_put (cap_Name cap) \<lparr>rw_proto = proto, rw_offset = offset\<rparr> result))))"

definition matchProtocols :: "Protocol list \<Rightarrow> Cap list \<Rightarrow> (string, protoRW) gomap" where
  "matchProtocols protocols caps = snd (fold (matchCap protocols) (sort_key capKey caps) (baseProtocolLength, []))"

definition newPeer :: "conn \<Rightarrow> Protocol list \<Rightarrow> Peer" where
  "newPeer c protocols = \<lparr>p_rw = c\<lparr>c_caps := sort_key capKey (c_caps c)\<rparr>, p_running = matchProtocols protocols (c_caps c)\<rparr>"

definition getProto :: "(string, protoRW) iter \<Rightarrow> Peer \<Rightarrow> 64 word \<Rightarrow> protoRW option" where
  "getProto it p code =
     map_option snd (List.find (\<lambda>(_, rw). code \<ge> rw_offset rw \<and> code < rw_offset rw + p_Length (rw_proto rw)) (it (p_running p)))"

section \<open>Reasons to disconnect\<close>

type_synonym DiscReason = "64 word"

definition DiscRequested :: DiscReason where "DiscRequested = 0"
definition DiscNetworkError :: DiscReason where "DiscNetworkError = 1"
definition DiscProtocolError :: DiscReason where "DiscProtocolError = 2"
definition DiscUselessPeer :: DiscReason where "DiscUselessPeer = 3"
definition DiscTooManyPeers :: DiscReason where "DiscTooManyPeers = 4"
definition DiscAlreadyConnected :: DiscReason where "DiscAlreadyConnected = 5"
definition DiscQuitting :: DiscReason where "DiscQuitting = 8"
definition DiscUnexpectedIdentity :: DiscReason where "DiscUnexpectedIdentity = 9"
definition DiscSelf :: DiscReason where "DiscSelf = 10"
definition DiscSubprotocolError :: DiscReason where "DiscSubprotocolError = 16"

definition discReasonToString :: "string list" where
  "discReasonToString = [''disconnect requested'', ''network error'', ''breach of protocol'', ''useless peer'', ''too many peers'',
     ''already connected'', ''incompatible p2p protocol version'', ''invalid node identity'', ''client quitting'',
     ''unexpected identity'', ''connected to self'', ''read timeout'', '''', '''', '''', '''', ''subprotocol error'']"

text \<open>\<open>unknown\<close> is the formatted text.\<close>

definition DiscReason_String :: "(DiscReason \<Rightarrow> string) \<Rightarrow> DiscReason \<Rightarrow> string outcome" where
  "DiscReason_String unknown d =
     (if int (length discReasonToString) < sint d then Returned (unknown d)
      else if unat d < length discReasonToString then Returned (discReasonToString ! unat d) else Panicked)"

datatype peerErrorCode = errInvalidMsgCode | errInvalidMsg

datatype goError = ErrDisc DiscReason | ErrPeer peerErrorCode string | errProtocolReturned | ErrOther string

definition discReasonForError :: "goError \<Rightarrow> DiscReason" where
  "discReasonForError err =
     (case err of
        ErrDisc reason \<Rightarrow> reason
      | errProtocolReturned \<Rightarrow> DiscQuitting
      | ErrPeer code _ \<Rightarrow> DiscProtocolError
      | ErrOther _ \<Rightarrow> DiscSubprotocolError)"

definition goError_Error :: "(DiscReason \<Rightarrow> string) \<Rightarrow> goError \<Rightarrow> string outcome" where
  "goError_Error unknown err =
     (case err of
        ErrDisc reason \<Rightarrow> DiscReason_String unknown reason
      | errProtocolReturned \<Rightarrow> Returned ''protocol returned''
      | ErrPeer _ message \<Rightarrow> Returned message
      | ErrOther message \<Rightarrow> Returned message)"

section \<open>Messages\<close>

record Msg =
  m_Code :: "64 word"
  m_Payload :: bytes

definition discMsg :: "64 word" where "discMsg = 1"
definition pingMsg :: "64 word" where "pingMsg = 2"

datatype handled = SentPong | Discarded | Delivered protoRW Msg

text \<open>\<open>discard\<close> is the error of reading the rest of the payload, \<open>decodeReason\<close> what \<^verbatim>\<open>rlp.Decode\<close> leaves in the variable,
  \<open>closed\<close> says that the select statement takes the closing of the peer.\<close>

definition handle :: "(Msg \<Rightarrow> goError option) \<Rightarrow> (bytes \<Rightarrow> DiscReason) \<Rightarrow> bool \<Rightarrow> (string, protoRW) iter \<Rightarrow> Peer \<Rightarrow> Msg \<Rightarrow> goError + handled" where
  "handle discard decodeReason closed it p msg =
     (if m_Code msg = pingMsg then Inr SentPong
      else if m_Code msg = discMsg then Inl (ErrDisc (decodeReason (m_Payload msg)))
      else if m_Code msg < baseProtocolLength then (case discard msg of Some e \<Rightarrow> Inl e | None \<Rightarrow> Inr Discarded)
      else (case getProto it p (m_Code msg) of
              None \<Rightarrow> Inl (ErrOther ''msg code out of range'')
            | Some proto \<Rightarrow> if closed then Inl (ErrOther ''EOF'') else Inr (Delivered proto msg)))"

definition protoRW_WriteMsg :: "protoRW \<Rightarrow> Msg \<Rightarrow> goError + Msg" where
  "protoRW_WriteMsg rw msg =
     (if m_Code msg \<ge> p_Length (rw_proto rw) then Inl (ErrPeer errInvalidMsgCode ''invalid message code: not handled'')
      else Inr (msg\<lparr>m_Code := m_Code msg + rw_offset rw\<rparr>))"

definition protoRW_ReadMsg :: "protoRW \<Rightarrow> Msg \<Rightarrow> Msg" where
  "protoRW_ReadMsg rw msg = msg\<lparr>m_Code := m_Code msg - rw_offset rw\<rparr>"

text \<open>The loop that reads: the messages, or the error of reading, in the order they arrive.  It returns what was done
  with them and the error that ended it.\<close>

fun msgLoop :: "(Msg \<Rightarrow> goError + handled) \<Rightarrow> (goError + Msg) list \<Rightarrow> handled list \<times> goError option" where
  "msgLoop act [] = ([], None)"
| "msgLoop act (Inl err # input) = ([], Some err)"
| "msgLoop act (Inr msg # input) =
     (case act msg of
        Inl err \<Rightarrow> ([], Some err)
      | Inr h \<Rightarrow> (let (hs, e) = msgLoop act input in (h # hs, e)))"

text \<open>What the loop of \<^verbatim>\<open>run\<close> receives.  The result is whether the peer asked for the end, the error, and the reason that
  is sent to the peer.\<close>

datatype peerSignal = WriteDone "goError option" | ReadErr goError | ProtoErr goError | DiscSignal DiscReason

fun Peer_run :: "peerSignal list \<Rightarrow> (bool \<times> goError \<times> DiscReason) option" where
  "Peer_run [] = None"
| "Peer_run (WriteDone (Some err) # sigs) = Some (False, err, DiscNetworkError)"
| "Peer_run (WriteDone None # sigs) = Peer_run sigs"
| "Peer_run (ReadErr err # sigs) =
     Some (case err of ErrDisc r \<Rightarrow> (True, err, r) | _ \<Rightarrow> (False, err, DiscNetworkError))"
| "Peer_run (ProtoErr err # sigs) = Some (False, err, discReasonForError err)"
| "Peer_run (DiscSignal r # sigs) = Some (False, ErrDisc r, discReasonForError (ErrDisc r))"

text \<open>\<^verbatim>\<open>runPeer\<close> of \<^verbatim>\<open>server.go\<close>: the events it sends and what it tells the server loop.\<close>

datatype peerEvent = PeerAdded NodeID | PeerDropped NodeID string

record peerDrop =
  pd_peer :: Peer
  pd_err :: goError
  pd_requested :: bool

definition runPeer :: "(DiscReason \<Rightarrow> string) \<Rightarrow> Peer \<Rightarrow> peerSignal list \<Rightarrow> (peerEvent list \<times> peerDrop option) outcome" where
  "runPeer unknown p sigs =
     (case Peer_run sigs of
        None \<Rightarrow> Returned ([PeerAdded (Peer_ID p)], None)
      | Some (remoteRequested, err, _) \<Rightarrow>
          (case goError_Error unknown err of
             Returned s \<Rightarrow> Returned ([PeerAdded (Peer_ID p), PeerDropped (Peer_ID p) s],
               Some \<lparr>pd_peer = p, pd_err = err, pd_requested = remoteRequested\<rparr>)
           | Panicked \<Rightarrow> Panicked | OutOfFuel \<Rightarrow> OutOfFuel))"

section \<open>How message codes are shared\<close>

text \<open>What both sides support, the best version of a name, and the codes in the order of the names.\<close>

definition common :: "Protocol list \<Rightarrow> Cap list \<Rightarrow> (string \<times> 64 word) set" where
  "common ps caps = {capKey c | c. c \<in> set caps \<and> (\<exists>p\<in>set ps. matches c p)}"

definition best :: "(string \<times> 64 word) set \<Rightarrow> string \<Rightarrow> 64 word" where
  "best S n = Max {v. (n, v) \<in> S}"

definition protoOf :: "Protocol list \<Rightarrow> (string \<times> 64 word) set \<Rightarrow> string \<Rightarrow> Protocol" where
  "protoOf ps S n = the (List.find (matches \<lparr>cap_Name = n, cap_Version = best S n\<rparr>) ps)"

fun layout :: "(string \<Rightarrow> Protocol) \<Rightarrow> 64 word \<Rightarrow> string list \<Rightarrow> (string, protoRW) gomap" where
  "layout f off [] = []"
| "layout f off (n # ns) = (n, \<lparr>rw_proto = f n, rw_offset = off\<rparr>) # layout f (off + p_Length (f n)) ns"

definition layoutEnd :: "(string \<Rightarrow> Protocol) \<Rightarrow> 64 word \<Rightarrow> string list \<Rightarrow> 64 word" where
  "layoutEnd f off ns = off + sum_list (map (\<lambda>n. p_Length (f n)) ns)"

lemma layout_append: "layout f off (ns @ ms) = layout f off ns @ layout f (layoutEnd f off ns) ms"
  by (induction ns arbitrary: off) (simp_all add: layoutEnd_def add.assoc)

lemma layout_keys [simp]: "map fst (layout f off ns) = ns"
  by (induction ns arbitrary: off) simp_all

lemma layout_cong: "(\<And>n. n \<in> set ns \<Longrightarrow> f n = g n) \<Longrightarrow> layout f off ns = layout g off ns \<and> layoutEnd f off ns = layoutEnd g off ns"
  by (induction ns arbitrary: off) (simp_all add: layoutEnd_def cong: map_cong)

lemma put_new: "k \<notin> set (map fst m) \<Longrightarrow> map_put k v m = m @ [(k, v)]"
  and put_last: "k \<notin> set (map fst m) \<Longrightarrow> map_put k v (m @ [(k, w)]) = m @ [(k, v)]"
  by (induction m) auto

lemma common_Nil [simp]: "common ps [] = {}"
  by (simp add: common_def)

lemma finite_common [simp]: "finite (common ps caps)"
  by (simp add: common_def setcompr_eq_image)

lemma common_snoc: "common ps (caps @ [c]) = (if \<exists>p\<in>set ps. matches c p then Set.insert (capKey c) (common ps caps) else common ps caps)"
  by (auto simp: common_def)

lemma names_snoc:
  assumes "finite N" "\<And>m. m \<in> N \<Longrightarrow> m \<le> n" "n \<notin> N"
  shows "sorted_list_of_set (Set.insert n N) = sorted_list_of_set N @ [n]"
  using assms by (simp add: sorted_insort_is_snoc)

lemma matchCap_cases:
  "List.find (matches c) ps = None \<Longrightarrow> matchCap ps c x = x"
  "List.find (matches c) ps = Some p \<Longrightarrow> map_of m (cap_Name c) = None \<Longrightarrow>
    matchCap ps c (off, m) = (off + p_Length p, map_put (cap_Name c) \<lparr>rw_proto = p, rw_offset = off\<rparr> m)"
  "List.find (matches c) ps = Some p \<Longrightarrow> map_of m (cap_Name c) = Some old \<Longrightarrow>
    matchCap ps c (off + p_Length (rw_proto old), m) = (off + p_Length p, map_put (cap_Name c) \<lparr>rw_proto = p, rw_offset = off\<rparr> m)"
  by (simp_all add: matchCap_def split: prod.split)

text \<open>The loop lays the common protocols out without gaps.\<close>

lemma matchCaps_layout:
  assumes "sorted (map capKey cs)"
  shows "fold (matchCap ps) cs (off, []) =
    (let S = common ps cs; ns = sorted_list_of_set (fst ` S) in (layoutEnd (protoOf ps S) off ns, layout (protoOf ps S) off ns))"
  using assms
proof (induction cs rule: rev_induct)
  case Nil
  then show ?case by (simp add: layoutEnd_def)
next
  case (snoc c cs)
  let ?S = "common ps cs"
  let ?n = "cap_Name c"
  have IH: "fold (matchCap ps) cs (off, []) =
      (let ns = sorted_list_of_set (fst ` ?S) in (layoutEnd (protoOf ps ?S) off ns, layout (protoOf ps ?S) off ns))"
    using snoc by (simp add: sorted_append Let_def)
  show ?case
  proof (cases "List.find (matches c) ps")
    case None
    then have "common ps (cs @ [c]) = ?S" by (auto simp: common_snoc find_None_iff)
    then show ?thesis using IH None by (simp add: matchCap_cases Let_def)
  next
    case (Some p)
    let ?S' = "common ps (cs @ [c])"
    define N where "N = fst ` ?S - {?n}"
    have S': "?S' = Set.insert (?n, cap_Version c) ?S" using Some by (auto simp: common_snoc capKey_def find_Some_iff)
    have le: "x \<le> (?n, cap_Version c)" if "x \<in> ?S" for x using snoc(2) that by (auto simp: sorted_append common_def capKey_def)
    have N: "finite N" "?n \<notin> N" "\<And>m. m \<in> N \<Longrightarrow> m \<le> ?n" "fst ` ?S' = Set.insert ?n N"
      using le by (force simp: N_def S' less_eq_prod_def)+
    note ns' = names_snoc[OF N(1,3,2)]
    have f: "protoOf ps ?S' m = protoOf ps ?S m" if "m \<in> set (sorted_list_of_set N)" for m
      using that N(1) by (simp add: protoOf_def best_def S' N_def)
    have b: "best ?S' ?n = cap_Version c" unfolding best_def
    proof (rule Max_eqI)
      have "{v. (?n, v) \<in> ?S'} \<subseteq> snd ` ?S'" by force
      then show "finite {v. (?n, v) \<in> ?S'}" by (rule finite_subset) simp
      show "v \<le> cap_Version c" if "v \<in> {v. (?n, v) \<in> ?S'}" for v using that le[of "(?n, v)"] by (auto simp: S' less_eq_prod_def)
    qed (simp add: S')
    have fn: "protoOf ps ?S' ?n = p" using Some by (simp add: protoOf_def b matches_def[abs_def])
    note lay = layout_cong[of "sorted_list_of_set N" "protoOf ps ?S'" "protoOf ps ?S" off, OF f]
    have k: "?n \<notin> set (map fst (layout (protoOf ps ?S) off (sorted_list_of_set N)))" using N(1,2) by simp
    have none: "map_of (layout (protoOf ps ?S) off (sorted_list_of_set N)) ?n = None" using k unfolding map_of_eq_None_iff set_map .
    show ?thesis
    proof (cases "?n \<in> fst ` ?S")
      case True
      then have "fst ` ?S = Set.insert ?n N" by (auto simp: N_def)
      then have ns: "sorted_list_of_set (fst ` ?S) = sorted_list_of_set N @ [?n]" using ns' by simp
      let ?l = "layout (protoOf ps ?S) off (sorted_list_of_set N)" and ?e = "layoutEnd (protoOf ps ?S) off (sorted_list_of_set N)"
      let ?old = "\<lparr>rw_proto = protoOf ps ?S ?n, rw_offset = ?e\<rparr>"
      have "fold (matchCap ps) (cs @ [c]) (off, []) = matchCap ps c (?e + p_Length (rw_proto ?old), ?l @ [(?n, ?old)])"
        using IH by (simp add: ns layout_append Let_def layoutEnd_def add.assoc)
      also have "\<dots> = (?e + p_Length p, ?l @ [(?n, \<lparr>rw_proto = p, rw_offset = ?e\<rparr>)])"
        using k none by (subst matchCap_cases(3)[OF Some]) (simp_all add: map_add_def put_last)
      finally show ?thesis using lay fn by (simp add: Let_def N(4) ns' layout_append layoutEnd_def add.assoc)
    next
      case False
      then have "fst ` ?S = N" by (auto simp: N_def)
      then have "fold (matchCap ps) (cs @ [c]) (off, []) =
          matchCap ps c (layoutEnd (protoOf ps ?S) off (sorted_list_of_set N), layout (protoOf ps ?S) off (sorted_list_of_set N))"
        using IH by (simp add: Let_def)
      then show ?thesis using lay fn k
        by (simp add: matchCap_cases(2)[OF Some none] put_new Let_def N(4) ns' layout_append layoutEnd_def add.assoc)
    qed
  qed
qed

lemma set_sort_caps: "common ps (sort_key capKey caps) = common ps caps"
  by (simp add: common_def)

lemma matchProtocols_layout:
  "matchProtocols ps caps = layout (protoOf ps (common ps caps)) 16 (sorted_list_of_set (fst ` common ps caps))"
  using matchCaps_layout[of "sort_key capKey caps" ps 16] by (simp add: matchProtocols_def Let_def set_sort_caps baseProtocolLength_def)

text \<open>The order of the capabilities does not matter, nor does the choice of the sorting algorithm.\<close>

lemma sort_caps_unique: "mset ys = mset caps \<Longrightarrow> sorted (map capKey ys) \<Longrightarrow> ys = sort_key capKey caps"
proof -
  have "inj_on capKey A" for A by (auto simp: inj_on_def capKey_def)
  then show "mset ys = mset caps \<Longrightarrow> sorted (map capKey ys) \<Longrightarrow> ys = sort_key capKey caps"
    by (intro sort_key_inj_key_eq[symmetric]) auto
qed

lemma layout_bounds:
  assumes "unat off + (\<Sum>n\<leftarrow>ns. unat (p_Length (f n))) < 2 ^ 64" "(n, rw) \<in> set (layout f off ns)"
  shows "off \<le> rw_offset rw" "unat (rw_offset rw) + unat (p_Length (rw_proto rw)) \<le> unat off + (\<Sum>n\<leftarrow>ns. unat (p_Length (f n)))"
    "rw_proto rw = f n" "n \<in> set ns"
proof -
  have "off \<le> rw_offset rw \<and> unat (rw_offset rw) + unat (p_Length (rw_proto rw)) \<le> unat off + (\<Sum>n\<leftarrow>ns. unat (p_Length (f n))) \<and>
      rw_proto rw = f n \<and> n \<in> set ns"
    using assms
  proof (induction ns arbitrary: off)
    case (Cons m ns)
    have u: "unat (off + p_Length (f m)) = unat off + unat (p_Length (f m))" using Cons.prems(1) by (subst unat_plus_if_size) (simp add: size_word.rep_eq)
    show ?case
    proof (cases "(n, rw) \<in> set (layout f (off + p_Length (f m)) ns)")
      case True
      have "off + p_Length (f m) \<le> rw_offset rw \<and>
          unat (rw_offset rw) + unat (p_Length (rw_proto rw)) \<le> unat (off + p_Length (f m)) + (\<Sum>n\<leftarrow>ns. unat (p_Length (f n))) \<and>
          rw_proto rw = f n \<and> n \<in> set ns"
        using Cons.prems(1) True u by (intro Cons.IH) simp_all
      then show ?thesis using u by (auto simp: word_le_nat_alt)
    qed (use Cons.prems in auto)
  qed simp
  then show "off \<le> rw_offset rw" "unat (rw_offset rw) + unat (p_Length (rw_proto rw)) \<le> unat off + (\<Sum>n\<leftarrow>ns. unat (p_Length (f n)))"
    "rw_proto rw = f n" "n \<in> set ns" by auto
qed

definition covers :: "protoRW \<Rightarrow> 64 word \<Rightarrow> bool" where
  "covers rw code \<longleftrightarrow> code \<ge> rw_offset rw \<and> code < rw_offset rw + p_Length (rw_proto rw)"

lemma covers_unat: "unat (rw_offset rw) + unat (p_Length (rw_proto rw)) < 2 ^ 64 \<Longrightarrow>
    covers rw code \<longleftrightarrow> unat (rw_offset rw) \<le> unat code \<and> unat code < unat (rw_offset rw) + unat (p_Length (rw_proto rw))"
  by (simp add: covers_def word_le_nat_alt word_less_nat_alt unat_plus_if_size size_word.rep_eq)

lemma layout_disjoint:
  assumes "unat off + (\<Sum>n\<leftarrow>ns. unat (p_Length (f n))) < 2 ^ 64" "x \<in> set (layout f off ns)" "y \<in> set (layout f off ns)"
    "covers (snd x) code" "covers (snd y) code"
  shows "x = y"
  using assms
proof (induction ns arbitrary: off)
  case (Cons m ns)
  have u: "unat (off + p_Length (f m)) = unat off + unat (p_Length (f m))" using Cons.prems(1) by (subst unat_plus_if_size) (simp add: size_word.rep_eq)
  let ?rest = "layout f (off + p_Length (f m)) ns"
  have b: "unat (off + p_Length (f m)) + (\<Sum>n\<leftarrow>ns. unat (p_Length (f n))) < 2 ^ 64" using Cons.prems(1) u by simp
  have far: "\<not> covers (snd z) code" if "z \<in> set ?rest" "unat code < unat off + unat (p_Length (f m))" for z
  proof -
    have "off + p_Length (f m) \<le> rw_offset (snd z)" using layout_bounds(1)[OF b, of "fst z" "snd z"] that(1) by simp
    then show ?thesis using that(2) u by (auto simp: covers_def word_le_nat_alt)
  qed
  have near: "unat code < unat off + unat (p_Length (f m))" if "covers \<lparr>rw_proto = f m, rw_offset = off\<rparr> code"
    using that u by (auto simp: covers_def word_less_nat_alt)
  show ?case using Cons.prems(2-5) Cons.IH[OF b] far[of x] far[of y] near by auto
qed simp

lemma getProto_covers:
  assumes "iter_ok it" "p_running p = layout f off ns" "unat off + (\<Sum>n\<leftarrow>ns. unat (p_Length (f n))) < 2 ^ 64"
    "(n, rw) \<in> set (p_running p)" "covers rw code"
  shows "getProto it p code = Some rw"
proof -
  have s: "set (it (p_running p)) = set (layout f off ns)" using iter_set[OF assms(1)] assms(2) by simp
  obtain x where x: "List.find (\<lambda>(_, rw). covers rw code) (it (p_running p)) = Some x"
    using assms(4,5) s assms(2) by (cases "List.find (\<lambda>(_, rw). covers rw code) (it (p_running p))") (auto simp: find_None_iff)
  then have "x \<in> set (layout f off ns)" "covers (snd x) code" using s by (auto simp: find_Some_iff case_prod_beta intro: nth_mem)
  then have "x = (n, rw)" using layout_disjoint[OF assms(3), of x "(n, rw)" code] assms(2,4,5) by auto
  then show ?thesis using x unfolding getProto_def covers_def by simp
qed

lemma protoOf_in:
  assumes "n \<in> fst ` common ps caps"
  shows "protoOf ps (common ps caps) n \<in> set ps" "p_Name (protoOf ps (common ps caps) n) = n"
    "p_Version (protoOf ps (common ps caps) n) = best (common ps caps) n"
proof -
  let ?S = "common ps caps"
  have "{v. (n, v) \<in> ?S} \<subseteq> snd ` ?S" by force
  then have "finite {v. (n, v) \<in> ?S}" by (rule finite_subset) simp
  then have "best ?S n \<in> {v. (n, v) \<in> ?S}" unfolding best_def using assms by (intro Max_in) auto
  then obtain p where "p \<in> set ps" "matches \<lparr>cap_Name = n, cap_Version = best ?S n\<rparr> p" by (auto simp: common_def capKey_def matches_def)
  then obtain q where q: "List.find (matches \<lparr>cap_Name = n, cap_Version = best ?S n\<rparr>) ps = Some q"
    by (cases "List.find (matches \<lparr>cap_Name = n, cap_Version = best ?S n\<rparr>) ps") (auto simp: find_None_iff)
  then have "q \<in> set ps" "matches \<lparr>cap_Name = n, cap_Version = best ?S n\<rparr> q" by (auto simp: find_Some_iff)
  then show "protoOf ps ?S n \<in> set ps" "p_Name (protoOf ps ?S n) = n" "p_Version (protoOf ps ?S n) = best ?S n"
    using q by (simp_all add: protoOf_def matches_def)
qed

lemma sum_over_names:
  assumes "distinct ns" "\<And>n. n \<in> set ns \<Longrightarrow> f n \<in> set ps \<and> p_Name (f n) = n"
  shows "(\<Sum>n\<leftarrow>ns. unat (p_Length (f n))) \<le> (\<Sum>p\<leftarrow>ps. unat (p_Length p))"
proof -
  have i: "inj_on f (set ns)" using assms(2) by (metis inj_onI)
  have "(\<Sum>n\<leftarrow>ns. unat (p_Length (f n))) = (\<Sum>p\<in>f ` set ns. unat (p_Length p))"
    using assms(1) by (simp add: sum_list_distinct_conv_sum_set sum.reindex[OF i])
  also have "\<dots> \<le> (\<Sum>p\<in>set ps. unat (p_Length p))" using assms(2) by (intro sum_mono2) auto
  also have "\<dots> = (\<Sum>p\<leftarrow>remdups ps. unat (p_Length p))" 
    using sum_list_distinct_conv_sum_set[of "remdups ps" "\<lambda>p. unat (p_Length p)"] by simp
  also have "\<dots> \<le> (\<Sum>p\<leftarrow>ps. unat (p_Length p))" by (induction ps) auto
  finally show ?thesis .
qed

lemma cap_of: "capKey (Protocol_cap q) = (p_Name q, p_Version q)" "matches (Protocol_cap q) p \<longleftrightarrow> p_Name p = p_Name q \<and> p_Version p = p_Version q"
  by (simp_all add: capKey_def matches_def Protocol_cap_def)

lemma common_offered: "common A (map Protocol_cap B) = (\<lambda>p. (p_Name p, p_Version p)) ` set A \<inter> (\<lambda>p. (p_Name p, p_Version p)) ` set B"
proof (intro equalityI subsetI)
  fix x assume "x \<in> (\<lambda>p. (p_Name p, p_Version p)) ` set A \<inter> (\<lambda>p. (p_Name p, p_Version p)) ` set B"
  then obtain p q where "p \<in> set A" "q \<in> set B" "x = (p_Name p, p_Version p)" "x = (p_Name q, p_Version q)" by auto
  then show "x \<in> common A (map Protocol_cap B)" unfolding common_def
    by (intro CollectI exI[of _ "Protocol_cap q"] conjI bexI[of _ p]) (simp_all add: cap_of)
next
  fix x assume "x \<in> common A (map Protocol_cap B)"
  then obtain p q where "p \<in> set A" "q \<in> set B" "x = (p_Name p, p_Version p)" "x = (p_Name q, p_Version q)" by (auto simp: common_def cap_of)
  then show "x \<in> (\<lambda>p. (p_Name p, p_Version p)) ` set A \<inter> (\<lambda>p. (p_Name p, p_Version p)) ` set B" by blast
qed

lemma common_sym: "common A (map Protocol_cap B) = common B (map Protocol_cap A)"
  unfolding common_offered by (rule Int_commute)

section \<open>Properties\<close>

text \<open>C38. Two nodes that offered each other the capabilities of their protocols agree on the codes: a message that a
  protocol of one side writes is delivered by the other side to the protocol of the same name and version, and read
  there with the code it was written with.  The protocols that both support must have the same length, and the
  lengths must fit into 64 bits.\<close>

theorem codes_agree:
  assumes "\<And>p q. p \<in> set A \<Longrightarrow> q \<in> set B \<Longrightarrow> p_Name p = p_Name q \<Longrightarrow> p_Version p = p_Version q \<Longrightarrow> p_Length p = p_Length q"
    and "16 + (\<Sum>p\<leftarrow>A. unat (p_Length p)) < 2 ^ 64" and "iter_ok it"
    and "c_caps ca = map Protocol_cap B" "c_caps cb = map Protocol_cap A"
    and "map_of (p_running (newPeer ca A)) n = Some rw" "protoRW_WriteMsg rw msg = Inr wire"
  shows "\<exists>rw'. map_of (p_running (newPeer cb B)) n = Some rw' \<and> p_Name (rw_proto rw') = n \<and>
    p_Version (rw_proto rw') = p_Version (rw_proto rw) \<and>
    handle discard decodeReason False it (newPeer cb B) wire = Inr (Delivered rw' wire) \<and> protoRW_ReadMsg rw' wire = msg"
proof -
  define S where "S = common A (map Protocol_cap B)"
  define ns where "ns = sorted_list_of_set (fst ` S)"
  have S': "S = common B (map Protocol_cap A)" unfolding S_def by (rule common_sym)
  have ns: "distinct ns" "set ns = fst ` S" by (simp_all add: ns_def S_def)
  have fA: "protoOf A S m \<in> set A" "p_Name (protoOf A S m) = m" "p_Version (protoOf A S m) = best S m" if "m \<in> set ns" for m
    using protoOf_in[of m A "map Protocol_cap B"] that ns(2) by (simp_all add: S_def)
  have fB: "protoOf B S m \<in> set B" "p_Name (protoOf B S m) = m" "p_Version (protoOf B S m) = best S m" if "m \<in> set ns" for m
    using protoOf_in[of m B "map Protocol_cap A"] that ns(2) by (simp_all add: S')
  have len: "p_Length (protoOf A S m) = p_Length (protoOf B S m)" if "m \<in> set ns" for m
    using assms(1)[OF fA(1)[OF that] fB(1)[OF that]] fA[OF that] fB[OF that] by simp
  have rA: "p_running (newPeer ca A) = layout (protoOf A S) 16 ns" and rB: "p_running (newPeer cb B) = layout (protoOf B S) 16 ns"
    using assms(4,5) by (simp_all add: newPeer_def matchProtocols_layout S_def[symmetric] S'[symmetric] ns_def)
  have offs: "map_of (layout (protoOf B S) off ms) m = map_option (\<lambda>rw. rw\<lparr>rw_proto := protoOf B S m\<rparr>) (map_of (layout (protoOf A S) off ms) m)"
    if "set ms \<subseteq> set ns" for off ms m using that by (induction ms arbitrary: off) (auto simp: len)
  have sA: "unat (16 :: 64 word) + (\<Sum>n\<leftarrow>ns. unat (p_Length (protoOf A S n))) < 2 ^ 64"
    using sum_over_names[of ns "protoOf A S" A] ns(1) fA assms(2) by simp
  then have sB: "unat (16 :: 64 word) + (\<Sum>n\<leftarrow>ns. unat (p_Length (protoOf B S n))) < 2 ^ 64" by (simp add: len cong: map_cong)
  have m: "(n, rw) \<in> set (layout (protoOf A S) 16 ns)" using assms(6) rA by (simp add: map_of_SomeD)
  note bA = layout_bounds[OF sA m]
  let ?rw = "rw\<lparr>rw_proto := protoOf B S n\<rparr>"
  have rB': "map_of (p_running (newPeer cb B)) n = Some ?rw" using offs[of ns 16 n] assms(6) by (simp add: rA rB)
  have w: "wire = msg\<lparr>m_Code := m_Code msg + rw_offset rw\<rparr>" "m_Code msg < p_Length (rw_proto rw)"
    using assms(7) by (auto simp: protoRW_WriteMsg_def split: if_splits)
  have lt: "unat (m_Code msg) < unat (p_Length (rw_proto rw))" using w(2) by (simp add: word_less_nat_alt)
  have code: "unat (m_Code wire) = unat (m_Code msg) + unat (rw_offset rw)"
    using w(1) bA(2) sA lt by (simp add: unat_plus_if_size size_word.rep_eq)
  have "covers ?rw (m_Code wire)" using code lt bA(2,3,4) sA len[OF bA(4)] by (subst covers_unat) simp_all
  moreover have "(n, ?rw) \<in> set (p_running (newPeer cb B))" using rB' by (rule map_of_SomeD)
  ultimately have g: "getProto it (newPeer cb B) (m_Code wire) = Some ?rw"
    by (intro getProto_covers[OF assms(3) rB sB]) auto
  have big: "\<not> m_Code wire < baseProtocolLength" using code bA(1) by (simp add: baseProtocolLength_def word_less_nat_alt word_le_nat_alt)
  then have "m_Code wire \<noteq> pingMsg" "m_Code wire \<noteq> discMsg" by (auto simp: baseProtocolLength_def pingMsg_def discMsg_def)
  then have "handle discard decodeReason False it (newPeer cb B) wire = Inr (Delivered ?rw wire)" using g big by (simp add: handle_def)
  moreover have "protoRW_ReadMsg ?rw wire = msg" using w(1) by (simp add: protoRW_ReadMsg_def)
  ultimately show ?thesis using rB' fA[OF bA(4)] fB[OF bA(4)] bA(3) by (intro exI[of _ ?rw]) simp
qed

definition sample_protocols :: "Protocol list" where
  "sample_protocols = [\<lparr>p_Name = ''eth'', p_Version = 63, p_Length = 17\<rparr>, \<lparr>p_Name = ''eth'', p_Version = 62, p_Length = 8\<rparr>,
     \<lparr>p_Name = ''boy'', p_Version = 1, p_Length = 5\<rparr>]"

definition sample_conn :: conn where
  "sample_conn = \<lparr>c_flags = inboundConn, c_id = [], c_caps = map Protocol_cap sample_protocols, c_name = ''peer''\<rparr>"

theorem codes_agree_witness:
  "\<exists>rw'. map_of (p_running (newPeer sample_conn sample_protocols)) ''eth'' = Some rw' \<and> p_Name (rw_proto rw') = ''eth'' \<and>
    p_Version (rw_proto rw') = 63 \<and>
    handle (\<lambda>_. None) (\<lambda>_. 0) False rev (newPeer sample_conn sample_protocols) \<lparr>m_Code = 24, m_Payload = []\<rparr> =
      Inr (Delivered rw' \<lparr>m_Code = 24, m_Payload = []\<rparr>) \<and> protoRW_ReadMsg rw' \<lparr>m_Code = 24, m_Payload = []\<rparr> = \<lparr>m_Code = 3, m_Payload = []\<rparr>"
proof -
  have r: "map_of (p_running (newPeer sample_conn sample_protocols)) ''eth'' =
      Some \<lparr>rw_proto = \<lparr>p_Name = ''eth'', p_Version = 63, p_Length = 17\<rparr>, rw_offset = 21\<rparr>" by code_simp
  have w: "protoRW_WriteMsg \<lparr>rw_proto = \<lparr>p_Name = ''eth'', p_Version = 63, p_Length = 17\<rparr>, rw_offset = 21\<rparr> \<lparr>m_Code = 3, m_Payload = []\<rparr> =
      Inr \<lparr>m_Code = 24, m_Payload = []\<rparr>" by code_simp
  have l: "p_Length p = p_Length q"
    if "p \<in> set sample_protocols" "q \<in> set sample_protocols" "p_Name p = p_Name q" "p_Version p = p_Version q" for p q
    using that by (auto simp: sample_protocols_def)
  have s: "16 + (\<Sum>p\<leftarrow>sample_protocols. unat (p_Length p)) < 2 ^ 64" by (simp add: sample_protocols_def)
  have c: "c_caps sample_conn = map Protocol_cap sample_protocols" by (simp add: sample_conn_def)
  have v: "p_Version (rw_proto \<lparr>rw_proto = \<lparr>p_Name = ''eth'', p_Version = 63, p_Length = 17\<rparr>, rw_offset = 21\<rparr>) = 63" by simp
  show ?thesis using codes_agree[OF l s iter_ok_rev c c r w, of "\<lambda>_. None" "\<lambda>_. 0"] unfolding v .
qed

lemma DiscReason_String_panics: "DiscReason_String unknown d = Panicked \<longleftrightarrow> d = 17 \<or> 2 ^ 63 \<le> unat d"
proof -
  have l: "length discReasonToString = 17" by (simp add: discReasonToString_def)
  show ?thesis
  proof (cases "2 ^ 63 \<le> unat d")
    case True
    have "sint d < 0"
    proof (rule ccontr)
      assume "\<not> sint d < 0"
      then have "take_bit 64 (sint d) = sint d" using sint_lt[of d] by (intro take_bit_int_eq_self) simp_all
      then have "uint d = sint d" using uint_sint[of d] by simp
      moreover have "sint d < 2 ^ 63" using sint_lt[of d] by simp
      moreover have "int (unat d) = uint d" by simp
      moreover have "(2 :: int) ^ 63 \<le> int (unat d)" using True by (metis of_nat_le_iff of_nat_numeral of_nat_power)
      ultimately show False by linarith
    qed
    then show ?thesis using True by (simp add: DiscReason_String_def l)
  next
    case False
    then have "uint d < 2 ^ 63" by (metis not_le of_nat_less_iff of_nat_numeral of_nat_power uint_nat)
    moreover have "- (2 ^ 63) \<le> uint d" by (rule order_trans[OF _ uint_ge_0]) simp
    ultimately have "sint d = uint d" unfolding sint_uint by (intro signed_take_bit_int_eq_self) simp_all
    then have "sint d = int (unat d)" by simp
    moreover have "unat d = 17 \<longleftrightarrow> d = 17" using word_unat_eq_iff[of d 17] by simp
    moreover have "int 17 < sint d \<longleftrightarrow> 17 < unat d" using calculation(1) by (simp only: of_nat_less_iff)
    ultimately show ?thesis using False unfolding DiscReason_String_def l by (simp only: split: if_splits) (auto simp: not_less le_less)
  qed
qed

text \<open>C39. A peer can crash the node: when it sends a disconnect message whose reason is 17, or has its highest bit set, the
  goroutine of the peer panics when it formats the reason for the event, because the check before the table is
  off by one and compares signed numbers.  With every other reason it returns and reports the peer as
  dropped.\<close>

theorem disconnect_reason_crash:
  assumes "m_Code msg = discMsg"
  shows "let (hs, err) = msgLoop (handle discard decodeReason closed it p) (Inr msg # input); reason = decodeReason (m_Payload msg);
      r = runPeer unknown p [ReadErr (the err)]
    in err = Some (ErrDisc reason) \<and>
      (if reason = 17 \<or> 2 ^ 63 \<le> unat reason then r = Panicked
       else \<exists>s. r = Returned ([PeerAdded (Peer_ID p), PeerDropped (Peer_ID p) s], Some \<lparr>pd_peer = p, pd_err = ErrDisc reason, pd_requested = True\<rparr>))"
proof -
  let ?r = "decodeReason (m_Payload msg)"
  have h: "handle discard decodeReason closed it p msg = Inl (ErrDisc ?r)"
    using assms by (simp add: handle_def discMsg_def pingMsg_def)
  have "\<exists>s. DiscReason_String unknown ?r = Returned s" if "DiscReason_String unknown ?r \<noteq> Panicked"
    using that by (auto simp: DiscReason_String_def split: if_splits)
  then show ?thesis using h DiscReason_String_panics[of unknown ?r] by (auto simp: runPeer_def goError_Error_def Let_def)
qed

theorem disconnect_reason_crash_witness:
  "runPeer (\<lambda>_. ''unknown'') (newPeer sample_conn [])
    [ReadErr (the (snd (msgLoop (handle (\<lambda>_. None) (\<lambda>_. 17) False rev (newPeer sample_conn [])) [Inr \<lparr>m_Code = discMsg, m_Payload = [0xc1, 0x11]\<rparr>])))] = Panicked"
proof -
  have m: "m_Code \<lparr>m_Code = discMsg, m_Payload = [0xc1, 0x11]\<rparr> = discMsg" by simp
  show ?thesis
    using disconnect_reason_crash[OF m, of "\<lambda>_. None" "\<lambda>_. 17" False rev "newPeer sample_conn []" "[]" "\<lambda>_. ''unknown''"]
    unfolding Let_def case_prod_beta simp_thms if_True by (rule conjunct2)
qed

end
