(* ===== verification/Dial.thy ===== *)
theory Dial
  imports TableLookup GoHeap Peer
begin

text \<open>
  \<^verbatim>\<open>p2p/dial.go\<close>: the dialer of the server.  Tasks are pointers, because a static task is kept over several runs and
  tasks are compared by identity: a task is a place in the store of the state.  Times are nanoseconds since the
  zero time.  The table of nodes and the draws of its random generator are arguments.
\<close>

unbundle bit_operations_syntax

section \<open>The history of dials\<close>

record pastDial =
  past_id :: NodeID
  past_exp :: int

type_synonym dialHistory = "pastDial list"

definition hist_min :: "dialHistory \<Rightarrow> pastDial" where
  "hist_min h = h ! 0"

definition hist_add :: "NodeID \<Rightarrow> int \<Rightarrow> dialHistory \<Rightarrow> dialHistory" where
  "hist_add i e h = heap_Push past_exp \<lparr>past_id = i, past_exp = e\<rparr> h"

definition hist_remove :: "NodeID \<Rightarrow> dialHistory \<Rightarrow> bool \<times> dialHistory" where
  "hist_remove i h =
     (case List.find (\<lambda>k. past_id (h ! k) = i) [0..<length h] of
        Some k \<Rightarrow> (True, heap_Remove past_exp k h)
      | None \<Rightarrow> (False, h))"

definition hist_contains :: "NodeID \<Rightarrow> dialHistory \<Rightarrow> bool" where
  "hist_contains i h = list_ex (\<lambda>v. past_id v = i) h"

lemma length_Pop: "length (snd (heap_Pop key h)) = length h - 1"
proof -
  have "length (fst (down key i n h)) = length h" for i n and h :: "'a list"
    by (induction key i n h rule: down.induct) (subst down.simps, simp add: Let_def)
  then show ?thesis by (simp add: heap_Pop_def Let_def)
qed

function hist_expire :: "int \<Rightarrow> dialHistory \<Rightarrow> dialHistory" where
  "hist_expire now h = (if 0 < length h \<and> past_exp (hist_min h) < now then hist_expire now (snd (heap_Pop past_exp h)) else h)"
  by auto
termination by (relation "measure (\<lambda>(now, h). length h)") (simp_all add: length_Pop)

declare hist_expire.simps [simp del]

section \<open>State and tasks\<close>

definition second :: int where "second = 10 ^ 9"
definition dialHistoryExpiration :: int where "dialHistoryExpiration = 30 * second"
definition fallbackInterval :: int where "fallbackInterval = 20 * second"
definition initialResolveDelay :: int where "initialResolveDelay = 60 * second"
definition maxResolveDelay :: int where "maxResolveDelay = 3600 * second"

text \<open>\<^verbatim>\<open>Time.Sub\<close> saturates.\<close>

definition timeSub :: "int \<Rightarrow> int \<Rightarrow> int" where
  "timeSub t u = max (- (2 ^ 63)) (min (2 ^ 63 - 1) (t - u))"

record dialTask =
  t_flags :: connFlag
  t_dest :: Node
  t_lastResolved :: int
  t_resolveDelay :: int

datatype taskObj = is_Dial: DialObj (dialOf: dialTask) | is_Discover: DiscoverObj "Node list" | WaitObj int

type_synonym task = nat

record dialstate =
  ds_maxDynDials :: int
  ds_self :: "NodeID option"
  ds_netrestrict :: "Netlist option"
  ds_lookupRunning :: bool
  ds_dialing :: "(NodeID, connFlag) gomap"
  ds_lookupBuf :: "Node list"
  ds_randomNodes :: "Node option list"
  ds_static :: "(NodeID, task) gomap"
  ds_hist :: dialHistory
  ds_start :: int
  ds_bootnodes :: "Node list"
  ds_store :: "taskObj list"

definition newTask :: "taskObj \<Rightarrow> dialstate \<Rightarrow> task \<times> dialstate" where
  "newTask obj s = (length (ds_store s), s\<lparr>ds_store := ds_store s @ [obj]\<rparr>)"

definition addStatic :: "Node \<Rightarrow> dialstate \<Rightarrow> dialstate" where
  "addStatic n s =
     (let (t, s) = newTask (DialObj \<lparr>t_flags = staticDialedConn, t_dest = n, t_lastResolved = 0, t_resolveDelay = 0\<rparr>) s
      in s\<lparr>ds_static := map_put (n_ID n) t (ds_static s)\<rparr>)"

definition removeStatic :: "Node \<Rightarrow> dialstate \<Rightarrow> dialstate" where
  "removeStatic n s = s\<lparr>ds_static := map_del (n_ID n) (ds_static s), ds_hist := snd (hist_remove (n_ID n) (ds_hist s))\<rparr>"

text \<open>Division truncates; \<^verbatim>\<open>make\<close> panics if the length is negative.\<close>

definition half :: "int \<Rightarrow> int" where
  "half x = sgn x * (\<bar>x\<bar> div 2)"

definition newDialState :: "Node list \<Rightarrow> Node list \<Rightarrow> NodeID option \<Rightarrow> int \<Rightarrow> Netlist option \<Rightarrow> dialstate outcome" where
  "newDialState static bootnodes self maxdyn netrestrict =
     (if half maxdyn < 0 then Panicked
      else Returned (fold addStatic static \<lparr>ds_maxDynDials = maxdyn, ds_self = self, ds_netrestrict = netrestrict,
        ds_lookupRunning = False, ds_dialing = [], ds_lookupBuf = [], ds_randomNodes = replicate (nat (half maxdyn)) None,
        ds_static = [], ds_hist = [], ds_start = 0, ds_bootnodes = bootnodes, ds_store = []\<rparr>))"

section \<open>New tasks\<close>

datatype dialErr = errSelf | errAlreadyDialing | errAlreadyConnected | errRecentlyDialed | errNotWhitelisted

definition checkDial :: "Node \<Rightarrow> (NodeID, Peer) gomap \<Rightarrow> dialstate \<Rightarrow> dialErr option" where
  "checkDial n peers s =
     (if map_of (ds_dialing s) (n_ID n) \<noteq> None then Some errAlreadyDialing
      else if map_of peers (n_ID n) \<noteq> None then Some errAlreadyConnected
      else if ds_self s = Some (n_ID n) then Some errSelf
      else if ds_netrestrict s \<noteq> None \<and> \<not> Netlist_Contains (ds_netrestrict s) (n_IP n) then Some errNotWhitelisted
      else if hist_contains (n_ID n) (ds_hist s) then Some errRecentlyDialed
      else None)"

type_synonym progress = "int \<times> task list \<times> dialstate"

text \<open>The closure \<^verbatim>\<open>addDial\<close> together with the \<^verbatim>\<open>needDynDials--\<close> of its callers.\<close>

definition addDial :: "(NodeID, Peer) gomap \<Rightarrow> Node \<Rightarrow> progress \<Rightarrow> progress" where
  "addDial peers n = (\<lambda>(need, newtasks, s).
     (case checkDial n peers s of
        Some err \<Rightarrow> (need, newtasks, s)
      | None \<Rightarrow>
          (let s = s\<lparr>ds_dialing := map_put (n_ID n) dynDialedConn (ds_dialing s)\<rparr>;
               (t, s) = newTask (DialObj \<lparr>t_flags = dynDialedConn, t_dest = n, t_lastResolved = 0, t_resolveDelay = 0\<rparr>) s
           in (need - 1, newtasks @ [t], s))))"

definition needed :: "(NodeID, Peer) gomap \<Rightarrow> dialstate \<Rightarrow> int" where
  "needed peers s = ds_maxDynDials s - int (length (filter (\<lambda>(_, p). conn_is (p_rw p) dynDialedConn) peers)) -
     int (length (filter (\<lambda>(_, flag). flag AND dynDialedConn \<noteq> 0) (ds_dialing s)))"

text \<open>An entry that was deleted during the iteration is not visited any more.\<close>

fun staticLoop :: "(NodeID, Peer) gomap \<Rightarrow> (NodeID, task) gomap \<Rightarrow> progress \<Rightarrow> progress" where
  "staticLoop peers [] pr = pr"
| "staticLoop peers ((i, t) # entries) (need, newtasks, s) =
     (if map_of (ds_static s) i = None then staticLoop peers entries (need, newtasks, s)
      else (let dest = t_dest (dialOf (ds_store s ! t)) in
        case checkDial dest peers s of
          Some err \<Rightarrow>
            staticLoop peers entries (need, newtasks,
              if err = errNotWhitelisted \<or> err = errSelf then s\<lparr>ds_static := map_del (n_ID dest) (ds_static s)\<rparr> else s)
        | None \<Rightarrow>
            staticLoop peers entries (need, newtasks @ [t],
              s\<lparr>ds_dialing := map_put i (t_flags (dialOf (ds_store s ! t))) (ds_dialing s)\<rparr>)))"

definition dialBootnode :: "(NodeID, Peer) gomap \<Rightarrow> int \<Rightarrow> progress \<Rightarrow> progress" where
  "dialBootnode peers now = (\<lambda>(need, newtasks, s).
     (if length peers = 0 \<and> length (ds_bootnodes s) > 0 \<and> need > 0 \<and> timeSub now (ds_start s) > fallbackInterval
      then addDial peers (hd (ds_bootnodes s)) (need, newtasks, s\<lparr>ds_bootnodes := tl (ds_bootnodes s) @ [hd (ds_bootnodes s)]\<rparr>)
      else (need, newtasks, s)))"

fun randomLoop :: "(NodeID, Peer) gomap \<Rightarrow> nat list \<Rightarrow> progress \<Rightarrow> progress outcome" where
  "randomLoop peers [] pr = Returned pr"
| "randomLoop peers (i # is) (need, newtasks, s) =
     (if i < length (ds_randomNodes s)
      then (case ds_randomNodes s ! i of
              None \<Rightarrow> Panicked
            | Some n \<Rightarrow> randomLoop peers is (addDial peers n (need, newtasks, s)))
      else Panicked)"

definition dialRandom :: "Table option \<Rightarrow> (nat \<Rightarrow> nat) \<Rightarrow> (NodeID, Peer) gomap \<Rightarrow> progress \<Rightarrow> progress outcome" where
  "dialRandom ntab rnd peers = (\<lambda>(need, newtasks, s).
     (let randomCandidates = half need in
      if randomCandidates > 0
      then (case ntab of
              None \<Rightarrow> Panicked
            | Some tab \<Rightarrow>
                (let (buf, n) = ReadRandomNodes rnd (length (ds_randomNodes s)) tab;
                     s = s\<lparr>ds_randomNodes := map Some buf @ drop (length buf) (ds_randomNodes s)\<rparr>
                 in randomLoop peers [0..<min (nat randomCandidates) n] (need, newtasks, s)))
      else Returned (need, newtasks, s)))"

fun dialLookups :: "(NodeID, Peer) gomap \<Rightarrow> Node list \<Rightarrow> progress \<Rightarrow> Node list \<times> progress" where
  "dialLookups peers [] pr = ([], pr)"
| "dialLookups peers (n # buf) (need, newtasks, s) =
     (if need > 0 then dialLookups peers buf (addDial peers n (need, newtasks, s)) else (n # buf, need, newtasks, s))"

text \<open>A lookup is started if more candidates are needed, a timer if there is nothing else to do.\<close>

definition launchLookup :: "Node list \<times> progress \<Rightarrow> task list \<times> dialstate" where
  "launchLookup = (\<lambda>(buf, need, newtasks, s).
     (let s = s\<lparr>ds_lookupBuf := buf\<rparr> in
      if int (length buf) < need \<and> \<not> ds_lookupRunning s
      then (let (t, s) = newTask (DiscoverObj []) (s\<lparr>ds_lookupRunning := True\<rparr>) in (newtasks @ [t], s))
      else (newtasks, s)))"

definition launchWait :: "nat \<Rightarrow> int \<Rightarrow> task list \<times> dialstate \<Rightarrow> task list \<times> dialstate" where
  "launchWait nRunning now = (\<lambda>(newtasks, s).
     (if nRunning = 0 \<and> newtasks = [] \<and> length (ds_hist s) > 0
      then (let (t, s) = newTask (WaitObj (timeSub (past_exp (hist_min (ds_hist s))) now)) s in (newtasks @ [t], s))
      else (newtasks, s)))"

definition newTasks :: "(NodeID, task) iter \<Rightarrow> Table option \<Rightarrow> (nat \<Rightarrow> nat) \<Rightarrow> nat \<Rightarrow> (NodeID, Peer) gomap \<Rightarrow> int \<Rightarrow> dialstate \<Rightarrow>
    (task list \<times> dialstate) outcome" where
  "newTasks it ntab rnd nRunning peers now s =
     (let s = (if ds_start s = 0 then s\<lparr>ds_start := now\<rparr> else s);
          need = needed peers s;
          s = s\<lparr>ds_hist := hist_expire now (ds_hist s)\<rparr>;
          pr = staticLoop peers (it (ds_static s)) (need, [], s);
          pr = dialBootnode peers now pr
      in case dialRandom ntab rnd peers pr of
           Returned (need, newtasks, s) \<Rightarrow>
             Returned (launchWait nRunning now (launchLookup (dialLookups peers (ds_lookupBuf s) (need, newtasks, s))))
         | Panicked \<Rightarrow> Panicked | OutOfFuel \<Rightarrow> OutOfFuel)"

definition taskDone :: "task \<Rightarrow> int \<Rightarrow> dialstate \<Rightarrow> dialstate" where
  "taskDone t now s =
     (case ds_store s ! t of
        DialObj d \<Rightarrow> s\<lparr>ds_hist := hist_add (n_ID (t_dest d)) (now + dialHistoryExpiration) (ds_hist s),
          ds_dialing := map_del (n_ID (t_dest d)) (ds_dialing s)\<rparr>
      | DiscoverObj results \<Rightarrow> s\<lparr>ds_lookupRunning := False, ds_lookupBuf := ds_lookupBuf s @ results\<rparr>
      | WaitObj _ \<Rightarrow> s)"

section \<open>Running a dial task\<close>

text \<open>\<open>resolved\<close> is the answer of the table, if there is one; \<open>t1\<close> and \<open>t2\<close> are the clock before and after.\<close>

definition resolve :: "bool \<Rightarrow> (NodeID \<Rightarrow> Node option) \<Rightarrow> int \<Rightarrow> int \<Rightarrow> dialTask \<Rightarrow> bool \<times> dialTask" where
  "resolve ntab resolved t1 t2 t =
     (if \<not> ntab then (False, t)
      else (let t = (if t_resolveDelay t = 0 then t\<lparr>t_resolveDelay := initialResolveDelay\<rparr> else t) in
        if timeSub t1 (t_lastResolved t) < t_resolveDelay t then (False, t)
        else (case resolved (n_ID (t_dest t)) of
                None \<Rightarrow> (False, t\<lparr>t_lastResolved := t2, t_resolveDelay := min (t_resolveDelay t * 2) maxResolveDelay\<rparr>)
              | Some n \<Rightarrow> (True, t\<lparr>t_lastResolved := t2, t_resolveDelay := initialResolveDelay, t_dest := n\<rparr>))))"

datatype connErr = dialError | setupError

text \<open>\<open>clock\<close> is the clock at the points where it is read, \<open>dial\<close> the result of connecting; what the second attempt returns is
  ignored.\<close>

definition DialTask_Do :: "bool \<Rightarrow> (NodeID \<Rightarrow> Node option) \<Rightarrow> (nat \<Rightarrow> int) \<Rightarrow> (connFlag \<Rightarrow> Node \<Rightarrow> connErr option) \<Rightarrow> dialTask \<Rightarrow> dialTask" where
  "DialTask_Do ntab resolved clock dial t =
     (let (ok, t) = (if Incomplete (t_dest t) then resolve ntab resolved (clock 0) (clock 1) t else (True, t)) in
      if \<not> ok then t
      else (case dial (t_flags t) (t_dest t) of
              Some dialError \<Rightarrow>
                if t_flags t AND staticDialedConn \<noteq> 0 then snd (resolve ntab resolved (clock 2) (clock 3) t) else t
            | _ \<Rightarrow> t))"

section \<open>The history as a bag\<close>

text \<open>What the dialer relies on: the history is a bag of entries.\<close>

locale dial_history =
  fixes add :: "NodeID \<Rightarrow> int \<Rightarrow> 'h \<Rightarrow> 'h" and remove :: "NodeID \<Rightarrow> 'h \<Rightarrow> 'h" and expire :: "int \<Rightarrow> 'h \<Rightarrow> 'h"
    and contains :: "NodeID \<Rightarrow> 'h \<Rightarrow> bool" and ok :: "'h \<Rightarrow> bool" and bag :: "'h \<Rightarrow> pastDial multiset"
  assumes ok_add: "ok h \<Longrightarrow> ok (add i e h)" and ok_remove: "ok h \<Longrightarrow> ok (remove i h)" and ok_expire: "ok h \<Longrightarrow> ok (expire now h)"
    and bag_add: "ok h \<Longrightarrow> bag (add i e h) = add_mset \<lparr>past_id = i, past_exp = e\<rparr> (bag h)"
    and bag_remove: "ok h \<Longrightarrow> filter_mset (\<lambda>x. past_id x \<noteq> i) (bag (remove i h)) = filter_mset (\<lambda>x. past_id x \<noteq> i) (bag h)"
    and bag_expire: "ok h \<Longrightarrow> bag (expire now h) = filter_mset (\<lambda>x. now \<le> past_exp x) (bag h)"
    and contains_bag: "contains i h \<longleftrightarrow> (\<exists>x\<in>#bag h. past_id x = i)"
begin

definition remembers :: "NodeID \<Rightarrow> int \<Rightarrow> 'h \<Rightarrow> bool" where
  "remembers i e h \<longleftrightarrow> (\<exists>x\<in>#bag h. past_id x = i \<and> e \<le> past_exp x)"

lemma remembers_add: "ok h \<Longrightarrow> remembers i e (add i e h)"
  by (simp add: remembers_def bag_add)

lemma remembers_kept: "ok h \<Longrightarrow> remembers i e h \<Longrightarrow> remembers i e (add j e' h)"
  by (auto simp: remembers_def bag_add)

lemma remembers_remove:
  assumes "ok h" "remembers i e h" "j \<noteq> i"
  shows "remembers i e (remove j h)"
proof -
  obtain x where "x \<in># bag h" "past_id x = i" "e \<le> past_exp x" using assms(2) by (auto simp: remembers_def)
  then have "x \<in># filter_mset (\<lambda>x. past_id x \<noteq> j) (bag h)" using assms(3) by simp
  then have "x \<in># filter_mset (\<lambda>x. past_id x \<noteq> j) (bag (remove j h))" by (simp only: bag_remove[OF assms(1)])
  then have "x \<in># bag (remove j h)" by simp
  then show ?thesis using \<open>past_id x = i\<close> \<open>e \<le> past_exp x\<close> by (auto simp: remembers_def)
qed

lemma remembers_expire: "ok h \<Longrightarrow> remembers i e h \<Longrightarrow> now \<le> e \<Longrightarrow> remembers i e (expire now h)"
  by (force simp: remembers_def bag_expire)

lemma remembers_contains: "remembers i e h \<Longrightarrow> contains i h"
  by (auto simp: remembers_def contains_bag)

lemma expired_forgotten: "ok h \<Longrightarrow> (\<And>x. x \<in># bag h \<Longrightarrow> past_id x = i \<Longrightarrow> past_exp x < now) \<Longrightarrow> \<not> contains i (expire now h)"
  by (force simp: contains_bag bag_expire)

end

definition hist_ok :: "dialHistory \<Rightarrow> bool" where
  "hist_ok h \<longleftrightarrow> is_heap past_exp (length h) h"

lemma hist_expire_bag:
  "hist_ok h \<Longrightarrow> hist_ok (hist_expire now h) \<and> mset (hist_expire now h) = filter_mset (\<lambda>x. now \<le> past_exp x) (mset h)"
proof (induction now h rule: hist_expire.induct)
  case (1 now h)
  show ?case
  proof (cases "0 < length h \<and> past_exp (hist_min h) < now")
    case True
    have ok: "is_heap past_exp (length h) h" using 1(2) by (simp add: hist_ok_def)
    have ne: "h \<noteq> []" using True by auto
    note pop = heap_Pop_spec[OF ok ne]
    have "mset h = add_mset (hist_min h) (mset (snd (heap_Pop past_exp h)))" using pop(3) by (simp add: hist_min_def)
    then have f: "filter_mset (\<lambda>x. now \<le> past_exp x) (mset h) = filter_mset (\<lambda>x. now \<le> past_exp x) (mset (snd (heap_Pop past_exp h)))"
      using True by simp
    have e: "hist_expire now h = hist_expire now (snd (heap_Pop past_exp h))" using True by (subst hist_expire.simps) simp
    have "hist_ok (snd (heap_Pop past_exp h))" using pop(2) by (simp add: hist_ok_def)
    from 1(1)[OF True this] show ?thesis unfolding e f .
  next
    case False
    have "now \<le> past_exp x" if x: "x \<in> set h" for x
    proof -
      obtain k where k: "k < length h" "x = h ! k" using x by (auto simp: in_set_conv_nth)
      then have "past_exp (h ! 0) \<le> past_exp x" using heap_root[of past_exp "length h" h k] 1(2) by (simp add: hist_ok_def)
      then show ?thesis using False k(1) by (auto simp: hist_min_def)
    qed
    then have "filter_mset (\<lambda>x. now \<le> past_exp x) (mset h) = mset h" by (simp add: filter_mset_eq_conv)
    moreover have "hist_expire now h = h" using False by (subst hist_expire.simps) auto
    ultimately show ?thesis using 1(2) by (simp only:)
  qed
qed

lemma hist_remove_bag:
  assumes "hist_ok h"
  shows "hist_ok (snd (hist_remove i h))"
    "filter_mset (\<lambda>x. past_id x \<noteq> i) (mset (snd (hist_remove i h))) = filter_mset (\<lambda>x. past_id x \<noteq> i) (mset h)"
proof -
  have h: "is_heap past_exp (length h) h" using assms by (simp add: hist_ok_def)
  have "hist_ok (snd (hist_remove i h)) \<and>
    filter_mset (\<lambda>x. past_id x \<noteq> i) (mset (snd (hist_remove i h))) = filter_mset (\<lambda>x. past_id x \<noteq> i) (mset h)"
  proof (cases "List.find (\<lambda>k. past_id (h ! k) = i) [0..<length h]")
    case (Some k)
    then have k: "k < length h" "past_id (h ! k) = i" by (auto simp: find_Some_iff)
    note rm = heap_Remove_spec[OF h k(1)]
    have "filter_mset (\<lambda>x. past_id x \<noteq> i) (mset h) = filter_mset (\<lambda>x. past_id x \<noteq> i) (mset (heap_Remove past_exp k h))"
      using k(2) by (simp flip: rm(2))
    then show ?thesis using Some rm(1) by (simp add: hist_remove_def hist_ok_def)
  qed (simp add: hist_remove_def assms)
  then show "hist_ok (snd (hist_remove i h))"
    "filter_mset (\<lambda>x. past_id x \<noteq> i) (mset (snd (hist_remove i h))) = filter_mset (\<lambda>x. past_id x \<noteq> i) (mset h)" by simp_all
qed

interpretation hist: dial_history hist_add "\<lambda>i h. snd (hist_remove i h)" hist_expire hist_contains hist_ok mset
proof unfold_locales
  fix h i e now
  assume h: "hist_ok h"
  then have heap: "is_heap past_exp (length h) h" by (simp add: hist_ok_def)
  show "hist_ok (hist_add i e h)" "mset (hist_add i e h) = add_mset \<lparr>past_id = i, past_exp = e\<rparr> (mset h)"
    using heap_Push_spec[OF heap] by (simp_all add: hist_ok_def hist_add_def)
  show "hist_ok (snd (hist_remove i h))"
    "filter_mset (\<lambda>x. past_id x \<noteq> i) (mset (snd (hist_remove i h))) = filter_mset (\<lambda>x. past_id x \<noteq> i) (mset h)"
    by (rule hist_remove_bag[OF h])+
  show "hist_ok (hist_expire now h)" "mset (hist_expire now h) = filter_mset (\<lambda>x. now \<le> past_exp x) (mset h)"
    using hist_expire_bag[OF h] by simp_all
qed (auto simp: hist_contains_def list_ex_iff)

section \<open>The invariant of the dialer\<close>

text \<open>\<open>ts\<close> are the tasks that are running or queued.  The nodes marked as being dialed are exactly the destinations of the dial
  tasks among them, each once, and at most one of them is a lookup.\<close>

definition dialIDs :: "taskObj list \<Rightarrow> task list \<Rightarrow> NodeID list" where
  "dialIDs st ts = map (\<lambda>t. n_ID (t_dest (dialOf (st ! t)))) (filter (\<lambda>t. is_Dial (st ! t)) ts)"

definition static_ok :: "taskObj list \<Rightarrow> NodeID \<Rightarrow> task \<Rightarrow> bool" where
  "static_ok st i t \<longleftrightarrow> t < length st \<and> is_Dial (st ! t) \<and> n_ID (t_dest (dialOf (st ! t))) = i \<and> t_flags (dialOf (st ! t)) = staticDialedConn"

definition ds_ok :: "dialstate \<Rightarrow> task list \<Rightarrow> bool" where
  "ds_ok s ts \<longleftrightarrow> hist_ok (ds_hist s) \<and> distinct ts \<and> (\<forall>t\<in>set ts. t < length (ds_store s)) \<and>
     wf_map (ds_dialing s) \<and> wf_map (ds_static s) \<and> (\<forall>(i, t)\<in>set (ds_static s). static_ok (ds_store s) i t) \<and>
     mset (map fst (ds_dialing s)) = mset (dialIDs (ds_store s) ts) \<and>
     length (filter (\<lambda>t. is_Discover (ds_store s ! t)) ts) = (if ds_lookupRunning s then 1 else 0) \<and>
     0 \<le> ds_maxDynDials s \<and> length (ds_randomNodes s) = nat (half (ds_maxDynDials s))"

definition dynDialing :: "dialstate \<Rightarrow> nat" where
  "dynDialing s = length (filter (\<lambda>(_, flag). flag AND dynDialedConn \<noteq> 0) (ds_dialing s))"

definition dynPeers :: "(NodeID, Peer) gomap \<Rightarrow> nat" where
  "dynPeers peers = length (filter (\<lambda>(_, p). conn_is (p_rw p) dynDialedConn) peers)"

lemma needed_alt: "needed peers s = ds_maxDynDials s - int (dynPeers peers) - int (dynDialing s)"
  by (simp add: needed_def dynPeers_def dynDialing_def)

lemma checkDial_None: "checkDial n peers s = None \<longleftrightarrow> map_of (ds_dialing s) (n_ID n) = None \<and> map_of peers (n_ID n) = None \<and>
    ds_self s \<noteq> Some (n_ID n) \<and> (ds_netrestrict s = None \<or> Netlist_Contains (ds_netrestrict s) (n_IP n)) \<and> \<not> hist_contains (n_ID n) (ds_hist s)"
  by (simp add: checkDial_def)

lemma dialIDs_append: "dialIDs st (ts @ us) = dialIDs st ts @ dialIDs st us"
  by (simp add: dialIDs_def)

lemma dialIDs_store: "\<forall>t\<in>set ts. t < length st \<Longrightarrow> dialIDs (st @ xs) ts = dialIDs st ts"
  by (induction ts) (auto simp: dialIDs_def nth_append)

lemma static_ok_store: "static_ok st i t \<Longrightarrow> static_ok (st @ xs) i t"
  by (auto simp: static_ok_def nth_append)

lemma dialing_free:
  assumes "ds_ok s ts" "map_of (ds_dialing s) i = None"
  shows "i \<notin> set (dialIDs (ds_store s) ts)"
proof -
  have "set (dialIDs (ds_store s) ts) = fst ` set (ds_dialing s)"
    using assms(1) unfolding ds_ok_def by (metis mset_eq_setD set_map)
  then show ?thesis using assms(2) by (simp add: map_of_eq_None_iff)
qed

text \<open>A new dial task.\<close>

lemma ds_ok_new_dial:
  assumes "ds_ok s ts" "map_of (ds_dialing s) (n_ID (t_dest d)) = None"
  shows "ds_ok (s\<lparr>ds_dialing := map_put (n_ID (t_dest d)) f (ds_dialing s), ds_store := ds_store s @ [DialObj d]\<rparr>) (ts @ [length (ds_store s)])"
proof -
  have k: "n_ID (t_dest d) \<notin> set (map fst (ds_dialing s))" using assms(2) by (simp add: map_of_eq_None_iff)
  have l: "\<forall>t\<in>set ts. t < length (ds_store s)" using assms(1) by (simp add: ds_ok_def)
  have f: "filter (\<lambda>t. is_Discover ((ds_store s @ [DialObj d]) ! t)) ts = filter (\<lambda>t. is_Discover (ds_store s ! t)) ts"
    using l by (intro filter_cong) (auto simp: nth_append)
  have "dialIDs (ds_store s @ [DialObj d]) (ts @ [length (ds_store s)]) = dialIDs (ds_store s) ts @ [n_ID (t_dest d)]"
    using l by (simp add: dialIDs_append dialIDs_store) (simp add: dialIDs_def)
  then show ?thesis using assms(1) k l f unfolding ds_ok_def
    by (auto simp: put_new static_ok_store less_SucI)
qed

text \<open>A static task that is started again.\<close>

lemma ds_ok_static:
  assumes "ds_ok s ts" "map_of (ds_dialing s) i = None" "static_ok (ds_store s) i t"
  shows "ds_ok (s\<lparr>ds_dialing := map_put i f (ds_dialing s)\<rparr>) (ts @ [t])"
proof -
  have k: "i \<notin> set (map fst (ds_dialing s))" using assms(2) by (simp add: map_of_eq_None_iff)
  have t: "is_Dial (ds_store s ! t)" "\<not> is_Discover (ds_store s ! t)" "t < length (ds_store s)" "n_ID (t_dest (dialOf (ds_store s ! t))) = i"
    using assms(3) by (auto simp: static_ok_def taskObj.disc_eq_case split: taskObj.splits)
  have "i \<in> set (dialIDs (ds_store s) ts)" if "t \<in> set ts" using that t by (auto simp: dialIDs_def)
  then have "t \<notin> set ts" using dialing_free[OF assms(1,2)] by blast
  then show ?thesis using assms(1) k t unfolding ds_ok_def by (simp add: put_new dialIDs_append) (simp add: dialIDs_def)
qed

section \<open>New tasks keep the invariant\<close>

definition grows :: "dialstate \<Rightarrow> dialstate \<Rightarrow> bool" where
  "grows s0 s \<longleftrightarrow> ds_self s = ds_self s0 \<and> ds_netrestrict s = ds_netrestrict s0 \<and> ds_hist s = ds_hist s0 \<and>
     ds_maxDynDials s = ds_maxDynDials s0 \<and> fst ` set (ds_dialing s0) \<subseteq> fst ` set (ds_dialing s) \<and>
     (\<exists>xs. ds_store s = ds_store s0 @ xs) \<and> ds_lookupRunning s = ds_lookupRunning s0 \<and> ds_lookupBuf s = ds_lookupBuf s0"

lemma grows_refl: "grows s s"
  by (simp add: grows_def)

lemma grows_check: "grows s0 s \<Longrightarrow> checkDial n peers s = None \<Longrightarrow> checkDial n peers s0 = None"
  by (auto simp: grows_def checkDial_None map_of_eq_None_iff)

fun pr_ok :: "(NodeID, Peer) gomap \<Rightarrow> task list \<Rightarrow> dialstate \<Rightarrow> int \<Rightarrow> progress \<Rightarrow> bool" where
  "pr_ok peers ts s0 K (need, nt, s) \<longleftrightarrow> ds_ok s (ts @ nt) \<and> grows s0 s \<and>
     (\<forall>t\<in>set nt. is_Dial (ds_store s ! t) \<and> checkDial (t_dest (dialOf (ds_store s ! t))) peers s0 = None) \<and> need + int (dynDialing s) = K"

lemma pr_ok_addDial:
  assumes "pr_ok peers ts s0 K (need, nt, s)" "addDial peers n (need, nt, s) = (need', nt', s')"
  shows "pr_ok peers ts s0 K (need', nt', s')" "ds_randomNodes s' = ds_randomNodes s" "need - 1 \<le> need'" "need' \<le> need"
proof -
  let ?d = "\<lparr>t_flags = dynDialedConn, t_dest = n, t_lastResolved = 0, t_resolveDelay = 0\<rparr>"
  have "pr_ok peers ts s0 K (need', nt', s') \<and> ds_randomNodes s' = ds_randomNodes s \<and> need - 1 \<le> need' \<and> need' \<le> need"
  proof (cases "checkDial n peers s")
    case None
    have e: "need' = need - 1" "nt' = nt @ [length (ds_store s)]"
        "s' = s\<lparr>ds_dialing := map_put (n_ID n) dynDialedConn (ds_dialing s), ds_store := ds_store s @ [DialObj ?d]\<rparr>"
      using None assms(2) by (simp_all add: addDial_def newTask_def)
    have k: "map_of (ds_dialing s) (n_ID n) = None" using None by (simp add: checkDial_None)
    have ok: "ds_ok s' ((ts @ nt) @ [length (ds_store s)])"
      using ds_ok_new_dial[of s "ts @ nt" ?d] assms(1) k by (simp add: e(3))
    have dyn: "dynDialing s' = Suc (dynDialing s)"
      using k by (simp add: dynDialing_def e(3) put_new map_of_eq_None_iff dynDialedConn_def)
    have g: "grows s0 s'" using assms(1) by (auto simp: grows_def e(3) keys_put)
    have l: "\<forall>t\<in>set nt. t < length (ds_store s)" using assms(1) by (auto simp: ds_ok_def)
    have "\<forall>t\<in>set nt'. is_Dial (ds_store s' ! t) \<and> checkDial (t_dest (dialOf (ds_store s' ! t))) peers s0 = None"
      using assms(1) l grows_check[of s0 s n peers] None by (auto simp: e nth_append)
    then show ?thesis using ok dyn g assms(1) by (simp add: e)
  qed (use assms in \<open>simp add: addDial_def\<close>)
  then show "pr_ok peers ts s0 K (need', nt', s')" "ds_randomNodes s' = ds_randomNodes s" "need - 1 \<le> need'" "need' \<le> need" by blast+
qed

lemma ds_ok_del_static:
  assumes "ds_ok s ts"
  shows "ds_ok (s\<lparr>ds_static := map_del i (ds_static s)\<rparr>) ts"
proof -
  have "set (map_del i (ds_static s)) \<subseteq> set (ds_static s)" by (auto simp: AList.delete_eq)
  then show ?thesis using assms by (auto simp: ds_ok_def distinct_delete)
qed

lemma pr_ok_static_step:
  assumes "pr_ok peers ts s0 K (need, nt, s)" "static_ok (ds_store s) i t" "checkDial (t_dest (dialOf (ds_store s ! t))) peers s = None"
  shows "pr_ok peers ts s0 K (need, nt @ [t], s\<lparr>ds_dialing := map_put i (t_flags (dialOf (ds_store s ! t))) (ds_dialing s)\<rparr>)"
proof -
  let ?d = "dialOf (ds_store s ! t)"
  have i: "n_ID (t_dest ?d) = i" "t_flags ?d = staticDialedConn" "is_Dial (ds_store s ! t)" using assms(2) by (auto simp: static_ok_def)
  have k: "map_of (ds_dialing s) i = None" using assms(3) i(1) by (simp add: checkDial_None)
  have "ds_ok (s\<lparr>ds_dialing := map_put i (t_flags ?d) (ds_dialing s)\<rparr>) ((ts @ nt) @ [t])"
    using assms(1,2) k by (intro ds_ok_static) auto
  moreover have "grows s0 (s\<lparr>ds_dialing := map_put i (t_flags ?d) (ds_dialing s)\<rparr>)" using assms(1) by (auto simp: grows_def keys_put)
  moreover have "dynDialing (s\<lparr>ds_dialing := map_put i (t_flags ?d) (ds_dialing s)\<rparr>) = dynDialing s"
    using k by (simp add: dynDialing_def put_new map_of_eq_None_iff i(2) staticDialedConn_def dynDialedConn_def)
  ultimately show ?thesis using assms(1) grows_check[OF _ assms(3), of s0] i(3) by simp
qed

lemma pr_ok_staticLoop:
  assumes "pr_ok peers ts s0 K (need, nt, s)" "\<forall>(i, t)\<in>set entries. static_ok (ds_store s) i t"
    "staticLoop peers entries (need, nt, s) = (need', nt', s')"
  shows "pr_ok peers ts s0 K (need', nt', s') \<and> need' = need \<and> ds_randomNodes s' = ds_randomNodes s"
  using assms
proof (induction entries arbitrary: nt s)
  case (Cons e entries)
  obtain i t where e: "e = (i, t)" by (cases e)
  let ?dest = "t_dest (dialOf (ds_store s ! t))"
  have st: "static_ok (ds_store s) i t" "\<forall>(i, t)\<in>set entries. static_ok (ds_store s) i t" using Cons.prems(2) e by auto
  show ?case
  proof (cases "map_of (ds_static s) i = None")
    case True
    then show ?thesis using Cons.IH[OF Cons.prems(1) st(2)] Cons.prems(3) e by simp
  next
    case False
    show ?thesis
    proof (cases "checkDial ?dest peers s")
      case None
      show ?thesis
        using Cons.IH[OF pr_ok_static_step[OF Cons.prems(1) st(1) None]] st(2) Cons.prems(3) False None e by simp
    next
      case (Some err)
      define s1 where "s1 = (if err = errNotWhitelisted \<or> err = errSelf then s\<lparr>ds_static := map_del (n_ID ?dest) (ds_static s)\<rparr> else s)"
      have ok: "pr_ok peers ts s0 K (need, nt, s1)"
        using Cons.prems(1) by (simp add: s1_def grows_def dynDialing_def ds_ok_del_static)
      have same: "ds_store s1 = ds_store s" "ds_randomNodes s1 = ds_randomNodes s" by (simp_all add: s1_def)
      have "staticLoop peers (e # entries) (need, nt, s) = staticLoop peers entries (need, nt, s1)" using False Some e by (auto simp: s1_def)
      then have "staticLoop peers entries (need, nt, s1) = (need', nt', s')" using Cons.prems(3) by simp
      from Cons.IH[OF ok _ this] show ?thesis using st(2) same by simp
    qed
  qed
qed simp

lemma pr_ok_bootnode:
  assumes "pr_ok peers ts s0 K (need, nt, s)" "dialBootnode peers now (need, nt, s) = (need', nt', s')"
  shows "pr_ok peers ts s0 K (need', nt', s') \<and> min need 0 \<le> need' \<and> need' \<le> need \<and> ds_randomNodes s' = ds_randomNodes s"
proof (cases "length peers = 0 \<and> length (ds_bootnodes s) > 0 \<and> need > 0 \<and> timeSub now (ds_start s) > fallbackInterval")
  case True
  let ?s = "s\<lparr>ds_bootnodes := tl (ds_bootnodes s) @ [hd (ds_bootnodes s)]\<rparr>"
  have a: "addDial peers (hd (ds_bootnodes s)) (need, nt, ?s) = (need', nt', s')" using True assms(2) by (simp add: dialBootnode_def)
  have "pr_ok peers ts s0 K (need, nt, ?s)" using assms(1) by (auto simp: ds_ok_def grows_def dynDialing_def)
  from pr_ok_addDial[OF this a] show ?thesis using True by simp
next
  case False
  then show ?thesis using assms by (simp only: dialBootnode_def prod.case if_False prod.inject) simp
qed

lemma pr_ok_randomLoop:
  assumes "pr_ok peers ts s0 K (need, nt, s)" "\<forall>i\<in>set is. i < length (ds_randomNodes s) \<and> ds_randomNodes s ! i \<noteq> None"
  shows "\<exists>need' nt' s'. randomLoop peers is (need, nt, s) = Returned (need', nt', s') \<and> pr_ok peers ts s0 K (need', nt', s') \<and>
    need - int (length is) \<le> need' \<and> need' \<le> need"
  using assms
proof (induction "is" arbitrary: need nt s)
  case (Cons i "is")
  obtain n where n: "ds_randomNodes s ! i = Some n" using Cons.prems(2) by auto
  obtain need1 nt1 s1 where a: "addDial peers n (need, nt, s) = (need1, nt1, s1)" by (cases "addDial peers n (need, nt, s)")
  note ad = pr_ok_addDial[OF Cons.prems(1) a]
  obtain need' nt' s' where "randomLoop peers is (need1, nt1, s1) = Returned (need', nt', s')" "pr_ok peers ts s0 K (need', nt', s')"
      "need1 - int (length is) \<le> need'" "need' \<le> need1"
    using Cons.IH[OF ad(1)] Cons.prems(2) ad(2) by auto
  then show ?case using a n ad(3,4) Cons.prems(2) by simp
qed simp

lemma half_pos: "0 \<le> x \<Longrightarrow> half x = x div 2"
  by (cases "x = 0") (auto simp: half_def sgn_if)

lemma pr_ok_random:
  assumes "pr_ok peers ts s0 K (need, nt, s)" "ntab = None \<Longrightarrow> need \<le> 0" "need \<le> ds_maxDynDials s"
  shows "\<exists>need' nt' s'. dialRandom ntab rnd peers (need, nt, s) = Returned (need', nt', s') \<and> pr_ok peers ts s0 K (need', nt', s') \<and>
    min need 0 \<le> need' \<and> need' \<le> need"
proof (cases "half need > 0")
  case True
  have pos: "0 < need" using True by (cases "need > 0") (auto simp: half_def sgn_if split: if_splits)
  then obtain tab where tab: "ntab = Some tab" using assms(2) by fastforce
  let ?B = "length (ds_randomNodes s)"
  obtain buf n where r: "ReadRandomNodes rnd ?B tab = (buf, n)" by (cases "ReadRandomNodes rnd ?B tab")
  let ?s = "s\<lparr>ds_randomNodes := map Some buf @ drop (length buf) (ds_randomNodes s)\<rparr>"
  have B: "?B = nat (ds_maxDynDials s div 2)" "0 \<le> ds_maxDynDials s" using assms(1) half_pos[of "ds_maxDynDials s"] by (auto simp: ds_ok_def)
  have rc: "nat (half need) \<le> ?B" using half_pos[of need] pos assms(3) B by (simp add: zdiv_mono1 nat_mono)
  have n: "length buf \<le> ?B" "i < length buf" if "i < min (nat (half need)) n" for i
  proof -
    have init: "tab_initDone tab" using r that by (cases "tab_initDone tab") (auto simp: ReadRandomNodes_def)
    have "length buf = min ?B (Table_len tab)" "n = min (?B + 1) (Table_len tab)" using random_nodes[OF init, of rnd ?B] r by simp_all
    then show "length buf \<le> ?B" "i < length buf" using that rc by auto
  qed
  have lb: "length buf \<le> ?B" using n(1)[of 0] r random_nodes[of tab rnd ?B] by (cases "tab_initDone tab") (auto simp: ReadRandomNodes_def)
  have "pr_ok peers ts s0 K (need, nt, ?s)" using assms(1) lb by (auto simp: ds_ok_def grows_def dynDialing_def)
  moreover have "\<forall>i\<in>set [0..<min (nat (half need)) n]. i < length (ds_randomNodes ?s) \<and> ds_randomNodes ?s ! i \<noteq> None"
    using n(2) by (auto simp: nth_append intro: trans_less_add1)
  ultimately obtain need' nt' s' where l: "randomLoop peers [0..<min (nat (half need)) n] (need, nt, ?s) = Returned (need', nt', s')"
      "pr_ok peers ts s0 K (need', nt', s')" "need - int (length [0..<min (nat (half need)) n]) \<le> need'" "need' \<le> need"
    using pr_ok_randomLoop by blast
  have "int (length [0..<min (nat (half need)) n]) \<le> need" using half_pos[of need] pos by simp
  then show ?thesis using l True tab r by (simp add: dialRandom_def Let_def)
qed (use assms(1) in \<open>simp add: dialRandom_def Let_def\<close>)

lemma pr_ok_lookups:
  assumes "pr_ok peers ts s0 K (need, nt, s)" "dialLookups peers buf (need, nt, s) = (buf', need', nt', s')"
  shows "pr_ok peers ts s0 K (need', nt', s') \<and> min need 0 \<le> need' \<and> need' \<le> need"
  using assms
proof (induction buf arbitrary: need nt s)
  case (Cons n buf)
  show ?case
  proof (cases "need > 0")
    case True
    obtain need1 nt1 s1 where a: "addDial peers n (need, nt, s) = (need1, nt1, s1)" by (cases "addDial peers n (need, nt, s)")
    note ad = pr_ok_addDial[OF Cons.prems(1) a]
    show ?thesis using Cons.IH[OF ad(1)] Cons.prems(2) True a ad(3,4) by fastforce
  qed (use Cons.prems in simp)
qed simp

text \<open>Tasks that are no dials.\<close>

lemma ds_ok_other:
  assumes "ds_ok s ts" "\<not> is_Dial obj" "is_Discover obj \<Longrightarrow> \<not> ds_lookupRunning s"
  shows "ds_ok (s\<lparr>ds_lookupRunning := ds_lookupRunning s \<or> is_Discover obj, ds_store := ds_store s @ [obj]\<rparr>) (ts @ [length (ds_store s)])"
proof -
  have l: "\<forall>t\<in>set ts. t < length (ds_store s)" using assms(1) by (simp add: ds_ok_def)
  have f: "filter (\<lambda>t. is_Discover ((ds_store s @ [obj]) ! t)) ts = filter (\<lambda>t. is_Discover (ds_store s ! t)) ts"
    using l by (intro filter_cong) (auto simp: nth_append)
  have "dialIDs (ds_store s @ [obj]) (ts @ [length (ds_store s)]) = dialIDs (ds_store s) ts"
    using l assms(2) by (simp add: dialIDs_append dialIDs_store) (simp add: dialIDs_def)
  then show ?thesis using assms l f unfolding ds_ok_def by (auto simp: static_ok_store less_SucI)
qed

text \<open>The dial tasks among the new ones are for nodes that passed the checks.\<close>

definition dials_ok :: "(NodeID, Peer) gomap \<Rightarrow> dialstate \<Rightarrow> task list \<times> dialstate \<Rightarrow> bool" where
  "dials_ok peers s0 = (\<lambda>(nt, s).
     \<forall>t\<in>set nt. is_Dial (ds_store s ! t) \<longrightarrow> checkDial (t_dest (dialOf (ds_store s ! t))) peers s0 = None)"

lemma dials_ok_other:
  assumes "dials_ok peers s0 (nt, s)" "\<forall>t\<in>set nt. t < length (ds_store s)" "\<not> is_Dial obj" "ds_store s' = ds_store s @ [obj]"
  shows "dials_ok peers s0 (nt @ [length (ds_store s)], s')"
  using assms by (auto simp: dials_ok_def nth_append)

lemma launchLookup_ok:
  assumes "ds_ok s (ts @ nt)" "dials_ok peers s0 (nt, s)" "launchLookup (buf, need, nt, s) = (nt', s')"
  shows "ds_ok s' (ts @ nt') \<and> dials_ok peers s0 (nt', s') \<and> dynDialing s' = dynDialing s \<and> ds_hist s' = ds_hist s \<and>
    ds_self s' = ds_self s \<and> ds_maxDynDials s' = ds_maxDynDials s \<and> (\<exists>xs. ds_store s' = ds_store s @ xs)"
proof -
  let ?s = "s\<lparr>ds_lookupBuf := buf\<rparr>"
  have ok: "ds_ok ?s (ts @ nt)" using assms(1) by (simp add: ds_ok_def)
  have d: "dials_ok peers s0 (nt, ?s)" using assms(2) by (simp add: dials_ok_def)
  have l: "\<forall>t\<in>set nt. t < length (ds_store ?s)" using ok by (auto simp: ds_ok_def)
  show ?thesis
  proof (cases "int (length buf) < need \<and> \<not> ds_lookupRunning ?s")
    case True
    then have e: "nt' = nt @ [length (ds_store ?s)]" "s' = ?s\<lparr>ds_lookupRunning := True, ds_store := ds_store ?s @ [DiscoverObj []]\<rparr>"
      using assms(3) by (auto simp: launchLookup_def newTask_def)
    have "ds_ok s' (ts @ nt')" using ds_ok_other[OF ok, of "DiscoverObj []"] True by (simp add: e)
    moreover have "dials_ok peers s0 (nt', s')" unfolding e(1) by (rule dials_ok_other[OF d l, of "DiscoverObj []"]) (simp_all add: e(2))
    ultimately show ?thesis by (simp add: e(2) dynDialing_def)
  next
    case False
    then have "nt' = nt" "s' = ?s" using assms(3) by (auto simp: launchLookup_def)
    then show ?thesis using ok d by (simp add: dynDialing_def)
  qed
qed

lemma launchWait_ok:
  assumes "ds_ok s (ts @ nt)" "dials_ok peers s0 (nt, s)" "launchWait nRunning now (nt, s) = (nt', s')"
  shows "ds_ok s' (ts @ nt') \<and> dials_ok peers s0 (nt', s') \<and> dynDialing s' = dynDialing s \<and> ds_hist s' = ds_hist s \<and>
    ds_self s' = ds_self s \<and> ds_maxDynDials s' = ds_maxDynDials s \<and> (\<exists>xs. ds_store s' = ds_store s @ xs)"
proof (cases "nRunning = 0 \<and> nt = [] \<and> length (ds_hist s) > 0")
  case True
  let ?obj = "WaitObj (timeSub (past_exp (hist_min (ds_hist s))) now)"
  have e: "nt' = nt @ [length (ds_store s)]" "s' = s\<lparr>ds_lookupRunning := ds_lookupRunning s \<or> is_Discover ?obj, ds_store := ds_store s @ [?obj]\<rparr>"
    using True assms(3) by (auto simp: launchWait_def newTask_def)
  have l: "\<forall>t\<in>set nt. t < length (ds_store s)" using True by simp
  have "ds_ok s' (ts @ nt')" using ds_ok_other[OF assms(1), of ?obj] by (simp add: e)
  moreover have "dials_ok peers s0 (nt', s')" unfolding e(1) by (rule dials_ok_other[OF assms(2) l, of ?obj]) (simp_all add: e(2))
  ultimately show ?thesis by (simp add: e(2) dynDialing_def)
next
  case False
  then have "nt' = nt" "s' = s" using assms(3) by (auto simp: launchWait_def)
  then show ?thesis using assms(1,2) by simp
qed

text \<open>The part of \<^verbatim>\<open>newTasks\<close> that dials.\<close>

lemma dials_progress:
  assumes "pr_ok peers ts s0 K (need, [], s0)" "iter_ok it" "ntab = None \<Longrightarrow> need \<le> 0" "need \<le> ds_maxDynDials s0"
  obtains need1 nt1 s1 where "dialRandom ntab rnd peers (dialBootnode peers now (staticLoop peers (it (ds_static s0)) (need, [], s0))) = Returned (need1, nt1, s1)"
    "pr_ok peers ts s0 K (need1, nt1, s1)" "min need 0 \<le> need1"
proof -
  have st: "\<forall>(i, t)\<in>set (it (ds_static s0)). static_ok (ds_store s0) i t" using assms(1) iter_set[OF assms(2)] by (simp add: ds_ok_def)
  obtain n3 t3 s3 where sl: "staticLoop peers (it (ds_static s0)) (need, [], s0) = (n3, t3, s3)"
    by (cases "staticLoop peers (it (ds_static s0)) (need, [], s0)")
  note p3 = pr_ok_staticLoop[OF assms(1) st sl]
  obtain n4 t4 s4 where bl: "dialBootnode peers now (n3, t3, s3) = (n4, t4, s4)" by (cases "dialBootnode peers now (n3, t3, s3)")
  have p4: "pr_ok peers ts s0 K (n4, t4, s4)" "min need 0 \<le> n4" "n4 \<le> need" using pr_ok_bootnode[OF _ bl] p3 by auto
  have g4: "ds_maxDynDials s4 = ds_maxDynDials s0" using p4(1) by (simp add: grows_def)
  obtain n5 t5 s5 where "dialRandom ntab rnd peers (n4, t4, s4) = Returned (n5, t5, s5)" "pr_ok peers ts s0 K (n5, t5, s5)" "min n4 0 \<le> n5"
    using pr_ok_random[OF p4(1), of ntab rnd] assms(3,4) g4 p4(3) by fastforce
  then show thesis using that[of n5 t5 s5] p4(2) sl bl by simp
qed

definition expired :: "int \<Rightarrow> dialstate \<Rightarrow> dialstate" where
  "expired now s = s\<lparr>ds_hist := hist_expire now (ds_hist s)\<rparr>"

lemma newTasks_ok:
  assumes "ds_ok s ts" "iter_ok it" "ntab = None \<Longrightarrow> ds_maxDynDials s = 0"
  obtains nt s' where "newTasks it ntab rnd nRunning peers now s = Returned (nt, s')" "ds_ok s' (ts @ nt)"
    "dials_ok peers (expired now s) (nt, s')"
    "int (dynPeers peers + dynDialing s') \<le> max (int (dynPeers peers + dynDialing s)) (ds_maxDynDials s)"
    "ds_hist s' = hist_expire now (ds_hist s)" "ds_self s' = ds_self s" "ds_maxDynDials s' = ds_maxDynDials s"
    "\<exists>xs. ds_store s' = ds_store s @ xs"
proof -
  define s1 where "s1 = (if ds_start s = 0 then s\<lparr>ds_start := now\<rparr> else s)"
  define s2 where "s2 = s1\<lparr>ds_hist := hist_expire now (ds_hist s1)\<rparr>"
  let ?need = "needed peers s1"
  have s2: "ds_hist s2 = hist_expire now (ds_hist s)" "ds_dialing s2 = ds_dialing s" "ds_maxDynDials s2 = ds_maxDynDials s" "ds_self s2 = ds_self s"
    "?need = ds_maxDynDials s - int (dynPeers peers) - int (dynDialing s)" "dynDialing s2 = dynDialing s"
    "ds_static s2 = ds_static s1"
    by (simp_all add: s2_def s1_def needed_alt dynDialing_def)
  have "ds_ok s2 ts" using assms(1) hist.ok_expire[of "ds_hist s" now] by (simp add: s2_def s1_def ds_ok_def)
  then have pr: "pr_ok peers ts s2 (?need + int (dynDialing s2)) (?need, [], s2)" by (simp add: grows_refl)
  have bound: "?need \<le> ds_maxDynDials s2" "ntab = None \<Longrightarrow> ?need \<le> 0" using s2(3,5) assms(3) by simp_all
  obtain n5 t5 s5 where dl: "dialRandom ntab rnd peers (dialBootnode peers now (staticLoop peers (it (ds_static s2)) (?need, [], s2))) = Returned (n5, t5, s5)"
      "pr_ok peers ts s2 (?need + int (dynDialing s2)) (n5, t5, s5)" "min ?need 0 \<le> n5"
    using dials_progress[OF pr assms(2) bound(2,1), where rnd = rnd and now = now] .
  obtain b6 n6 t6 s6 where ll: "dialLookups peers (ds_lookupBuf s5) (n5, t5, s5) = (b6, n6, t6, s6)"
    by (cases "dialLookups peers (ds_lookupBuf s5) (n5, t5, s5)") auto
  have p6: "pr_ok peers ts s2 (?need + int (dynDialing s2)) (n6, t6, s6)" "min ?need 0 \<le> n6" using pr_ok_lookups[OF dl(2) ll] dl(3) by auto
  obtain t7 s7 where l7: "launchLookup (b6, n6, t6, s6) = (t7, s7)" by (cases "launchLookup (b6, n6, t6, s6)")
  obtain t8 s8 where l8: "launchWait nRunning now (t7, s7) = (t8, s8)" by (cases "launchWait nRunning now (t7, s7)")
  have d6: "dials_ok peers s2 (t6, s6)" "ds_ok s6 (ts @ t6)" using p6(1) by (auto simp: dials_ok_def)
  note o7 = launchLookup_ok[OF d6(2,1) l7]
  note o8 = launchWait_ok[OF o7[THEN conjunct1] o7[THEN conjunct2, THEN conjunct1] l8]
  have "newTasks it ntab rnd nRunning peers now s = Returned (t8, s8)"
    using dl(1) ll l7 l8 s2(7) by (simp add: newTasks_def s1_def[symmetric] s2_def[symmetric] Let_def)
  moreover have "dials_ok peers (expired now s) (t8, s8)"
  proof -
    have "checkDial n peers s2 = checkDial n peers (expired now s)" for n by (simp add: checkDial_def expired_def s2_def s1_def)
    then show ?thesis using o8 by (simp add: dials_ok_def)
  qed
  moreover have "int (dynPeers peers + dynDialing s8) \<le> max (int (dynPeers peers + dynDialing s)) (ds_maxDynDials s)"
    using o7 o8 p6 s2(5,6) by (auto simp: max_def min_def split: if_splits)
  moreover have "\<exists>xs. ds_store s8 = ds_store s @ xs"
  proof -
    obtain xs where "ds_store s6 = ds_store s @ xs" using p6(1) by (auto simp: grows_def s2_def s1_def)
    then show ?thesis using o7 o8 by (metis append_assoc)
  qed
  ultimately show thesis using that[of t8 s8] o7 o8 p6(1) s2 by (simp add: grows_def)
qed

section \<open>The other operations keep the invariant\<close>

lemma mset_del_key: "wf_map m \<Longrightarrow> mset (map fst (map_del i m)) = mset (map fst m) - {#i#}"
proof (induction m)
  case (Cons x m)
  show ?case
  proof (cases "fst x = i")
    case True
    then have "i \<notin> fst ` set m" using Cons.prems by auto
    then have "map_del i m = m" by (force simp: AList.delete_eq intro: filter_True)
    then show ?thesis using True by (cases x) simp
  qed (use Cons in \<open>cases x; simp\<close>)
qed simp

lemma dialIDs_remove1:
  assumes "t \<in> set ts"
  shows "mset (dialIDs st (remove1 t ts)) = (if is_Dial (st ! t) then mset (dialIDs st ts) - {#n_ID (t_dest (dialOf (st ! t)))#} else mset (dialIDs st ts))"
  using assms by (induction ts) (auto simp: dialIDs_def)

lemma taskDone_ok:
  assumes "ds_ok s ts" "t \<in> set ts"
  shows "ds_ok (taskDone t now s) (remove1 t ts)"
proof (cases "ds_store s ! t")
  case (DialObj d)
  let ?i = "n_ID (t_dest d)"
  have "mset (map fst (map_del ?i (ds_dialing s))) = mset (dialIDs (ds_store s) (remove1 t ts))"
    using assms DialObj mset_del_key[of "ds_dialing s" ?i] dialIDs_remove1[OF assms(2), of "ds_store s"] by (simp add: ds_ok_def)
  moreover have "filter (\<lambda>t. is_Discover (ds_store s ! t)) (remove1 t ts) = filter (\<lambda>t. is_Discover (ds_store s ! t)) ts"
    using DialObj by (simp add: filter_remove1 remove1_idem)
  ultimately show ?thesis using assms(1) hist.ok_add[of "ds_hist s"] DialObj
    by (auto simp: taskDone_def ds_ok_def distinct_delete dest: notin_set_remove1[rotated])
next
  case (DiscoverObj r)
  have "length (filter (\<lambda>t. is_Discover (ds_store s ! t)) (remove1 t ts)) = 0"
    using assms DiscoverObj by (simp add: filter_remove1 length_remove1 ds_ok_def split: if_splits)
  then show ?thesis using assms dialIDs_remove1[OF assms(2), of "ds_store s"] DiscoverObj
    by (auto simp: taskDone_def ds_ok_def dest: notin_set_remove1[rotated])
next
  case (WaitObj w)
  have "filter (\<lambda>t. is_Discover (ds_store s ! t)) (remove1 t ts) = filter (\<lambda>t. is_Discover (ds_store s ! t)) ts"
    using WaitObj by (simp add: filter_remove1 remove1_idem)
  then show ?thesis using assms dialIDs_remove1[OF assms(2), of "ds_store s"] WaitObj
    by (auto simp: taskDone_def ds_ok_def dest: notin_set_remove1[rotated])
qed

lemma addStatic_ok:
  assumes "ds_ok s ts"
  shows "ds_ok (addStatic n s) ts"
proof -
  let ?d = "DialObj \<lparr>t_flags = staticDialedConn, t_dest = n, t_lastResolved = 0, t_resolveDelay = 0\<rparr>"
  have l: "\<forall>t\<in>set ts. t < length (ds_store s)" using assms by (simp add: ds_ok_def)
  have f: "filter (\<lambda>t. is_Discover ((ds_store s @ [?d]) ! t)) ts = filter (\<lambda>t. is_Discover (ds_store s ! t)) ts"
    using l by (intro filter_cong) (auto simp: nth_append)
  have st: "static_ok (ds_store s @ [?d]) (n_ID n) (length (ds_store s))" by (simp add: static_ok_def)
  have sub: "set (map_put k v m) \<subseteq> Set.insert (k, v) (set m)" for k v and m :: "(NodeID, task) gomap" by (induction m) auto
  have "\<forall>(i, t)\<in>set (map_put (n_ID n) (length (ds_store s)) (ds_static s)). static_ok (ds_store s @ [?d]) i t"
  proof
    fix x assume "x \<in> set (map_put (n_ID n) (length (ds_store s)) (ds_static s))"
    then have "x = (n_ID n, length (ds_store s)) \<or> x \<in> set (ds_static s)" using sub by blast
    then show "case x of (i, t) \<Rightarrow> static_ok (ds_store s @ [?d]) i t" using st static_ok_store assms by (auto simp: ds_ok_def)
  qed
  then show ?thesis using assms l f by (auto simp: addStatic_def newTask_def ds_ok_def dialIDs_store distinct_update less_SucI)
qed

lemma removeStatic_ok: "ds_ok s ts \<Longrightarrow> ds_ok (removeStatic n s) ts"
  using ds_ok_del_static[of s ts "n_ID n"] hist.ok_remove[of "ds_hist s" "n_ID n"] by (simp add: removeStatic_def ds_ok_def)

lemma update_task_ok:
  assumes "ds_ok s ts" "is_Dial obj = is_Dial (ds_store s ! t)" "is_Discover obj = is_Discover (ds_store s ! t)"
    "is_Dial obj \<Longrightarrow> n_ID (t_dest (dialOf obj)) = n_ID (t_dest (dialOf (ds_store s ! t))) \<and> t_flags (dialOf obj) = t_flags (dialOf (ds_store s ! t))"
  shows "ds_ok (s\<lparr>ds_store := (ds_store s)[t := obj]\<rparr>) ts"
proof -
  have d: "is_Dial ((ds_store s)[t := obj] ! u) = is_Dial (ds_store s ! u)" "is_Discover ((ds_store s)[t := obj] ! u) = is_Discover (ds_store s ! u)" for u
    using assms(2,3) by (cases "u = t \<and> t < length (ds_store s)"; auto simp: nth_list_update list_update_beyond not_less)+
  have i: "n_ID (t_dest (dialOf ((ds_store s)[t := obj] ! u))) = n_ID (t_dest (dialOf (ds_store s ! u))) \<and>
      t_flags (dialOf ((ds_store s)[t := obj] ! u)) = t_flags (dialOf (ds_store s ! u))" if "is_Dial (ds_store s ! u)" for u
    using assms(2,4) that by (cases "u = t \<and> t < length (ds_store s)") (auto simp: nth_list_update list_update_beyond not_less)
  have "dialIDs ((ds_store s)[t := obj]) ts = dialIDs (ds_store s) ts"
    unfolding dialIDs_def d by (intro map_cong) (auto simp: i)
  moreover have "static_ok ((ds_store s)[t := obj]) j u" if "static_ok (ds_store s) j u" for j u using that d i by (auto simp: static_ok_def)
  ultimately show ?thesis using assms(1) by (auto simp: ds_ok_def d)
qed

lemma resolve_keeps:
  assumes "\<forall>i n. resolved i = Some n \<longrightarrow> n_ID n = i" "resolve ntab resolved t1 t2 t = (b, t')"
  shows "n_ID (t_dest t') = n_ID (t_dest t) \<and> t_flags t' = t_flags t"
  using assms by (auto simp: resolve_def Let_def split: if_splits option.splits)

lemma Do_keeps:
  assumes "\<forall>i n. resolved i = Some n \<longrightarrow> n_ID n = i"
  shows "n_ID (t_dest (DialTask_Do ntab resolved clock dial t)) = n_ID (t_dest t) \<and> t_flags (DialTask_Do ntab resolved clock dial t) = t_flags t"
proof -
  obtain b1 t1 where r1: "(if Incomplete (t_dest t) then resolve ntab resolved (clock 0) (clock 1) t else (True, t)) = (b1, t1)" by fastforce
  obtain b2 t2 where r2: "resolve ntab resolved (clock 2) (clock 3) t1 = (b2, t2)" by fastforce
  have k1: "n_ID (t_dest t1) = n_ID (t_dest t) \<and> t_flags t1 = t_flags t" using r1 resolve_keeps[OF assms] by (auto split: if_splits)
  have k2: "n_ID (t_dest t2) = n_ID (t_dest t1) \<and> t_flags t2 = t_flags t1" by (rule resolve_keeps[OF assms r2])
  show ?thesis unfolding DialTask_Do_def r1 using k1 k2 r2 by (auto split: option.splits connErr.splits)
qed

text \<open>The table keeps its promise.\<close>

lemma Resolve_id: "Resolve keccak i tab refreshed replies = Some (Some n) \<Longrightarrow> n_ID n = i"
  by (auto simp: Resolve_def Let_def find_Some_iff split: if_splits option.splits list.splits)

end
