(* ===== verification/Server.thy ===== *)
theory Server
  imports Dial
begin

text \<open>
  \<^verbatim>\<open>p2p/server.go\<close>: the loop of the server that admits peers and schedules dials.  One turn of the loop is one step: it
  schedules tasks and then receives from one of its channels.  The goroutines it starts are part of the state: the
  running tasks, and the peers that run.  Sockets, handshakes and discovery are not modelled; a connection arrives at
  the loop with what the handshakes found out.
\<close>

unbundle bit_operations_syntax

section \<open>Configuration and limits\<close>

record Config =
  cfg_MaxPeers :: int
  cfg_DialRatio :: int
  cfg_NoDiscovery :: bool
  cfg_NoDial :: bool
  cfg_BootstrapNodes :: "Node list"
  cfg_StaticNodes :: "Node list"
  cfg_TrustedNodes :: "Node list"
  cfg_NetRestrict :: "Netlist option"
  cfg_Protocols :: "Protocol list"
  cfg_self :: NodeID

definition maxActiveDialTasks :: nat where "maxActiveDialTasks = 16"
definition defaultDialRatio :: int where "defaultDialRatio = 3"

text \<open>Division truncates.\<close>

definition goDiv :: "int \<Rightarrow> int \<Rightarrow> int" where
  "goDiv a b = sgn a * sgn b * (\<bar>a\<bar> div \<bar>b\<bar>)"

definition maxDialedConns :: "Config \<Rightarrow> int" where
  "maxDialedConns cfg =
     (if cfg_NoDiscovery cfg \<or> cfg_NoDial cfg then 0
      else (let r = cfg_DialRatio cfg; r = (if r = 0 then defaultDialRatio else r) in goDiv (cfg_MaxPeers cfg) r))"

definition maxInboundConns :: "Config \<Rightarrow> int" where
  "maxInboundConns cfg = cfg_MaxPeers cfg - maxDialedConns cfg"

definition encHandshakeChecks :: "Config \<Rightarrow> (NodeID, Peer) gomap \<Rightarrow> int \<Rightarrow> conn \<Rightarrow> DiscReason option" where
  "encHandshakeChecks cfg peers inboundCount c =
     (if \<not> conn_is c (trustedConn OR staticDialedConn) \<and> int (length peers) \<ge> cfg_MaxPeers cfg then Some DiscTooManyPeers
      else if \<not> conn_is c trustedConn \<and> conn_is c inboundConn \<and> inboundCount \<ge> maxInboundConns cfg then Some DiscTooManyPeers
      else if map_of peers (c_id c) \<noteq> None then Some DiscAlreadyConnected
      else if c_id c = cfg_self cfg then Some DiscSelf
      else None)"

definition protoHandshakeChecks :: "Config \<Rightarrow> (NodeID, Peer) gomap \<Rightarrow> int \<Rightarrow> conn \<Rightarrow> DiscReason option" where
  "protoHandshakeChecks cfg peers inboundCount c =
     (if length (cfg_Protocols cfg) > 0 \<and> countMatchingProtocols (cfg_Protocols cfg) (c_caps c) = 0 then Some DiscUselessPeer
      else encHandshakeChecks cfg peers inboundCount c)"

section \<open>The loop\<close>

record Server =
  srv_peers :: "(NodeID, Peer) gomap"
  srv_inboundCount :: int
  srv_trusted :: "(NodeID, bool) gomap"
  srv_runningTasks :: "task list"
  srv_queuedTasks :: "task list"
  srv_dial :: dialstate
  srv_runs :: "Peer list"
  srv_disconnects :: "(NodeID \<times> DiscReason) list"
  srv_quit :: bool

definition startRun :: "Config \<Rightarrow> Server outcome" where
  "startRun cfg =
     (case newDialState (cfg_StaticNodes cfg) (cfg_BootstrapNodes cfg) (if cfg_NoDiscovery cfg then None else Some (cfg_self cfg))
             (maxDialedConns cfg) (cfg_NetRestrict cfg) of
        Returned dialer \<Rightarrow> Returned \<lparr>srv_peers = [], srv_inboundCount = 0,
          srv_trusted = fold (\<lambda>n m. map_put (n_ID n) True m) (cfg_TrustedNodes cfg) [], srv_runningTasks = [], srv_queuedTasks = [],
          srv_dial = dialer, srv_runs = [], srv_disconnects = [], srv_quit = False\<rparr>
      | Panicked \<Rightarrow> Panicked | OutOfFuel \<Rightarrow> OutOfFuel)"

fun delTask :: "task \<Rightarrow> task list \<Rightarrow> task list" where
  "delTask t [] = []"
| "delTask t (r # running) = (if r = t then running else r # delTask t running)"

fun startTasks :: "task list \<Rightarrow> task list \<Rightarrow> task list \<times> task list" where
  "startTasks running [] = (running, [])"
| "startTasks running (t # ts) = (if length running < maxActiveDialTasks then startTasks (running @ [t]) ts else (running, t # ts))"

definition scheduleTasks :: "(NodeID, task) iter \<Rightarrow> Table option \<Rightarrow> (nat \<Rightarrow> nat) \<Rightarrow> int \<Rightarrow> Server \<Rightarrow> Server outcome" where
  "scheduleTasks it ntab rnd now srv =
     (let (running, queued) = startTasks (srv_runningTasks srv) (srv_queuedTasks srv);
          srv = srv\<lparr>srv_runningTasks := running, srv_queuedTasks := queued\<rparr>
      in if length running < maxActiveDialTasks
         then (case newTasks it ntab rnd (length running + length queued) (srv_peers srv) now (srv_dial srv) of
                 Returned (nt, dialer) \<Rightarrow>
                   (let (running, rest) = startTasks running nt
                    in Returned (srv\<lparr>srv_runningTasks := running, srv_queuedTasks := queued @ rest, srv_dial := dialer\<rparr>))
               | Panicked \<Rightarrow> Panicked | OutOfFuel \<Rightarrow> OutOfFuel)
         else Returned srv)"

text \<open>What the loop receives.\<close>

datatype srvEvent = AddStatic Node | RemoveStatic Node | TaskDone task int | PostHandshake conn | AddPeer conn | DelPeer Peer | Quit

definition removeStaticPeer :: "Node \<Rightarrow> Server \<Rightarrow> Server" where
  "removeStaticPeer n srv =
     (let srv = srv\<lparr>srv_dial := removeStatic n (srv_dial srv)\<rparr> in
      if map_of (srv_peers srv) (n_ID n) \<noteq> None then srv\<lparr>srv_disconnects := srv_disconnects srv @ [(n_ID n, DiscRequested)]\<rparr> else srv)"

text \<open>The flags the connection has afterwards and the answer it gets.\<close>

definition posthandshake :: "Config \<Rightarrow> conn \<Rightarrow> Server \<Rightarrow> conn \<times> DiscReason option" where
  "posthandshake cfg c srv =
     (let c = (if map_of (srv_trusted srv) (c_id c) = Some True then c\<lparr>c_flags := c_flags c OR trustedConn\<rparr> else c)
      in (c, encHandshakeChecks cfg (srv_peers srv) (srv_inboundCount srv) c))"

definition addpeer :: "Config \<Rightarrow> conn \<Rightarrow> Server \<Rightarrow> Server" where
  "addpeer cfg c srv =
     (case protoHandshakeChecks cfg (srv_peers srv) (srv_inboundCount srv) c of
        None \<Rightarrow>
          (let p = newPeer c (cfg_Protocols cfg)
           in srv\<lparr>srv_peers := map_put (c_id c) p (srv_peers srv), srv_runs := srv_runs srv @ [p],
                srv_inboundCount := srv_inboundCount srv + (if Inbound p then 1 else 0)\<rparr>)
      | Some err \<Rightarrow> srv)"

definition delpeer :: "Peer \<Rightarrow> Server \<Rightarrow> Server" where
  "delpeer p srv = srv\<lparr>srv_peers := map_del (Peer_ID p) (srv_peers srv), srv_runs := remove1 p (srv_runs srv),
     srv_inboundCount := srv_inboundCount srv - (if Inbound p then 1 else 0)\<rparr>"

definition taskdone :: "task \<Rightarrow> int \<Rightarrow> Server \<Rightarrow> Server" where
  "taskdone t now srv = srv\<lparr>srv_dial := taskDone t now (srv_dial srv), srv_runningTasks := delTask t (srv_runningTasks srv)\<rparr>"

definition quitLoop :: "Server \<Rightarrow> Server" where
  "quitLoop srv = srv\<lparr>srv_quit := True, srv_disconnects := srv_disconnects srv @ map (\<lambda>(i, p). (i, DiscQuitting)) (srv_peers srv)\<rparr>"

fun onEvent :: "Config \<Rightarrow> srvEvent \<Rightarrow> Server \<Rightarrow> Server" where
  "onEvent cfg (AddStatic n) srv = srv\<lparr>srv_dial := addStatic n (srv_dial srv)\<rparr>"
| "onEvent cfg (RemoveStatic n) srv = removeStaticPeer n srv"
| "onEvent cfg (TaskDone t now) srv = taskdone t now srv"
| "onEvent cfg (PostHandshake c) srv = srv"
| "onEvent cfg (AddPeer c) srv = addpeer cfg c srv"
| "onEvent cfg (DelPeer p) srv = delpeer p srv"
| "onEvent cfg Quit srv = quitLoop srv"

text \<open>A task reports once, when it has run; a peer reports once, when it has ended.\<close>

fun enabled :: "srvEvent \<Rightarrow> Server \<Rightarrow> bool" where
  "enabled (TaskDone t now) srv \<longleftrightarrow> t \<in> set (srv_runningTasks srv)"
| "enabled (DelPeer p) srv \<longleftrightarrow> p \<in> set (srv_runs srv)"
| "enabled _ srv \<longleftrightarrow> True"

text \<open>After the loop has ended it waits for the peers that still run.\<close>

definition spindown :: "Peer \<Rightarrow> Server \<Rightarrow> Server" where
  "spindown p srv = srv\<lparr>srv_peers := map_del (Peer_ID p) (srv_peers srv), srv_runs := remove1 p (srv_runs srv)\<rparr>"

text \<open>A turn at time \<open>now\<close>, or the work of a goroutine.\<close>

datatype srvLabel = Turn int srvEvent | Work

inductive server_step :: "Config \<Rightarrow> Server \<Rightarrow> srvLabel \<Rightarrow> Server \<Rightarrow> bool" for cfg where
  turn: "\<lbrakk>\<not> srv_quit srv; iter_ok it; ntab = None \<longleftrightarrow> cfg_NoDiscovery cfg; scheduleTasks it ntab rnd now srv = Returned srv1; enabled ev srv1\<rbrakk> \<Longrightarrow>
    server_step cfg srv (Turn now ev) (onEvent cfg ev srv1)"
| work_dial: "\<lbrakk>t \<in> set (srv_runningTasks srv); ds_store (srv_dial srv) ! t = DialObj d; \<forall>i n. resolved i = Some n \<longrightarrow> n_ID n = i\<rbrakk> \<Longrightarrow>
    server_step cfg srv Work
      (srv\<lparr>srv_dial := (srv_dial srv)\<lparr>ds_store := (ds_store (srv_dial srv))[t := DialObj (DialTask_Do (\<not> cfg_NoDiscovery cfg) resolved clock dial d)]\<rparr>\<rparr>)"
| work_lookup: "\<lbrakk>t \<in> set (srv_runningTasks srv); ds_store (srv_dial srv) ! t = DiscoverObj r\<rbrakk> \<Longrightarrow>
    server_step cfg srv Work (srv\<lparr>srv_dial := (srv_dial srv)\<lparr>ds_store := (ds_store (srv_dial srv))[t := DiscoverObj results]\<rparr>\<rparr>)"
| ending: "\<lbrakk>srv_quit srv; p \<in> set (srv_runs srv)\<rbrakk> \<Longrightarrow> server_step cfg srv Work (spindown p srv)"

inductive server_run :: "Config \<Rightarrow> Server \<Rightarrow> srvLabel list \<Rightarrow> Server \<Rightarrow> bool" for cfg where
  start: "server_run cfg srv [] srv"
| step: "server_run cfg srv ls srv' \<Longrightarrow> server_step cfg srv' l srv'' \<Longrightarrow> server_run cfg srv (ls @ [l]) srv''"

section \<open>Peers\<close>

definition limited :: "Peer \<Rightarrow> bool" where
  "limited p \<longleftrightarrow> \<not> conn_is (p_rw p) (trustedConn OR staticDialedConn)"

definition limitedInbound :: "Peer \<Rightarrow> bool" where
  "limitedInbound p \<longleftrightarrow> Inbound p \<and> \<not> conn_is (p_rw p) trustedConn"

definition peersWith :: "(Peer \<Rightarrow> bool) \<Rightarrow> Server \<Rightarrow> nat" where
  "peersWith P srv = length (filter (\<lambda>(_, p). P p) (srv_peers srv))"

definition peers_ok :: "Config \<Rightarrow> Server \<Rightarrow> bool" where
  "peers_ok cfg srv \<longleftrightarrow> wf_map (srv_peers srv) \<and> (\<forall>(i, p)\<in>set (srv_peers srv). Peer_ID p = i \<and> i \<noteq> cfg_self cfg) \<and>
     mset (srv_runs srv) = mset (map snd (srv_peers srv)) \<and> (\<not> srv_quit srv \<longrightarrow> srv_inboundCount srv = int (peersWith Inbound srv)) \<and>
     int (peersWith limited srv) \<le> max 0 (cfg_MaxPeers cfg) \<and> int (peersWith limitedInbound srv) \<le> max 0 (maxInboundConns cfg)"

lemma newPeer_conn: "Peer_ID (newPeer c ps) = c_id c" "Inbound (newPeer c ps) \<longleftrightarrow> conn_is c inboundConn"
  "conn_is (p_rw (newPeer c ps)) f \<longleftrightarrow> conn_is c f"
  by (simp_all add: newPeer_def Peer_ID_def Inbound_def conn_is_def)

lemma filter_le: "(\<And>p. P p \<Longrightarrow> Q p) \<Longrightarrow> length (filter (\<lambda>(_, p). P p) m) \<le> length (filter (\<lambda>(_, p). Q p) m)"
  by (induction m) (auto simp: le_SucI)

lemma peers_ok_addpeer:
  assumes "peers_ok cfg srv" "\<not> srv_quit srv"
  shows "peers_ok cfg (addpeer cfg c srv)"
proof (cases "protoHandshakeChecks cfg (srv_peers srv) (srv_inboundCount srv) c")
  case None
  let ?p = "newPeer c (cfg_Protocols cfg)"
  have e: "encHandshakeChecks cfg (srv_peers srv) (srv_inboundCount srv) c = None"
    using None by (simp add: protoHandshakeChecks_def split: if_splits)
  have k: "c_id c \<notin> set (map fst (srv_peers srv))" "c_id c \<noteq> cfg_self cfg"
    using e by (auto simp: encHandshakeChecks_def map_of_eq_None_iff split: if_splits)
  have l: "int (length (srv_peers srv)) < cfg_MaxPeers cfg" if "limited ?p"
    using e that by (auto simp: encHandshakeChecks_def limited_def newPeer_conn split: if_splits)
  have li: "int (peersWith Inbound srv) < maxInboundConns cfg" if "limitedInbound ?p"
    using e that assms by (auto simp: encHandshakeChecks_def limitedInbound_def newPeer_conn peers_ok_def split: if_splits)
  have a: "srv_peers (addpeer cfg c srv) = srv_peers srv @ [(c_id c, ?p)]" using None k(1) by (simp add: addpeer_def Let_def put_new)
  have cnt: "peersWith P (addpeer cfg c srv) = peersWith P srv + (if P ?p then 1 else 0)" for P by (simp add: peersWith_def a)
  have "peersWith limited srv \<le> length (srv_peers srv)" by (simp add: peersWith_def)
  moreover have "peersWith limitedInbound srv \<le> peersWith Inbound srv"
    unfolding peersWith_def by (rule filter_le) (simp add: limitedInbound_def)
  moreover have "wf_map (srv_peers srv @ [(c_id c, ?p)])" using assms(1) k(1) by (auto simp: peers_ok_def)
  ultimately show ?thesis using assms k l li None unfolding peers_ok_def cnt a
    by (auto simp: addpeer_def Let_def newPeer_conn)
qed (use assms in \<open>simp add: addpeer_def\<close>)

lemma del_key: "wf_map m \<Longrightarrow> (i, p) \<in> set m \<Longrightarrow> map_del i m = remove1 (i, p) m"
proof (induction m)
  case (Cons x m)
  show ?case
  proof (cases "fst x = i")
    case True
    have "i \<in> fst ` set m" if "(i, p) \<in> set m" using that by (force simp: image_iff)
    then have x: "x = (i, p)" using True Cons.prems by auto
    then have "i \<notin> fst ` set m" using Cons.prems by auto
    then have "map_del i m = m" by (force simp: AList.delete_eq intro: filter_True)
    then show ?thesis using x by simp
  qed (use Cons in \<open>cases x; auto\<close>)
qed simp

lemma peers_ok_removed:
  assumes "peers_ok cfg srv" "p \<in> set (srv_runs srv)" "srv_peers srv' = map_del (Peer_ID p) (srv_peers srv)" "srv_runs srv' = remove1 p (srv_runs srv)"
    "srv_quit srv' \<or> (\<not> srv_quit srv \<and> srv_inboundCount srv' = srv_inboundCount srv - (if Inbound p then 1 else 0))"
  shows "peers_ok cfg srv'"
proof -
  have m: "mset (srv_runs srv) = mset (map snd (srv_peers srv))" using assms(1) by (simp add: peers_ok_def)
  then have "p \<in> set (map snd (srv_peers srv))" using assms(2) by (metis mset_eq_setD)
  then obtain i where i: "(i, p) \<in> set (srv_peers srv)" by auto
  then have "Peer_ID p = i" using assms(1) by (auto simp: peers_ok_def)
  then have d: "srv_peers srv' = remove1 (i, p) (srv_peers srv)" using del_key[OF _ i] assms(1,3) by (simp add: peers_ok_def)
  have cnt: "peersWith P srv' = peersWith P srv - (if P p then 1 else 0)" for P
    unfolding peersWith_def d using i by (auto simp: filter_remove1 length_remove1)
  have pos: "0 < peersWith Inbound srv" if "Inbound p" using that i by (auto simp: peersWith_def filter_empty_conv)
  have "mset (remove1 p (srv_runs srv)) = mset (map snd (srv_peers srv'))" using m i by (simp add: d image_mset_Diff)
  moreover have "wf_map (srv_peers srv')" unfolding assms(3) using assms(1) by (simp add: peers_ok_def distinct_delete)
  moreover have "set (srv_peers srv') \<subseteq> set (srv_peers srv)" unfolding d by (rule set_remove1_subset)
  ultimately show ?thesis using assms(1,4,5) pos unfolding peers_ok_def cnt by auto
qed

section \<open>Dials\<close>

definition outstanding :: "Server \<Rightarrow> task list" where
  "outstanding srv = srv_runningTasks srv @ srv_queuedTasks srv"

definition tasks_ok :: "Config \<Rightarrow> Server \<Rightarrow> bool" where
  "tasks_ok cfg srv \<longleftrightarrow> ds_ok (srv_dial srv) (outstanding srv) \<and> length (srv_runningTasks srv) \<le> maxActiveDialTasks \<and>
     ds_maxDynDials (srv_dial srv) = maxDialedConns cfg"

lemma startTasks_split:
  "startTasks r ts = (r @ take (maxActiveDialTasks - length r) ts, drop (maxActiveDialTasks - length r) ts)"
  by (induction r ts rule: startTasks.induct) (auto simp: take_Cons' drop_Cons')

lemma delTask_remove1: "delTask t r = remove1 t r"
  by (induction r) auto

lemma ds_ok_perm:
  assumes "ds_ok s ts" "mset ts' = mset ts"
  shows "ds_ok s ts'"
proof -
  have "mset (dialIDs st ts') = mset (dialIDs st ts)" for st unfolding dialIDs_def mset_map mset_filter assms(2) ..
  moreover have "length (filter P ts') = length (filter P ts)" for P using assms(2) by (metis mset_filter size_mset)
  moreover have "distinct ts' = distinct ts" "set ts' = set ts" using assms(2) by (auto dest: mset_eq_imp_distinct_iff mset_eq_setD)
  ultimately show ?thesis using assms(1) by (simp add: ds_ok_def)
qed

lemma scheduleTasks_ok:
  assumes "tasks_ok cfg srv" "iter_ok it" "ntab = None \<longleftrightarrow> cfg_NoDiscovery cfg"
  obtains srv1 nt where "scheduleTasks it ntab rnd now srv = Returned srv1" "tasks_ok cfg srv1"
    "mset (outstanding srv1) = mset (outstanding srv @ nt)" "dials_ok (srv_peers srv) (expired now (srv_dial srv)) (nt, srv_dial srv1)"
    "srv_peers srv1 = srv_peers srv" "srv_runs srv1 = srv_runs srv" "srv_inboundCount srv1 = srv_inboundCount srv" "srv_quit srv1 = srv_quit srv"
    "ds_hist (srv_dial srv1) = ds_hist (srv_dial srv) \<or> ds_hist (srv_dial srv1) = hist_expire now (ds_hist (srv_dial srv))"
    "int (dynPeers (srv_peers srv) + dynDialing (srv_dial srv1)) \<le> max (int (dynPeers (srv_peers srv) + dynDialing (srv_dial srv))) (maxDialedConns cfg)"
    "\<exists>xs. ds_store (srv_dial srv1) = ds_store (srv_dial srv) @ xs"
proof -
  let ?k = "maxActiveDialTasks - length (srv_runningTasks srv)"
  define running where "running = srv_runningTasks srv @ take ?k (srv_queuedTasks srv)"
  define queued where "queued = drop ?k (srv_queuedTasks srv)"
  let ?s = "srv\<lparr>srv_runningTasks := running, srv_queuedTasks := queued\<rparr>"
  have st: "startTasks (srv_runningTasks srv) (srv_queuedTasks srv) = (running, queued)" by (simp add: startTasks_split running_def queued_def)
  have o: "running @ queued = outstanding srv" by (simp add: running_def queued_def outstanding_def)
  have lr: "length running \<le> maxActiveDialTasks" using assms(1) by (auto simp: running_def tasks_ok_def)
  have ok: "ds_ok (srv_dial srv) (running @ queued)" "ds_maxDynDials (srv_dial srv) = maxDialedConns cfg" using assms(1) by (simp_all add: o tasks_ok_def)
  show thesis
  proof (cases "length running < maxActiveDialTasks")
    case True
    have "ds_maxDynDials (srv_dial srv) = 0" if "ntab = None" using that assms(3) ok(2) by (simp add: maxDialedConns_def)
    then obtain nt d where n: "newTasks it ntab rnd (length running + length queued) (srv_peers srv) now (srv_dial srv) = Returned (nt, d)"
        "ds_ok d ((running @ queued) @ nt)" "dials_ok (srv_peers srv) (expired now (srv_dial srv)) (nt, d)"
        "int (dynPeers (srv_peers srv) + dynDialing d) \<le> max (int (dynPeers (srv_peers srv) + dynDialing (srv_dial srv))) (ds_maxDynDials (srv_dial srv))"
        "ds_hist d = hist_expire now (ds_hist (srv_dial srv))" "ds_maxDynDials d = ds_maxDynDials (srv_dial srv)"
        "\<exists>xs. ds_store d = ds_store (srv_dial srv) @ xs"
      using newTasks_ok[OF ok(1) assms(2), where ntab = ntab and rnd = rnd and nRunning = "length running + length queued" and peers = "srv_peers srv" and now = now] by metis
    let ?j = "maxActiveDialTasks - length running"
    let ?s1 = "?s\<lparr>srv_runningTasks := running @ take ?j nt, srv_queuedTasks := queued @ drop ?j nt, srv_dial := d\<rparr>"
    have m: "mset (outstanding ?s1) = mset ((running @ queued) @ nt)"
      by (simp add: outstanding_def) (metis append_take_drop_id mset_append union_assoc)
    have "scheduleTasks it ntab rnd now srv = Returned ?s1" using st True n(1) by (simp add: scheduleTasks_def Let_def startTasks_split)
    moreover have "tasks_ok cfg ?s1" using ds_ok_perm[OF n(2) m] lr n(6) ok(2) by (simp add: tasks_ok_def)
    ultimately show thesis using that[of ?s1 nt] m n o ok(2) by simp
  next
    case False
    then have "scheduleTasks it ntab rnd now srv = Returned ?s" using st by (simp add: scheduleTasks_def Let_def)
    moreover have "tasks_ok cfg ?s" using ok lr by (simp add: tasks_ok_def outstanding_def)
    ultimately show thesis using that[of ?s "[]"] o by (simp add: outstanding_def dials_ok_def)
  qed
qed

definition srv_ok :: "Config \<Rightarrow> Server \<Rightarrow> bool" where
  "srv_ok cfg srv \<longleftrightarrow> peers_ok cfg srv \<and> tasks_ok cfg srv"

lemma peers_ok_cong: "srv_peers srv' = srv_peers srv \<Longrightarrow> srv_runs srv' = srv_runs srv \<Longrightarrow> srv_inboundCount srv' = srv_inboundCount srv \<Longrightarrow>
    srv_quit srv \<longrightarrow> srv_quit srv' \<Longrightarrow> peers_ok cfg srv \<Longrightarrow> peers_ok cfg srv'"
  by (auto simp: peers_ok_def peersWith_def)

lemma tasks_ok_taskdone:
  assumes "tasks_ok cfg srv" "t \<in> set (srv_runningTasks srv)"
  shows "tasks_ok cfg (taskdone t now srv)"
proof -
  have "remove1 t (outstanding srv) = outstanding (taskdone t now srv)" using assms(2) by (simp add: outstanding_def taskdone_def delTask_remove1 remove1_append)
  moreover have "ds_ok (taskDone t now (srv_dial srv)) (remove1 t (outstanding srv))"
    using assms by (intro taskDone_ok) (auto simp: tasks_ok_def outstanding_def)
  moreover have "ds_maxDynDials (taskDone t now (srv_dial srv)) = ds_maxDynDials (srv_dial srv)" by (simp add: taskDone_def split: taskObj.splits)
  ultimately show ?thesis using assms(1) by (auto simp: tasks_ok_def taskdone_def delTask_remove1 length_remove1)
qed

lemma onEvent_ok:
  assumes "srv_ok cfg srv" "enabled ev srv" "\<not> srv_quit srv"
  shows "srv_ok cfg (onEvent cfg ev srv)"
proof -
  have t: "tasks_ok cfg srv" "peers_ok cfg srv" using assms(1) by (simp_all add: srv_ok_def)
  show ?thesis
  proof (cases ev)
    case (AddStatic n)
    have "ds_maxDynDials (addStatic n (srv_dial srv)) = ds_maxDynDials (srv_dial srv)" by (simp add: addStatic_def newTask_def)
    then show ?thesis using t addStatic_ok[of "srv_dial srv" "outstanding srv" n] peers_ok_cong[OF _ _ _ _ t(2)]
      by (simp add: AddStatic srv_ok_def tasks_ok_def outstanding_def)
  next
    case (RemoveStatic n)
    have "ds_maxDynDials (removeStatic n (srv_dial srv)) = ds_maxDynDials (srv_dial srv)" by (simp add: removeStatic_def)
    then show ?thesis using t removeStatic_ok[of "srv_dial srv" "outstanding srv" n] peers_ok_cong[OF _ _ _ _ t(2)]
      by (simp add: RemoveStatic removeStaticPeer_def Let_def srv_ok_def tasks_ok_def outstanding_def)
  next
    case (TaskDone u now)
    then show ?thesis using tasks_ok_taskdone[OF t(1)] assms(2) peers_ok_cong[OF _ _ _ _ t(2)] by (simp add: srv_ok_def taskdone_def)
  next
    case (AddPeer c)
    have "srv_dial (addpeer cfg c srv) = srv_dial srv" "outstanding (addpeer cfg c srv) = outstanding srv"
      "srv_runningTasks (addpeer cfg c srv) = srv_runningTasks srv" by (simp_all add: addpeer_def outstanding_def Let_def split: option.split)
    then show ?thesis using peers_ok_addpeer[OF t(2) assms(3)] t(1) AddPeer by (simp add: srv_ok_def tasks_ok_def)
  next
    case (DelPeer p)
    then show ?thesis using peers_ok_removed[OF t(2), of p "delpeer p srv"] assms(2,3) t(1)
      by (simp add: srv_ok_def tasks_ok_def delpeer_def outstanding_def)
  next
    case Quit
    then show ?thesis using t peers_ok_cong[OF _ _ _ _ t(2)] by (simp add: srv_ok_def tasks_ok_def quitLoop_def outstanding_def)
  qed (use assms in simp)
qed

lemma server_step_ok:
  assumes "server_step cfg srv l srv'" "srv_ok cfg srv"
  shows "srv_ok cfg srv'"
  using assms
proof (cases rule: server_step.cases)
  case (turn it ntab rnd now srv1 ev)
  have t: "tasks_ok cfg srv" "peers_ok cfg srv" using assms(2) by (simp_all add: srv_ok_def)
  obtain srv2 nt where s: "scheduleTasks it ntab rnd now srv = Returned srv2" "tasks_ok cfg srv2"
      "srv_peers srv2 = srv_peers srv" "srv_runs srv2 = srv_runs srv" "srv_inboundCount srv2 = srv_inboundCount srv" "srv_quit srv2 = srv_quit srv"
    using scheduleTasks_ok[OF t(1) turn(4,5), where rnd = rnd and now = now] by metis
  then have "srv_ok cfg srv1" "\<not> srv_quit srv1" using turn(3,6) peers_ok_cong[OF _ _ _ _ t(2)] by (auto simp: srv_ok_def)
  then show ?thesis using onEvent_ok turn(2,7) by simp
next
  case (work_dial t d resolved clock dial)
  have "ds_ok ((srv_dial srv)\<lparr>ds_store := (ds_store (srv_dial srv))[t := DialObj (DialTask_Do (\<not> cfg_NoDiscovery cfg) resolved clock dial d)]\<rparr>) (outstanding srv)"
    using assms(2) work_dial(4) Do_keeps[OF work_dial(5)] by (intro update_task_ok) (auto simp: srv_ok_def tasks_ok_def)
  then show ?thesis using assms(2) work_dial(2) by (simp add: srv_ok_def tasks_ok_def peers_ok_def peersWith_def outstanding_def)
next
  case (work_lookup t r results)
  have "ds_ok ((srv_dial srv)\<lparr>ds_store := (ds_store (srv_dial srv))[t := DiscoverObj results]\<rparr>) (outstanding srv)"
    using assms(2) work_lookup(4) by (intro update_task_ok) (auto simp: srv_ok_def tasks_ok_def)
  then show ?thesis using assms(2) work_lookup(2) by (simp add: srv_ok_def tasks_ok_def peers_ok_def peersWith_def outstanding_def)
next
  case (ending p)
  then show ?thesis using peers_ok_removed[of cfg srv p "spindown p srv"] assms(2) by (simp add: srv_ok_def tasks_ok_def spindown_def outstanding_def)
qed

definition cfg_ok :: "Config \<Rightarrow> bool" where
  "cfg_ok cfg \<longleftrightarrow> 0 \<le> cfg_MaxPeers cfg \<and> 0 \<le> cfg_DialRatio cfg"

lemma maxDialedConns_pos: "cfg_ok cfg \<Longrightarrow> 0 \<le> maxDialedConns cfg"
  by (auto simp: cfg_ok_def maxDialedConns_def goDiv_def Let_def defaultDialRatio_def sgn_if pos_imp_zdiv_nonneg_iff)

lemma fold_addStatic:
  "ds_ok s [] \<Longrightarrow> ds_ok (fold addStatic ns s) [] \<and> ds_maxDynDials (fold addStatic ns s) = ds_maxDynDials s"
  by (induction ns arbitrary: s) (simp_all add: addStatic_ok, simp add: addStatic_def newTask_def)

lemma startRun_ok:
  assumes "cfg_ok cfg"
  obtains srv where "startRun cfg = Returned srv" "srv_ok cfg srv"
proof -
  let ?m = "maxDialedConns cfg"
  let ?d = "\<lparr>ds_maxDynDials = ?m, ds_self = (if cfg_NoDiscovery cfg then None else Some (cfg_self cfg)), ds_netrestrict = cfg_NetRestrict cfg,
        ds_lookupRunning = False, ds_dialing = [], ds_lookupBuf = [], ds_randomNodes = replicate (nat (half ?m)) None,
        ds_static = [], ds_hist = [], ds_start = 0, ds_bootnodes = cfg_BootstrapNodes cfg, ds_store = []\<rparr>"
  have m: "0 \<le> ?m" "\<not> half ?m < 0" using maxDialedConns_pos[OF assms] half_pos[of ?m] by auto
  have "ds_ok ?d []" using m by (simp add: ds_ok_def hist_ok_def dialIDs_def)
  then show thesis using fold_addStatic[of ?d "cfg_StaticNodes cfg"] m that
    by (simp add: startRun_def newDialState_def srv_ok_def tasks_ok_def peers_ok_def peersWith_def outstanding_def)
qed

lemma server_run_ok:
  assumes "server_run cfg srv ls srv'" "srv_ok cfg srv"
  shows "srv_ok cfg srv'"
  using assms by (induction rule: server_run.induct) (auto intro: server_step_ok)

section \<open>Properties\<close>

text \<open>A server with one static node and no discovery; the nodes of the examples are those of the table.\<close>

definition sample_cfg :: Config where
  "sample_cfg = \<lparr>cfg_MaxPeers = 25, cfg_DialRatio = 0, cfg_NoDiscovery = True, cfg_NoDial = False, cfg_BootstrapNodes = [],
     cfg_StaticNodes = [toyNode 200 1], cfg_TrustedNodes = [], cfg_NetRestrict = None, cfg_Protocols = [], cfg_self = [9]\<rparr>"

fun returned :: "'a outcome \<Rightarrow> 'a" where
  "returned (Returned x) = x"
| "returned _ = undefined"

definition sample_srv :: Server where
  "sample_srv = returned (startRun sample_cfg)"

definition sample_turn :: "int \<Rightarrow> Server \<Rightarrow> Server" where
  "sample_turn now srv = returned (scheduleTasks (\<lambda>m. m) None (\<lambda>i. i) now srv)"

lemma sample_ok: "cfg_ok sample_cfg" "startRun sample_cfg = Returned sample_srv"
  by (simp_all add: cfg_ok_def sample_cfg_def sample_srv_def startRun_def newDialState_def maxDialedConns_def half_def)

lemma sample_step:
  assumes "srv_ok sample_cfg srv" "\<not> srv_quit srv" "enabled ev (sample_turn now srv)"
  shows "server_step sample_cfg srv (Turn now ev) (onEvent sample_cfg ev (sample_turn now srv))"
proof -
  have n: "(None :: Table option) = None \<longleftrightarrow> cfg_NoDiscovery sample_cfg" by (simp add: sample_cfg_def)
  have t: "tasks_ok sample_cfg srv" using assms(1) by (simp add: srv_ok_def)
  obtain srv1 where "scheduleTasks (\<lambda>m. m) None (\<lambda>i. i) now srv = Returned srv1"
    using scheduleTasks_ok[OF t iter_ok_id n, where rnd = "\<lambda>i. i" and now = now] by metis
  then have "scheduleTasks (\<lambda>m. m) None (\<lambda>i. i) now srv = Returned (sample_turn now srv)" by (simp add: sample_turn_def)
  then show ?thesis by (rule turn[OF assms(2) iter_ok_id n _ assms(3)])
qed

lemma sample_srv_ok: "srv_ok sample_cfg sample_srv" "\<not> srv_quit sample_srv"
  using startRun_ok[OF sample_ok(1)] sample_ok(2) by (metis outcome.inject) code_simp

text \<open>C28. In every state the server loop can reach, however connections, dials and disconnections interleave, the peers have
  different identities and none is the own node, the count of inbound peers is right, at most \<^verbatim>\<open>MaxPeers\<close> peers are
  neither trusted nor static, at most \<^verbatim>\<open>maxInboundConns\<close> inbound peers are not trusted, and at most 16 tasks run.  Every peer
  has one goroutine, so that the shutdown, which waits until no peers are left, ends.\<close>

theorem server_limits:
  assumes "cfg_ok cfg" "startRun cfg = Returned srv" "server_run cfg srv ls srv'"
  shows "distinct (map fst (srv_peers srv')) \<and> (\<forall>(i, p)\<in>set (srv_peers srv'). Peer_ID p = i \<and> i \<noteq> cfg_self cfg) \<and>
    (\<not> srv_quit srv' \<longrightarrow> srv_inboundCount srv' = int (peersWith Inbound srv')) \<and>
    int (peersWith limited srv') \<le> cfg_MaxPeers cfg \<and> int (peersWith limitedInbound srv') \<le> max 0 (maxInboundConns cfg) \<and>
    length (srv_runningTasks srv') \<le> 16 \<and> mset (srv_runs srv') = mset (map snd (srv_peers srv'))"
proof -
  have "srv_ok cfg srv" using startRun_ok[OF assms(1)] assms(2) by (metis outcome.inject)
  then have "srv_ok cfg srv'" by (rule server_run_ok[OF assms(3)])
  then show ?thesis using assms(1) by (simp add: srv_ok_def peers_ok_def tasks_ok_def maxActiveDialTasks_def cfg_ok_def)
qed

definition sample_srv1 :: Server where
  "sample_srv1 = onEvent sample_cfg (AddPeer sample_conn) (sample_turn 1 sample_srv)"

lemma sample_run1: "server_run sample_cfg sample_srv ([] @ [Turn 1 (AddPeer sample_conn)]) sample_srv1"
  unfolding sample_srv1_def by (rule server_run.step[OF server_run.start sample_step[OF sample_srv_ok]]) simp

theorem server_limits_witness:
  "map fst (srv_peers sample_srv1) = [[]] \<and> peersWith limited sample_srv1 = 1 \<and> int (peersWith limited sample_srv1) \<le> 25 \<and>
   srv_inboundCount sample_srv1 = 1 \<and> srv_runningTasks sample_srv1 = [0]"
proof -
  have "int (peersWith limited sample_srv1) \<le> 25"
    using server_limits[OF sample_ok sample_run1] by (simp add: sample_cfg_def)
  moreover have "map fst (srv_peers sample_srv1) = [[]]" "peersWith limited sample_srv1 = 1" "srv_inboundCount sample_srv1 = 1"
    "srv_runningTasks sample_srv1 = [0]" by code_simp+
  ultimately show ?thesis by simp
qed

text \<open>C29. In every reachable state the next turn schedules without a panic, although \<^verbatim>\<open>ReadRandomNodes\<close> may return more than the
  size of the buffer.  The nodes that are marked as being dialed are exactly the destinations of the dial tasks that run or
  wait, each once.  A new dial task is for a node that is not being dialed, not connected, not the own node, allowed by
  the restriction and not in the history, and new dials do not raise the number of dynamic connections above its limit.\<close>

theorem server_dials:
  assumes "cfg_ok cfg" "startRun cfg = Returned srv" "server_run cfg srv ls srv'" "iter_ok it" "ntab = None \<longleftrightarrow> cfg_NoDiscovery cfg"
  shows "\<exists>srv1 nt. scheduleTasks it ntab rnd now srv' = Returned srv1 \<and> mset (outstanding srv1) = mset (outstanding srv' @ nt) \<and>
    mset (map fst (ds_dialing (srv_dial srv1))) = mset (dialIDs (ds_store (srv_dial srv1)) (outstanding srv1)) \<and>
    distinct (dialIDs (ds_store (srv_dial srv1)) (outstanding srv1)) \<and>
    (\<forall>t\<in>set nt. is_Dial (ds_store (srv_dial srv1) ! t) \<longrightarrow>
      checkDial (t_dest (dialOf (ds_store (srv_dial srv1) ! t))) (srv_peers srv') (expired now (srv_dial srv')) = None) \<and>
    int (dynPeers (srv_peers srv') + dynDialing (srv_dial srv1)) \<le>
      max (int (dynPeers (srv_peers srv') + dynDialing (srv_dial srv'))) (maxDialedConns cfg)"
proof -
  have "srv_ok cfg srv" using startRun_ok[OF assms(1)] assms(2) by (metis outcome.inject)
  then have "tasks_ok cfg srv'" using server_run_ok[OF assms(3)] by (simp add: srv_ok_def)
  then obtain srv1 nt where s: "scheduleTasks it ntab rnd now srv' = Returned srv1" "tasks_ok cfg srv1" "mset (outstanding srv1) = mset (outstanding srv' @ nt)"
      "dials_ok (srv_peers srv') (expired now (srv_dial srv')) (nt, srv_dial srv1)"
      "int (dynPeers (srv_peers srv') + dynDialing (srv_dial srv1)) \<le> max (int (dynPeers (srv_peers srv') + dynDialing (srv_dial srv'))) (maxDialedConns cfg)"
    using scheduleTasks_ok[OF _ assms(4,5), where rnd = rnd and now = now] by metis
  have d: "wf_map (ds_dialing (srv_dial srv1))" "mset (map fst (ds_dialing (srv_dial srv1))) = mset (dialIDs (ds_store (srv_dial srv1)) (outstanding srv1))"
    using s(2) by (simp_all add: tasks_ok_def ds_ok_def)
  then have "distinct (dialIDs (ds_store (srv_dial srv1)) (outstanding srv1))" using mset_eq_imp_distinct_iff by blast
  then show ?thesis using s d(2) by (intro exI[of _ srv1] exI[of _ nt]) (simp add: dials_ok_def)
qed

theorem server_dials_witness:
  "\<exists>srv1 nt. scheduleTasks (\<lambda>m. m) None (\<lambda>i. i) 2 sample_srv = Returned srv1 \<and> mset (outstanding srv1) = mset (outstanding sample_srv @ nt) \<and>
    distinct (dialIDs (ds_store (srv_dial srv1)) (outstanding srv1)) \<and> dialIDs (ds_store (srv_dial srv1)) (outstanding srv1) = [[200]]"
proof -
  have n: "(None :: Table option) = None \<longleftrightarrow> cfg_NoDiscovery sample_cfg" by (simp add: sample_cfg_def)
  obtain srv1 nt where "scheduleTasks (\<lambda>m. m) None (\<lambda>i. i) 2 sample_srv = Returned srv1" "mset (outstanding srv1) = mset (outstanding sample_srv @ nt)"
      "distinct (dialIDs (ds_store (srv_dial srv1)) (outstanding srv1))"
    using server_dials[OF sample_ok server_run.start iter_ok_id n, of "\<lambda>i. i" 2] by blast
  moreover have "dialIDs (ds_store (srv_dial (sample_turn 2 sample_srv))) (outstanding (sample_turn 2 sample_srv)) = [[200]]" by code_simp
  ultimately show ?thesis by (auto simp: sample_turn_def)
qed

text \<open>The next turns are not later than \<open>e\<close> and do not remove the static node \<open>i\<close>.\<close>

fun calm :: "NodeID \<Rightarrow> int \<Rightarrow> srvLabel \<Rightarrow> bool" where
  "calm i e (Turn now ev) \<longleftrightarrow> now \<le> e \<and> (case ev of RemoveStatic n \<Rightarrow> n_ID n \<noteq> i | _ \<Rightarrow> True)"
| "calm i e Work \<longleftrightarrow> True"

definition resting :: "NodeID \<Rightarrow> int \<Rightarrow> Server \<Rightarrow> bool" where
  "resting i e srv \<longleftrightarrow> hist.remembers i e (ds_hist (srv_dial srv)) \<and> i \<notin> fst ` set (ds_dialing (srv_dial srv))"

lemma dialing_keys: "tasks_ok cfg srv \<Longrightarrow> fst ` set (ds_dialing (srv_dial srv)) = set (dialIDs (ds_store (srv_dial srv)) (outstanding srv))"
  unfolding tasks_ok_def ds_ok_def by (metis mset_eq_setD set_map)

lemma resting_schedule:
  assumes "tasks_ok cfg srv" "iter_ok it" "ntab = None \<longleftrightarrow> cfg_NoDiscovery cfg" "scheduleTasks it ntab rnd now srv = Returned srv1"
    "resting i e srv" "now \<le> e"
  shows "resting i e srv1" "tasks_ok cfg srv1"
proof -
  obtain nt xs where s: "tasks_ok cfg srv1" "mset (outstanding srv1) = mset (outstanding srv @ nt)"
      "dials_ok (srv_peers srv) (expired now (srv_dial srv)) (nt, srv_dial srv1)"
      "ds_hist (srv_dial srv1) = ds_hist (srv_dial srv) \<or> ds_hist (srv_dial srv1) = hist_expire now (ds_hist (srv_dial srv))"
      "ds_store (srv_dial srv1) = ds_store (srv_dial srv) @ xs"
    using scheduleTasks_ok[OF assms(1-3), where rnd = rnd and now = now] assms(4) by (metis outcome.inject)
  show "tasks_ok cfg srv1" by (rule s(1))
  have h: "hist_ok (ds_hist (srv_dial srv))" "\<forall>t\<in>set (outstanding srv). t < length (ds_store (srv_dial srv))"
    using assms(1) by (simp_all add: tasks_ok_def ds_ok_def)
  have r: "hist.remembers i e (ds_hist (srv_dial srv))" "i \<notin> fst ` set (ds_dialing (srv_dial srv))" using assms(5) by (simp_all add: resting_def)
  note r' = hist.remembers_expire[OF h(1) r(1) assms(6)]
  let ?st = "ds_store (srv_dial srv1)"
  have "i \<notin> set (dialIDs ?st nt)"
  proof
    assume "i \<in> set (dialIDs ?st nt)"
    then obtain t where t: "t \<in> set nt" "is_Dial (?st ! t)" "n_ID (t_dest (dialOf (?st ! t))) = i" by (auto simp: dialIDs_def)
    then have "\<not> hist_contains i (hist_expire now (ds_hist (srv_dial srv)))" using s(3) by (auto simp: dials_ok_def checkDial_None expired_def)
    then show False using hist.remembers_contains[OF r'] by simp
  qed
  moreover have "dialIDs ?st (outstanding srv) = dialIDs (ds_store (srv_dial srv)) (outstanding srv)" using h(2) s(5) by (simp add: dialIDs_store)
  moreover have "set (dialIDs ?st (outstanding srv1)) = set (dialIDs ?st (outstanding srv)) \<union> set (dialIDs ?st nt)"
    using mset_eq_setD[OF s(2)] by (auto simp: dialIDs_def)
  ultimately have "i \<notin> fst ` set (ds_dialing (srv_dial srv1))" using dialing_keys[OF s(1)] dialing_keys[OF assms(1)] r(2) by simp
  then show "resting i e srv1" using s(4) r(1) r' by (auto simp: resting_def)
qed

lemma resting_event:
  assumes "srv_ok cfg srv" "resting i e srv" "case ev of RemoveStatic n \<Rightarrow> n_ID n \<noteq> i | _ \<Rightarrow> True"
  shows "resting i e (onEvent cfg ev srv)"
proof -
  have h: "hist_ok (ds_hist (srv_dial srv))" using assms(1) by (simp add: srv_ok_def tasks_ok_def ds_ok_def)
  have r: "hist.remembers i e (ds_hist (srv_dial srv))" "i \<notin> fst ` set (ds_dialing (srv_dial srv))" using assms(2) by (simp_all add: resting_def)
  show ?thesis
  proof (cases ev)
    case (RemoveStatic n)
    then show ?thesis using hist.remembers_remove[OF h r(1), of "n_ID n"] assms(3) r(2) by (simp add: resting_def removeStaticPeer_def Let_def removeStatic_def)
  next
    case (TaskDone t now)
    then show ?thesis using hist.remembers_kept[OF h r(1)] r by (auto simp: resting_def taskdone_def taskDone_def keys_del split: taskObj.splits)
  next
    case (AddPeer c)
    then show ?thesis using r by (simp add: resting_def addpeer_def Let_def split: option.split)
  qed (use r in \<open>simp_all add: resting_def addStatic_def newTask_def delpeer_def quitLoop_def\<close>)
qed

lemma resting_step:
  assumes "server_step cfg srv l srv'" "srv_ok cfg srv" "resting i e srv" "calm i e l"
  shows "resting i e srv'"
  using assms(1)
proof (cases rule: server_step.cases)
  case (turn it ntab rnd now srv1 ev)
  have t: "tasks_ok cfg srv" "peers_ok cfg srv" using assms(2) by (simp_all add: srv_ok_def)
  obtain srv2 where s: "scheduleTasks it ntab rnd now srv = Returned srv2"
      "srv_peers srv2 = srv_peers srv" "srv_runs srv2 = srv_runs srv" "srv_inboundCount srv2 = srv_inboundCount srv" "srv_quit srv2 = srv_quit srv"
    using scheduleTasks_ok[OF t(1) turn(4,5), where rnd = rnd and now = now] by metis
  have c: "now \<le> e" "case ev of RemoveStatic n \<Rightarrow> n_ID n \<noteq> i | _ \<Rightarrow> True" using assms(4) turn(1) by simp_all
  note r = resting_schedule[OF t(1) turn(4,5,6) assms(3) c(1)]
  have "srv_ok cfg srv1" using r(2) s turn(6) peers_ok_cong[OF _ _ _ _ t(2)] by (auto simp: srv_ok_def)
  then show ?thesis unfolding turn(2) by (rule resting_event[OF _ r(1) c(2)])
qed (use assms(3) in \<open>auto simp: resting_def spindown_def\<close>)

text \<open>C30. A node is not dialed again for thirty seconds: after a dial task has reported, no dial task for its node is created,
  in any interleaving of further events, until the clock has passed the time of the report by thirty seconds, unless the
  user removes the node as a static node in the meantime.\<close>

theorem no_redial:
  assumes "cfg_ok cfg" "startRun cfg = Returned srv" "server_run cfg srv ls srv1"
    and "server_step cfg srv1 (Turn now0 (TaskDone t now)) srv2" "ds_store (srv_dial srv2) ! t = DialObj d"
    and "server_run cfg srv2 ls' srv3" "list_all (calm (n_ID (t_dest d)) (now + 30 * 10 ^ 9)) ls'"
  shows "n_ID (t_dest d) \<notin> set (dialIDs (ds_store (srv_dial srv3)) (outstanding srv3)) \<and>
    map_of (ds_dialing (srv_dial srv3)) (n_ID (t_dest d)) = None"
proof -
  let ?i = "n_ID (t_dest d)" and ?e = "now + 30 * 10 ^ 9"
  have "srv_ok cfg srv" using startRun_ok[OF assms(1)] assms(2) by (metis outcome.inject)
  then have ok1: "srv_ok cfg srv1" by (rule server_run_ok[OF assms(3)])
  then have ok2: "srv_ok cfg srv2" by (rule server_step_ok[OF assms(4)])
  from assms(4) obtain it ntab rnd sch where sch: "iter_ok it" "ntab = None \<longleftrightarrow> cfg_NoDiscovery cfg" "scheduleTasks it ntab rnd now0 srv1 = Returned sch"
      "srv2 = taskdone t now sch"
    by (cases rule: server_step.cases) auto
  have "tasks_ok cfg sch" using scheduleTasks_ok[OF _ sch(1,2), where rnd = rnd and now = now0] ok1 sch(3) by (metis outcome.inject srv_ok_def)
  then have h: "hist_ok (ds_hist (srv_dial sch))" by (simp add: tasks_ok_def ds_ok_def)
  have st: "ds_store (srv_dial sch) ! t = DialObj d" using assms(5) sch(4) by (simp add: taskdone_def taskDone_def split: taskObj.splits)
  have "resting ?i ?e srv2" using hist.remembers_add[OF h, of ?i ?e] st
    by (simp add: sch(4) resting_def taskdone_def taskDone_def keys_del dialHistoryExpiration_def second_def)
  with assms(6,7) ok2 have "resting ?i ?e srv3 \<and> srv_ok cfg srv3"
  proof (induction rule: server_run.induct)
    case (step srv ls srv' l srv'')
    then show ?case using resting_step[OF step(2)] server_step_ok[OF step(2)] by simp
  qed simp
  then show ?thesis using dialing_keys[of cfg srv3] by (simp add: resting_def srv_ok_def map_of_eq_None_iff)
qed

definition sample_srv2 :: Server where
  "sample_srv2 = onEvent sample_cfg (TaskDone 0 5) (sample_turn 2 sample_srv)"

definition sample_srv3 :: Server where
  "sample_srv3 = onEvent sample_cfg (AddStatic (toyNode 200 2)) (sample_turn 6 sample_srv2)"

theorem no_redial_witness:
  "srv_runningTasks (sample_turn 2 sample_srv) = [0] \<and>
   [200] \<notin> set (dialIDs (ds_store (srv_dial sample_srv3)) (outstanding sample_srv3)) \<and> map_of (ds_dialing (srv_dial sample_srv3)) [200] = None"
proof -
  have r: "srv_runningTasks (sample_turn 2 sample_srv) = [0]" by code_simp
  have s2: "server_step sample_cfg sample_srv (Turn 2 (TaskDone 0 5)) sample_srv2"
    unfolding sample_srv2_def by (rule sample_step[OF sample_srv_ok]) (simp add: r)
  have ok: "srv_ok sample_cfg sample_srv2" by (rule server_step_ok[OF s2 sample_srv_ok(1)])
  have q: "\<not> srv_quit sample_srv2" by code_simp
  have s3: "server_run sample_cfg sample_srv2 ([] @ [Turn 6 (AddStatic (toyNode 200 2))]) sample_srv3"
    unfolding sample_srv3_def by (rule server_run.step[OF server_run.start sample_step[OF ok q]]) simp
  have d: "ds_store (srv_dial sample_srv2) ! 0 =
      DialObj \<lparr>t_flags = staticDialedConn, t_dest = toyNode 200 1, t_lastResolved = 0, t_resolveDelay = 0\<rparr>" by code_simp
  have i: "n_ID (toyNode 200 1) = [200]" by (simp add: toyNode_def NewNode_def)
  have "[200] \<notin> set (dialIDs (ds_store (srv_dial sample_srv3)) (outstanding sample_srv3)) \<and> map_of (ds_dialing (srv_dial sample_srv3)) [200] = None"
    using no_redial[OF sample_ok server_run.start s2 d s3] by (simp add: i)
  then show ?thesis using r by simp
qed

end
