(* ===== verification/NodeDb.thy ===== *)
theory NodeDb
  imports Dial "HOL-Library.AList"
begin

text \<open>
  \<^verbatim>\<open>p2p/discover/database.go\<close>: the database of the nodes that discovery knows, on top of goleveldb.  The store, the RLP
  encoding of a node and the hash of an identifier are fields of an argument; the encodings of \<^verbatim>\<open>encoding/binary\<close>
  and the times of the standard library are written out.  Times are nanoseconds since the zero time.
\<close>

unbundle bit_operations_syntax

section \<open>encoding/binary: variable-length integers\<close>

function PutUvarint :: "64 word \<Rightarrow> bytes" where
  "PutUvarint x = (if x \<ge> 128 then (ucast x OR 128) # PutUvarint (drop_bit 7 x) else [ucast x])"
  by auto
termination
proof (relation "measure unat")
  fix x :: "64 word"
  assume "128 \<le> x"
  then have "128 \<le> unat x" by (simp add: word_le_nat_alt)
  moreover have "unat (drop_bit 7 x) = unat x div 128"
    by (simp add: drop_bit_eq_div unat_div_distrib)
  ultimately show "(drop_bit 7 x, x) \<in> measure unat" by simp
qed simp

declare PutUvarint.simps [simp del]

definition PutVarint :: "int64 \<Rightarrow> bytes" where
  "PutVarint x = (let ux = push_bit 1 x; ux = (if sint x < 0 then NOT ux else ux) in PutUvarint ux)"

fun uvarintLoop :: "nat \<Rightarrow> 64 word \<Rightarrow> bytes \<Rightarrow> 64 word \<times> int" where
  "uvarintLoop i x [] = (0, 0)"
| "uvarintLoop i x (b # buf) =
     (if b < 128 then
        (if i > 9 \<or> i = 9 \<and> b > 1 then (0, - int (i + 1))
         else (x OR push_bit (7 * i) (ucast b), int (i + 1)))
      else uvarintLoop (i + 1) (x OR push_bit (7 * i) (ucast (b AND 127))) buf)"

definition Uvarint :: "bytes \<Rightarrow> 64 word \<times> int" where
  "Uvarint buf = uvarintLoop 0 0 buf"

definition Varint :: "bytes \<Rightarrow> int64 \<times> int" where
  "Varint buf =
     (let (ux, n) = Uvarint buf; x = drop_bit 1 ux; x = (if ux AND 1 \<noteq> 0 then NOT x else x) in (x, n))"

section \<open>time: seconds since the epoch\<close>

definition unixToInternal :: int where "unixToInternal = 62135596800"

definition time_Unix :: "int64 \<Rightarrow> int" where
  "time_Unix sec = sint (sec + of_int unixToInternal) * second"

definition Time_Unix :: "int \<Rightarrow> int64" where
  "Time_Unix t = of_int (t div second) - of_int unixToInternal"

section \<open>The database\<close>

definition str_bytes :: "string \<Rightarrow> bytes" where
  "str_bytes = map byte_of_char"

definition nodeDBNilNodeID :: NodeID where "nodeDBNilNodeID = replicate 64 0"
definition nodeDBNodeExpiration :: int where "nodeDBNodeExpiration = 24 * 3600 * second"
definition nodeDBVersion :: int64 where "nodeDBVersion = 5"
definition nodeDBVersionKey :: bytes where "nodeDBVersionKey = str_bytes ''version''"
definition nodeDBItemPrefix :: bytes where "nodeDBItemPrefix = str_bytes ''n:''"
definition nodeDBDiscoverRoot :: bytes where "nodeDBDiscoverRoot = str_bytes '':discover''"
definition nodeDBDiscoverPing :: bytes where "nodeDBDiscoverPing = nodeDBDiscoverRoot @ str_bytes '':lastping''"
definition nodeDBDiscoverPong :: bytes where "nodeDBDiscoverPong = nodeDBDiscoverRoot @ str_bytes '':lastpong''"
definition nodeDBDiscoverFindFails :: bytes where "nodeDBDiscoverFindFails = nodeDBDiscoverRoot @ str_bytes '':findfail''"

datatype kvErr = KvNotFound | KvCorrupted | KvErr string

record 's nodeEnv =
  kv_Get :: "bytes \<Rightarrow> 's \<Rightarrow> kvErr + bytes"
  kv_Put :: "bytes \<Rightarrow> bytes \<Rightarrow> 's \<Rightarrow> kvErr option \<times> 's"
  kv_Delete :: "bytes \<Rightarrow> 's \<Rightarrow> kvErr option \<times> 's"
  kv_Iter :: "'s \<Rightarrow> (bytes \<times> bytes) list"
  rlp_encNode :: "Node \<Rightarrow> string + bytes"
  rlp_decNode :: "bytes \<Rightarrow> string + Node"
  keccakNode :: "bytes \<Rightarrow> hash"

record 's nodeDB =
  lvl :: 's
  db_self :: NodeID

definition makeKey :: "NodeID \<Rightarrow> bytes \<Rightarrow> bytes" where
  "makeKey i field = (if i = nodeDBNilNodeID then field else nodeDBItemPrefix @ i @ field)"

text \<open>\<^verbatim>\<open>splitKey\<close> slices the key after the prefix at 64, which panics if the key is shorter.\<close>

definition splitKey :: "bytes \<Rightarrow> (NodeID \<times> bytes) option" where
  "splitKey key =
     (if \<not> prefix nodeDBItemPrefix key then Some (nodeDBNilNodeID, key)
      else (let item = drop (length nodeDBItemPrefix) key in
        if length item < 64 then None else Some (take 64 item, drop 64 item)))"

definition fetchInt64 :: "'s nodeEnv \<Rightarrow> bytes \<Rightarrow> 's nodeDB \<Rightarrow> int64" where
  "fetchInt64 K key db =
     (case kv_Get K key (lvl db) of
        Inl _ \<Rightarrow> 0
      | Inr blob \<Rightarrow> (let (val, read) = Varint blob in if read \<le> 0 then 0 else val))"

definition storeInt64 :: "'s nodeEnv \<Rightarrow> bytes \<Rightarrow> int64 \<Rightarrow> 's nodeDB \<Rightarrow> kvErr option \<times> 's nodeDB" where
  "storeInt64 K key n db = (let (err, s) = kv_Put K key (PutVarint n) (lvl db) in (err, db\<lparr>lvl := s\<rparr>))"

definition db_node :: "'s nodeEnv \<Rightarrow> NodeID \<Rightarrow> 's nodeDB \<Rightarrow> Node option" where
  "db_node K i db =
     (case kv_Get K (makeKey i nodeDBDiscoverRoot) (lvl db) of
        Inl _ \<Rightarrow> None
      | Inr blob \<Rightarrow> (case rlp_decNode K blob of
          Inl _ \<Rightarrow> None
        | Inr node \<Rightarrow> Some (node\<lparr>n_sha := keccakNode K (n_ID node)\<rparr>)))"

datatype updateErr = EncodeErr string | PutErr kvErr

definition updateNode :: "'s nodeEnv \<Rightarrow> Node \<Rightarrow> 's nodeDB \<Rightarrow> updateErr option \<times> 's nodeDB" where
  "updateNode K node db =
     (case rlp_encNode K node of
        Inl e \<Rightarrow> (Some (EncodeErr e), db)
      | Inr blob \<Rightarrow>
          (let (err, s) = kv_Put K (makeKey (n_ID node) nodeDBDiscoverRoot) blob (lvl db)
           in (map_option PutErr err, db\<lparr>lvl := s\<rparr>)))"

text \<open>An iterator walks over a snapshot of the store; \<^verbatim>\<open>BytesPrefix\<close> restricts it to the keys with a prefix.\<close>

fun deleteLoop :: "'s nodeEnv \<Rightarrow> bytes list \<Rightarrow> 's \<Rightarrow> kvErr option \<times> 's" where
  "deleteLoop K [] s = (None, s)"
| "deleteLoop K (k # ks) s =
     (let (err, s) = kv_Delete K k s in case err of Some e \<Rightarrow> (Some e, s) | None \<Rightarrow> deleteLoop K ks s)"

definition db_deleteNode :: "'s nodeEnv \<Rightarrow> NodeID \<Rightarrow> 's nodeDB \<Rightarrow> kvErr option \<times> 's nodeDB" where
  "db_deleteNode K i db =
     (let (err, s) = deleteLoop K (filter (prefix (makeKey i [])) (map fst (kv_Iter K (lvl db)))) (lvl db)
      in (err, db\<lparr>lvl := s\<rparr>))"

definition lastPingReceived :: "'s nodeEnv \<Rightarrow> NodeID \<Rightarrow> 's nodeDB \<Rightarrow> int" where
  "lastPingReceived K i db = time_Unix (fetchInt64 K (makeKey i nodeDBDiscoverPing) db)"

definition updateLastPingReceived :: "'s nodeEnv \<Rightarrow> NodeID \<Rightarrow> int \<Rightarrow> 's nodeDB \<Rightarrow> kvErr option \<times> 's nodeDB" where
  "updateLastPingReceived K i inst db = storeInt64 K (makeKey i nodeDBDiscoverPing) (Time_Unix inst) db"

definition lastPongReceived :: "'s nodeEnv \<Rightarrow> NodeID \<Rightarrow> 's nodeDB \<Rightarrow> int" where
  "lastPongReceived K i db = time_Unix (fetchInt64 K (makeKey i nodeDBDiscoverPong) db)"

definition hasBond :: "'s nodeEnv \<Rightarrow> int \<Rightarrow> NodeID \<Rightarrow> 's nodeDB \<Rightarrow> bool" where
  "hasBond K now i db \<longleftrightarrow> timeSub now (lastPongReceived K i db) < nodeDBNodeExpiration"

definition updateLastPongReceived :: "'s nodeEnv \<Rightarrow> NodeID \<Rightarrow> int \<Rightarrow> 's nodeDB \<Rightarrow> kvErr option \<times> 's nodeDB" where
  "updateLastPongReceived K i inst db = storeInt64 K (makeKey i nodeDBDiscoverPong) (Time_Unix inst) db"

definition findFails :: "'s nodeEnv \<Rightarrow> NodeID \<Rightarrow> 's nodeDB \<Rightarrow> int64" where
  "findFails K i db = fetchInt64 K (makeKey i nodeDBDiscoverFindFails) db"

definition updateFindFails :: "'s nodeEnv \<Rightarrow> NodeID \<Rightarrow> int64 \<Rightarrow> 's nodeDB \<Rightarrow> kvErr option \<times> 's nodeDB" where
  "updateFindFails K i fails db = storeInt64 K (makeKey i nodeDBDiscoverFindFails) fails db"

fun expireLoop :: "'s nodeEnv \<Rightarrow> int \<Rightarrow> bytes list \<Rightarrow> 's nodeDB \<Rightarrow> 's nodeDB outcome" where
  "expireLoop K threshold [] db = Returned db"
| "expireLoop K threshold (k # ks) db =
     (case splitKey k of
        None \<Rightarrow> Panicked
      | Some (i, field) \<Rightarrow>
          if field \<noteq> nodeDBDiscoverRoot then expireLoop K threshold ks db
          else if i \<noteq> db_self db \<and> lastPongReceived K i db > threshold then expireLoop K threshold ks db
          else expireLoop K threshold ks (snd (db_deleteNode K i db)))"

definition expireNodes :: "'s nodeEnv \<Rightarrow> int \<Rightarrow> 's nodeDB \<Rightarrow> 's nodeDB outcome" where
  "expireNodes K now db = expireLoop K (now - nodeDBNodeExpiration) (map fst (kv_Iter K (lvl db))) db"

text \<open>\<^verbatim>\<open>nextNode\<close>: the argument is what is left of the iterator, from its position on.\<close>

fun nextNode :: "'s nodeEnv \<Rightarrow> (bytes \<times> bytes) list \<Rightarrow> Node option outcome" where
  "nextNode K [] = Returned None"
| "nextNode K ((k, v) # it) =
     (case splitKey k of
        None \<Rightarrow> Panicked
      | Some (i, field) \<Rightarrow>
          if field \<noteq> nodeDBDiscoverRoot then nextNode K it
          else (case rlp_decNode K v of Inl _ \<Rightarrow> nextNode K it | Inr n \<Rightarrow> Returned (Some n)))"

text \<open>\<open>rnd seeks\<close>: what \<^verbatim>\<open>rand.Read\<close> writes at that turn; \<open>todo\<close>: how many turns are left.\<close>

fun seekLoop :: "'s nodeEnv \<Rightarrow> (nat \<Rightarrow> bytes) \<Rightarrow> int \<Rightarrow> nat \<Rightarrow> int \<Rightarrow> (bytes \<times> bytes) list \<Rightarrow> 's nodeDB \<Rightarrow> nat \<Rightarrow> NodeID \<Rightarrow> Node list \<Rightarrow> Node list outcome" where
  "seekLoop K rnd now n maxAge it db 0 i nodes = Returned nodes"
| "seekLoop K rnd now n maxAge it db (Suc todo) i nodes =
     (if length nodes \<ge> n then Returned nodes
      else (let ctr = i ! 0; i = rnd (n * 5 - Suc todo); i = i[0 := ctr + i ! 0 mod 16];
                pos = dropWhile (\<lambda>e. fst e < makeKey i nodeDBDiscoverRoot) it in
        case nextNode K pos of
          Panicked \<Rightarrow> Panicked
        | OutOfFuel \<Rightarrow> OutOfFuel
        | Returned None \<Rightarrow> seekLoop K rnd now n maxAge it db todo (i[0 := 0]) nodes
        | Returned (Some m) \<Rightarrow>
            if n_ID m = db_self db then seekLoop K rnd now n maxAge it db todo i nodes
            else if timeSub now (lastPongReceived K (n_ID m) db) > maxAge then seekLoop K rnd now n maxAge it db todo i nodes
            else if list_ex (\<lambda>x. n_ID x = n_ID m) nodes then seekLoop K rnd now n maxAge it db todo i nodes
            else seekLoop K rnd now n maxAge it db todo i (nodes @ [m])))"

definition querySeeds :: "'s nodeEnv \<Rightarrow> (nat \<Rightarrow> bytes) \<Rightarrow> int \<Rightarrow> nat \<Rightarrow> int \<Rightarrow> 's nodeDB \<Rightarrow> Node list outcome" where
  "querySeeds K rnd now n maxAge db =
     seekLoop K rnd now n maxAge (kv_Iter K (lvl db)) db (n * 5) nodeDBNilNodeID []"

text \<open>
  Opening: \<open>openFile\<close>, \<open>recoverFile\<close> and \<open>removeAll\<close> are the calls that reach the file system, whose state is the
  last argument.  The function calls itself after it has removed the files of another version.
\<close>

record ('f, 's) files =
  openFile :: "'f \<Rightarrow> kvErr + 's"
  recoverFile :: "'f \<Rightarrow> kvErr + 's"
  removeAll :: "'f \<Rightarrow> kvErr option \<times> 'f"

partial_function (option) newPersistentNodeDB ::
  "'s nodeEnv \<Rightarrow> ('f, 's) files \<Rightarrow> int64 \<Rightarrow> NodeID \<Rightarrow> 'f \<Rightarrow> (kvErr + 's nodeDB) option" where
  "newPersistentNodeDB K F version self f =
     (let r = (case openFile F f of Inl KvCorrupted \<Rightarrow> recoverFile F f | r \<Rightarrow> r) in
      case r of
        Inl e \<Rightarrow> Some (Inl e)
      | Inr s \<Rightarrow>
          (case kv_Get K nodeDBVersionKey s of
             Inl KvNotFound \<Rightarrow>
               (case kv_Put K nodeDBVersionKey (PutVarint version) s of
                  (Some e, _) \<Rightarrow> Some (Inl e)
                | (None, s) \<Rightarrow> Some (Inr \<lparr>lvl = s, db_self = self\<rparr>))
           | Inl _ \<Rightarrow> Some (Inr \<lparr>lvl = s, db_self = self\<rparr>)
           | Inr blob \<Rightarrow>
               if blob \<noteq> PutVarint version then
                 (case removeAll F f of
                    (Some e, _) \<Rightarrow> Some (Inl e)
                  | (None, f) \<Rightarrow> newPersistentNodeDB K F version self f)
               else Some (Inr \<lparr>lvl = s, db_self = self\<rparr>)))"

definition newMemoryNodeDB :: "(kvErr + 's) \<Rightarrow> NodeID \<Rightarrow> kvErr + 's nodeDB" where
  "newMemoryNodeDB opened self = map_sum id (\<lambda>s. \<lparr>lvl = s, db_self = self\<rparr>) opened"

definition newNodeDB ::
  "'s nodeEnv \<Rightarrow> ('f, 's) files \<Rightarrow> (kvErr + 's) \<Rightarrow> string \<Rightarrow> int64 \<Rightarrow> NodeID \<Rightarrow> 'f \<Rightarrow> (kvErr + 's nodeDB) option" where
  "newNodeDB K F memory path version self f =
     (if path = [] then Some (newMemoryNodeDB memory self) else newPersistentNodeDB K F version self f)"

section \<open>Integers are read back\<close>

lemma seven_bits: "bit ((ucast (y :: 64 word) OR 128 :: byte) AND 127) k \<longleftrightarrow> k < 7 \<and> bit y k"
proof -
  have low: "bit (127 :: byte) k \<longleftrightarrow> k < 7"
    using bit_mask_iff[of 7 k, where ?'a = byte] by (auto simp: mask_eq_exp_minus_1)
  have high: "bit (128 :: byte) k \<longleftrightarrow> k = 7"
    using bit_exp_iff[of 7 k, where ?'a = byte] by auto
  show ?thesis by (auto simp only: bit_and_iff bit_or_iff bit_ucast_iff low high) simp
qed

lemma push_bit_split:
  fixes y :: "64 word"
  shows "push_bit s (ucast ((ucast y OR 128 :: byte) AND 127)) OR push_bit (s + 7) (drop_bit 7 y) = push_bit s y"
proof (rule bit_word_eqI)
  fix n
  assume n: "n < LENGTH(64)"
  define m where "m = (ucast y OR 128 :: byte) AND 127"
  have m: "bit m k \<longleftrightarrow> k < 7 \<and> bit y k" for k by (simp only: m_def seven_bits)
  show "bit (push_bit s (ucast ((ucast y OR 128 :: byte) AND 127)) OR push_bit (s + 7) (drop_bit 7 y)) n = bit (push_bit s y) n"
    unfolding m_def[symmetric] using n
    by (cases "s \<le> n"; cases "s + 7 \<le> n") (auto simp: bit_simps m)
qed

lemma low_byte:
  fixes y :: "64 word"
  assumes "y < 128"
  shows "(ucast y :: byte) < 128" "ucast (ucast y :: byte) = y" "unat (ucast y :: byte) = unat y"
proof -
  have y: "unat y < 128" using assms by (simp add: word_less_nat_alt)
  then show *: "unat (ucast y :: byte) = unat y" by (simp add: unsigned_ucast_eq unsigned_take_bit_eq take_bit_nat_eq_self)
  then show "(ucast y :: byte) < 128" using y by (simp add: word_less_nat_alt)
  show "ucast (ucast y :: byte) = y" using * y by (intro word_unat_eq_iff[THEN iffD2]) (simp add: unsigned_ucast_eq unsigned_take_bit_eq take_bit_nat_eq_self)
qed

lemma continued_byte: "\<not> ((ucast (y :: 64 word) OR 128 :: byte) < 128)"
proof -
  have "uint (ucast y OR 128 :: byte) = 128 OR uint (ucast y :: byte)"
    by (simp add: unsigned_or_eq or.commute)
  also have "\<dots> \<ge> 128" by (rule or_greater_eq) simp
  finally show ?thesis by (simp add: word_less_def)
qed

lemma uvarint_roundtrip:
  assumes "unat y < 2 ^ (64 - 7 * i)" and "i \<le> 9"
  shows "uvarintLoop i x (PutUvarint y) = (x OR push_bit (7 * i) y, int (i + length (PutUvarint y)))"
  using assms
proof (induction y arbitrary: i x rule: PutUvarint.induct)
  case (1 y)
  show ?case
  proof (cases "128 \<le> y")
    case True
    then have y: "128 \<le> unat y" by (simp add: word_le_nat_alt)
    have i: "i < 9"
    proof (rule ccontr)
      assume "\<not> i < 9"
      with "1.prems" have "i = 9" by simp
      with "1.prems" y show False by simp
    qed
    have "(2::nat) ^ (64 - 7 * i) = 2 ^ (64 - 7 * Suc i) * 2 ^ 7"
      unfolding power_add[symmetric] using i by simp
    then have "unat (drop_bit 7 y) < 2 ^ (64 - 7 * Suc i)"
      using "1.prems"(1) by (simp add: drop_bit_eq_div unat_div_distrib less_mult_imp_div_less)
    then have IH: "uvarintLoop (Suc i) z (PutUvarint (drop_bit 7 y)) =
        (z OR push_bit (7 * Suc i) (drop_bit 7 y), int (Suc i + length (PutUvarint (drop_bit 7 y))))" for z
      using "1.IH"[OF True, of "Suc i" z] i by simp
    show ?thesis
      using True continued_byte[of y] push_bit_split[of "7 * i" y]
      by (subst (1 2) PutUvarint.simps) (simp add: IH or.assoc add.commute)
  next
    case False
    then have y: "y < 128" by simp
    have "\<not> (i = 9 \<and> (ucast y :: byte) > 1)"
      using "1.prems"(1) low_byte(3)[OF y] by (auto simp: word_less_nat_alt)
    then show ?thesis
      using False low_byte[OF y] "1.prems"(2) by (subst (1 2) PutUvarint.simps) auto
  qed
qed

lemma length_PutUvarint: "0 < length (PutUvarint y)"
  by (subst PutUvarint.simps) simp

lemma zigzag:
  fixes x :: int64
  defines "ux \<equiv> (if sint x < 0 then NOT (push_bit 1 x) else push_bit 1 x)"
  shows "(if ux AND 1 \<noteq> 0 then NOT (drop_bit 1 ux) else drop_bit 1 ux) = x"
proof -
  have neg: "sint x < 0 \<longleftrightarrow> bit x 63" using bit_last_iff[of x] by simp
  have odd: "ux AND 1 \<noteq> 0 \<longleftrightarrow> bit ux 0" unfolding and_one_eq bit_0 by (simp add: mod_2_eq_odd)
  have first: "bit ux 0 \<longleftrightarrow> bit x 63" by (cases "bit x 63") (simp_all add: ux_def neg bit_0)
  have rest: "bit (drop_bit 1 ux) n \<longleftrightarrow> n < 63 \<and> bit x n \<noteq> bit x 63" if "n < 64" for n
    using that by (auto simp: ux_def neg bit_simps mult.commute[of x 2])
  show ?thesis
  proof (rule bit_word_eqI)
    fix n
    assume n: "n < LENGTH(64)"
    show "bit (if ux AND 1 \<noteq> 0 then NOT (drop_bit 1 ux) else drop_bit 1 ux) n = bit x n"
      using n rest[of n] first odd by (cases "n = 63") (auto simp: bit_not_iff)
  qed
qed

lemma Varint_PutVarint: "Varint (PutVarint x) = (x, int (length (PutVarint x)))"
proof -
  have "Uvarint (PutUvarint y) = (y, int (length (PutUvarint y)))" for y
    using uvarint_roundtrip[of y 0 0] unsigned_less[of y, where ?'a = nat] by (simp add: Uvarint_def)
  then show ?thesis
    using zigzag[of x] unfolding Varint_def PutVarint_def Let_def by (simp only: prod.case prod.inject simp_thms)
qed

lemma length_PutVarint: "0 < length (PutVarint x)"
  unfolding PutVarint_def Let_def by (rule length_PutUvarint)

section \<open>Keys\<close>

definition plain :: "bytes \<Rightarrow> bool" where
  "plain field \<longleftrightarrow> \<not> prefix nodeDBItemPrefix field"

definition owned :: "NodeID \<Rightarrow> bytes \<Rightarrow> bool" where
  "owned i k \<longleftrightarrow> prefix (nodeDBItemPrefix @ i) k"

lemmas field_defs = nodeDBDiscoverRoot_def nodeDBDiscoverPing_def nodeDBDiscoverPong_def nodeDBDiscoverFindFails_def
  nodeDBVersionKey_def nodeDBItemPrefix_def str_bytes_def byte_of_char_def

lemma plain_fields [simp]:
  "plain nodeDBDiscoverRoot" "plain nodeDBDiscoverPing" "plain nodeDBDiscoverPong" "plain nodeDBDiscoverFindFails"
  "plain nodeDBVersionKey"
  by (simp_all add: plain_def field_defs)

lemma fields_differ [simp]:
  "nodeDBDiscoverPing \<noteq> nodeDBDiscoverRoot" "nodeDBDiscoverPong \<noteq> nodeDBDiscoverRoot"
  "nodeDBDiscoverFindFails \<noteq> nodeDBDiscoverRoot" "nodeDBDiscoverPing \<noteq> nodeDBDiscoverPong"
  "nodeDBDiscoverPing \<noteq> nodeDBDiscoverFindFails" "nodeDBDiscoverPong \<noteq> nodeDBDiscoverFindFails"
  by (simp_all add: field_defs)

lemma makeKey_eq:
  assumes "length i = 64" "length j = 64" "plain f" "plain g"
  shows "makeKey i f = makeKey j g \<longleftrightarrow> i = j \<and> f = g"
  using assms by (auto simp: makeKey_def plain_def)

lemma splitKey_makeKey:
  assumes "length i = 64" "plain f"
  shows "splitKey (makeKey i f) = Some (i, f)"
  using assms by (auto simp: makeKey_def splitKey_def plain_def Let_def)

lemma owned_makeKey: "i \<noteq> nodeDBNilNodeID \<Longrightarrow> owned i (makeKey i f)"
  by (simp add: owned_def makeKey_def)

lemma owned_unique: "owned i k \<Longrightarrow> owned j k \<Longrightarrow> length i = length j \<Longrightarrow> i = j"
  by (auto simp: owned_def prefix_def)

text \<open>The keys that the operations write: none is the record of the nil identifier, and those of nodes are long enough.\<close>

definition key_ok :: "bytes \<Rightarrow> bool" where
  "key_ok k \<longleftrightarrow> k \<noteq> nodeDBDiscoverRoot \<and>
     (prefix nodeDBItemPrefix k \<longrightarrow> 66 \<le> length k \<and> take 64 (drop 2 k) \<noteq> nodeDBNilNodeID)"

lemma length_nodeDBItemPrefix [simp]: "length nodeDBItemPrefix = 2"
  by (simp add: field_defs)

lemma length_nodeDBNilNodeID [simp]: "length nodeDBNilNodeID = 64"
  by (simp add: nodeDBNilNodeID_def)

lemma makeKey_ok:
  assumes "length i = 64" "i \<noteq> nodeDBNilNodeID"
  shows "key_ok (makeKey i f)"
proof -
  have "nodeDBItemPrefix @ i @ f \<noteq> nodeDBDiscoverRoot" using plain_fields(1) by (metis plain_def prefixI)
  with assms show ?thesis by (simp add: key_ok_def makeKey_def)
qed

lemma splitKey_item: "length i = 64 \<Longrightarrow> splitKey (nodeDBItemPrefix @ i @ f) = Some (i, f)"
  by (simp add: splitKey_def Let_def)

lemma splitKey_ok:
  assumes "key_ok k"
  obtains i f where "splitKey k = Some (i, f)" "length i = 64"
    "f = nodeDBDiscoverRoot \<Longrightarrow> i \<noteq> nodeDBNilNodeID \<and> k = nodeDBItemPrefix @ i @ nodeDBDiscoverRoot"
proof (cases "prefix nodeDBItemPrefix k")
  case True
  then obtain item where k: "k = nodeDBItemPrefix @ item" by (auto simp: prefix_def)
  with assms True have item: "64 \<le> length item" "take 64 item \<noteq> nodeDBNilNodeID" by (auto simp: key_ok_def)
  have "splitKey k = Some (take 64 item, drop 64 item)" using k item by (simp add: splitKey_def Let_def)
  then show ?thesis using k item that[of "take 64 item" "drop 64 item"]
    by (metis append_take_drop_id length_take min.absorb2)
next
  case False
  then have "splitKey k = Some (nodeDBNilNodeID, k)" by (simp add: splitKey_def)
  then show ?thesis using assms that[of nodeDBNilNodeID k] by (simp add: key_ok_def)
qed

section \<open>What the store promises\<close>

text \<open>
  The documented behaviour of goleveldb: a write changes nothing but its key, a write that reports no error is seen by the
  next read, and an iterator visits the entries in the order of their keys.
\<close>

definition kv_ok :: "'s nodeEnv \<Rightarrow> bool" where
  "kv_ok K \<longleftrightarrow>
     (\<forall>k v s k'. k' \<noteq> k \<longrightarrow> kv_Get K k' (snd (kv_Put K k v s)) = kv_Get K k' s) \<and>
     (\<forall>k v s. fst (kv_Put K k v s) = None \<longrightarrow> kv_Get K k (snd (kv_Put K k v s)) = Inr v) \<and>
     (\<forall>k s k'. k' \<noteq> k \<longrightarrow> kv_Get K k' (snd (kv_Delete K k s)) = kv_Get K k' s) \<and>
     (\<forall>k s. fst (kv_Delete K k s) = None \<longrightarrow> kv_Get K k (snd (kv_Delete K k s)) = Inl KvNotFound) \<and>
     (\<forall>s. sorted (map fst (kv_Iter K s)) \<and> distinct (map fst (kv_Iter K s)) \<and>
        set (kv_Iter K s) = {(k, v). kv_Get K k s = Inr v})"

lemma kv_okD:
  assumes "kv_ok K"
  shows "k' \<noteq> k \<Longrightarrow> kv_Get K k' (snd (kv_Put K k v s)) = kv_Get K k' s"
    and "fst (kv_Put K k v s) = None \<Longrightarrow> kv_Get K k (snd (kv_Put K k v s)) = Inr v"
    and "k' \<noteq> k \<Longrightarrow> kv_Get K k' (snd (kv_Delete K k s)) = kv_Get K k' s"
    and "fst (kv_Delete K k s) = None \<Longrightarrow> kv_Get K k (snd (kv_Delete K k s)) = Inl KvNotFound"
    and "distinct (map fst (kv_Iter K s))"
    and "(k, v) \<in> set (kv_Iter K s) \<longleftrightarrow> kv_Get K k s = Inr v"
  using assms unfolding kv_ok_def by auto

lemma fetch_after_store:
  assumes "kv_ok K" and "fst (storeInt64 K key n db) = None"
  shows "fetchInt64 K key' (snd (storeInt64 K key n db)) = (if key' = key then n else fetchInt64 K key' db)"
proof -
  have "0 < int (length (PutVarint n))" using length_PutVarint[of n] by linarith
  moreover have "fst (kv_Put K key (PutVarint n) (lvl db)) = None"
    using assms(2) by (simp add: storeInt64_def split_beta Let_def)
  ultimately show ?thesis
    using kv_okD(1,2)[OF assms(1)] by (auto simp: fetchInt64_def storeInt64_def split_beta Let_def Varint_PutVarint split: sum.split)
qed

lemma time_Unix_of_Unix:
  assumes "0 \<le> t" and "t < 2 ^ 63 * second"
  shows "time_Unix (Time_Unix t) = t - t mod second"
proof -
  have "0 \<le> t div second" using assms(1) by (simp add: second_def pos_imp_zdiv_nonneg_iff)
  moreover have "t div second < 2 ^ 63" using assms(2) by (simp add: second_def)
  ultimately have "sint (of_int (t div second) :: int64) = t div second"
    by (simp add: signed_of_int signed_take_bit_int_eq_self)
  then show ?thesis by (simp add: time_Unix_def Time_Unix_def minus_mod_eq_div_mult)
qed

section \<open>Bonds\<close>

lemma timeSub_less: "- (2 ^ 63) < e \<Longrightarrow> e < 2 ^ 63 \<Longrightarrow> timeSub t u < e \<longleftrightarrow> t - u < e"
  by (auto simp: timeSub_def)

lemma last_pong_after:
  assumes "kv_ok K" "length i = 64" "length j = 64" "fst (updateLastPongReceived K i t db) = None"
    and "0 \<le> t" "t < 2 ^ 63 * second"
  shows "lastPongReceived K j (snd (updateLastPongReceived K i t db)) =
     (if j = i then t - t mod second else lastPongReceived K j db)"
  using assms fetch_after_store[OF assms(1), of "makeKey i nodeDBDiscoverPong" "Time_Unix t" db "makeKey j nodeDBDiscoverPong"]
  by (auto simp: lastPongReceived_def updateLastPongReceived_def makeKey_eq time_Unix_of_Unix)

text \<open>
  A pong that is recorded without an error makes its sender bonded for a day from the second at which it came, and for
  no longer; the bond of every other node stays as it was.
\<close>

theorem bond_lasts_a_day:
  assumes "kv_ok K" "length i = 64" "length j = 64"
    and "updateLastPongReceived K i t db = (None, db')" and "0 \<le> t" "t < 2 ^ 63 * second"
  shows "hasBond K now j db' \<longleftrightarrow>
     (if j = i then now < t - t mod second + 24 * 3600 * second else hasBond K now j db)"
  using last_pong_after[of K i j t db] assms
  by (auto simp: hasBond_def timeSub_less nodeDBNodeExpiration_def second_def)

section \<open>Expiration\<close>

lemma deleteLoop_all:
  assumes K: "kv_ok K" and ok: "\<And>k s. fst (kv_Delete K k s) = None"
  shows "fst (deleteLoop K ks s) = None \<and>
    kv_Get K k (snd (deleteLoop K ks s)) = (if k \<in> set ks then Inl KvNotFound else kv_Get K k s)"
proof (induction ks arbitrary: s)
  case Nil
  then show ?case by simp
next
  case (Cons k0 ks)
  have "deleteLoop K (k0 # ks) s = deleteLoop K ks (snd (kv_Delete K k0 s))"
    using ok[of k0 s] by (simp add: split_beta Let_def)
  then show ?case using Cons.IH[of "snd (kv_Delete K k0 s)"] kv_okD(3,4)[OF K] ok by (cases "k = k0") auto
qed

definition entry :: "'s nodeEnv \<Rightarrow> bytes \<Rightarrow> 's nodeDB \<Rightarrow> bytes option" where
  "entry K k db = (case kv_Get K k (lvl db) of Inl _ \<Rightarrow> None | Inr v \<Rightarrow> Some v)"

lemma entry_Some: "entry K k db = Some v \<longleftrightarrow> kv_Get K k (lvl db) = Inr v"
  by (simp add: entry_def split: sum.split)

lemma entry_iter: "kv_ok K \<Longrightarrow> k \<in> set (map fst (kv_Iter K (lvl db))) \<longleftrightarrow> entry K k db \<noteq> None"
proof -
  assume K: "kv_ok K"
  have "k \<in> set (map fst (kv_Iter K (lvl db))) \<longleftrightarrow> (\<exists>v. (k, v) \<in> set (kv_Iter K (lvl db)))" by force
  also have "\<dots> \<longleftrightarrow> (\<exists>v. entry K k db = Some v)" by (simp only: kv_okD(6)[OF K] entry_Some)
  finally show ?thesis by simp
qed

lemma fetch_entry: "fetchInt64 K k db =
    (case entry K k db of None \<Rightarrow> 0 | Some blob \<Rightarrow> (let (val, read) = Varint blob in if read \<le> 0 then 0 else val))"
  by (simp add: fetchInt64_def entry_def split: sum.split)

lemma deleteNode_entry:
  assumes K: "kv_ok K" and ok: "\<And>k s. fst (kv_Delete K k s) = None" and i: "i \<noteq> nodeDBNilNodeID"
  shows "entry K k (snd (db_deleteNode K i db)) = (if owned i k then None else entry K k db)"
proof -
  let ?ks = "filter (prefix (makeKey i [])) (map fst (kv_Iter K (lvl db)))"
  have "makeKey i [] = nodeDBItemPrefix @ i" using i by (simp add: makeKey_def)
  then have ks: "k \<in> set ?ks \<longleftrightarrow> owned i k \<and> entry K k db \<noteq> None"
    using entry_iter[OF K, of k db] by (auto simp: owned_def)
  have "kv_Get K k (lvl (snd (db_deleteNode K i db))) = (if k \<in> set ?ks then Inl KvNotFound else kv_Get K k (lvl db))"
    using deleteLoop_all[OF K ok, of ?ks "lvl db" k] by (cases db) (simp only: db_deleteNode_def split_beta Let_def snd_conv nodeDB.update_convs nodeDB.select_convs)
  with ks show ?thesis by (auto simp: entry_def split: sum.splits)
qed

lemma deleteNode_self: "db_self (snd (db_deleteNode K i db)) = db_self db"
  by (simp add: db_deleteNode_def split_beta Let_def)

definition rootKey :: "NodeID \<Rightarrow> bytes" where
  "rootKey i = nodeDBItemPrefix @ i @ nodeDBDiscoverRoot"

definition expires :: "'s nodeEnv \<Rightarrow> int \<Rightarrow> NodeID \<Rightarrow> 's nodeDB \<Rightarrow> bool" where
  "expires K threshold i db \<longleftrightarrow> i = db_self db \<or> lastPongReceived K i db \<le> threshold"

lemma last_pong_entry:
  "entry K (makeKey i nodeDBDiscoverPong) db' = entry K (makeKey i nodeDBDiscoverPong) db \<Longrightarrow>
    lastPongReceived K i db' = lastPongReceived K i db"
  by (simp add: lastPongReceived_def fetch_entry)

lemma expireLoop_entries:
  assumes K: "kv_ok K" and ok: "\<And>k s. fst (kv_Delete K k s) = None"
    and "distinct ks" and "\<And>k. k \<in> set ks \<Longrightarrow> key_ok k"
  shows "\<exists>db'. expireLoop K threshold ks db = Returned db' \<and> db_self db' = db_self db \<and>
    (\<forall>i k. length i = 64 \<and> owned i k \<and> i \<noteq> nodeDBNilNodeID \<longrightarrow>
       entry K k db' = (if rootKey i \<in> set ks \<and> expires K threshold i db then None else entry K k db)) \<and>
    (\<forall>k. plain k \<longrightarrow> entry K k db' = entry K k db)"
  using assms(3,4)
proof (induction ks arbitrary: db)
  case Nil
  then show ?case by simp
next
  case (Cons k0 ks)
  obtain i0 f where split: "splitKey k0 = Some (i0, f)" "length i0 = 64"
    and root: "f = nodeDBDiscoverRoot \<Longrightarrow> i0 \<noteq> nodeDBNilNodeID \<and> k0 = rootKey i0"
    using Cons.prems(2)[of k0] unfolding rootKey_def by (metis list.set_intros(1) splitKey_ok)
  have key: "rootKey i = k0 \<longleftrightarrow> i = i0 \<and> f = nodeDBDiscoverRoot" if "length i = 64" for i
    using split root splitKey_item[OF that, of nodeDBDiscoverRoot] unfolding rootKey_def by force
  show ?case
  proof (cases "f = nodeDBDiscoverRoot \<and> expires K threshold i0 db")
    case False
    then have "expireLoop K threshold (k0 # ks) db = expireLoop K threshold ks db"
      using split by (auto simp: expires_def)
    moreover have "rootKey i \<in> set (k0 # ks) \<and> expires K threshold i db \<longleftrightarrow> rootKey i \<in> set ks \<and> expires K threshold i db"
      if "length i = 64" for i
      using False key[OF that] by auto
    ultimately show ?thesis using Cons.IH[of db] Cons.prems by simp
  next
    case True
    let ?db = "snd (db_deleteNode K i0 db)"
    have i0: "i0 \<noteq> nodeDBNilNodeID" "k0 = rootKey i0" using True root by auto
    note del = deleteNode_entry[OF K ok i0(1), of _ db]
    have loop: "expireLoop K threshold (k0 # ks) db = expireLoop K threshold ks ?db"
      using True split by (auto simp: expires_def)
    have other: "expires K threshold i ?db = expires K threshold i db"
      if "length i = 64" "i \<noteq> i0" "i \<noteq> nodeDBNilNodeID" for i
    proof -
      have "\<not> owned i0 (makeKey i nodeDBDiscoverPong)"
        using that owned_unique[OF owned_makeKey, of i i0] split(2) by auto
      then show ?thesis using del last_pong_entry[of K i ?db db] by (simp add: expires_def deleteNode_self)
    qed
    obtain db' where db': "expireLoop K threshold ks ?db = Returned db'" "db_self db' = db_self db"
      "\<And>i k. length i = 64 \<Longrightarrow> owned i k \<Longrightarrow> i \<noteq> nodeDBNilNodeID \<Longrightarrow>
         entry K k db' = (if rootKey i \<in> set ks \<and> expires K threshold i ?db then None else entry K k ?db)"
      "\<And>k. plain k \<Longrightarrow> entry K k db' = entry K k ?db"
      using Cons.IH[of ?db] Cons.prems by (auto simp: deleteNode_self)
    have "entry K k db' = (if rootKey i \<in> set (k0 # ks) \<and> expires K threshold i db then None else entry K k db)"
      if i: "length i = 64" "owned i k" "i \<noteq> nodeDBNilNodeID" for i k
    proof (cases "i = i0")
      case True
      then show ?thesis using db'(3)[OF i] del[of k] i i0 \<open>f = _ \<and> _\<close> by simp
    next
      case False
      then have "\<not> owned i0 k" "rootKey i \<noteq> k0" using i split(2) owned_unique[of i k i0] key by auto
      then show ?thesis using db'(3)[OF i] del[of k] other[OF i(1) False i(3)] by simp
    qed
    moreover have "entry K k db' = entry K k db" if "plain k" for k
      using that db'(4)[OF that] del[of k] by (auto simp: plain_def owned_def prefix_def)
    ultimately show ?thesis using loop db'(1,2) by auto
  qed
qed

text \<open>C36. \<^verbatim>\<open>expireNodes\<close> ends and removes every entry of exactly those nodes that have a node record and that are the node itself
  or have sent no pong for a day; the entries of the others stay.  In particular the times and counts kept for a
  node without a record stay for ever.
\<close>

theorem expire_nodes:
  assumes "kv_ok K" and "\<And>k s. fst (kv_Delete K k s) = None"
    and "\<And>k. entry K k db \<noteq> None \<Longrightarrow> key_ok k"
  shows "\<exists>db'. expireNodes K now db = Returned db' \<and>
    (\<forall>i k. length i = 64 \<and> owned i k \<and> i \<noteq> nodeDBNilNodeID \<longrightarrow>
       entry K k db' =
        (if entry K (makeKey i nodeDBDiscoverRoot) db \<noteq> None \<and>
            (i = db_self db \<or> lastPongReceived K i db \<le> now - nodeDBNodeExpiration)
         then None else entry K k db)) \<and>
    (\<forall>k. plain k \<longrightarrow> entry K k db' = entry K k db)"
proof -
  have "rootKey i \<in> set (map fst (kv_Iter K (lvl db))) \<longleftrightarrow> entry K (makeKey i nodeDBDiscoverRoot) db \<noteq> None"
    if "i \<noteq> nodeDBNilNodeID" for i
    using that entry_iter[OF assms(1), of "rootKey i" db] by (simp add: rootKey_def makeKey_def)
  moreover have "key_ok k" if "k \<in> set (map fst (kv_Iter K (lvl db)))" for k
    using that assms(3) entry_iter[OF assms(1)] by blast
  ultimately show ?thesis
    using expireLoop_entries[OF assms(1,2) kv_okD(5)[OF assms(1)], of "lvl db" "now - nodeDBNodeExpiration" db]
    by (auto simp: expireNodes_def expires_def simp del: set_map)
qed

section \<open>Nodes are read back\<close>

text \<open>
  A node that was stored without an error is read back with its hash computed afresh and without the time at which it
  was added, which the encoding leaves out; every other node is read as before.
\<close>

theorem node_read_back:
  assumes K: "kv_ok K" and "length (n_ID n) = 64" "length j = 64"
    and enc: "rlp_encNode K n = Inr blob" and dec: "rlp_decNode K blob = Inr (n\<lparr>n_sha := z, n_addedAt := 0\<rparr>)"
    and up: "updateNode K n db = (None, db')"
  shows "db_node K j db' =
    (if j = n_ID n then Some (n\<lparr>n_sha := keccakNode K (n_ID n), n_addedAt := 0\<rparr>) else db_node K j db)"
proof -
  let ?k = "makeKey (n_ID n) nodeDBDiscoverRoot"
  have put: "fst (kv_Put K ?k blob (lvl db)) = None" "lvl db' = snd (kv_Put K ?k blob (lvl db))"
    using up enc by (auto simp: updateNode_def split_beta Let_def)
  have "kv_Get K (makeKey j nodeDBDiscoverRoot) (lvl db') =
      (if j = n_ID n then Inr blob else kv_Get K (makeKey j nodeDBDiscoverRoot) (lvl db))"
    using kv_okD(1,2)[OF K] put assms(2,3) by (simp add: makeKey_eq)
  then show ?thesis using dec by (simp add: db_node_def split: sum.split)
qed

section \<open>Seeds\<close>

lemma nextNode_ok:
  assumes "\<And>k v. (k, v) \<in> set it \<Longrightarrow> key_ok k"
  obtains m where "nextNode K it = Returned m"
    "\<And>n. m = Some n \<Longrightarrow> \<exists>i v. (rootKey i, v) \<in> set it \<and> rlp_decNode K v = Inr n"
  using assms
proof (induction it arbitrary: thesis)
  case Nil
  then show ?case by simp
next
  case (Cons e it)
  obtain k v where e: "e = (k, v)" by fastforce
  obtain i f where split: "splitKey k = Some (i, f)"
    "f = nodeDBDiscoverRoot \<Longrightarrow> k = rootKey i"
    using Cons.prems(2)[of k v] e unfolding rootKey_def by (metis list.set_intros(1) splitKey_ok)
  obtain m where m: "nextNode K it = Returned m"
    "\<And>n. m = Some n \<Longrightarrow> \<exists>i v. (rootKey i, v) \<in> set it \<and> rlp_decNode K v = Inr n"
    using Cons.IH Cons.prems(2) by (metis list.set_intros(2))
  show ?case
  proof (cases "f = nodeDBDiscoverRoot \<and> (\<exists>n. rlp_decNode K v = Inr n)")
    case True
    then obtain n where n: "f = nodeDBDiscoverRoot" "rlp_decNode K v = Inr n" by blast
    then have "nextNode K (e # it) = Returned (Some n)" using split(1) e by simp
    then show ?thesis using Cons.prems(1)[of "Some n"] n split(2) e by auto
  next
    case False
    then have "nextNode K (e # it) = Returned m" using split e m(1) by (auto split: sum.split)
    then show ?thesis using Cons.prems(1)[of m] m(2) by (metis list.set_intros(2))
  qed
qed

definition seed_ok :: "'s nodeEnv \<Rightarrow> int \<Rightarrow> int \<Rightarrow> 's nodeDB \<Rightarrow> Node \<Rightarrow> bool" where
  "seed_ok K now maxAge db m \<longleftrightarrow>
     n_ID m \<noteq> db_self db \<and> timeSub now (lastPongReceived K (n_ID m) db) \<le> maxAge \<and>
     (\<exists>i v. entry K (rootKey i) db = Some v \<and> rlp_decNode K v = Inr m)"

lemma seekLoop_ok:
  assumes it: "\<And>k v. (k, v) \<in> set it \<Longrightarrow> key_ok k \<and> entry K k db = Some v"
    and "length nodes \<le> n" "distinct (map n_ID nodes)" "\<And>m. m \<in> set nodes \<Longrightarrow> seed_ok K now maxAge db m"
  shows "\<exists>ns. seekLoop K rnd now n maxAge it db todo i nodes = Returned ns \<and> length ns \<le> n \<and> distinct (map n_ID ns) \<and>
    (\<forall>m\<in>set ns. seed_ok K now maxAge db m)"
  using assms(2-4)
proof (induction todo arbitrary: i nodes)
  case 0
  then show ?case by simp
next
  case (Suc todo)
  show ?case
  proof (cases "length nodes \<ge> n")
    case True
    then show ?thesis using Suc.prems by simp
  next
    case False
    define i' where "i' = (rnd (n * 5 - Suc todo))[0 := i ! 0 + rnd (n * 5 - Suc todo) ! 0 mod 16]"
    define pos where "pos = dropWhile (\<lambda>e. fst e < makeKey i' nodeDBDiscoverRoot) it"
    have pos: "set pos \<subseteq> set it" by (auto simp: pos_def dest: set_dropWhileD)
    have keys: "key_ok k" if "(k, v) \<in> set pos" for k v using that it pos by blast
    obtain m where m: "nextNode K pos = Returned m"
      "\<And>x. m = Some x \<Longrightarrow> \<exists>i v. (rootKey i, v) \<in> set pos \<and> rlp_decNode K v = Inr x"
      by (rule nextNode_ok[of pos K, OF keys]) blast+
    note IH = Suc.IH[OF Suc.prems]
    have step: "seekLoop K rnd now n maxAge it db (Suc todo) i nodes =
      (case m of None \<Rightarrow> seekLoop K rnd now n maxAge it db todo (i'[0 := 0]) nodes
       | Some x \<Rightarrow>
         if n_ID x = db_self db \<or> timeSub now (lastPongReceived K (n_ID x) db) > maxAge \<or> n_ID x \<in> n_ID ` set nodes
         then seekLoop K rnd now n maxAge it db todo i' nodes
         else seekLoop K rnd now n maxAge it db todo i' (nodes @ [x]))"
    proof -
      have ex: "list_ex (\<lambda>y. n_ID y = n_ID x) nodes \<longleftrightarrow> n_ID x \<in> n_ID ` set nodes" for x
        by (induction nodes) auto
      show ?thesis
        unfolding seekLoop.simps(2) Let_def i'_def[symmetric] pos_def[symmetric] m(1) ex if_not_P[OF False] outcome.case
        by (cases m) simp_all
    qed
    show ?thesis
    proof (cases "\<exists>x. m = Some x \<and> \<not> (n_ID x = db_self db \<or> timeSub now (lastPongReceived K (n_ID x) db) > maxAge \<or> n_ID x \<in> n_ID ` set nodes)")
      case True
      then obtain x where x: "m = Some x" "n_ID x \<noteq> db_self db" "\<not> timeSub now (lastPongReceived K (n_ID x) db) > maxAge"
        "n_ID x \<notin> n_ID ` set nodes" by blast
      then have "seed_ok K now maxAge db x"
        using m(2)[of x] it pos by (fastforce simp: seed_ok_def)
      then show ?thesis
        using step x False Suc.prems Suc.IH[of "nodes @ [x]" i'] by auto
    next
      case False
      then show ?thesis using step IH[of "i'[0 := 0]"] IH[of i'] by (auto split: option.split)
    qed
  qed
qed

text \<open>
  \<^verbatim>\<open>querySeeds\<close> ends, whatever the random generator returns, with at most as many nodes as were asked for: no two
  with the same identifier, none the node itself, each decoded from a node record and none whose last pong is older than
  the age asked for.
\<close>

theorem query_seeds:
  assumes "kv_ok K" and "\<And>k. entry K k db \<noteq> None \<Longrightarrow> key_ok k"
  shows "\<exists>ns. querySeeds K rnd now n maxAge db = Returned ns \<and> length ns \<le> n \<and> distinct (map n_ID ns) \<and>
    (\<forall>m\<in>set ns. n_ID m \<noteq> db_self db \<and> timeSub now (lastPongReceived K (n_ID m) db) \<le> maxAge \<and>
       (\<exists>i v. entry K (rootKey i) db = Some v \<and> rlp_decNode K v = Inr m))"
  using seekLoop_ok[of "kv_Iter K (lvl db)" K db "[]" n now maxAge rnd "n * 5" nodeDBNilNodeID]
    assms kv_okD(6)[OF assms(1)]
  by (simp add: querySeeds_def seed_ok_def entry_Some)

section \<open>Versions\<close>

text \<open>
  Opening the database ends.  Entries of the current version are kept, those of another one are removed, and the
  version is recorded.
\<close>

theorem version_flush:
  assumes K: "kv_ok K" and put: "\<And>k v s. fst (kv_Put K k v s) = None"
    and s: "openFile F f = Inr s" "\<And>k e. kv_Get K k s = Inl e \<Longrightarrow> e = KvNotFound"
    and clean: "removeAll F f = (None, f')" "openFile F f' = Inr s'" "\<And>k. kv_Get K k s' = Inl KvNotFound"
  shows "\<exists>db. newPersistentNodeDB K F version self f = Some (Inr db) \<and> db_self db = self \<and>
    entry K nodeDBVersionKey db = Some (PutVarint version) \<and>
    (\<forall>k. k \<noteq> nodeDBVersionKey \<longrightarrow> kv_Get K k (lvl db) =
       (if kv_Get K nodeDBVersionKey s \<in> {Inl KvNotFound, Inr (PutVarint version)} then kv_Get K k s else Inl KvNotFound))"
proof -
  have fresh: "newPersistentNodeDB K F version self g =
      Some (Inr \<lparr>lvl = snd (kv_Put K nodeDBVersionKey (PutVarint version) t), db_self = self\<rparr>)"
    if "openFile F g = Inr t" "kv_Get K nodeDBVersionKey t = Inl KvNotFound" for g t
    using that put[of nodeDBVersionKey "PutVarint version" t]
    by (subst newPersistentNodeDB.simps) (auto simp: Let_def split: prod.split)
  have written: "entry K nodeDBVersionKey \<lparr>lvl = snd (kv_Put K nodeDBVersionKey v t), db_self = self\<rparr> = Some v"
    "k \<noteq> nodeDBVersionKey \<Longrightarrow> kv_Get K k (snd (kv_Put K nodeDBVersionKey v t)) = kv_Get K k t" for v t k
    using kv_okD(1,2)[OF K] put by (simp_all add: entry_def)
  consider "kv_Get K nodeDBVersionKey s = Inl KvNotFound" | "kv_Get K nodeDBVersionKey s = Inr (PutVarint version)"
    | blob where "kv_Get K nodeDBVersionKey s = Inr blob" "blob \<noteq> PutVarint version"
    using s(2) by (cases "kv_Get K nodeDBVersionKey s") auto
  then show ?thesis
  proof cases
    case 1
    then show ?thesis using fresh[OF s(1)] written by simp
  next
    case 2
    then have "newPersistentNodeDB K F version self f = Some (Inr \<lparr>lvl = s, db_self = self\<rparr>)"
      using s(1) by (subst newPersistentNodeDB.simps) (simp add: Let_def)
    then show ?thesis using 2 by (simp add: entry_def)
  next
    case 3
    then have "newPersistentNodeDB K F version self f = newPersistentNodeDB K F version self f'"
      using s(1) clean(1) by (subst newPersistentNodeDB.simps) (simp add: Let_def)
    then show ?thesis using 3 fresh[OF clean(2,3)] written clean(3) by simp
  qed
qed

section \<open>A store in memory\<close>

text \<open>A store that keeps the promises: a list of entries, the newest first.\<close>

definition sampleNode :: "NodeID \<Rightarrow> Node" where
  "sampleNode i = NewNode (\<lambda>_. replicate 32 0) i [8, 8, 8, 8] 30303 30303"

definition memNodes :: "(bytes \<times> bytes) list nodeEnv" where
  "memNodes =
     \<lparr>kv_Get = (\<lambda>k s. case map_of s k of None \<Rightarrow> Inl KvNotFound | Some v \<Rightarrow> Inr v),
      kv_Put = (\<lambda>k v s. (None, (k, v) # s)),
      kv_Delete = (\<lambda>k s. (None, filter (\<lambda>e. fst e \<noteq> k) s)),
      kv_Iter = (\<lambda>s. sort_key fst (AList.clearjunk s)),
      rlp_encNode = (\<lambda>n. Inr (n_ID n)),
      rlp_decNode = (\<lambda>i. Inr (sampleNode i)),
      keccakNode = toyKeccak\<rparr>"

lemma memNodes_ok: "kv_ok memNodes"
proof -
  have del: "map_of (filter (\<lambda>e. fst e \<noteq> k) s) k' = (if k' = k then None else map_of s k')" for k k' and s :: "(bytes \<times> bytes) list"
    by (induction s) auto
  have "set (AList.clearjunk s) = {(k, v). map_of s k = Some v}" for s :: "(bytes \<times> bytes) list"
    using map_of_clearjunk[of s] distinct_clearjunk[of s] by (auto simp: map_of_eq_Some_iff[symmetric])
  moreover have "distinct (map fst (sort_key fst (AList.clearjunk s)))" for s :: "(bytes \<times> bytes) list"
    using distinct_clearjunk[of s] by (simp add: distinct_map)
  ultimately show ?thesis
    by (auto simp: kv_ok_def memNodes_def del split: option.splits)
qed

definition sampleID :: "byte \<Rightarrow> NodeID" where
  "sampleID b = replicate 63 0 @ [b]"

definition sampleTime :: int where "sampleTime = 63000000000 * second + 5"

definition sampleDB :: "(bytes \<times> bytes) list nodeDB" where
  "sampleDB = snd (updateLastPingReceived memNodes (sampleID 9) 0
     (snd (updateLastPongReceived memNodes (sampleID 7) sampleTime
       (snd (updateNode memNodes (sampleNode (sampleID 8))
         (snd (updateNode memNodes (sampleNode (sampleID 7)) \<lparr>lvl = [], db_self = sampleID 1\<rparr>)))))))"

lemma sampleID_simps [simp]: "length (sampleID b) = 64" "sampleID b = nodeDBNilNodeID \<longleftrightarrow> b = 0" "sampleID b = sampleID c \<longleftrightarrow> b = c"
proof -
  have "nodeDBNilNodeID = sampleID 0"
    by (simp add: sampleID_def nodeDBNilNodeID_def replicate_append_same flip: replicate_Suc)
  then show "sampleID b = nodeDBNilNodeID \<longleftrightarrow> b = 0" by (metis last_snoc sampleID_def)
qed (simp_all add: sampleID_def)

theorem bond_lasts_a_day_witness:
  "hasBond memNodes (sampleTime + second) (sampleID 7) (snd (updateLastPongReceived memNodes (sampleID 7) sampleTime sampleDB)) \<and>
   \<not> hasBond memNodes (sampleTime + 25 * 3600 * second) (sampleID 7) (snd (updateLastPongReceived memNodes (sampleID 7) sampleTime sampleDB))"
proof -
  have "updateLastPongReceived memNodes (sampleID 7) sampleTime sampleDB =
      (None, snd (updateLastPongReceived memNodes (sampleID 7) sampleTime sampleDB))"
    by (simp add: updateLastPongReceived_def storeInt64_def memNodes_def)
  from bond_lasts_a_day[OF memNodes_ok _ _ this, of "sampleID 7"] show ?thesis
    by (simp add: sampleTime_def second_def)
qed

lemma sampleDB_keys: "entry memNodes k sampleDB \<noteq> None \<Longrightarrow> key_ok k"
  by (auto simp: sampleDB_def entry_def updateLastPingReceived_def updateLastPongReceived_def updateNode_def storeInt64_def
      memNodes_def sampleNode_def NewNode_def makeKey_ok split: if_splits)

theorem expire_nodes_witness:
  "\<exists>db'. expireNodes memNodes (sampleTime + 3600 * second) sampleDB = Returned db' \<and>
    entry memNodes (makeKey (sampleID 7) nodeDBDiscoverRoot) db' \<noteq> None \<and>
    entry memNodes (makeKey (sampleID 8) nodeDBDiscoverRoot) db' = None \<and>
    entry memNodes (makeKey (sampleID 9) nodeDBDiscoverPing) db' \<noteq> None"
proof -
  have del: "fst (kv_Delete memNodes k s) = None" for k s by (simp add: memNodes_def)
  have own: "owned (sampleID b) (makeKey (sampleID b) f)" if "b \<noteq> 0" for b f
    using that by (simp add: owned_makeKey)
  have pong: "lastPongReceived memNodes (sampleID 7) sampleDB = 63000000000 * second"
    "lastPongReceived memNodes (sampleID 8) sampleDB = unixToInternal * second"
    "entry memNodes (makeKey (sampleID 7) nodeDBDiscoverRoot) sampleDB \<noteq> None"
    "entry memNodes (makeKey (sampleID 8) nodeDBDiscoverRoot) sampleDB \<noteq> None"
    "entry memNodes (makeKey (sampleID 9) nodeDBDiscoverRoot) sampleDB = None"
    "entry memNodes (makeKey (sampleID 9) nodeDBDiscoverPing) sampleDB \<noteq> None" "db_self sampleDB = sampleID 1"
    by code_simp+
  obtain db' where db': "expireNodes memNodes (sampleTime + 3600 * second) sampleDB = Returned db'"
    "\<And>b f. b \<noteq> 0 \<Longrightarrow> entry memNodes (makeKey (sampleID b) f) db' =
        (if entry memNodes (makeKey (sampleID b) nodeDBDiscoverRoot) sampleDB \<noteq> None \<and>
            (sampleID b = db_self sampleDB \<or>
             lastPongReceived memNodes (sampleID b) sampleDB \<le> sampleTime + 3600 * second - nodeDBNodeExpiration)
         then None else entry memNodes (makeKey (sampleID b) f) sampleDB)"
    using expire_nodes[OF memNodes_ok del sampleDB_keys, where now = "sampleTime + 3600 * second"] own
    by (metis sampleID_simps(1,2))
  have "\<not> 63000000000 * second \<le> sampleTime + 3600 * second - nodeDBNodeExpiration"
    "unixToInternal * second \<le> sampleTime + 3600 * second - nodeDBNodeExpiration"
    by (simp_all add: sampleTime_def nodeDBNodeExpiration_def second_def unixToInternal_def)
  then show ?thesis
    using db'(1) db'(2)[of 7 nodeDBDiscoverRoot] db'(2)[of 8 nodeDBDiscoverRoot] db'(2)[of 9 nodeDBDiscoverPing] pong
    by simp
qed

theorem query_seeds_witness:
  "\<exists>ns. querySeeds memNodes (\<lambda>_. sampleID 3) sampleTime 5 (3600 * second) sampleDB = Returned ns \<and> length ns \<le> 5"
  using query_seeds[OF memNodes_ok sampleDB_keys, where rnd = "\<lambda>_. sampleID 3" and now = sampleTime and n = 5 and maxAge = "3600 * second"] by blast

end
