(* ===== verification/Udp.thy ===== *)
theory Udp
  imports NodeDb
begin

text \<open>
  \<^verbatim>\<open>p2p/discover/udp.go\<close>: the discovery protocol.  The goroutine \<^verbatim>\<open>loop\<close> keeps the requests that wait for a reply; it is
  an event machine, one event per turn.  The handlers of the four packets and the requests are functions on the state
  that hand their events to the loop.  The callbacks of a request are its captured variables.  RLP, the
  signatures of the curve and the hash function are fields of an argument; \<^verbatim>\<open>clk\<close> are the successive readings of the clock.
\<close>

unbundle bit_operations_syntax

section \<open>Packets\<close>

datatype udpError =
    errPacketTooSmall | errBadHash | errExpired | errUnsolicitedReply | errUnknownNode | errTimeout | errClockWarp | errClosed
  | errLowPort | errRelay relayError | errNetrestrict | errComplete completeError
  | errEncode string | errSign string | errRecover string | errPubkeyBits nat | errUnknownType byte | errDecode string

definition respTimeout :: int where "respTimeout = 500 * 10 ^ 6"
definition expiration :: int where "expiration = 20 * second"
definition ntpFailureThreshold :: nat where "ntpFailureThreshold = 32"
definition ntpWarningCooldown :: int where "ntpWarningCooldown = 600 * second"

definition pingPacket :: byte where "pingPacket = 1"
definition pongPacket :: byte where "pongPacket = 2"
definition findnodePacket :: byte where "findnodePacket = 3"
definition neighborsPacket :: byte where "neighborsPacket = 4"

record rpcEndpoint =
  ep_IP :: IP
  ep_UDP :: "16 word"
  ep_TCP :: "16 word"

record rpcNode =
  rn_IP :: IP
  rn_UDP :: "16 word"
  rn_TCP :: "16 word"
  rn_ID :: NodeID

record UDPAddr =
  ua_IP :: IP
  ua_Port :: int64

text \<open>The fields \<^verbatim>\<open>Rest\<close>, which keep the tail of a longer packet, are read nowhere and left out.\<close>

datatype packet =
    ping (Version: "64 word") (From: rpcEndpoint) (To: rpcEndpoint) (Expiration: "64 word")
  | pong (To: rpcEndpoint) (ReplyTok: bytes) (Expiration: "64 word")
  | findnode (Target: NodeID) (Expiration: "64 word")
  | neighbors (Nodes: "rpcNode list") (Expiration: "64 word")

definition makeEndpoint :: "UDPAddr \<Rightarrow> 16 word \<Rightarrow> rpcEndpoint" where
  "makeEndpoint addr tcpPort =
     \<lparr>ep_IP = (case To4 (ua_IP addr) of Some ip \<Rightarrow> ip | None \<Rightarrow> To16 (ua_IP addr)), ep_UDP = ucast (ua_Port addr), ep_TCP = tcpPort\<rparr>"

definition nodeFromRPC ::
  "(bytes \<Rightarrow> hash) \<Rightarrow> (NodeID \<Rightarrow> bool) \<Rightarrow> Netlist option \<Rightarrow> UDPAddr \<Rightarrow> rpcNode \<Rightarrow> udpError + Node" where
  "nodeFromRPC keccak onCurve netrestrict sender rn =
     (if rn_UDP rn \<le> 1024 then Inl errLowPort
      else case CheckRelayIP (ua_IP sender) (rn_IP rn) of
        Some err \<Rightarrow> Inl (errRelay err)
      | None \<Rightarrow>
          if netrestrict \<noteq> None \<and> \<not> Netlist_Contains netrestrict (rn_IP rn) then Inl errNetrestrict
          else (let n = NewNode keccak (rn_ID rn) (rn_IP rn) (rn_UDP rn) (rn_TCP rn) in
            case validateComplete onCurve n of Some err \<Rightarrow> Inl (errComplete err) | None \<Rightarrow> Inr n))"

definition nodeToRPC :: "Node \<Rightarrow> rpcNode" where
  "nodeToRPC n = \<lparr>rn_IP = n_IP n, rn_UDP = n_UDP n, rn_TCP = n_TCP n, rn_ID = n_ID n\<rparr>"

text \<open>\<^verbatim>\<open>uint64(t.Unix())\<close>, and \<^verbatim>\<open>expired\<close> at a reading of the clock.\<close>

definition expirationAt :: "int \<Rightarrow> 64 word" where
  "expirationAt now = Time_Unix (now + expiration)"

definition expired :: "int \<Rightarrow> 64 word \<Rightarrow> bool" where
  "expired now ts \<longleftrightarrow> time_Unix ts < now"

section \<open>Encoding\<close>

definition macSize :: nat where "macSize = 256 div 8"
definition sigSize :: nat where "sigSize = 520 div 8"
definition headSize :: nat where "headSize = macSize + sigSize"

record 's discEnv =
  dbEnv :: "'s nodeEnv"
  rlpEncode :: "packet \<Rightarrow> string + bytes"
  rlpDecode :: "byte \<Rightarrow> bytes \<Rightarrow> string + packet"
  signHash :: "bytes \<Rightarrow> string + bytes"
  recoverPubkey :: "bytes \<Rightarrow> bytes \<Rightarrow> string + bytes"
  keccak256 :: "bytes \<Rightarrow> bytes"
  isOnCurve :: "NodeID \<Rightarrow> bool"
  maxNeighbors :: nat

text \<open>Go's \<^verbatim>\<open>copy(b[off:], src)\<close>.\<close>

definition copyAt :: "nat \<Rightarrow> bytes \<Rightarrow> bytes \<Rightarrow> bytes" where
  "copyAt off src b = take off b @ take (length b - off) src @ drop (off + length src) b"

definition encodePacket :: "'s discEnv \<Rightarrow> byte \<Rightarrow> packet \<Rightarrow> udpError + bytes \<times> bytes" where
  "encodePacket E ptype req =
     (case rlpEncode E req of
        Inl e \<Rightarrow> Inl (errEncode e)
      | Inr body \<Rightarrow>
          (let b = replicate headSize 0 @ [ptype] @ body in
           case signHash E (keccak256 E (drop headSize b)) of
             Inl e \<Rightarrow> Inl (errSign e)
           | Inr sig \<Rightarrow>
               (let b = copyAt macSize sig b; hash = keccak256 E (drop macSize b) in Inr (copyAt 0 hash b, hash))))"

definition recoverNodeID :: "'s discEnv \<Rightarrow> bytes \<Rightarrow> bytes \<Rightarrow> udpError + NodeID" where
  "recoverNodeID E hash sig =
     (case recoverPubkey E hash sig of
        Inl e \<Rightarrow> Inl (errRecover e)
      | Inr pubkey \<Rightarrow>
          if int (length pubkey) - 1 \<noteq> 64 then Inl (errPubkeyBits (length pubkey * 8)) else Inr (drop 1 pubkey))"

definition decodePacket :: "'s discEnv \<Rightarrow> bytes \<Rightarrow> udpError + packet \<times> NodeID \<times> bytes" where
  "decodePacket E buf =
     (if length buf < headSize + 1 then Inl errPacketTooSmall
      else (let hash = take macSize buf; sig = take sigSize (drop macSize buf); sigdata = drop headSize buf;
                shouldhash = keccak256 E (drop macSize buf) in
        if hash \<noteq> shouldhash then Inl errBadHash
        else case recoverNodeID E (keccak256 E (drop headSize buf)) sig of
          Inl e \<Rightarrow> Inl e
        | Inr fromID \<Rightarrow>
            (let ptype = sigdata ! 0 in
             if ptype \<notin> {pingPacket, pongPacket, findnodePacket, neighborsPacket} then Inl (errUnknownType ptype)
             else case rlpDecode E ptype (drop 1 sigdata) of Inl e \<Rightarrow> Inl (errDecode e) | Inr req \<Rightarrow> Inr (req, fromID, hash))))"

text \<open>
  \<^verbatim>\<open>init\<close>: the number of nodes of the largest size that a packet of 1280 bytes takes.  \<open>rlpSize n\<close> is the size of
  the encoding of \<open>n\<close> of them.
\<close>

partial_function (option) initMaxNeighbors :: "(nat \<Rightarrow> string + nat) \<Rightarrow> nat \<Rightarrow> nat outcome option" where
  "initMaxNeighbors rlpSize n =
     (case rlpSize (n + 1) of
        Inl _ \<Rightarrow> Some Panicked
      | Inr sz \<Rightarrow> if headSize + sz + 1 \<ge> 1280 then Some (Returned n) else initMaxNeighbors rlpSize (n + 1))"

section \<open>Requests that wait for a reply\<close>

text \<open>
  What a callback captures: the hash of the ping and the node to add on success; nothing; the address that was
  asked, the number of neighbours received and those that were accepted.
\<close>

datatype callback = PongCb bytes "Node option" | AnyCb | NeighborsCb UDPAddr nat "Node list"

record pending =
  pd_from :: NodeID
  pd_ptype :: byte
  pd_deadline :: int
  pd_callback :: callback
  pd_errc :: nat

text \<open>
  The state.  A channel \<^verbatim>\<open>errc\<close> is a number; \<open>u_results\<close> is what was sent on the channels, and \<open>u_found\<close> the nodes
  that a request for neighbours had collected then, which \<^verbatim>\<open>findnode\<close> returns once it has received from the channel.  \<open>u_timer\<close> is the time for which the timer is set.  \<open>u_sent\<close> is what
  was written to the socket.
\<close>

record 's udp =
  u_netrestrict :: "Netlist option"
  u_ourEndpoint :: rpcEndpoint
  u_db :: "'s nodeDB"
  u_table :: Table
  u_plist :: "pending list"
  u_nextTimeout :: "nat option"
  u_timer :: "int option"
  u_contTimeouts :: nat
  u_ntpWarnTime :: int
  u_driftChecks :: nat
  u_closing :: bool
  u_nextErrc :: nat
  u_results :: "(nat \<times> udpError option) list"
  u_found :: "(nat \<times> Node list) list"
  u_sent :: "(UDPAddr \<times> bytes) list"

fun foundNodes :: "callback \<Rightarrow> Node list" where
  "foundNodes (NeighborsCb _ _ nodes) = nodes"
| "foundNodes _ = []"

definition answer :: "pending \<Rightarrow> udpError option \<Rightarrow> 's udp \<Rightarrow> 's udp" where
  "answer p err u = u\<lparr>u_results := u_results u @ [(pd_errc p, err)],
                      u_found := u_found u @ [(pd_errc p, foundNodes (pd_callback p))]\<rparr>"

text \<open>
  \<^verbatim>\<open>resetTimeout\<close>.  \<^verbatim>\<open>plist.Remove\<close> clears the links of the element, so that \<^verbatim>\<open>el.Next()\<close> is nil after it: every loop over
  the list ends with the first element that it removes.
\<close>

definition resetTimeout :: "int \<Rightarrow> 's udp \<Rightarrow> 's udp" where
  "resetTimeout now u =
     (case u_plist u of
        [] \<Rightarrow> u
      | p # ps \<Rightarrow>
          if u_nextTimeout u = Some (pd_errc p) then u
          else (let dist = timeSub (pd_deadline p) now in
            if dist < 2 * respTimeout then u\<lparr>u_nextTimeout := Some (pd_errc p), u_timer := Some (now + dist)\<rparr>
            else (answer p (Some errClockWarp) u)\<lparr>u_plist := ps, u_nextTimeout := None, u_timer := None\<rparr>))"

text \<open>A callback; it panics if the reply is not of the type that it asserts.\<close>

fun neighborsLoop :: "'s discEnv \<Rightarrow> Netlist option \<Rightarrow> UDPAddr \<Rightarrow> rpcNode list \<Rightarrow> nat \<Rightarrow> Node list \<Rightarrow> nat \<times> Node list" where
  "neighborsLoop E nr toaddr [] nreceived nodes = (nreceived, nodes)"
| "neighborsLoop E nr toaddr (rn # rns) nreceived nodes =
     (case nodeFromRPC (keccak256 E) (isOnCurve E) nr toaddr rn of
        Inl _ \<Rightarrow> neighborsLoop E nr toaddr rns (nreceived + 1) nodes
      | Inr n \<Rightarrow> neighborsLoop E nr toaddr rns (nreceived + 1) (nodes @ [n]))"

fun runCallback :: "'s discEnv \<Rightarrow> int \<Rightarrow> callback \<Rightarrow> packet \<Rightarrow> 's udp \<Rightarrow> (bool \<times> callback \<times> 's udp) outcome" where
  "runCallback E now (PongCb hash cb) (pong _ tok _) u =
     (let ok = (tok = hash) in
      Returned (ok, PongCb hash cb,
        case cb of Some n \<Rightarrow> if ok then u\<lparr>u_table := addThroughPing now n (u_table u)\<rparr> else u | None \<Rightarrow> u))"
| "runCallback E now AnyCb _ u = Returned (True, AnyCb, u)"
| "runCallback E now (NeighborsCb toaddr nreceived nodes) (neighbors rns _) u =
     (let (nreceived, nodes) = neighborsLoop E (u_netrestrict u) toaddr rns nreceived nodes in
      Returned (nreceived \<ge> bucketSize, NeighborsCb toaddr nreceived nodes, u))"
| "runCallback E now _ _ u = Panicked"

text \<open>The loop over the pending requests for a reply: what is before the current element, and from it on.\<close>

fun replyLoop :: "'s discEnv \<Rightarrow> int \<Rightarrow> NodeID \<Rightarrow> byte \<Rightarrow> packet \<Rightarrow> bool \<Rightarrow> pending list \<Rightarrow> pending list \<Rightarrow> 's udp \<Rightarrow> (bool \<times> 's udp) outcome" where
  "replyLoop E now from ptype data matched done [] u = Returned (matched, u\<lparr>u_plist := done\<rparr>)"
| "replyLoop E now from ptype data matched done (p # ps) u =
     (if pd_from p = from \<and> pd_ptype p = ptype then
        (case runCallback E now (pd_callback p) data u of
           Panicked \<Rightarrow> Panicked
         | OutOfFuel \<Rightarrow> OutOfFuel
         | Returned (fin, cb, u) \<Rightarrow>
             (let p = p\<lparr>pd_callback := cb\<rparr>; u = u\<lparr>u_contTimeouts := 0\<rparr> in
              if fin then Returned (True, (answer p None u)\<lparr>u_plist := done @ ps\<rparr>)
              else replyLoop E now from ptype data True (done @ [p]) ps u))
      else replyLoop E now from ptype data matched (done @ [p]) ps u)"

fun timeoutLoop :: "int \<Rightarrow> pending list \<Rightarrow> pending list \<Rightarrow> 's udp \<Rightarrow> 's udp" where
  "timeoutLoop now done [] u = u\<lparr>u_plist := done\<rparr>"
| "timeoutLoop now done (p # ps) u =
     (if now > pd_deadline p \<or> now = pd_deadline p then
        (answer p (Some errTimeout) u)\<lparr>u_plist := done @ ps, u_contTimeouts := u_contTimeouts u + 1\<rparr>
      else timeoutLoop now (done @ [p]) ps u)"

datatype uevent =
    Closing
  | AddPending NodeID byte callback nat
  | GotReply NodeID byte packet
  | TimerFired int

text \<open>
  One turn of \<^verbatim>\<open>loop\<close>: \<open>t0\<close> is the clock in \<^verbatim>\<open>resetTimeout\<close>, \<open>t1\<close> in the case of the event.  The result says whether a
  reply was matched.
\<close>

fun loopEvent :: "'s discEnv \<Rightarrow> int \<Rightarrow> uevent \<Rightarrow> 's udp \<Rightarrow> (bool \<times> 's udp) outcome" where
  "loopEvent E t1 Closing u =
     Returned (False, fold (\<lambda>p. answer p (Some errClosed)) (u_plist u) (u\<lparr>u_closing := True\<rparr>))"
| "loopEvent E t1 (AddPending from ptype cb errc) u =
     Returned (False, u\<lparr>u_plist := u_plist u @
       [\<lparr>pd_from = from, pd_ptype = ptype, pd_deadline = t1 + respTimeout, pd_callback = cb, pd_errc = errc\<rparr>]\<rparr>)"
| "loopEvent E t1 (GotReply from ptype data) u = replyLoop E t1 from ptype data False [] (u_plist u) u"
| "loopEvent E t1 (TimerFired now) u =
     (let u = timeoutLoop now [] (u_plist u) (u\<lparr>u_nextTimeout := None\<rparr>) in
      Returned (False,
        if u_contTimeouts u > ntpFailureThreshold then
          (if timeSub t1 (u_ntpWarnTime u) \<ge> ntpWarningCooldown
           then u\<lparr>u_ntpWarnTime := t1, u_driftChecks := u_driftChecks u + 1, u_contTimeouts := 0\<rparr>
           else u\<lparr>u_contTimeouts := 0\<rparr>)
        else u))"

definition loopTurn :: "'s discEnv \<Rightarrow> int \<Rightarrow> int \<Rightarrow> uevent \<Rightarrow> 's udp \<Rightarrow> (bool \<times> 's udp) outcome" where
  "loopTurn E t0 t1 ev u = loopEvent E t1 ev (resetTimeout t0 u)"

section \<open>Sending requests\<close>

fun bindO :: "'a outcome \<Rightarrow> ('a \<Rightarrow> 'b outcome) \<Rightarrow> 'b outcome" where
  "bindO (Returned x) f = f x"
| "bindO Panicked f = Panicked"
| "bindO OutOfFuel f = OutOfFuel"

text \<open>\<^verbatim>\<open>write\<close>: whether the socket reports an error is of no consequence, as all callers drop it.\<close>

definition udp_write :: "UDPAddr \<Rightarrow> bytes \<Rightarrow> 's udp \<Rightarrow> 's udp" where
  "udp_write toaddr pkt u = u\<lparr>u_sent := u_sent u @ [(toaddr, pkt)]\<rparr>"

definition udp_send :: "'s discEnv \<Rightarrow> UDPAddr \<Rightarrow> byte \<Rightarrow> packet \<Rightarrow> 's udp \<Rightarrow> (udpError + bytes) \<times> 's udp" where
  "udp_send E toaddr ptype req u =
     (case encodePacket E ptype req of
        Inl err \<Rightarrow> (Inl err, u)
      | Inr (pkt, hash) \<Rightarrow> (Inr hash, udp_write toaddr pkt u))"

text \<open>A new channel, on which a value is sent at once.\<close>

definition answeredChan :: "udpError \<Rightarrow> 's udp \<Rightarrow> nat \<times> 's udp" where
  "answeredChan err u =
     (u_nextErrc u, u\<lparr>u_nextErrc := u_nextErrc u + 1, u_results := u_results u @ [(u_nextErrc u, Some err)],
                      u_found := u_found u @ [(u_nextErrc u, [])]\<rparr>)"

definition udp_pending :: "'s discEnv \<Rightarrow> int \<Rightarrow> int \<Rightarrow> NodeID \<Rightarrow> byte \<Rightarrow> callback \<Rightarrow> 's udp \<Rightarrow> (nat \<times> 's udp) outcome" where
  "udp_pending E t0 t1 i ptype cb u =
     (if u_closing u then Returned (answeredChan errClosed u)
      else (let ch = u_nextErrc u in
        bindO (loopTurn E t0 t1 (AddPending i ptype cb ch) (u\<lparr>u_nextErrc := ch + 1\<rparr>)) (\<lambda>(_, u). Returned (ch, u))))"

definition handleReply :: "'s discEnv \<Rightarrow> int \<Rightarrow> int \<Rightarrow> NodeID \<Rightarrow> byte \<Rightarrow> packet \<Rightarrow> 's udp \<Rightarrow> (bool \<times> 's udp) outcome" where
  "handleReply E t0 t1 from ptype req u =
     (if u_closing u then Returned (False, u) else loopTurn E t0 t1 (GotReply from ptype req) u)"

definition sendPing :: "'s discEnv \<Rightarrow> int \<Rightarrow> int \<Rightarrow> int \<Rightarrow> NodeID \<Rightarrow> UDPAddr \<Rightarrow> Node option \<Rightarrow> 's udp \<Rightarrow> (nat \<times> 's udp) outcome" where
  "sendPing E t0 t1 t2 toid toaddr cb u =
     (let req = ping 4 (u_ourEndpoint u) (makeEndpoint toaddr 0) (expirationAt t0) in
      case encodePacket E pingPacket req of
        Inl err \<Rightarrow> Returned (answeredChan err u)
      | Inr (pkt, hash) \<Rightarrow>
          bindO (udp_pending E t1 t2 toid pongPacket (PongCb hash cb) u) (\<lambda>(errc, u). Returned (errc, udp_write toaddr pkt u)))"

text \<open>
  The calls that wait: \<open>others\<close> is what the other goroutines do meanwhile.  A channel on which nothing was sent by then
  keeps the caller waiting.
\<close>

definition receive :: "('s udp \<Rightarrow> 's udp outcome) \<Rightarrow> nat \<times> 's udp \<Rightarrow> (udpError option \<times> 's udp) outcome" where
  "receive others = (\<lambda>(errc, u). bindO (others u) (\<lambda>u.
     case map_of (u_results u) errc of None \<Rightarrow> OutOfFuel | Some err \<Rightarrow> Returned (err, u)))"

definition udp_ping :: "'s discEnv \<Rightarrow> (nat \<Rightarrow> int) \<Rightarrow> ('s udp \<Rightarrow> 's udp outcome) \<Rightarrow> NodeID \<Rightarrow> UDPAddr \<Rightarrow> 's udp \<Rightarrow> (udpError option \<times> 's udp) outcome" where
  "udp_ping E clk others toid toaddr u = bindO (sendPing E (clk 0) (clk 1) (clk 2) toid toaddr None u) (receive others)"

definition waitping :: "'s discEnv \<Rightarrow> (nat \<Rightarrow> int) \<Rightarrow> ('s udp \<Rightarrow> 's udp outcome) \<Rightarrow> NodeID \<Rightarrow> 's udp \<Rightarrow> (udpError option \<times> 's udp) outcome" where
  "waitping E clk others from u = bindO (udp_pending E (clk 0) (clk 1) from pingPacket AnyCb u) (receive others)"

definition solicitPing :: "'s discEnv \<Rightarrow> (nat \<Rightarrow> int) \<Rightarrow> (nat \<Rightarrow> 's udp \<Rightarrow> 's udp outcome) \<Rightarrow> NodeID \<Rightarrow> UDPAddr \<Rightarrow> 's udp \<Rightarrow> 's udp outcome" where
  "solicitPing E clk others toid toaddr u =
     (if timeSub (clk 0) (lastPingReceived (dbEnv E) toid (u_db u)) > nodeDBNodeExpiration then
        bindO (udp_ping E (\<lambda>k. clk (k + 1)) (others 0) toid toaddr u) (\<lambda>(_, u).
        bindO (waitping E (\<lambda>k. clk (k + 4)) (others 1) toid u) (\<lambda>(_, u). Returned u))
      else Returned u)"

definition requestNodes :: "'s discEnv \<Rightarrow> (nat \<Rightarrow> int) \<Rightarrow> NodeID \<Rightarrow> UDPAddr \<Rightarrow> NodeID \<Rightarrow> 's udp \<Rightarrow> (nat \<times> 's udp) outcome" where
  "requestNodes E clk toid toaddr target u =
     bindO (udp_pending E (clk 0) (clk 1) toid neighborsPacket (NeighborsCb toaddr 0 []) u) (\<lambda>(errc, u).
     Returned (errc, snd (udp_send E toaddr findnodePacket (findnode target (expirationAt (clk 2))) u)))"

definition udp_findnode ::
  "'s discEnv \<Rightarrow> (nat \<Rightarrow> int) \<Rightarrow> (nat \<Rightarrow> 's udp \<Rightarrow> 's udp outcome) \<Rightarrow> NodeID \<Rightarrow> UDPAddr \<Rightarrow> NodeID \<Rightarrow> 's udp \<Rightarrow>
   (Node list \<times> udpError option \<times> 's udp) outcome" where
  "udp_findnode E clk others toid toaddr target u =
     bindO (solicitPing E clk others toid toaddr u) (\<lambda>u.
     bindO (requestNodes E (\<lambda>k. clk (k + 6)) toid toaddr target u) (\<lambda>(errc, u).
     bindO (receive (others 2) (errc, u)) (\<lambda>(err, u).
     Returned (case map_of (u_found u) errc of None \<Rightarrow> [] | Some nodes \<Rightarrow> nodes, err, u))))"

section \<open>Handling packets\<close>

definition ping_handle ::
  "'s discEnv \<Rightarrow> (nat \<Rightarrow> int) \<Rightarrow> UDPAddr \<Rightarrow> NodeID \<Rightarrow> bytes \<Rightarrow> packet \<Rightarrow> 's udp \<Rightarrow> (udpError option \<times> 's udp) outcome" where
  "ping_handle E clk from fromID mac req u =
     (if expired (clk 0) (Expiration req) then Returned (Some errExpired, u)
      else (let u = snd (udp_send E from pongPacket (pong (makeEndpoint from (ep_TCP (From req))) mac (expirationAt (clk 1))) u) in
        bindO (handleReply E (clk 2) (clk 3) fromID pingPacket req u) (\<lambda>(_, u).
          let n = NewNode (keccak256 E) fromID (ua_IP from) (ucast (ua_Port from)) (ep_TCP (From req)) in
          bindO (if timeSub (clk 4) (lastPongReceived (dbEnv E) fromID (u_db u)) > nodeDBNodeExpiration
                 then sendPing E (clk 5) (clk 6) (clk 7) fromID from (Some n) u
                 else Returned (0, u\<lparr>u_table := addThroughPing (clk 5) n (u_table u)\<rparr>)) (\<lambda>(_, u).
          Returned (None, u\<lparr>u_db := snd (updateLastPingReceived (dbEnv E) fromID (clk 8) (u_db u))\<rparr>)))))"

definition pong_handle ::
  "'s discEnv \<Rightarrow> (nat \<Rightarrow> int) \<Rightarrow> UDPAddr \<Rightarrow> NodeID \<Rightarrow> bytes \<Rightarrow> packet \<Rightarrow> 's udp \<Rightarrow> (udpError option \<times> 's udp) outcome" where
  "pong_handle E clk from fromID mac req u =
     (if expired (clk 0) (Expiration req) then Returned (Some errExpired, u)
      else bindO (handleReply E (clk 1) (clk 2) fromID pongPacket req u) (\<lambda>(matched, u).
        if \<not> matched then Returned (Some errUnsolicitedReply, u)
        else Returned (None, u\<lparr>u_db := snd (updateLastPongReceived (dbEnv E) fromID (clk 3) (u_db u))\<rparr>)))"

fun chunkLoop :: "'s discEnv \<Rightarrow> UDPAddr \<Rightarrow> 64 word \<Rightarrow> Node list \<Rightarrow> rpcNode list \<Rightarrow> bool \<Rightarrow> 's udp \<Rightarrow> rpcNode list \<times> bool \<times> 's udp" where
  "chunkLoop E from exp [] nodes sent u = (nodes, sent, u)"
| "chunkLoop E from exp (n # ns) nodes sent u =
     (let nodes = (if CheckRelayIP (ua_IP from) (n_IP n) = None then nodes @ [nodeToRPC n] else nodes) in
      if length nodes = maxNeighbors E
      then chunkLoop E from exp ns [] True (snd (udp_send E from neighborsPacket (neighbors nodes exp) u))
      else chunkLoop E from exp ns nodes sent u)"

definition findnode_handle ::
  "'s discEnv \<Rightarrow> (nat \<Rightarrow> int) \<Rightarrow> UDPAddr \<Rightarrow> NodeID \<Rightarrow> bytes \<Rightarrow> packet \<Rightarrow> 's udp \<Rightarrow> (udpError option \<times> 's udp) outcome" where
  "findnode_handle E clk from fromID mac req u =
     (if expired (clk 0) (Expiration req) then Returned (Some errExpired, u)
      else if \<not> hasBond (dbEnv E) (clk 1) fromID (u_db u) then Returned (Some errUnknownNode, u)
      else (let target = keccak256 E (Target req); entries = nd_entries (closest target bucketSize (u_table u));
                exp = expirationAt (clk 2); (nodes, sent, u) = chunkLoop E from exp entries [] False u in
        Returned (None, if 0 < length nodes \<or> \<not> sent then snd (udp_send E from neighborsPacket (neighbors nodes exp) u) else u)))"

definition neighbors_handle ::
  "'s discEnv \<Rightarrow> (nat \<Rightarrow> int) \<Rightarrow> UDPAddr \<Rightarrow> NodeID \<Rightarrow> bytes \<Rightarrow> packet \<Rightarrow> 's udp \<Rightarrow> (udpError option \<times> 's udp) outcome" where
  "neighbors_handle E clk from fromID mac req u =
     (if expired (clk 0) (Expiration req) then Returned (Some errExpired, u)
      else bindO (handleReply E (clk 1) (clk 2) fromID neighborsPacket req u) (\<lambda>(matched, u).
        Returned (if \<not> matched then Some errUnsolicitedReply else None, u)))"

fun packet_handle ::
  "'s discEnv \<Rightarrow> (nat \<Rightarrow> int) \<Rightarrow> UDPAddr \<Rightarrow> NodeID \<Rightarrow> bytes \<Rightarrow> packet \<Rightarrow> 's udp \<Rightarrow> (udpError option \<times> 's udp) outcome" where
  "packet_handle E clk from fromID mac (ping v f t e) u = ping_handle E clk from fromID mac (ping v f t e) u"
| "packet_handle E clk from fromID mac (pong t tok e) u = pong_handle E clk from fromID mac (pong t tok e) u"
| "packet_handle E clk from fromID mac (findnode t e) u = findnode_handle E clk from fromID mac (findnode t e) u"
| "packet_handle E clk from fromID mac (neighbors ns e) u = neighbors_handle E clk from fromID mac (neighbors ns e) u"

definition handlePacket ::
  "'s discEnv \<Rightarrow> (nat \<Rightarrow> int) \<Rightarrow> UDPAddr \<Rightarrow> bytes \<Rightarrow> 's udp \<Rightarrow> (udpError option \<times> 's udp) outcome" where
  "handlePacket E clk from buf u =
     (case decodePacket E buf of
        Inl err \<Rightarrow> Returned (Some err, u)
      | Inr (req, fromID, hash) \<Rightarrow> packet_handle E clk from fromID hash req u)"

text \<open>
  \<^verbatim>\<open>readLoop\<close> with the reads of the socket in their order.  All datagrams are read into the same buffer of 1280 bytes.  A
  packet that could not be processed is put on the channel \<^verbatim>\<open>unhandled\<close>, if there is one and it is not full, as a slice of that
  buffer: the channel holds the lengths, and what its reader gets is what the buffer holds when it takes the packet off.
\<close>

datatype readEvent = ReadTemporary | ReadError | ReadFrom UDPAddr bytes | ChanReceive

record readState =
  rs_buf :: bytes
  rs_chan :: "(nat \<times> UDPAddr) list"
  rs_got :: "(bytes \<times> UDPAddr) list"

fun udp_readLoop ::
  "'s discEnv \<Rightarrow> (nat \<Rightarrow> int) \<Rightarrow> nat option \<Rightarrow> readEvent list \<Rightarrow> readState \<Rightarrow> 's udp \<Rightarrow> (readState \<times> 's udp) outcome" where
  "udp_readLoop E clk unhandled [] rs u = Returned (rs, u)"
| "udp_readLoop E clk unhandled (ReadTemporary # evs) rs u = udp_readLoop E clk unhandled evs rs u"
| "udp_readLoop E clk unhandled (ReadError # evs) rs u = Returned (rs, u)"
| "udp_readLoop E clk unhandled (ReadFrom from datagram # evs) rs u =
     (let nbytes = min (length (rs_buf rs)) (length datagram);
          rs = rs\<lparr>rs_buf := take nbytes datagram @ drop nbytes (rs_buf rs)\<rparr> in
      bindO (handlePacket E clk from (take nbytes (rs_buf rs)) u) (\<lambda>(err, u).
      udp_readLoop E (\<lambda>k. clk (k + 9)) unhandled evs
        (case unhandled of
           Some capacity \<Rightarrow> if err \<noteq> None \<and> length (rs_chan rs) < capacity then rs\<lparr>rs_chan := rs_chan rs @ [(nbytes, from)]\<rparr> else rs
         | None \<Rightarrow> rs) u))"
| "udp_readLoop E clk unhandled (ChanReceive # evs) rs u =
     udp_readLoop E clk unhandled evs
       (case rs_chan rs of
          [] \<Rightarrow> rs
        | (n, from) # ch \<Rightarrow> rs\<lparr>rs_chan := ch, rs_got := rs_got rs @ [(take n (rs_buf rs), from)]\<rparr>) u"

definition newUDP ::
  "'s discEnv \<Rightarrow> Netlist option \<Rightarrow> UDPAddr \<Rightarrow> UDPAddr option \<Rightarrow> NodeID \<Rightarrow> Node list \<Rightarrow> int \<Rightarrow> Node list \<Rightarrow> 's nodeDB \<Rightarrow> completeError + 's udp" where
  "newUDP E netrestrict localAddr announce ourID bootnodes now seeds db =
     (let realaddr = (case announce of Some a \<Rightarrow> a | None \<Rightarrow> localAddr) in
      case newTable (keccak256 E) (isOnCurve E) now seeds ourID (ua_IP realaddr) (ucast (ua_Port realaddr)) bootnodes of
        Inl err \<Rightarrow> Inl err
      | Inr tab \<Rightarrow> Inr
          \<lparr>u_netrestrict = netrestrict, u_ourEndpoint = makeEndpoint realaddr (ucast (ua_Port realaddr)), u_db = db, u_table = tab,
           u_plist = [], u_nextTimeout = None, u_timer = None, u_contTimeouts = 0, u_ntpWarnTime = time_Unix 0, u_driftChecks = 0,
           u_closing = False, u_nextErrc = 0, u_results = [], u_found = [], u_sent = []\<rparr>)"

definition udp_close :: "'s discEnv \<Rightarrow> int \<Rightarrow> int \<Rightarrow> 's udp \<Rightarrow> 's udp outcome" where
  "udp_close E t0 t1 u = bindO (loopTurn E t0 t1 Closing u) (\<lambda>(_, u). Returned u)"

section \<open>Runs\<close>

text \<open>
  The steps of the goroutines that touch the state, in any order: a request is added, a reply is handed to the loop, the
  timer fires, the listener is closed, a datagram is sent, the table or the database changes, a packet cannot be encoded.
\<close>

fun cb_type :: "callback \<Rightarrow> byte" where
  "cb_type (PongCb _ _) = pongPacket"
| "cb_type AnyCb = pingPacket"
| "cb_type (NeighborsCb _ _ _) = neighborsPacket"

fun pkt_type :: "packet \<Rightarrow> byte" where
  "pkt_type (ping _ _ _ _) = pingPacket"
| "pkt_type (pong _ _ _) = pongPacket"
| "pkt_type (findnode _ _) = findnodePacket"
| "pkt_type (neighbors _ _) = neighborsPacket"

datatype 's uop =
    URequest int int NodeID callback
  | UReply int int NodeID packet
  | UTimer int int int
  | UClose int int
  | USend UDPAddr bytes
  | UTable Table
  | UDb "'s nodeDB"
  | UFail udpError

fun ustep :: "'s discEnv \<Rightarrow> 's uop \<Rightarrow> 's udp \<Rightarrow> 's udp outcome" where
  "ustep E (URequest t0 t1 i cb) u = bindO (udp_pending E t0 t1 i (cb_type cb) cb u) (\<lambda>(_, u). Returned u)"
| "ustep E (UReply t0 t1 from pkt) u = bindO (handleReply E t0 t1 from (pkt_type pkt) pkt u) (\<lambda>(_, u). Returned u)"
| "ustep E (UTimer t0 t1 now) u =
     (if u_closing u then Returned u else bindO (loopTurn E t0 t1 (TimerFired now) u) (\<lambda>(_, u). Returned u))"
| "ustep E (UClose t0 t1) u = (if u_closing u then Returned u else udp_close E t0 t1 u)"
| "ustep E (USend a b) u = Returned (udp_write a b u)"
| "ustep E (UTable tab) u = Returned (u\<lparr>u_table := tab\<rparr>)"
| "ustep E (UDb db) u = Returned (u\<lparr>u_db := db\<rparr>)"
| "ustep E (UFail err) u = Returned (snd (answeredChan err u))"

fun urun :: "'s discEnv \<Rightarrow> 's uop list \<Rightarrow> 's udp \<Rightarrow> 's udp outcome" where
  "urun E [] u = Returned u"
| "urun E (op # ops) u = bindO (ustep E op u) (urun E ops)"

lemma urun_append: "urun E (xs @ ys) u = bindO (urun E xs u) (urun E ys)"
proof (induction xs arbitrary: u)
  case (Cons x xs)
  then show ?case by (cases "ustep E x u") simp_all
qed simp

section \<open>Every request is answered once\<close>

text \<open>The channels of the requests that wait and those that were answered are the channels made so far, each once.\<close>

definition chans :: "pending list \<Rightarrow> 's udp \<Rightarrow> nat multiset" where
  "chans ps u = mset (map pd_errc ps) + mset (map fst (u_results u))"

definition allChans :: "nat \<Rightarrow> nat multiset" where
  "allChans n = mset [0..<n]"

lemma allChans_simps [simp]: "allChans 0 = {#}" "allChans (Suc n) = add_mset n (allChans n)"
  by (simp_all add: allChans_def del: mset_upt)

definition udp_inv :: "'s udp \<Rightarrow> bool" where
  "udp_inv u \<longleftrightarrow> chans (if u_closing u then [] else u_plist u) u = allChans (u_nextErrc u) \<and>
     (\<forall>p\<in>set (u_plist u). pd_ptype p = cb_type (pd_callback p))"

lemma answer_simps [simp]:
  "u_plist (answer p err u) = u_plist u" "u_closing (answer p err u) = u_closing u"
  "u_nextErrc (answer p err u) = u_nextErrc u" "u_results (answer p err u) = u_results u @ [(pd_errc p, err)]"
  "u_nextTimeout (answer p err u) = u_nextTimeout u" "u_timer (answer p err u) = u_timer u"
  "u_netrestrict (answer p err u) = u_netrestrict u" "u_db (answer p err u) = u_db u"
  by (simp_all add: answer_def)

lemma resetTimeout_keeps:
  "u_closing (resetTimeout t u) = u_closing u" "u_nextErrc (resetTimeout t u) = u_nextErrc u"
  "set (u_plist (resetTimeout t u)) \<subseteq> set (u_plist u)"
  "chans (u_plist (resetTimeout t u)) (resetTimeout t u) = chans (u_plist u) u"
  "u_db (resetTimeout t u) = u_db u" "u_netrestrict (resetTimeout t u) = u_netrestrict u"
  by (auto simp: resetTimeout_def chans_def Let_def split: list.split)

lemma runCallback_ok:
  assumes "pkt_type data = cb_type cb"
  obtains fin cb' u' where "runCallback E now cb data u = Returned (fin, cb', u')" "cb_type cb' = cb_type cb"
    "u_closing u' = u_closing u" "u_nextErrc u' = u_nextErrc u" "u_results u' = u_results u" "u_db u' = u_db u"
    "u_nextTimeout u' = u_nextTimeout u" "u_timer u' = u_timer u"
  using assms
  by (cases cb; cases data)
    (auto simp: pongPacket_def pingPacket_def findnodePacket_def neighborsPacket_def Let_def split_beta split: option.split)

lemma replyLoop_ok:
  assumes "\<And>p. p \<in> set ps \<union> set done \<Longrightarrow> pd_ptype p = cb_type (pd_callback p)"
  shows "\<exists>m u'. replyLoop E now from (pkt_type data) data matched done ps u = Returned (m, u') \<and>
    u_closing u' = u_closing u \<and> u_nextErrc u' = u_nextErrc u \<and> u_db u' = u_db u \<and>
    chans (u_plist u') u' = chans (done @ ps) u \<and> (\<forall>p\<in>set (u_plist u'). pd_ptype p = cb_type (pd_callback p)) \<and>
    (m \<longleftrightarrow> matched \<or> (\<exists>p\<in>set ps. pd_from p = from \<and> pd_ptype p = pkt_type data))"
  using assms
proof (induction ps arbitrary: matched "done" u)
  case Nil
  then show ?case by (simp add: chans_def)
next
  case (Cons p ps)
  show ?case
  proof (cases "pd_from p = from \<and> pd_ptype p = pkt_type data")
    case True
    then have "pkt_type data = cb_type (pd_callback p)" using Cons.prems[of p] by simp
    then obtain fin cb' u1 where cb: "runCallback E now (pd_callback p) data u = Returned (fin, cb', u1)"
      "cb_type cb' = cb_type (pd_callback p)"
      "u_closing u1 = u_closing u" "u_nextErrc u1 = u_nextErrc u" "u_results u1 = u_results u" "u_db u1 = u_db u"
      by (rule runCallback_ok[of _ _ E now u]) blast
    show ?thesis
    proof (cases fin)
      case True
      then show ?thesis using cb \<open>pd_from p = from \<and> _\<close> Cons.prems by (auto simp: chans_def Let_def)
    next
      case False
      have "\<exists>m u'. replyLoop E now from (pkt_type data) data True (done @ [p\<lparr>pd_callback := cb'\<rparr>]) ps (u1\<lparr>u_contTimeouts := 0\<rparr>) = Returned (m, u') \<and>
          u_closing u' = u_closing (u1\<lparr>u_contTimeouts := 0\<rparr>) \<and> u_nextErrc u' = u_nextErrc (u1\<lparr>u_contTimeouts := 0\<rparr>) \<and>
          u_db u' = u_db (u1\<lparr>u_contTimeouts := 0\<rparr>) \<and>
          chans (u_plist u') u' = chans ((done @ [p\<lparr>pd_callback := cb'\<rparr>]) @ ps) (u1\<lparr>u_contTimeouts := 0\<rparr>) \<and>
          (\<forall>p\<in>set (u_plist u'). pd_ptype p = cb_type (pd_callback p)) \<and>
          (m \<longleftrightarrow> True \<or> (\<exists>p\<in>set ps. pd_from p = from \<and> pd_ptype p = pkt_type data))"
        by (rule Cons.IH) (use Cons.prems cb(2) in auto)
      then show ?thesis using False cb \<open>pd_from p = from \<and> _\<close> by (auto simp: chans_def Let_def)
    qed
  next
    case False
    then show ?thesis using Cons.IH[of "done @ [p]" matched u] Cons.prems by auto
  qed
qed

lemma timeoutLoop_ok:
  "u_closing (timeoutLoop now done ps u) = u_closing u \<and> u_nextErrc (timeoutLoop now done ps u) = u_nextErrc u \<and>
   chans (u_plist (timeoutLoop now done ps u)) (timeoutLoop now done ps u) = chans (done @ ps) u \<and>
   set (u_plist (timeoutLoop now done ps u)) \<subseteq> set done \<union> set ps"
proof (induction ps arbitrary: "done")
  case (Cons p ps)
  then show ?case using Cons.IH[of "done @ [p]"] by (auto simp: chans_def)
qed (simp add: chans_def)

lemma udp_inv_reset: "udp_inv u \<Longrightarrow> udp_inv (resetTimeout t u)" if "\<not> u_closing u"
  using that resetTimeout_keeps[of t u] by (auto simp: udp_inv_def)

lemma chans_other [simp]:
  "chans ps (u\<lparr>u_plist := x\<rparr>) = chans ps u" "chans ps (u\<lparr>u_closing := b\<rparr>) = chans ps u" "chans ps (u\<lparr>u_nextErrc := n\<rparr>) = chans ps u"
  "chans ps (u\<lparr>u_nextTimeout := nt\<rparr>) = chans ps u" "chans ps (u\<lparr>u_contTimeouts := k\<rparr>) = chans ps u"
  "chans ps (u\<lparr>u_table := tab\<rparr>) = chans ps u" "chans ps (u\<lparr>u_db := db\<rparr>) = chans ps u" "chans ps (u\<lparr>u_sent := ss\<rparr>) = chans ps u"
  "chans ps (u\<lparr>u_ntpWarnTime := t\<rparr>) = chans ps u" "chans ps (u\<lparr>u_driftChecks := k\<rparr>) = chans ps u"
  by (simp_all add: chans_def)

lemma chans_snoc [simp]: "chans (ps @ [p]) u = add_mset (pd_errc p) (chans ps u)"
  by (simp add: chans_def)

lemma request_ok:
  assumes "udp_inv u"
  shows "\<exists>u'. udp_pending E t0 t1 i (cb_type cb) cb u = Returned (u_nextErrc u, u') \<and> udp_inv u' \<and>
    u_closing u' = u_closing u \<and> u_nextErrc u' = u_nextErrc u + 1"
proof (cases "u_closing u")
  case True
  then show ?thesis using assms by (simp add: udp_pending_def answeredChan_def udp_inv_def chans_def del: mset_upt)
next
  case False
  define w where "w = resetTimeout t0 (u\<lparr>u_nextErrc := Suc (u_nextErrc u)\<rparr>)"
  have w: "chans (u_plist w) w = allChans (u_nextErrc u)" "u_nextErrc w = Suc (u_nextErrc u)" "\<not> u_closing w"
    "\<forall>p\<in>set (u_plist w). pd_ptype p = cb_type (pd_callback p)"
    using resetTimeout_keeps[of t0 "u\<lparr>u_nextErrc := Suc (u_nextErrc u)\<rparr>"] assms False by (auto simp: w_def udp_inv_def)
  show ?thesis
    using False w by (simp add: udp_pending_def loopTurn_def w_def[symmetric] Let_def) (simp add: udp_inv_def)
qed

lemma reply_ok:
  assumes "udp_inv u"
  shows "\<exists>m u'. handleReply E t0 t1 from (pkt_type pkt) pkt u = Returned (m, u') \<and> udp_inv u' \<and> u_closing u' = u_closing u \<and>
    u_nextErrc u' = u_nextErrc u \<and> u_db u' = u_db u"
proof (cases "u_closing u")
  case True
  then show ?thesis using assms by (intro exI[of _ False] exI[of _ u]) (simp add: handleReply_def)
next
  case False
  let ?u = "resetTimeout t0 u"
  have inv: "udp_inv ?u" using udp_inv_reset[OF False assms] .
  obtain m u' where "replyLoop E t1 from (pkt_type pkt) pkt False [] (u_plist ?u) ?u = Returned (m, u')"
    "u_closing u' = u_closing ?u" "u_nextErrc u' = u_nextErrc ?u" "u_db u' = u_db ?u" "chans (u_plist u') u' = chans (u_plist ?u) ?u"
    "\<forall>p\<in>set (u_plist u'). pd_ptype p = cb_type (pd_callback p)"
    using replyLoop_ok[of "u_plist ?u" "[]" E t1 "from" pkt False ?u] inv by (auto simp: udp_inv_def)
  then show ?thesis
    using False inv by (simp add: handleReply_def loopTurn_def udp_inv_def resetTimeout_keeps)
qed

lemma timer_ok:
  assumes "udp_inv u" and "\<not> u_closing u"
  shows "\<exists>u'. loopTurn E t0 t1 (TimerFired now) u = Returned (False, u') \<and> udp_inv u' \<and> \<not> u_closing u' \<and> u_nextErrc u' = u_nextErrc u \<and>
    u_plist u' = u_plist (timeoutLoop now [] (u_plist (resetTimeout t0 u)) ((resetTimeout t0 u)\<lparr>u_nextTimeout := None\<rparr>))"
proof -
  let ?u = "resetTimeout t0 u"
  have inv: "udp_inv ?u" and cl: "\<not> u_closing ?u" using udp_inv_reset assms by (auto simp: resetTimeout_keeps)
  define v where "v = timeoutLoop now [] (u_plist ?u) (?u\<lparr>u_nextTimeout := None\<rparr>)"
  have "udp_inv v" "\<not> u_closing v" "u_nextErrc v = u_nextErrc u"
    using timeoutLoop_ok[of now "[]" "u_plist ?u" "?u\<lparr>u_nextTimeout := None\<rparr>"] inv cl
    by (auto simp: v_def udp_inv_def resetTimeout_keeps)
  then show ?thesis
    using v_def[symmetric] by (simp add: loopTurn_def Let_def udp_inv_def)
qed

lemma closed_results:
  "u_results (fold (\<lambda>p. answer p err) ps u) = u_results u @ map (\<lambda>p. (pd_errc p, err)) ps \<and>
   u_closing (fold (\<lambda>p. answer p err) ps u) = u_closing u \<and> u_nextErrc (fold (\<lambda>p. answer p err) ps u) = u_nextErrc u \<and>
   u_plist (fold (\<lambda>p. answer p err) ps u) = u_plist u"
  by (induction ps arbitrary: u) simp_all

lemma close_ok:
  assumes "udp_inv u" and "\<not> u_closing u"
  shows "\<exists>u'. udp_close E t0 t1 u = Returned u' \<and> udp_inv u' \<and> u_closing u' \<and> u_nextErrc u' = u_nextErrc u"
proof -
  let ?u = "resetTimeout t0 u"
  have "udp_inv ?u" "\<not> u_closing ?u" using udp_inv_reset assms by (auto simp: resetTimeout_keeps)
  then show ?thesis
    using closed_results[of "Some errClosed" "u_plist ?u" "?u\<lparr>u_closing := True\<rparr>"]
    by (simp add: udp_close_def loopTurn_def udp_inv_def chans_def image_mset.compositionality comp_def resetTimeout_keeps add.commute del: mset_upt)
qed

lemma ustep_ok:
  assumes "udp_inv u"
  shows "\<exists>u'. ustep E op u = Returned u' \<and> udp_inv u' \<and> u_nextErrc u \<le> u_nextErrc u'"
proof (cases op)
  case (URequest t0 t1 i cb)
  then show ?thesis using request_ok[OF assms, of E t0 t1 i cb] by auto
next
  case (UReply t0 t1 f pkt)
  then show ?thesis using reply_ok[OF assms, of E t0 t1 f pkt] by auto
next
  case (UTimer t0 t1 now)
  then show ?thesis using timer_ok[OF assms, of E t0 t1 now] assms by (cases "u_closing u") auto
next
  case (UClose t0 t1)
  then show ?thesis using close_ok[OF assms, of E t0 t1] assms by (cases "u_closing u") auto
qed (use assms in \<open>simp_all add: udp_inv_def udp_write_def answeredChan_def chans_def split: if_splits\<close>)

lemma urun_ok:
  assumes "udp_inv u"
  shows "\<exists>u'. urun E ops u = Returned u' \<and> udp_inv u' \<and> u_nextErrc u \<le> u_nextErrc u'"
  using assms
proof (induction ops arbitrary: u)
  case (Cons op ops)
  obtain u1 where "ustep E op u = Returned u1" "udp_inv u1" "u_nextErrc u \<le> u_nextErrc u1" using ustep_ok[OF Cons.prems] by blast
  then show ?case using Cons.IH[of u1] by auto
qed simp

lemma newUDP_inv: "newUDP E nr la an i bn now seeds db = Inr u \<Longrightarrow> udp_inv u \<and> \<not> u_closing u"
  by (auto simp: newUDP_def udp_inv_def chans_def Let_def split: sum.splits)

text \<open>C31. However the goroutines of the listener interleave, the loop does not panic, and of every channel that was made for a
  request exactly one of the following holds: it was answered, once, or its request waits in the queue of a listener that is
  not closed.  So a send on a channel, which has room for one value, never blocks the loop, and closing answers all.
\<close>

theorem one_answer:
  assumes "newUDP E nr la an i bn now seeds db = Inr u0"
  shows "\<exists>u. urun E ops u0 = Returned u \<and> distinct (map fst (u_results u)) \<and>
    (\<forall>c < u_nextErrc u. (c \<in> fst ` set (u_results u)) \<noteq> (\<not> u_closing u \<and> c \<in> pd_errc ` set (u_plist u)))"
proof -
  obtain u where u: "urun E ops u0 = Returned u" "udp_inv u" using urun_ok newUDP_inv[OF assms] by blast
  let ?ps = "if u_closing u then [] else u_plist u"
  have m: "mset (map pd_errc ?ps @ map fst (u_results u)) = mset [0..<u_nextErrc u]"
    using u(2) by (simp add: udp_inv_def chans_def allChans_def del: mset_upt)
  have "distinct (map pd_errc ?ps @ map fst (u_results u))"
    using mset_eq_imp_distinct_iff[OF m] by (simp only: distinct_upt)
  moreover have "set (map pd_errc ?ps @ map fst (u_results u)) = {..<u_nextErrc u}"
    using mset_eq_setD[OF m] by (simp only: set_upt atLeast0LessThan)
  ultimately show ?thesis using u(1) by (auto split: if_splits)
qed

section \<open>The handlers are runs\<close>

definition reaches :: "'s discEnv \<Rightarrow> 's udp \<Rightarrow> 's udp \<Rightarrow> bool" where
  "reaches E u v \<longleftrightarrow> (\<exists>ops. urun E ops u = Returned v)"

lemma reaches_refl [simp]: "reaches E u u"
  unfolding reaches_def by (rule exI[of _ "[]"]) simp

lemma reaches_trans [trans]: "reaches E u v \<Longrightarrow> reaches E v w \<Longrightarrow> reaches E u w"
  unfolding reaches_def by (metis bindO.simps(1) urun_append)

lemma reaches_step: "ustep E op u = Returned v \<Longrightarrow> reaches E u v"
  unfolding reaches_def by (rule exI[of _ "[op]"]) simp

lemma reaches_inv: "reaches E u v \<Longrightarrow> udp_inv u \<Longrightarrow> udp_inv v"
  unfolding reaches_def by (metis outcome.inject urun_ok)

lemma reaches_send: "reaches E u (snd (udp_send E toaddr ptype req u))"
  by (auto simp: udp_send_def split: sum.split intro: reaches_step[of E "USend _ _"])

lemma reaches_db: "reaches E u (u\<lparr>u_db := db\<rparr>)"
  by (rule reaches_step[of E "UDb db"]) simp

lemma reaches_table: "reaches E u (u\<lparr>u_table := tab\<rparr>)"
  by (rule reaches_step[of E "UTable tab"]) simp

lemma reaches_reply:
  assumes "udp_inv u" "ptype = pkt_type pkt"
  shows "\<exists>m v. handleReply E t0 t1 from ptype pkt u = Returned (m, v) \<and> reaches E u v"
  using reply_ok[OF assms(1), of E t0 t1 "from" pkt] reaches_step[of E "UReply t0 t1 from pkt" u] assms(2) by auto

lemma reaches_sendPing:
  assumes "udp_inv u"
  obtains errc v where "sendPing E t0 t1 t2 toid toaddr cb u = Returned (errc, v)" "reaches E u v"
proof (cases "encodePacket E pingPacket (ping 4 (u_ourEndpoint u) (makeEndpoint toaddr 0) (expirationAt t0))")
  case (Inl err)
  then show ?thesis
    using that[of "u_nextErrc u" "snd (answeredChan err u)"] reaches_step[of E "UFail err" u]
    by (simp add: sendPing_def answeredChan_def)
next
  case (Inr r)
  obtain pkt h where r: "r = (pkt, h)" by fastforce
  obtain v where v: "udp_pending E t1 t2 toid pongPacket (PongCb h cb) u = Returned (u_nextErrc u, v)"
    using request_ok[OF assms, of E t1 t2 toid "PongCb h cb"] by auto
  then have "reaches E u v" using reaches_step[of E "URequest t1 t2 toid (PongCb h cb)" u v] by simp
  also have "reaches E v (udp_write toaddr pkt v)" by (rule reaches_step[of E "USend toaddr pkt"]) simp
  finally show ?thesis using that v Inr r by (simp add: sendPing_def)
qed

lemma reaches_chunks: "reaches E u (snd (snd (chunkLoop E from exp ns nodes sent u)))"
proof (induction ns arbitrary: nodes sent u)
  case (Cons n ns)
  show ?case
    using Cons.IH reaches_send reaches_trans by (fastforce simp: Let_def)
qed simp

text \<open>
  No packet makes the listener panic, and what its handler does is a run, to which the theorems on runs apply.
\<close>

theorem packet_is_run:
  assumes inv: "udp_inv u"
  shows "\<exists>err v. handlePacket E clk from buf u = Returned (err, v) \<and> reaches E u v"
proof (cases "decodePacket E buf")
  case (Inl err)
  then show ?thesis by (simp add: handlePacket_def)
next
  case (Inr r)
  obtain req fromID mac where r: "r = (req, fromID, mac)" by (metis prod_cases3)
  have "\<exists>err v. packet_handle E clk from fromID mac req u = Returned (err, v) \<and> reaches E u v"
  proof (cases req)
    case (ping ver f t e)
    define u1 where "u1 = snd (udp_send E from pongPacket (pong (makeEndpoint from (ep_TCP (From req))) mac (expirationAt (clk 1))) u)"
    have 1: "reaches E u u1" unfolding u1_def by (rule reaches_send)
    obtain m u2 where 2: "handleReply E (clk 2) (clk 3) fromID pingPacket req u1 = Returned (m, u2)" "reaches E u1 u2"
      using reaches_reply[of u1 pingPacket req E "clk 2" "clk 3" fromID] reaches_inv[OF 1 inv] ping by auto
    define n where "n = NewNode (keccak256 E) fromID (ua_IP from) (ucast (ua_Port from)) (ep_TCP (From req))"
    have "udp_inv u2" using 1 2 inv reaches_inv by blast
    then obtain c u3 where 3: "(if timeSub (clk 4) (lastPongReceived (dbEnv E) fromID (u_db u2)) > nodeDBNodeExpiration
        then sendPing E (clk 5) (clk 6) (clk 7) fromID from (Some n) u2
        else Returned (0, u2\<lparr>u_table := addThroughPing (clk 5) n (u_table u2)\<rparr>)) = Returned (c, u3)" "reaches E u2 u3"
    proof (cases "timeSub (clk 4) (lastPongReceived (dbEnv E) fromID (u_db u2)) > nodeDBNodeExpiration")
      case True
      from \<open>udp_inv u2\<close> show ?thesis
        by (rule reaches_sendPing[of _ E "clk 5" "clk 6" "clk 7" fromID "from" "Some n"]) (use that True in simp)
    next
      case False
      then show ?thesis using that[OF _ reaches_table] by simp
    qed
    have "ping_handle E clk from fromID mac req u =
        (if expired (clk 0) (Expiration req) then Returned (Some errExpired, u)
         else Returned (None, u3\<lparr>u_db := snd (updateLastPingReceived (dbEnv E) fromID (clk 8) (u_db u3))\<rparr>))"
      unfolding ping_handle_def Let_def u1_def[symmetric] n_def[symmetric] using 2 3 by simp
    moreover have "reaches E u (u3\<lparr>u_db := db\<rparr>)" for db
      using reaches_trans[OF reaches_trans[OF reaches_trans[OF 1 2(2)] 3(2)] reaches_db] .
    ultimately show ?thesis using ping by (cases "expired (clk 0) (Expiration req)") auto
  next
    case (pong t tok e)
    obtain m v where "handleReply E (clk 1) (clk 2) fromID pongPacket req u = Returned (m, v)" "reaches E u v"
      using reaches_reply[OF inv, of pongPacket req E "clk 1" "clk 2" fromID] pong by auto
    then show ?thesis using pong reaches_db reaches_trans by (fastforce simp: pong_handle_def)
  next
    case (findnode t e)
    then show ?thesis
      using reaches_trans[OF reaches_chunks reaches_send] reaches_chunks
      by (auto simp: findnode_handle_def Let_def split_beta)
  next
    case (neighbors ns e)
    obtain m v where "handleReply E (clk 1) (clk 2) fromID neighborsPacket req u = Returned (m, v)" "reaches E u v"
      using reaches_reply[OF inv, of neighborsPacket req E "clk 1" "clk 2" fromID] neighbors by auto
    then show ?thesis using neighbors by (auto simp: neighbors_handle_def)
  qed
  then show ?thesis using Inr r by (simp add: handlePacket_def)
qed

section \<open>Requests end\<close>

definition keys :: "pending list \<Rightarrow> (nat \<times> int) list" where
  "keys ps = map (\<lambda>p. (pd_errc p, pd_deadline p)) ps"

lemma keys_simps [simp]: "keys [] = []" "keys (p # ps) = (pd_errc p, pd_deadline p) # keys ps" "keys (ps @ qs) = keys ps @ keys qs"
  by (simp_all add: keys_def)

text \<open>The timer is set for the first request whenever that is the one noted as the next to time out.\<close>

definition timer_for :: "nat option \<Rightarrow> int option \<Rightarrow> nat \<Rightarrow> (nat \<times> int) list \<Rightarrow> bool" where
  "timer_for next timer n ks \<longleftrightarrow>
     (\<forall>c. next = Some c \<longrightarrow> c < n \<and> c \<notin> fst ` set (tl ks) \<and> (\<forall>d rest. ks = (c, d) # rest \<longrightarrow> timer = Some d))"

lemma subseq_set: "subseq xs ys \<Longrightarrow> set xs \<subseteq> set ys"
  by (induction rule: list_emb.induct) auto

lemma timer_for_subseq:
  assumes T: "timer_for next timer n ks" and sub: "subseq ks' ks" and "n \<le> n'"
  shows "timer_for next timer n' ks'"
  unfolding timer_for_def
proof (intro allI impI conjI)
  fix c
  assume c: "next = Some c"
  show "c < n'" using T c \<open>n \<le> n'\<close> by (auto simp: timer_for_def)
  have tl: "c \<notin> fst ` set (tl ks)" using T c by (simp add: timer_for_def)
  have split: "set ks' \<subseteq> set (tl ks) \<or> (\<exists>k rest rest'. ks = k # rest \<and> ks' = k # rest' \<and> set rest' \<subseteq> set rest)"
  proof (cases ks)
    case (Cons k rest)
    then show ?thesis using sub subseq_set by (cases ks') (fastforce split: if_splits)+
  qed (use sub in simp)
  have "set (tl ks') \<subseteq> set ks'" by (cases ks') auto
  then have "set (tl ks') \<subseteq> set (tl ks)" using split by auto
  then show "c \<notin> fst ` set (tl ks')" using tl by blast
  fix d rest
  assume ks': "ks' = (c, d) # rest"
  then have "\<not> set ks' \<subseteq> set (tl ks)" using tl by force
  then obtain rest' where "ks = (c, d) # rest'" using split ks' by auto
  then show "timer = Some d" using T c by (auto simp: timer_for_def)
qed

lemma subseq_without [simp]: "subseq (xs @ ys) (xs @ y # ys)"
  by (induction xs) auto

lemma replyLoop_keys:
  "replyLoop E now from ptype data matched done ps u = Returned (m, u') \<Longrightarrow>
    subseq (keys (u_plist u')) (keys (done @ ps)) \<and> u_nextTimeout u' = u_nextTimeout u \<and> u_timer u' = u_timer u \<and>
    u_nextErrc u' = u_nextErrc u"
proof (induction ps arbitrary: matched "done" u)
  case Nil
  then show ?case by auto
next
  case (Cons p ps)
  show ?case
  proof (cases "pd_from p = from \<and> pd_ptype p = ptype")
    case True
    then obtain fin cb' u1 where cb: "runCallback E now (pd_callback p) data u = Returned (fin, cb', u1)"
      using Cons.prems by (auto split: outcome.splits)
    have same: "u_nextTimeout u1 = u_nextTimeout u \<and> u_timer u1 = u_timer u \<and> u_nextErrc u1 = u_nextErrc u"
      using cb by (cases "(E, now, pd_callback p, data, u)" rule: runCallback.cases) (auto simp: Let_def split_beta split: option.splits if_splits)
    show ?thesis
    proof (cases fin)
      case True
      then have "u_plist u' = done @ ps" "u_nextTimeout u' = u_nextTimeout u" "u_timer u' = u_timer u" "u_nextErrc u' = u_nextErrc u"
        using Cons.prems cb same \<open>pd_from p = from \<and> _\<close> by (auto simp: Let_def)
      then show ?thesis by simp
    next
      case False
      then have "replyLoop E now from ptype data True (done @ [p\<lparr>pd_callback := cb'\<rparr>]) ps (u1\<lparr>u_contTimeouts := 0\<rparr>) = Returned (m, u')"
        using Cons.prems cb \<open>pd_from p = from \<and> _\<close> by (simp add: Let_def)
      from Cons.IH[OF this] show ?thesis using same by simp
    qed
  next
    case False
    then have "replyLoop E now from ptype data matched (done @ [p]) ps u = Returned (m, u')"
      using Cons.prems by (simp only: replyLoop.simps if_False)
    from Cons.IH[OF this] show ?thesis by simp
  qed
qed

lemma timeoutLoop_keys:
  "subseq (keys (u_plist (timeoutLoop now done ps u))) (keys (done @ ps))"
proof (induction ps arbitrary: "done")
  case (Cons p ps)
  then show ?case using Cons.IH[of "done @ [p]"] by simp
qed simp

lemma resetTimeout_keys: "subseq (keys (u_plist (resetTimeout t u))) (keys (u_plist u))"
  by (auto simp: resetTimeout_def Let_def split: list.split)

fun op_times :: "'s uop \<Rightarrow> int set" where
  "op_times (URequest t0 t1 _ _) = {t0, t1}"
| "op_times (UReply t0 t1 _ _) = {t0, t1}"
| "op_times (UTimer t0 t1 _) = {t0, t1}"
| "op_times (UClose t0 t1) = {t0, t1}"
| "op_times _ = {}"

definition timer_inv :: "int \<Rightarrow> 's udp \<Rightarrow> bool" where
  "timer_inv a u \<longleftrightarrow> timer_for (u_nextTimeout u) (u_timer u) (u_nextErrc u) (keys (u_plist u)) \<and>
     (\<forall>(c, d)\<in>set (keys (u_plist u)). a \<le> d)"

lemma timer_inv_subseq:
  assumes "timer_inv a u" "subseq (keys (u_plist v)) (keys (u_plist u))" "u_nextErrc u \<le> u_nextErrc v"
    and "u_nextTimeout v = None \<or> u_nextTimeout v = u_nextTimeout u \<and> u_timer v = u_timer u"
  shows "timer_inv a v"
proof -
  have "timer_for (u_nextTimeout v) (u_timer v) (u_nextErrc v) (keys (u_plist v))"
  proof (cases "u_nextTimeout v = None")
    case True
    then show ?thesis by (simp add: timer_for_def)
  next
    case False
    then have "u_nextTimeout v = u_nextTimeout u" "u_timer v = u_timer u" using assms(4) by auto
    then show ?thesis using timer_for_subseq[OF _ assms(2,3)] assms(1) by (simp only: timer_inv_def)
  qed
  moreover have "\<forall>(c, d)\<in>set (keys (u_plist v)). a \<le> d"
    using assms(1) subseq_set[OF assms(2)] unfolding timer_inv_def by blast
  ultimately show ?thesis by (simp only: timer_inv_def)
qed

lemma pending_chans:
  assumes "udp_inv u" "\<not> u_closing u"
  shows "distinct (map pd_errc (u_plist u))" "p \<in> set (u_plist u) \<Longrightarrow> pd_errc p < u_nextErrc u"
    and "c < u_nextErrc u \<Longrightarrow> u_plist u = [] \<Longrightarrow> c \<in> fst ` set (u_results u)"
proof -
  have m: "mset (map pd_errc (u_plist u) @ map fst (u_results u)) = mset [0..<u_nextErrc u]"
    using assms by (simp add: udp_inv_def chans_def allChans_def del: mset_upt)
  have "distinct (map pd_errc (u_plist u) @ map fst (u_results u))"
    using mset_eq_imp_distinct_iff[OF m] by (simp only: distinct_upt)
  then show "distinct (map pd_errc (u_plist u))" by simp
  have *: "set (map pd_errc (u_plist u) @ map fst (u_results u)) = {0..<u_nextErrc u}"
    using mset_eq_setD[OF m] by (simp only: set_upt)
  then show "p \<in> set (u_plist u) \<Longrightarrow> pd_errc p < u_nextErrc u" by auto
  show "c < u_nextErrc u \<Longrightarrow> u_plist u = [] \<Longrightarrow> c \<in> fst ` set (u_results u)" using * by auto
qed

lemma resetTimeout_timer:
  assumes inv: "udp_inv u" "\<not> u_closing u" and T: "timer_inv a u" and t: "a \<le> t" "t < a + 2 ^ 63"
  shows "timer_inv a (resetTimeout t u)"
    and "u_plist (resetTimeout t u) = p # ps \<Longrightarrow> u_plist u = p # ps \<Longrightarrow> u_timer (resetTimeout t u) = Some (pd_deadline p)"
proof -
  have set: "timer_inv a (resetTimeout t u) \<and> u_timer (resetTimeout t u) = Some (pd_deadline p)"
    if p: "u_plist u = p # ps" "u_nextTimeout u \<noteq> Some (pd_errc p)" "timeSub (pd_deadline p) t < 2 * respTimeout" for p ps
  proof -
    have "a \<le> pd_deadline p" using T p by (simp add: timer_inv_def)
    then have "t + timeSub (pd_deadline p) t = pd_deadline p"
      using t p(3) by (simp add: timeSub_def respTimeout_def)
    then have "resetTimeout t u = u\<lparr>u_nextTimeout := Some (pd_errc p), u_timer := Some (pd_deadline p)\<rparr>"
      using p by (simp add: resetTimeout_def)
    moreover have "pd_errc p < u_nextErrc u" "pd_errc p \<notin> fst ` set (keys ps)"
      using pending_chans(1,2)[OF inv] p(1) by (auto simp: keys_def image_image)
    ultimately show ?thesis using T p(1) by (auto simp: timer_inv_def timer_for_def)
  qed
  show "timer_inv a (resetTimeout t u)"
  proof (cases "\<exists>p ps. u_plist u = p # ps \<and> u_nextTimeout u \<noteq> Some (pd_errc p) \<and> timeSub (pd_deadline p) t < 2 * respTimeout")
    case False
    then have "u_nextTimeout (resetTimeout t u) = None \<or>
        u_nextTimeout (resetTimeout t u) = u_nextTimeout u \<and> u_timer (resetTimeout t u) = u_timer u"
      by (auto simp: resetTimeout_def Let_def split: list.split)
    then show ?thesis using timer_inv_subseq[OF T resetTimeout_keys] by (simp add: resetTimeout_keeps)
  qed (use set in blast)
  show "u_timer (resetTimeout t u) = Some (pd_deadline p)" if "u_plist (resetTimeout t u) = p # ps" "u_plist u = p # ps"
  proof (cases "u_nextTimeout u = Some (pd_errc p)")
    case True
    then show ?thesis using T that by (auto simp: resetTimeout_def timer_inv_def timer_for_def)
  next
    case False
    then have "timeSub (pd_deadline p) t < 2 * respTimeout" using that by (auto simp: resetTimeout_def Let_def split: if_splits)
    then show ?thesis using set[OF that(2) False] by simp
  qed
qed

lemma resetTimeout_nextErrc: "resetTimeout t (u\<lparr>u_nextErrc := n\<rparr>) = (resetTimeout t u)\<lparr>u_nextErrc := n\<rparr>"
  by (simp add: resetTimeout_def answer_def Let_def split: list.split)

lemma timeoutLoop_next: "u_nextTimeout (timeoutLoop now done ps u) = u_nextTimeout u"
  by (induction now "done" ps u rule: timeoutLoop.induct) simp_all

lemma closed_timer:
  "u_nextTimeout (fold (\<lambda>p. answer p err) ps u) = u_nextTimeout u \<and> u_timer (fold (\<lambda>p. answer p err) ps u) = u_timer u"
  by (induction ps arbitrary: u) simp_all

lemma request_timer:
  assumes inv: "udp_inv u" and T: "timer_inv a u" and t: "a \<le> t0" "t0 < a + 2 ^ 63" "a \<le> t1"
    and u': "udp_pending E t0 t1 i ptype cb u = Returned (errc, u')"
  shows "timer_inv a u'"
proof (cases "u_closing u")
  case True
  then show ?thesis using u' by (intro timer_inv_subseq[OF T]) (auto simp: udp_pending_def answeredChan_def)
next
  case False
  define w where "w = resetTimeout t0 u"
  have w: "timer_inv a w" "u_nextErrc w = u_nextErrc u"
    using resetTimeout_timer(1)[OF inv False T t(1,2)] by (simp_all add: w_def resetTimeout_keeps)
  have "u' = w\<lparr>u_nextErrc := u_nextErrc u + 1,
      u_plist := u_plist w @ [\<lparr>pd_from = i, pd_ptype = ptype, pd_deadline = t1 + respTimeout, pd_callback = cb, pd_errc = u_nextErrc u\<rparr>]\<rparr>"
    using u' False by (auto simp: udp_pending_def loopTurn_def Let_def resetTimeout_nextErrc w_def[symmetric])
  moreover have "a \<le> t1 + respTimeout" using t(3) by (simp add: respTimeout_def)
  ultimately show ?thesis
    using w by (cases "keys (u_plist w)") (auto simp: timer_inv_def timer_for_def)
qed

lemma reply_timer:
  assumes inv: "udp_inv u" and T: "timer_inv a u" and t: "a \<le> t0" "t0 < a + 2 ^ 63"
    and u': "handleReply E t0 t1 from ptype pkt u = Returned (m, u')"
  shows "timer_inv a u'"
proof (cases "u_closing u")
  case True
  then show ?thesis using u' T by (simp add: handleReply_def)
next
  case False
  let ?w = "resetTimeout t0 u"
  have loop: "replyLoop E t1 from ptype pkt False [] (u_plist ?w) ?w = Returned (m, u')"
    using u' False by (simp add: handleReply_def loopTurn_def)
  have "timer_inv a ?w" using resetTimeout_timer(1)[OF inv False T t] .
  then show ?thesis using replyLoop_keys[OF loop] by (elim timer_inv_subseq) auto
qed

lemma timer_turn:
  assumes inv: "udp_inv u" "\<not> u_closing u" and T: "timer_inv a u" and t: "a \<le> t0" "t0 < a + 2 ^ 63"
    and u': "loopTurn E t0 t1 (TimerFired now) u = Returned (m, u')"
  shows "timer_inv a u'"
proof -
  define w where "w = resetTimeout t0 u"
  define v where "v = timeoutLoop now [] (u_plist w) (w\<lparr>u_nextTimeout := None\<rparr>)"
  have "timer_inv a w" using resetTimeout_timer(1)[OF inv T t] by (simp add: w_def)
  moreover have "subseq (keys (u_plist v)) (keys (u_plist w))" "u_nextTimeout v = None" "u_nextErrc v = u_nextErrc w"
    using timeoutLoop_keys[of now "[]" "u_plist w"] timeoutLoop_ok[of now "[]" "u_plist w" "w\<lparr>u_nextTimeout := None\<rparr>"]
    by (simp_all add: v_def timeoutLoop_next)
  ultimately have v: "timer_inv a v" by (intro timer_inv_subseq[of a w v]) auto
  have "u_plist u' = u_plist v \<and> u_nextTimeout u' = u_nextTimeout v \<and> u_timer u' = u_timer v \<and> u_nextErrc u' = u_nextErrc v"
    using u' unfolding loopTurn_def w_def[symmetric] loopEvent.simps v_def[symmetric] Let_def by auto
  then show ?thesis using v by (simp add: timer_inv_def)
qed

lemma ustep_timer:
  assumes inv: "udp_inv u" and T: "timer_inv a u" and t: "op_times op \<subseteq> {a..<a + 2 ^ 63}" and u': "ustep E op u = Returned u'"
  shows "timer_inv a u'"
proof (cases op)
  case (URequest t0 t1 i cb)
  then show ?thesis
    using u' t request_ok[OF inv, of E t0 t1 i cb] request_timer[OF inv T, of t0 t1 E i "cb_type cb" cb] by auto
next
  case (UReply t0 t1 f pkt)
  then show ?thesis
    using u' t reply_ok[OF inv, of E t0 t1 f pkt] reply_timer[OF inv T, of t0 E t1 f "pkt_type pkt" pkt] by auto
next
  case (UTimer t0 t1 now)
  then show ?thesis
    using u' t T timer_ok[OF inv, of E t0 t1 now] timer_turn[OF inv _ T, of t0 E t1 now] by (cases "u_closing u") auto
next
  case (UClose t0 t1)
  show ?thesis
  proof (cases "u_closing u")
    case False
    then have "timer_inv a (resetTimeout t0 u)" using resetTimeout_timer(1)[OF inv False T] t UClose by simp
    then show ?thesis
      using u' UClose False by (auto simp: udp_close_def loopTurn_def timer_inv_def closed_results closed_timer)
  qed (use u' UClose T in simp)
qed (use u' in \<open>auto intro!: timer_inv_subseq[OF T] simp: udp_write_def answeredChan_def\<close>)

lemma urun_timer:
  assumes "udp_inv u" "timer_inv a u" "\<And>op. op \<in> set ops \<Longrightarrow> op_times op \<subseteq> {a..<a + 2 ^ 63}" "urun E ops u = Returned u'"
  shows "timer_inv a u'"
  using assms
proof (induction ops arbitrary: u)
  case (Cons op ops)
  obtain u1 where u1: "ustep E op u = Returned u1" "udp_inv u1" using ustep_ok[OF Cons.prems(1)] by blast
  moreover have "timer_inv a u1" using ustep_timer[OF Cons.prems(1,2) _ u1(1)] Cons.prems(3)[of op] by simp
  ultimately show ?case using Cons.IH[of u1] Cons.prems(3,4) by simp
qed simp

lemma timer_shortens:
  assumes inv: "udp_inv u" "\<not> u_closing u" and now: "\<And>p. p \<in> set (u_plist u) \<Longrightarrow> pd_deadline p \<le> now"
  shows "\<exists>u'. ustep E (UTimer t0 t1 now) u = Returned u' \<and> udp_inv u' \<and> \<not> u_closing u' \<and> u_nextErrc u' = u_nextErrc u \<and>
    set (u_plist u') \<subseteq> set (u_plist u) \<and> length (u_plist u') \<le> length (u_plist u) - 1"
proof -
  let ?w = "resetTimeout t0 u"
  obtain u' where u': "loopTurn E t0 t1 (TimerFired now) u = Returned (False, u')" "udp_inv u'" "\<not> u_closing u'" "u_nextErrc u' = u_nextErrc u"
    "u_plist u' = u_plist (timeoutLoop now [] (u_plist ?w) (?w\<lparr>u_nextTimeout := None\<rparr>))"
    using timer_ok[OF inv] by blast
  have sub: "set (u_plist ?w) \<subseteq> set (u_plist u)" by (rule resetTimeout_keeps)
  have "length (u_plist ?w) \<le> length (u_plist u)"
    using resetTimeout_keys[of t0 u] by (auto dest: list_emb_length simp: keys_def)
  moreover have "u_plist u' = tl (u_plist ?w)"
  proof (cases "u_plist ?w")
    case (Cons p ps)
    then have "pd_deadline p \<le> now" using now sub by auto
    then show ?thesis using u'(5) Cons by auto
  qed (use u'(5) in simp)
  ultimately show ?thesis
    using u' sub inv(2) by (cases "u_plist ?w") auto
qed

lemma timers_end:
  assumes "udp_inv u" "\<not> u_closing u" "length (u_plist u) \<le> length ts"
    and "\<And>t0 t1 now p. (t0, t1, now) \<in> set ts \<Longrightarrow> p \<in> set (u_plist u) \<Longrightarrow> pd_deadline p \<le> now"
  shows "\<exists>u'. urun E (map (\<lambda>(t0, t1, now). UTimer t0 t1 now) ts) u = Returned u' \<and> udp_inv u' \<and> \<not> u_closing u' \<and>
    u_nextErrc u' = u_nextErrc u \<and> u_plist u' = []"
  using assms
proof (induction ts arbitrary: u)
  case (Cons t ts)
  obtain t0 t1 now where t: "t = (t0, t1, now)" by (metis prod_cases3)
  obtain u1 where u1: "ustep E (UTimer t0 t1 now) u = Returned u1" "udp_inv u1" "\<not> u_closing u1" "u_nextErrc u1 = u_nextErrc u"
    "set (u_plist u1) \<subseteq> set (u_plist u)" "length (u_plist u1) \<le> length (u_plist u) - 1"
    using timer_shortens[OF Cons.prems(1,2), of now E t0 t1] Cons.prems(4)[of t0 t1 now] t by auto
  have "length (u_plist u1) \<le> length ts" using u1(6) Cons.prems(3) by simp
  moreover have "pd_deadline p \<le> now'" if "(t0', t1', now') \<in> set ts" "p \<in> set (u_plist u1)" for t0' t1' now' p
    using Cons.prems(4)[of t0' t1' now' p] that u1(5) by auto
  ultimately show ?case using Cons.IH[OF u1(2,3)] u1(1,4) t by auto
qed simp

text \<open>C32. In every run, as long as the readings of the clock stay within 292 years: a turn of the loop leaves the timer set for the deadline
  of the first waiting request, unless that request is answered because its deadline is too far ahead; and once the timer
  has fired as often as requests wait, at times when their deadlines have passed, every request was answered.
\<close>

theorem requests_end:
  assumes "newUDP E nr la an i bn now0 seeds db = Inr u0" and "urun E ops u0 = Returned u"
    and "\<And>op. op \<in> set ops \<Longrightarrow> op_times op \<subseteq> {a..<a + 2 ^ 63}" and "\<not> u_closing u"
  shows "(\<forall>t p ps. a \<le> t \<and> t < a + 2 ^ 63 \<and> u_plist u = p # ps \<longrightarrow>
      u_plist (resetTimeout t u) = p # ps \<and> u_timer (resetTimeout t u) = Some (pd_deadline p) \<or>
      u_plist (resetTimeout t u) = ps \<and> pd_deadline p \<ge> t + 2 * respTimeout \<and>
      u_results (resetTimeout t u) = u_results u @ [(pd_errc p, Some errClockWarp)]) \<and>
    (\<forall>ts. length (u_plist u) \<le> length ts \<and> (\<forall>(t0, t1, now)\<in>set ts. \<forall>p\<in>set (u_plist u). pd_deadline p \<le> now) \<longrightarrow>
      (\<exists>u'. urun E (map (\<lambda>(t0, t1, now). UTimer t0 t1 now) ts) u = Returned u' \<and> {..<u_nextErrc u} \<subseteq> fst ` set (u_results u')))"
proof -
  have u0: "udp_inv u0" "timer_inv a u0"
    using newUDP_inv[OF assms(1)] assms(1)
    by (auto simp: newUDP_def timer_inv_def timer_for_def Let_def split: sum.splits)
  have u: "udp_inv u" using urun_ok[OF u0(1), of E ops] assms(2) by auto
  have T: "timer_inv a u" using urun_timer[OF u0 assms(3,2)] .
  have "u_plist (resetTimeout t u) = p # ps \<and> u_timer (resetTimeout t u) = Some (pd_deadline p) \<or>
      u_plist (resetTimeout t u) = ps \<and> pd_deadline p \<ge> t + 2 * respTimeout \<and>
      u_results (resetTimeout t u) = u_results u @ [(pd_errc p, Some errClockWarp)]"
    if t: "a \<le> t" "t < a + 2 ^ 63" "u_plist u = p # ps" for t p ps
  proof (cases "u_plist (resetTimeout t u) = p # ps")
    case True
    then show ?thesis using resetTimeout_timer(2)[OF u assms(4) T t(1,2) True t(3)] by simp
  next
    case False
    then have "2 * respTimeout \<le> timeSub (pd_deadline p) t"
      "resetTimeout t u = (answer p (Some errClockWarp) u)\<lparr>u_plist := ps, u_nextTimeout := None, u_timer := None\<rparr>"
      using t(3) by (auto simp: resetTimeout_def Let_def split: if_splits)
    then show ?thesis by (auto simp: timeSub_def respTimeout_def)
  qed
  moreover have "\<exists>u'. urun E (map (\<lambda>(t0, t1, now). UTimer t0 t1 now) ts) u = Returned u' \<and> {..<u_nextErrc u} \<subseteq> fst ` set (u_results u')"
    if ts: "length (u_plist u) \<le> length ts" "\<forall>(t0, t1, now)\<in>set ts. \<forall>p\<in>set (u_plist u). pd_deadline p \<le> now" for ts
  proof -
    obtain u' where u': "urun E (map (\<lambda>(t0, t1, now). UTimer t0 t1 now) ts) u = Returned u'" "udp_inv u'" "\<not> u_closing u'"
      "u_nextErrc u' = u_nextErrc u" "u_plist u' = []"
      using timers_end[OF u assms(4) ts(1), of E] ts(2) by fast
    then have "{..<u_nextErrc u} \<subseteq> fst ` set (u_results u')" using pending_chans(3)[OF u'(2,3)] by auto
    then show ?thesis using u'(1) by blast
  qed
  ultimately show ?thesis by blast
qed

section \<open>Success is earned\<close>

fun accepts :: "callback \<Rightarrow> packet \<Rightarrow> bool" where
  "accepts (PongCb hash _) (pong _ tok _) \<longleftrightarrow> tok = hash"
| "accepts AnyCb (ping _ _ _ _) \<longleftrightarrow> True"
| "accepts (NeighborsCb _ nreceived _) (neighbors rns _) \<longleftrightarrow> nreceived + length rns \<ge> bucketSize"
| "accepts _ _ \<longleftrightarrow> False"

lemma neighborsLoop_count: "fst (neighborsLoop E nr a rns k nodes) = k + length rns"
  by (induction rns arbitrary: k nodes) (simp_all split: sum.split)

lemma runCallback_accepts:
  assumes "runCallback E now cb data u = Returned (fin, cb', u')" "pkt_type data = cb_type cb"
  shows "fin \<longleftrightarrow> accepts cb data" "u_results u' = u_results u"
  using assms
  by (cases cb; cases data; auto simp: pongPacket_def pingPacket_def findnodePacket_def neighborsPacket_def Let_def split_beta
      neighborsLoop_count split: option.splits)+

lemma replyLoop_results:
  assumes "replyLoop E now from (pkt_type data) data matched done ps u = Returned (m, u')"
    and "\<And>p. p \<in> set ps \<Longrightarrow> pd_ptype p = cb_type (pd_callback p)"
  shows "u_results u' = u_results u \<or>
    (\<exists>p\<in>set ps. u_results u' = u_results u @ [(pd_errc p, None)] \<and> pd_from p = from \<and> accepts (pd_callback p) data)"
  using assms
proof (induction ps arbitrary: matched "done" u)
  case Nil
  then show ?case by auto
next
  case (Cons p ps)
  show ?case
  proof (cases "pd_from p = from \<and> pd_ptype p = pkt_type data")
    case True
    then obtain fin cb' u1 where cb: "runCallback E now (pd_callback p) data u = Returned (fin, cb', u1)"
      using Cons.prems by (auto split: outcome.splits)
    have acc: "fin \<longleftrightarrow> accepts (pd_callback p) data" "u_results u1 = u_results u"
      using runCallback_accepts[OF cb] True Cons.prems(2)[of p] by auto
    show ?thesis
    proof (cases fin)
      case True
      then have "u_results u' = u_results u @ [(pd_errc p, None)]"
        using Cons.prems cb acc(2) \<open>pd_from p = from \<and> _\<close> by (auto simp: Let_def)
      then show ?thesis using acc True \<open>pd_from p = from \<and> _\<close> by auto
    next
      case False
      then have "replyLoop E now from (pkt_type data) data True (done @ [p\<lparr>pd_callback := cb'\<rparr>]) ps (u1\<lparr>u_contTimeouts := 0\<rparr>) = Returned (m, u')"
        using Cons.prems cb \<open>pd_from p = from \<and> _\<close> by (simp add: Let_def)
      from Cons.IH[OF this] show ?thesis using acc(2) Cons.prems(2) by auto
    qed
  next
    case False
    then have "replyLoop E now from (pkt_type data) data matched (done @ [p]) ps u = Returned (m, u')"
      using Cons.prems(1) by (simp only: replyLoop.simps if_False)
    from Cons.IH[OF this] show ?thesis using Cons.prems(2) by auto
  qed
qed

lemma timeoutLoop_results: "(c, None) \<in> set (u_results (timeoutLoop now done ps u)) \<longleftrightarrow> (c, None) \<in> set (u_results u)"
  by (induction now "done" ps u rule: timeoutLoop.induct) auto

lemma resetTimeout_results: "(c, None) \<in> set (u_results (resetTimeout t u)) \<longleftrightarrow> (c, None) \<in> set (u_results u)"
  by (auto simp: resetTimeout_def Let_def split: list.split)

lemma ustep_success:
  assumes inv: "udp_inv u" and u': "ustep E op u = Returned u'" and new: "(c, None) \<in> set (u_results u')" "(c, None) \<notin> set (u_results u)"
  shows "\<exists>t0 t1 from pkt p. op = UReply t0 t1 from pkt \<and> p \<in> set (u_plist u) \<and> pd_errc p = c \<and> pd_from p = from \<and> accepts (pd_callback p) pkt"
proof (cases op)
  case (URequest t0 t1 i cb)
  then show ?thesis using u' new
    by (auto simp: udp_pending_def answeredChan_def loopTurn_def Let_def resetTimeout_nextErrc resetTimeout_results split: if_splits)
next
  case (UReply t0 t1 f pkt)
  show ?thesis
  proof (cases "u_closing u")
    case False
    let ?w = "resetTimeout t0 u"
    obtain m where "replyLoop E t1 f (pkt_type pkt) pkt False [] (u_plist ?w) ?w = Returned (m, u')"
      using u' UReply False reply_ok[OF inv, of E t0 t1 f pkt] by (auto simp: handleReply_def loopTurn_def)
    moreover have "pd_ptype p = cb_type (pd_callback p)" if "p \<in> set (u_plist ?w)" for p
      using that inv resetTimeout_keeps(3)[of t0 u] by (auto simp: udp_inv_def)
    ultimately have "u_results u' = u_results ?w \<or>
      (\<exists>p\<in>set (u_plist ?w). u_results u' = u_results ?w @ [(pd_errc p, None)] \<and> pd_from p = f \<and> accepts (pd_callback p) pkt)"
      by (rule replyLoop_results)
    then show ?thesis using new resetTimeout_results[of c t0 u] resetTimeout_keeps(3)[of t0 u] UReply by auto
  qed (use u' new UReply in \<open>simp add: handleReply_def\<close>)
next
  case (UTimer t0 t1 now)
  then show ?thesis using u' new
    by (auto simp: loopTurn_def Let_def timeoutLoop_results resetTimeout_results split: if_splits)
next
  case (UClose t0 t1)
  then show ?thesis using u' new
    by (auto simp: udp_close_def loopTurn_def closed_results resetTimeout_results split: if_splits)
qed (use u' new in \<open>auto simp: udp_write_def answeredChan_def\<close>)

text \<open>C33. In every run a request is reported as successful only if, while it waited, a packet of the node that was asked was
  handed to the loop that accounts for it: a pong with the hash of the ping that was sent, a ping for a call that waits for one, or
  a neighbours packet with which at least sixteen nodes were received.
\<close>

theorem success_is_earned:
  assumes "newUDP E nr la an i bn now seeds db = Inr u0" and "urun E ops u0 = Returned u" and "(c, None) \<in> set (u_results u)"
  shows "\<exists>pre t0 t1 from pkt post v p. ops = pre @ UReply t0 t1 from pkt # post \<and> urun E pre u0 = Returned v \<and>
    p \<in> set (u_plist v) \<and> pd_errc p = c \<and> pd_from p = from \<and> accepts (pd_callback p) pkt"
  using assms(2,3)
proof (induction ops arbitrary: u rule: rev_induct)
  case Nil
  then show ?case using assms(1) by (auto simp: newUDP_def Let_def split: sum.splits)
next
  case (snoc op ops)
  obtain v where v: "urun E ops u0 = Returned v" "udp_inv v" using urun_ok newUDP_inv[OF assms(1)] by blast
  then have step: "ustep E op v = Returned u" using snoc.prems(1) ustep_ok[OF v(2), of E op] by (auto simp: urun_append)
  show ?case
  proof (cases "(c, None) \<in> set (u_results v)")
    case True
    then show ?thesis using snoc.IH[OF v(1)] by (metis append.assoc append_Cons)
  next
    case False
    then show ?thesis using ustep_success[OF v(2) step snoc.prems(2)] v(1) by blast
  qed
qed

text \<open>The nodes that a request for neighbours collects have passed the checks of \<^verbatim>\<open>nodeFromRPC\<close> for the address that was asked.\<close>

lemma neighborsLoop_checked:
  "n \<in> set (snd (neighborsLoop E nr a rns k nodes)) \<Longrightarrow>
    n \<in> set nodes \<or> (\<exists>rn\<in>set rns. nodeFromRPC (keccak256 E) (isOnCurve E) nr a rn = Inr n)"
proof (induction rns arbitrary: k nodes)
  case (Cons rn rns)
  then show ?case
    using Cons.IH[of "k + 1" nodes] Cons.IH[of "k + 1" "nodes @ [m]" for m]
    by (cases "nodeFromRPC (keccak256 E) (isOnCurve E) nr a rn") auto
qed simp

lemma nodeFromRPC_checked:
  assumes "nodeFromRPC kec onCurve nr sender rn = Inr n"
  shows "rn_UDP rn > 1024 \<and> CheckRelayIP (ua_IP sender) (rn_IP rn) = None \<and> (nr = None \<or> Netlist_Contains nr (rn_IP rn)) \<and>
    n = NewNode kec (rn_ID rn) (rn_IP rn) (rn_UDP rn) (rn_TCP rn) \<and> validateComplete onCurve n = None"
  using assms by (auto simp: nodeFromRPC_def Let_def split: if_splits option.splits)

section \<open>Answers to findnode\<close>

lemma chunkLoop_sends:
  assumes enc: "\<And>ns. encodePacket E neighborsPacket (neighbors ns exp) = Inr (enc ns, mac ns)"
    and "chunkLoop E from exp ns nodes sent u = (nodes', sent', u')" and "length nodes < maxNeighbors E"
  shows "\<exists>chunks. u' = u\<lparr>u_sent := u_sent u @ map (\<lambda>ch. (from, enc ch)) chunks\<rparr> \<and>
    concat chunks @ nodes' = nodes @ map nodeToRPC (filter (\<lambda>n. CheckRelayIP (ua_IP from) (n_IP n) = None) ns) \<and>
    (\<forall>ch\<in>set chunks. length ch = maxNeighbors E) \<and> length nodes' < maxNeighbors E \<and> sent' = (sent \<or> chunks \<noteq> [])"
  using assms(2,3)
proof (induction ns arbitrary: nodes sent u)
  case Nil
  then show ?case by (intro exI[of _ "[]"]) auto
next
  case (Cons n ns)
  define nodes1 where "nodes1 = (if CheckRelayIP (ua_IP from) (n_IP n) = None then nodes @ [nodeToRPC n] else nodes)"
  have len: "length nodes1 \<le> maxNeighbors E" using Cons.prems(2) by (auto simp: nodes1_def)
  have new: "nodes1 @ map nodeToRPC (filter (\<lambda>n. CheckRelayIP (ua_IP from) (n_IP n) = None) ns) =
      nodes @ map nodeToRPC (filter (\<lambda>n. CheckRelayIP (ua_IP from) (n_IP n) = None) (n # ns))"
    by (simp add: nodes1_def)
  have loop: "chunkLoop E from exp (n # ns) nodes sent u =
      (if length nodes1 = maxNeighbors E then chunkLoop E from exp ns [] True (u\<lparr>u_sent := u_sent u @ [(from, enc nodes1)]\<rparr>)
       else chunkLoop E from exp ns nodes1 sent u)"
    by (simp add: nodes1_def[symmetric] udp_send_def enc udp_write_def Let_def)
  show ?case
  proof (cases "length nodes1 = maxNeighbors E")
    case True
    then have "chunkLoop E from exp ns [] True (u\<lparr>u_sent := u_sent u @ [(from, enc nodes1)]\<rparr>) = (nodes', sent', u')"
      using Cons.prems(1) loop by simp
    from Cons.IH[OF this] Cons.prems(2) obtain chunks where
      "u' = u\<lparr>u_sent := u_sent u @ [(from, enc nodes1)] @ map (\<lambda>ch. (from, enc ch)) chunks\<rparr>"
      "concat chunks @ nodes' = map nodeToRPC (filter (\<lambda>n. CheckRelayIP (ua_IP from) (n_IP n) = None) ns)"
      "\<forall>ch\<in>set chunks. length ch = maxNeighbors E" "length nodes' < maxNeighbors E" "sent'"
      by auto
    then show ?thesis using True new by (intro exI[of _ "nodes1 # chunks"]) auto
  next
    case False
    then have "chunkLoop E from exp ns nodes1 sent u = (nodes', sent', u')" "length nodes1 < maxNeighbors E"
      using Cons.prems(1) loop len by simp_all
    from Cons.IH[OF this] show ?thesis unfolding new .
  qed
qed

text \<open>
  A findnode packet of a bonded node that has not expired is answered to the address it came from: the packets sent
  carry, in their order, exactly those of the closest nodes of the table that may be relayed to that address, none of the packets more
  than the limit, and at least one packet is sent.  Nothing else of the state changes.
\<close>

theorem findnode_answer:
  assumes enc: "\<And>ns. encodePacket E neighborsPacket (neighbors ns (expirationAt (clk 2))) = Inr (enc ns, mac' ns)"
    and "\<not> expired (clk 0) exp" "hasBond (dbEnv E) (clk 1) fromID (u_db u)" "0 < maxNeighbors E"
  shows "\<exists>chunks. findnode_handle E clk from fromID mac (findnode target exp) u =
      Returned (None, u\<lparr>u_sent := u_sent u @ map (\<lambda>ch. (from, enc ch)) chunks\<rparr>) \<and> chunks \<noteq> [] \<and>
    (\<forall>ch\<in>set chunks. length ch \<le> maxNeighbors E) \<and>
    concat chunks = map nodeToRPC (filter (\<lambda>n. CheckRelayIP (ua_IP from) (n_IP n) = None)
      (nd_entries (closest (keccak256 E target) bucketSize (u_table u))))"
proof -
  define es where "es = nd_entries (closest (keccak256 E target) bucketSize (u_table u))"
  obtain nodes' sent' u' where loop: "chunkLoop E from (expirationAt (clk 2)) es [] False u = (nodes', sent', u')"
    by (metis prod_cases3)
  obtain chunks where chunks: "u' = u\<lparr>u_sent := u_sent u @ map (\<lambda>ch. (from, enc ch)) chunks\<rparr>"
    "concat chunks @ nodes' = map nodeToRPC (filter (\<lambda>n. CheckRelayIP (ua_IP from) (n_IP n) = None) es)"
    "\<forall>ch\<in>set chunks. length ch = maxNeighbors E" "length nodes' < maxNeighbors E" "sent' = (chunks \<noteq> [])"
    using chunkLoop_sends[OF enc loop] assms(4) by auto
  have handle: "findnode_handle E clk from fromID mac (findnode target exp) u =
      Returned (None, if 0 < length nodes' \<or> \<not> sent' then u'\<lparr>u_sent := u_sent u' @ [(from, enc nodes')]\<rparr> else u')"
    using assms(2,3) loop by (simp add: findnode_handle_def es_def[symmetric] udp_send_def enc udp_write_def Let_def)
  show ?thesis
  proof (cases "0 < length nodes' \<or> \<not> sent'")
    case True
    then show ?thesis unfolding es_def[symmetric] using handle chunks by (intro exI[of _ "chunks @ [nodes']"]) auto
  next
    case False
    then show ?thesis unfolding es_def[symmetric] using handle chunks by (intro exI[of _ chunks]) auto
  qed
qed

section \<open>Packets are read back\<close>

lemma sizes [simp]: "macSize = 32" "sigSize = 65" "headSize = 97"
  by (simp_all add: macSize_def sigSize_def headSize_def)

lemma encodePacket_eq:
  assumes "\<And>x. length (keccak256 E x) = 32" "rlpEncode E req = Inr body"
    and "signHash E (keccak256 E (ptype # body)) = Inr sig" "length sig = 65"
  shows "encodePacket E ptype req =
    Inr (keccak256 E (sig @ ptype # body) @ sig @ ptype # body, keccak256 E (sig @ ptype # body))"
  using assms by (simp add: encodePacket_def copyAt_def Let_def)

text \<open>C34. A packet is read back as it was written, with the identifier of the key that signed it and the hash that a reply has to
  quote; and whatever is accepted starts with the hash of the rest and carries a signature of its type and body from which the
  identifier was recovered.
\<close>

theorem packet_roundtrip:
  assumes "\<And>x. length (keccak256 E x) = 32" and "rlpEncode E req = Inr body" "rlpDecode E ptype body = Inr req"
    and "signHash E (keccak256 E (ptype # body)) = Inr sig" "length sig = 65"
    and "recoverPubkey E (keccak256 E (ptype # body)) sig = Inr (fmt # ourID)" "length ourID = 64"
    and "ptype \<in> {pingPacket, pongPacket, findnodePacket, neighborsPacket}"
  shows "(\<exists>pkt h. encodePacket E ptype req = Inr (pkt, h) \<and> decodePacket E pkt = Inr (req, ourID, h) \<and> length pkt = 98 + length body) \<and>
    (\<forall>buf r i h. decodePacket E buf = Inr (r, i, h) \<longrightarrow>
       buf = h @ drop 32 buf \<and> h = keccak256 E (drop 32 buf) \<and> length i = 64 \<and>
       (\<exists>b. recoverPubkey E (keccak256 E (drop 97 buf)) (take 65 (drop 32 buf)) = Inr (b # i)))"
proof -
  let ?h = "keccak256 E (sig @ ptype # body)"
  have "decodePacket E (?h @ sig @ ptype # body) = Inr (req, ourID, ?h)"
    using assms by (simp add: decodePacket_def recoverNodeID_def Let_def)
  moreover have "buf = h @ drop 32 buf \<and> h = keccak256 E (drop 32 buf) \<and> length i = 64 \<and>
      (\<exists>b. recoverPubkey E (keccak256 E (drop 97 buf)) (take 65 (drop 32 buf)) = Inr (b # i))"
    if dec: "decodePacket E buf = Inr (r, i, h)" for buf r i h
  proof -
    have h: "h = take 32 buf" "h = keccak256 E (drop 32 buf)"
      "recoverNodeID E (keccak256 E (drop 97 buf)) (take 65 (drop 32 buf)) = Inr i"
      using dec by (auto simp: decodePacket_def Let_def split: if_splits sum.splits)
    then obtain pk where "recoverPubkey E (keccak256 E (drop 97 buf)) (take 65 (drop 32 buf)) = Inr pk" "length pk = 65" "i = drop 1 pk"
      by (auto simp: recoverNodeID_def split: sum.splits if_splits)
    then show ?thesis using h(1,2) by (cases pk) auto
  qed
  ultimately show ?thesis using encodePacket_eq[OF assms(1,2,4,5)] assms(1,5) by auto
qed

section \<open>A bond without a proof\<close>

text \<open>C35. While a ping to a node waits for its pong, a pong of that node with any token at all counts as the proof of its endpoint: it is
  recorded, and for a day every findnode packet signed by the node is answered to whatever address it seems to come from.
\<close>

theorem bond_without_proof:
  assumes inv: "udp_inv u" "\<not> u_closing u" and wait: "p \<in> set (u_plist u)" "pd_from p = fromID" "pd_ptype p = pongPacket"
    and early: "\<And>q. q \<in> set (u_plist u) \<Longrightarrow> timeSub (pd_deadline q) (clk 1) < 2 * respTimeout"
    and db: "kv_ok (dbEnv E)" "\<And>k v s. fst (kv_Put (dbEnv E) k v s) = None" "length fromID = 64"
    and clk: "\<not> expired (clk 0) exp" "0 \<le> clk 3" "clk 3 < 2 ^ 63 * second"
    and later: "\<not> expired (clk' 0) exp'" "clk' 1 < clk 3 - clk 3 mod second + 24 * 3600 * second" "0 < maxNeighbors E"
    and enc: "\<And>ns. encodePacket E neighborsPacket (neighbors ns (expirationAt (clk' 2))) = Inr (enc ns, mac' ns)"
  shows "\<exists>u1 u2 chunks. pong_handle E clk addr fromID mac (pong to tok exp) u = Returned (None, u1) \<and>
    findnode_handle E clk' victim fromID mac2 (findnode target exp') u1 = Returned (None, u2) \<and>
    u_sent u2 = u_sent u1 @ map (\<lambda>ch. (victim, enc ch)) chunks \<and> chunks \<noteq> []"
proof -
  let ?w = "resetTimeout (clk 1) u"
  have w: "u_plist ?w = u_plist u" using early by (auto simp: resetTimeout_def Let_def split: list.split)
  have typed: "\<And>q. q \<in> set (u_plist ?w) \<union> set [] \<Longrightarrow> pd_ptype q = cb_type (pd_callback q)"
    using inv(1) w by (auto simp: udp_inv_def)
  obtain m v where v: "replyLoop E (clk 2) fromID (pkt_type (pong to tok exp)) (pong to tok exp) False [] (u_plist ?w) ?w = Returned (m, v)"
    "m \<longleftrightarrow> (\<exists>q\<in>set (u_plist ?w). pd_from q = fromID \<and> pd_ptype q = pkt_type (pong to tok exp))"
    using replyLoop_ok[of "u_plist ?w" "[]" E "clk 2" fromID "pong to tok exp" False ?w, OF typed] by auto
  have m: m using v(2) w wait by auto
  define u1 where "u1 = v\<lparr>u_db := snd (updateLastPongReceived (dbEnv E) fromID (clk 3) (u_db v))\<rparr>"
  have "pong_handle E clk addr fromID mac (pong to tok exp) u = Returned (None, u1)"
    using clk(1) inv(2) v(1) m by (simp add: pong_handle_def handleReply_def loopTurn_def u1_def)
  moreover have bond: "hasBond (dbEnv E) (clk' 1) fromID (u_db u1)"
  proof -
    have "updateLastPongReceived (dbEnv E) fromID (clk 3) (u_db v) = (None, u_db u1)"
      using db(2) by (simp add: u1_def updateLastPongReceived_def storeInt64_def split_beta Let_def)
    from last_pong_after[OF db(1) db(3) db(3), of "clk 3" "u_db v"] this clk later show ?thesis
      by (simp add: hasBond_def timeSub_less nodeDBNodeExpiration_def second_def)
  qed
  moreover obtain chunks where "findnode_handle E clk' victim fromID mac2 (findnode target exp') u1 =
      Returned (None, u1\<lparr>u_sent := u_sent u1 @ map (\<lambda>ch. (victim, enc ch)) chunks\<rparr>)" "chunks \<noteq> []"
    using findnode_answer[OF enc later(1) bond later(3)] by blast
  ultimately show ?thesis by auto
qed

section \<open>The size of a packet of neighbours\<close>

lemma initMaxNeighbors_ends:
  assumes "\<And>k. n \<le> k \<Longrightarrow> k \<le> n + d \<Longrightarrow> \<exists>sz. rlpSize (k + 1) = Inr sz \<and> (98 + sz \<ge> 1280 \<longleftrightarrow> k = n + d)"
  shows "initMaxNeighbors rlpSize n = Some (Returned (n + d))"
  using assms
proof (induction d arbitrary: n)
  case 0
  then show ?case using "0.prems"[of n] by (subst initMaxNeighbors.simps) (auto split: sum.split)
next
  case (Suc d)
  have "initMaxNeighbors rlpSize (Suc n) = Some (Returned (Suc n + d))" by (rule Suc.IH) (use Suc.prems in auto)
  then show ?case using Suc.prems[of n] by (subst initMaxNeighbors.simps) (auto split: sum.split)
qed

text \<open>
  The size of a packet of RLP: a string or list of fewer than 56 bytes has a header of one byte, a longer one also the bytes of
  its length.  With the sizes of the largest node the loop of \<^verbatim>\<open>init\<close> ends with twelve.
\<close>

definition rlpHeader :: "nat \<Rightarrow> nat" where
  "rlpHeader n = (if n < 56 then 1 else if n < 256 then 2 else if n < 65536 then 3 else 4)"

definition maxNodeSize :: nat where
  "maxNodeSize = (let payload = (1 + 16) + (1 + 2) + (1 + 2) + (rlpHeader 64 + 64) in rlpHeader payload + payload)"

definition neighborsSize :: "nat \<Rightarrow> nat" where
  "neighborsSize n = (let nodes = n * maxNodeSize; payload = rlpHeader nodes + nodes + (1 + 8) in rlpHeader payload + payload)"

lemma init_twelve: "initMaxNeighbors (\<lambda>n. Inr (neighborsSize n)) 0 = Some (Returned 12)"
proof -
  have "maxNodeSize = 91" by code_simp
  then have "98 + neighborsSize (k + 1) \<ge> 1280 \<longleftrightarrow> k = 12" if "k \<le> 12" for k
  proof -
    from that have "k \<in> set [0..<13]" by simp
    then show ?thesis by (simp add: neighborsSize_def rlpHeader_def \<open>maxNodeSize = 91\<close> upt_rec) auto
  qed
  then show ?thesis using initMaxNeighbors_ends[of 0 12 "\<lambda>n. Inr (neighborsSize n)"] by simp
qed

section \<open>Loops that end at the first removal\<close>

text \<open>
  Of two calls that wait for a ping of the same node, a ping ends only the first, although the comment at the type
  \<^verbatim>\<open>pending\<close> says that a packet is given to all callbacks of its node.
\<close>

lemma second_waiter_not_told:
  assumes "\<not> u_closing u" "u_plist u = [p, q]" "u_nextTimeout u = Some (pd_errc p)"
    and "pd_callback p = AnyCb" "pd_callback q = AnyCb" "pd_from p = from" "pd_from q = from"
    and "pd_ptype p = pingPacket" "pd_ptype q = pingPacket"
  shows "\<exists>u'. handleReply E t0 t1 from pingPacket (ping v f t e) u = Returned (True, u') \<and> u_plist u' = [q] \<and>
    u_results u' = u_results u @ [(pd_errc p, None)]"
  using assms by (simp add: handleReply_def loopTurn_def resetTimeout_def Let_def)

text \<open>
  When the clock has jumped back, the request at the front is dropped and the timer is stopped, although other requests wait.
\<close>

lemma warp_stops_timer:
  assumes "u_plist u = p # q # ps" "u_nextTimeout u \<noteq> Some (pd_errc p)" "timeSub (pd_deadline p) t \<ge> 2 * respTimeout"
  shows "u_plist (resetTimeout t u) = q # ps \<and> u_timer (resetTimeout t u) = None"
  using assms by (simp add: resetTimeout_def Let_def)

section \<open>Packets that are passed on\<close>

text \<open>
  The server gives the channel room for a hundred packets.  If a second packet arrives before the first was taken off,
  its bytes are what the reader gets as the first one.
\<close>

lemma unhandled_overwritten:
  assumes "length d1 = n" "length d2 = n" "n < 98" "length buf = 1280"
  shows "\<exists>rs. udp_readLoop E clk (Some 100) [ReadFrom a1 d1, ReadFrom a2 d2, ChanReceive] \<lparr>rs_buf = buf, rs_chan = [], rs_got = []\<rparr> u = Returned (rs, u) \<and>
    rs_got rs = [(d2, a1)]"
proof -
  have "handlePacket E c a d v = Returned (Some errPacketTooSmall, v)" if "length d = n" for c a d v
    using that assms(3) by (simp add: handlePacket_def decodePacket_def)
  then show ?thesis using assms by (simp add: Let_def min_def)
qed

section \<open>A sample listener\<close>

definition sampleEnv :: "(bytes \<times> bytes) list discEnv" where
  "sampleEnv =
     \<lparr>dbEnv = memNodes, rlpEncode = (\<lambda>_. Inr [192]), rlpDecode = (\<lambda>_ _. Inr (findnode [] 0)),
      signHash = (\<lambda>_. Inr (replicate 65 0)), recoverPubkey = (\<lambda>_ _. Inr (4 # sampleID 7)),
      keccak256 = toyKeccak, isOnCurve = (\<lambda>_. True), maxNeighbors = 12\<rparr>"

definition sampleAddr :: UDPAddr where
  "sampleAddr = \<lparr>ua_IP = [8, 8, 4, 4], ua_Port = 30303\<rparr>"

definition sampleUDP :: "(bytes \<times> bytes) list udp" where
  "sampleUDP =
     \<lparr>u_netrestrict = None, u_ourEndpoint = makeEndpoint sampleAddr 30303, u_db = sampleDB,
      u_table = loadSeedNodes sampleTime [] ((emptyTable (NewNode toyKeccak (sampleID 1) (ua_IP sampleAddr) 30303 30303))\<lparr>tab_nursery := []\<rparr>),
      u_plist = [], u_nextTimeout = None, u_timer = None, u_contTimeouts = 0, u_ntpWarnTime = time_Unix 0, u_driftChecks = 0,
      u_closing = False, u_nextErrc = 0, u_results = [], u_found = [], u_sent = []\<rparr>"

lemma sampleUDP_new: "newUDP sampleEnv None sampleAddr None (sampleID 1) [] sampleTime [] sampleDB = Inr sampleUDP"
  by (simp add: newUDP_def sampleUDP_def newTable_def setFallbackNodes_def sampleEnv_def sampleAddr_def Let_def)

definition sampleRequest :: "callback \<Rightarrow> pending" where
  "sampleRequest cb = \<lparr>pd_from = sampleID 7, pd_ptype = cb_type cb, pd_deadline = sampleTime + respTimeout, pd_callback = cb, pd_errc = 0\<rparr>"

lemma sample_request:
  "urun sampleEnv [URequest sampleTime sampleTime (sampleID 7) cb] sampleUDP =
    Returned (sampleUDP\<lparr>u_nextErrc := 1, u_plist := [sampleRequest cb]\<rparr>)"
  by (simp add: udp_pending_def loopTurn_def resetTimeout_def sampleUDP_def sampleRequest_def Let_def)

theorem one_answer_witness:
  "\<exists>u. urun sampleEnv [URequest sampleTime sampleTime (sampleID 7) AnyCb, UClose sampleTime sampleTime] sampleUDP = Returned u \<and>
    distinct (map fst (u_results u))"
  using one_answer[OF sampleUDP_new, of "[URequest sampleTime sampleTime (sampleID 7) AnyCb, UClose sampleTime sampleTime]"] by blast

theorem requests_end_witness:
  "\<exists>u'. urun sampleEnv [UTimer sampleTime sampleTime (sampleTime + second)] (sampleUDP\<lparr>u_nextErrc := 1, u_plist := [sampleRequest AnyCb]\<rparr>) = Returned u' \<and>
    0 \<in> fst ` set (u_results u')"
proof -
  let ?u = "sampleUDP\<lparr>u_nextErrc := 1, u_plist := [sampleRequest AnyCb]\<rparr>"
  have "\<forall>ts. length (u_plist ?u) \<le> length ts \<and> (\<forall>(t0, t1, now)\<in>set ts. \<forall>p\<in>set (u_plist ?u). pd_deadline p \<le> now) \<longrightarrow>
      (\<exists>u'. urun sampleEnv (map (\<lambda>(t0, t1, now). UTimer t0 t1 now) ts) ?u = Returned u' \<and> {..<u_nextErrc ?u} \<subseteq> fst ` set (u_results u'))"
    using requests_end[OF sampleUDP_new sample_request, where a = sampleTime] by (auto simp: sampleUDP_def)
  from this[THEN spec, of "[(sampleTime, sampleTime, sampleTime + second)]"] show ?thesis
    by (auto simp: sampleRequest_def respTimeout_def second_def)
qed

theorem success_is_earned_witness:
  "\<exists>pre t0 t1 from pkt post v p.
    [URequest sampleTime sampleTime (sampleID 7) AnyCb, UReply sampleTime sampleTime (sampleID 7) (ping 4 (u_ourEndpoint sampleUDP) (u_ourEndpoint sampleUDP) 0)] =
      pre @ UReply t0 t1 from pkt # post \<and> urun sampleEnv pre sampleUDP = Returned v \<and>
    p \<in> set (u_plist v) \<and> pd_errc p = 0 \<and> pd_from p = from \<and> accepts (pd_callback p) pkt"
proof (rule success_is_earned[OF sampleUDP_new])
  have "timeSub (sampleTime + respTimeout) sampleTime < 2 * respTimeout" by (simp add: timeSub_def respTimeout_def)
  then show "urun sampleEnv [URequest sampleTime sampleTime (sampleID 7) AnyCb, UReply sampleTime sampleTime (sampleID 7) (ping 4 (u_ourEndpoint sampleUDP) (u_ourEndpoint sampleUDP) 0)] sampleUDP =
      Returned (sampleUDP\<lparr>u_nextErrc := 1, u_plist := [], u_nextTimeout := Some 0, u_timer := Some (sampleTime + timeSub (sampleTime + respTimeout) sampleTime),
        u_contTimeouts := 0, u_results := [(0, None)], u_found := [(0, [])]\<rparr>)"
    by (simp add: udp_pending_def handleReply_def loopTurn_def resetTimeout_def sampleUDP_def answer_def Let_def)
qed simp

lemma sample_encode: "encodePacket sampleEnv ptype req =
    Inr (toyKeccak (replicate 65 0 @ ptype # [192]) @ replicate 65 0 @ ptype # [192], toyKeccak (replicate 65 0 @ ptype # [192]))"
  using encodePacket_eq[of sampleEnv req "[192]" ptype "replicate 65 0"] length_toyKeccak by (simp add: sampleEnv_def)

theorem packet_roundtrip_witness:
  "\<exists>pkt h. encodePacket sampleEnv findnodePacket (findnode [] 0) = Inr (pkt, h) \<and> decodePacket sampleEnv pkt = Inr (findnode [] 0, sampleID 7, h)"
  using packet_roundtrip[of sampleEnv "findnode [] 0" "[192]" findnodePacket "replicate 65 0" 4 "sampleID 7"] length_toyKeccak
  by (auto simp: sampleEnv_def)

lemma sample_bond: "hasBond memNodes sampleTime (sampleID 7) sampleDB"
  by code_simp

theorem findnode_answer_witness:
  "\<exists>chunks :: rpcNode list list. findnode_handle sampleEnv (\<lambda>_. sampleTime) sampleAddr (sampleID 7) [] (findnode [] (expirationAt sampleTime)) sampleUDP =
      Returned (None, sampleUDP\<lparr>u_sent := map (\<lambda>ch. (sampleAddr, toyKeccak (replicate 65 0 @ neighborsPacket # [192]) @ replicate 65 0 @ neighborsPacket # [192])) chunks\<rparr>) \<and>
    chunks \<noteq> []"
proof -
  have "\<not> expired sampleTime (expirationAt sampleTime)" by code_simp
  moreover have "hasBond (dbEnv sampleEnv) sampleTime (sampleID 7) (u_db sampleUDP)" "0 < maxNeighbors sampleEnv" "u_sent sampleUDP = []"
    using sample_bond by (simp_all add: sampleEnv_def sampleUDP_def)
  ultimately show ?thesis
    using findnode_answer[OF sample_encode, of "\<lambda>_. sampleTime" "expirationAt sampleTime" "sampleID 7" sampleUDP sampleAddr "[]" "[]"]
    by auto
qed

theorem bond_without_proof_witness:
  "\<exists>u1 u2. \<exists>chunks :: rpcNode list list. pong_handle sampleEnv (\<lambda>_. sampleTime) sampleAddr (sampleID 7) [] (pong (u_ourEndpoint sampleUDP) [1, 2, 3] (expirationAt sampleTime))
      (sampleUDP\<lparr>u_nextErrc := 1, u_plist := [sampleRequest (PongCb [4, 5, 6] None)]\<rparr>) = Returned (None, u1) \<and>
    findnode_handle sampleEnv (\<lambda>_. sampleTime) (sampleAddr\<lparr>ua_IP := [9, 9, 9, 9]\<rparr>) (sampleID 7) [] (findnode [] (expirationAt sampleTime)) u1 = Returned (None, u2) \<and>
    u_sent u2 = u_sent u1 @ map (\<lambda>ch. (sampleAddr\<lparr>ua_IP := [9, 9, 9, 9]\<rparr>, toyKeccak (replicate 65 0 @ neighborsPacket # [192]) @ replicate 65 0 @ neighborsPacket # [192])) chunks \<and>
    chunks \<noteq> []"
proof (rule bond_without_proof[where p = "sampleRequest (PongCb [4, 5, 6] None)"])
  show "udp_inv (sampleUDP\<lparr>u_nextErrc := 1, u_plist := [sampleRequest (PongCb [4, 5, 6] None)]\<rparr>)"
    by (simp add: udp_inv_def chans_def allChans_def sampleUDP_def sampleRequest_def)
  show "\<not> expired sampleTime (expirationAt sampleTime)" "\<not> expired sampleTime (expirationAt sampleTime)" by code_simp+
  show "kv_ok (dbEnv sampleEnv)" using memNodes_ok by (simp add: sampleEnv_def)
  show "encodePacket sampleEnv neighborsPacket (neighbors ns (expirationAt sampleTime)) =
      Inr (toyKeccak (replicate 65 0 @ neighborsPacket # [192]) @ replicate 65 0 @ neighborsPacket # [192], toyKeccak (replicate 65 0 @ neighborsPacket # [192]))" for ns
    by (rule sample_encode)
qed (simp_all add: sampleUDP_def sampleRequest_def sampleEnv_def memNodes_def timeSub_def respTimeout_def sampleTime_def second_def)

end
