(* ===== verification/Spec2Isabelle.thy ===== *)
theory Spec2Isabelle
  imports Pending MemDb MemStore Merkle Bitutil MathBig Accounts Feed Signer NodeSync NodeApi MainRoot MainChain
    TableIps Sha3 Server Udp
begin

text \<open>
  A verification library for the babyboy node, a ledger whose units form a directed acyclic graph.  A unit
  names its parents, its author and messages with inputs and outputs; a main chain along the best
  parents orders the units, and a unit below a majority of witnesses becomes stable, at which moment its
  inputs are spent and its outputs and commissions are paid.

  \<^bold>\<open>Parts of the program and the theories that model them.\<close>  All paths are under \<^verbatim>\<open>src/\<close>.

  \<^item> \<open>Prelude\<close>: machine types (\<^verbatim>\<open>byte\<close>, \<^verbatim>\<open>int64\<close> as words), outcomes of loops, shared list lemmas.
  \<^item> \<open>Queue\<close>: \<^verbatim>\<open>common/queue\<close>, a ring of blocks.  The blocks live in an explicit store, as \<^verbatim>\<open>head\<close> and \<^verbatim>\<open>tail\<close>
    alias them.  The locale \<open>fifo\<close> is the interface the graph searches and the node use.
  \<^item> \<open>Hex\<close>, \<open>MathBig\<close>, \<open>Json\<close>: \<^verbatim>\<open>common/bytes.go\<close>, \<^verbatim>\<open>common/types.go\<close>, \<^verbatim>\<open>common/hexutil\<close>, \<^verbatim>\<open>common/math\<close> and the
    part of \<^verbatim>\<open>encoding/hex\<close>, \<^verbatim>\<open>encoding/json\<close>, \<^verbatim>\<open>strconv\<close> and \<^verbatim>\<open>math/big\<close> they use.
  \<^item> \<open>Bitutil\<close>: \<^verbatim>\<open>common/bitutil\<close>; the locale \<open>bytewise\<close> relates word-wise and byte-wise loops.
  \<^item> \<open>Merkle\<close>: \<^verbatim>\<open>common/merkletree.go\<close>; nodes are indices into a store, because they point to each other.
  \<^item> \<open>CoreTypes\<close>: the records of \<^verbatim>\<open>core/types\<close>, their constructors, JSON forms and hashes.
  \<^item> \<open>GraphOps\<close>: \<^verbatim>\<open>common/graphop\<close> and \<^verbatim>\<open>common/set\<close>.  A Go map is an association list; its iteration order is
    an argument, any permutation.
  \<^item> \<open>LevelDb\<close>, \<open>Pools\<close>, \<open>MemStore\<close>: \<^verbatim>\<open>leveldb/\<close>, the tables by key prefix, and the two pools of unspent outputs
    as instances of the locale \<open>utxo_pool\<close>.
  \<^item> \<open>MemDb\<close>: \<^verbatim>\<open>dag/memdb\<close>, the tips and the witnesses in memory and in the database.
  \<^item> \<open>GraphInfo\<close>: \<^verbatim>\<open>dag/graph_info.go\<close>, best parent, levels, last stable ball, missing units.  \<open>MainChain\<close>:
    \<^verbatim>\<open>dag/main_chain.go\<close> and \<^verbatim>\<open>dag/witness_replace.go\<close>.
  \<^item> \<open>TxValid\<close>, \<open>Stable\<close>, \<open>Pending\<close>, \<open>MainRoot\<close>: \<^verbatim>\<open>transaction/\<close>, the checks of a unit, the handling of stable and of
    pending units, backtracking, and the Merkle tree over the stable units.
  \<^item> \<open>Accounts\<close>: \<^verbatim>\<open>account/\<close>, the cache of wallets.  \<open>Feed\<close>: \<^verbatim>\<open>event/feed.go\<close>.  \<open>Signer\<close>: \<^verbatim>\<open>core/signer.go\<close>.
  \<^item> \<open>NodeSync\<close>, \<open>NodeApi\<close>: \<^verbatim>\<open>node/node.go\<close>, the synchronisation between nodes and what users call.
  \<^item> \<open>NetUtil\<close>: \<^verbatim>\<open>p2p/netutil/net.go\<close>; the locale \<open>limited_set\<close> is what the node table relies on.  \<open>Discover\<close>, \<open>TableInv\<close>,
    \<open>TableIps\<close>, \<open>TableLookup\<close>: \<^verbatim>\<open>p2p/discover/table.go\<close> and \<^verbatim>\<open>node.go\<close>, the table of known nodes, its invariant, the limits
    on addresses and the queries.  A table is changed by one operation at a time, as its mutex has it.

  \<^item> \<open>Peer\<close>: \<^verbatim>\<open>p2p/peer.go\<close>, \<^verbatim>\<open>protocol.go\<close>, \<^verbatim>\<open>peer_error.go\<close>.  \<open>GoHeap\<close>, \<open>Dial\<close>: \<^verbatim>\<open>container/heap\<close> and \<^verbatim>\<open>p2p/dial.go\<close>; the locale
    \<open>dial_history\<close> is what the dialer relies on.  \<open>Server\<close>: the loop of \<^verbatim>\<open>p2p/server.go\<close>.
  \<^item> \<open>NodeDb\<close>, \<open>Udp\<close>: \<^verbatim>\<open>p2p/discover/database.go\<close> and \<^verbatim>\<open>udp.go\<close>, the database of nodes and the discovery protocol.  The loop of
    pending replies is a machine with one event per turn, a callback is a value with the variables it captures, and the
    handlers of the packets are shown to be runs of that machine.
  \<^item> \<open>Keccak\<close>, \<open>Sha3\<close>: \<^verbatim>\<open>crypto/sha3\<close> and the Keccak functions of \<^verbatim>\<open>crypto/crypto.go\<close>.

  \<^bold>\<open>State and effects.\<close>  Operations pass their state explicitly: the database is a value of an arbitrary type
  \<open>'s\<close>, the memory views, the node, the feed and the account manager are records.  Goroutines are steps of an
  inductive relation (\<open>feed_step\<close>, \<open>node_step\<close>, \<open>update\<close>, \<open>server_step\<close>), one step per critical section or round of a loop.
  Errors are values; an index out of range, a nil pointer and an explicit panic are the outcome \<^const>\<open>Panicked\<close>.

  \<^bold>\<open>What is assumed.\<close>  Code outside \<^verbatim>\<open>src/\<close> is an argument.  The record \<open>env\<close> has the operations of goleveldb, the hash
  functions and the constants of \<^verbatim>\<open>config\<close>; \<open>env_ok\<close> states the documented behaviour of goleveldb and that the key
  prefixes tell the tables apart, and \<open>mem_env\<close> satisfies it.  \<open>collision_free\<close> excludes hash collisions on a given set of
  outputs.  Key recovery, signing, \<^verbatim>\<open>ReviewUnit\<close>, \<^verbatim>\<open>HandlerNewUnit\<close>, \<^verbatim>\<open>SaveNewTip\<close> and the protocol manager are arguments of
  \<open>Signer\<close>, \<open>NodeSync\<close> and \<open>NodeApi\<close>.  The records \<open>nodeEnv\<close> and \<open>discEnv\<close> have the store, RLP and the signatures that discovery uses;
  \<open>kv_ok\<close> is the documented behaviour of the store, and \<open>memNodes\<close> satisfies it.

  \<^bold>\<open>What the lemmas show.\<close>
  \<^item> Value: accepted units spend existing outputs once, a batch of balanced units conserves the pool, the pool
    starts with ten million per witness, and a balance is the worth of the outputs an address holds.
  \<^item> Graph: the tips are the units without children and survive a restart; the best parent does not depend
    on the order of the tips; the searches end and find exactly the missing units.
  \<^item> Data: texts, numbers, compressed bytes, signed and stored units are read back as they were written.
  \<^item> Refinement: the ring of blocks is a list, the word-wise loops are byte-wise maps, the tree of nodes is the
    recursive root, the cache of wallets is a sorted multiset, the hash functions are the sponges of the standard.
  \<^item> Network: the node table is well formed after every run, respects the limits per network as long as nodes keep
    their addresses, and a lookup ends with the closest nodes; two peers agree on message codes; the server keeps its
    limits and dials no node twice at a time or within thirty seconds, in every interleaving of its events; the discovery
    listener answers every request once, reports success only for a genuine reply, and forgets exactly the nodes that are due.
  \<^item> Concurrency: a send reaches every subscriber once; the queues of a node lose and repeat nothing.
  \<^item> Defects: several theorems pin down where the code does not do what it means to, such as a rejected unit
    that burns an input, checks that skip inputs, sums that wrap, or a request that blocks the node.

  \<^bold>\<open>Fuel.\<close>  A loop that follows pointers of the database takes fuel and returns \<^const>\<open>OutOfFuel\<close> when it is used up.  For
  each such loop a theorem either gives the fuel that is enough (the length of the list, the number of nodes,
  the number of units in the database) or shows that no fuel is.

  \<^bold>\<open>Not modelled.\<close>  The encrypted transport and the signed node records rest on RLP and snappy, which are not under \<^verbatim>\<open>src/\<close>;
  \<^verbatim>\<open>p2p/discv5\<close> and \<^verbatim>\<open>p2p/simulations\<close> are not used by the node.  \<^verbatim>\<open>UpdateMainChain\<close>, \<^verbatim>\<open>ExtendStableUnit\<close> and \<^verbatim>\<open>CreateTx\<close> call functions or read fields that the
  sources do not define.  The elliptic curves of \<^verbatim>\<open>crypto/\<close> and \<^verbatim>\<open>log/\<close> are third-party code, and the assembly form of Keccak is not Go; \<^verbatim>\<open>witness_node/\<close> is a copy of \<^verbatim>\<open>common/\<close>; \<^verbatim>\<open>babyboy/\<close>,
  \<^verbatim>\<open>mobile/\<close>, the RPC descriptors and the configuration of the node are glue.
\<close>

section \<open>Units in the database\<close>



end
